(* ===== verification/Muduo_Prelude.thy ===== *)
theory Muduo_Prelude
  imports Main "HOL-Library.Word"
begin

text \<open>
  Shared vocabulary of the development: the ways a C++ operation can go wrong as a
  \<open>fault\<close> datatype and results as sums, \<open>size_t\<close> arithmetic with its wrap-around
  written out, \<open>std::vector\<close> and \<open>std::copy\<close> on lists of bytes, and the generic list
  lemmas the component theories use. Bytes are the library type \<^typ>\<open>char\<close> (a C++
  \<^verbatim>\<open>char\<close> cell of 8 bits).
\<close>

named_theorems buffer_simps \<open>facts about the Buffer operations on well-formed buffers\<close>
named_theorems conn_simps \<open>facts about the TcpConnection handlers\<close>

section \<open>Faults and results\<close>

text \<open>
  \<open>AssertFailed\<close>: an \<^verbatim>\<open>assert\<close> of the source does not hold. \<open>OutOfRange\<close>: an access
  outside the storage of an object. \<open>LengthError\<close>: \<^verbatim>\<open>std::length_error\<close> from a vector.
  \<open>NullDeref\<close>: a null pointer or an empty \<^verbatim>\<open>std::function\<close> is used. \<open>Exited\<close>: the process
  ends through a fatal log statement. \<open>Blocked\<close>: the call does not return now, it waits on a
  condition variable.
\<close>

datatype fault = AssertFailed | OutOfRange | LengthError | NullDeref | Exited | Blocked

type_synonym 'a res = "fault + 'a"

definition rbind :: "'a res \<Rightarrow> ('a \<Rightarrow> 'b res) \<Rightarrow> 'b res" where
  "rbind r k = (case r of Inl e \<Rightarrow> Inl e | Inr x \<Rightarrow> k x)"

definition c_assert :: "bool \<Rightarrow> 'a res \<Rightarrow> 'a res" where
  "c_assert p k = (if p then k else Inl AssertFailed)"

lemma rbind_simps [simp]:
  "rbind (Inl e) k = Inl e"
  "rbind (Inr x) k = k x"
  by (simp_all add: rbind_def)

lemma rbind_eq_Inr: "rbind r k = Inr y \<longleftrightarrow> (\<exists>x. r = Inr x \<and> k x = Inr y)"
  by (cases r) auto

lemma c_assert_simps [simp]:
  "p \<Longrightarrow> c_assert p k = k"
  "\<not> p \<Longrightarrow> c_assert p k = Inl AssertFailed"
  by (simp_all add: c_assert_def)

lemma c_assert_eq_Inr: "c_assert p k = Inr y \<longleftrightarrow> p \<and> k = Inr y"
  by (simp add: c_assert_def)

lemmas res_elims = rbind_eq_Inr c_assert_eq_Inr

text \<open>Postconditions of results: what holds of the value when there is one.\<close>

definition ensures :: "'a res \<Rightarrow> ('a \<Rightarrow> bool) \<Rightarrow> bool" where
  "ensures r P \<longleftrightarrow> (\<forall>x. r = Inr x \<longrightarrow> P x)"

lemma ensures_simps [simp]:
  "ensures (Inl e) P" "ensures (Inr x) P \<longleftrightarrow> P x" "ensures (c_assert b k) P \<longleftrightarrow> (b \<longrightarrow> ensures k P)"
  "ensures r (\<lambda>_. True)"
  by (auto simp: ensures_def c_assert_def)

lemma ensures_rbind: "ensures r Q \<Longrightarrow> (\<And>x. Q x \<Longrightarrow> ensures (k x) P) \<Longrightarrow> ensures (rbind r k) P"
  by (cases r) (auto simp: ensures_def)

lemma ensures_rbind_any: "(\<And>x. ensures (k x) P) \<Longrightarrow> ensures (rbind r k) P"
  by (cases r) (auto simp: ensures_def)

lemma ensuresD: "ensures r P \<Longrightarrow> r = Inr x \<Longrightarrow> P x"
  by (simp add: ensures_def)

lemma ensuresI: "(\<And>x. r = Inr x \<Longrightarrow> P x) \<Longrightarrow> ensures r P"
  by (simp add: ensures_def)

text \<open>The values of \<^verbatim>\<open>errno\<close> the sources tell apart.\<close>

datatype errno = NoError | EWOULDBLOCK | EPIPE | ECONNRESET | EINTR | EMFILE | ECONNABORTED | EPROTO | EPERM
  | EBADF | EFAULT | EINVAL | ENFILE | ENOBUFS | ENOMEM | ENOTSOCK | EOPNOTSUPP | EINPROGRESS | EISCONN
  | EADDRINUSE | EADDRNOTAVAIL | ECONNREFUSED | ENETUNREACH | EACCES | EAFNOSUPPORT | EALREADY | OtherErrno int

section \<open>Arithmetic on \<open>size_t\<close>\<close>

text \<open>
  A \<^verbatim>\<open>size_t\<close> is a natural number below \<open>2 ^ 64\<close>; addition and subtraction wrap. The
  storage of a vector never exceeds \<open>2 ^ 63 - 1\<close> bytes (\<^verbatim>\<open>std::vector<char>::max_size\<close>, which is
  also the largest object a pointer difference can span).
\<close>

definition size_add :: "nat \<Rightarrow> nat \<Rightarrow> nat" where
  "size_add a b = (a + b) mod 2 ^ 64"

definition size_sub :: "nat \<Rightarrow> nat \<Rightarrow> nat" where
  "size_sub a b = nat ((int a - int b) mod 2 ^ 64)"

definition vec_max :: nat where
  "vec_max = 2 ^ 63 - 1"

lemma size_add_small [simp]: "a + b < 2 ^ 64 \<Longrightarrow> size_add a b = a + b"
  by (simp add: size_add_def)

lemma size_sub_le [simp]: "b \<le> a \<Longrightarrow> a < 2 ^ 64 \<Longrightarrow> size_sub a b = a - b"
  by (simp add: size_sub_def nat_diff_distrib' flip: of_nat_diff)

lemma size_sub_wraps: "size_sub 0 1 = 2 ^ 64 - 1"
  by (simp add: size_sub_def)

lemma vec_max_less [simp]: "n \<le> vec_max \<Longrightarrow> n < 2 ^ 64"
  by (simp add: vec_max_def)

lemma size_add_vec [simp]: "a + b \<le> vec_max \<Longrightarrow> size_add a b = a + b"
  by (simp add: vec_max_def)

section \<open>Vectors and memory copies\<close>

definition vec_resize :: "nat \<Rightarrow> char list \<Rightarrow> char list res" where
  "vec_resize n xs =
     (if vec_max < n then Inl LengthError
      else Inr (take n xs @ replicate (n - length xs) (CHR 0x00)))"

definition mem_read :: "char list \<Rightarrow> nat \<Rightarrow> nat \<Rightarrow> char list res" where
  "mem_read xs pos n = (if pos + n \<le> length xs then Inr (take n (drop pos xs)) else Inl OutOfRange)"

definition mem_write :: "char list \<Rightarrow> nat \<Rightarrow> char list \<Rightarrow> char list res" where
  "mem_write xs pos ys =
     (if pos + length ys \<le> length xs
      then Inr (take pos xs @ ys @ drop (pos + length ys) xs) else Inl OutOfRange)"

lemma length_mem_write: "mem_write xs pos ys = Inr zs \<Longrightarrow> length zs = length xs"
  by (auto simp: mem_write_def split: if_splits)

lemma slice_grow: "r \<le> w \<Longrightarrow> w \<le> length xs \<Longrightarrow>
  take (w - r) (drop r (take w xs @ ys)) = take (w - r) (drop r xs)"
  by (simp add: drop_take)

lemma slice_append:
  "r \<le> w \<Longrightarrow> w \<le> length xs \<Longrightarrow>
   take (w + length ys - r) (drop r (take w xs @ ys @ zs)) = take (w - r) (drop r xs) @ ys"
  by (simp add: drop_take)

section \<open>Searching bytes\<close>

text \<open>The first position at which a predicate holds, as \<^verbatim>\<open>std::find\<close> and \<^verbatim>\<open>memchr\<close> compute it.\<close>

fun find_index :: "('a \<Rightarrow> bool) \<Rightarrow> 'a list \<Rightarrow> nat option" where
  "find_index p [] = None"
| "find_index p (x # xs) = (if p x then Some 0 else map_option Suc (find_index p xs))"

lemma find_index_None: "find_index p xs = None \<longleftrightarrow> (\<forall>x \<in> set xs. \<not> p x)"
  by (induction xs) auto

lemma find_index_Some:
  "find_index p xs = Some i \<longleftrightarrow> i < length xs \<and> p (xs ! i) \<and> (\<forall>j < i. \<not> p (xs ! j))"
proof (induction xs arbitrary: i)
  case Nil
  then show ?case by simp
next
  case (Cons x xs)
  show ?case
  proof (cases i)
    case 0
    then show ?thesis by auto
  next
    case (Suc k)
    then show ?thesis by (auto simp: Cons.IH less_Suc_eq_0_disj)
  qed
qed

lemma find_index_append:
  "\<forall>x \<in> set xs. \<not> p x \<Longrightarrow> find_index p (xs @ y # ys) = (if p y then Some (length xs)
     else map_option (\<lambda>i. Suc (i + length xs)) (find_index p ys))"
  by (induction xs) (auto simp: option.map_comp comp_def)

text \<open>The first occurrence of a two-byte pattern, as \<^verbatim>\<open>std::search\<close> computes it.\<close>

fun search2 :: "'a \<Rightarrow> 'a \<Rightarrow> 'a list \<Rightarrow> nat option" where
  "search2 a b (x # y # zs) =
     (if x = a \<and> y = b then Some 0 else map_option Suc (search2 a b (y # zs)))"
| "search2 a b _ = None"

lemma search2_bound: "search2 a b xs = Some i \<Longrightarrow> i + 2 \<le> length xs"
  by (induction a b xs arbitrary: i rule: search2.induct) (auto split: if_splits)

lemma search2_hit: "search2 a b xs = Some i \<Longrightarrow> xs ! i = a \<and> xs ! Suc i = b"
  by (induction a b xs arbitrary: i rule: search2.induct) (auto split: if_splits)

lemma search2_first: "a \<notin> set xs \<Longrightarrow> search2 a b (xs @ a # b # ys) = Some (length xs)"
proof (induction xs)
  case Nil
  then show ?case by simp
next
  case (Cons x xs)
  then show ?case by (cases xs) auto
qed

lemma search2_None_if_absent: "a \<notin> set xs \<Longrightarrow> search2 a b xs = None"
  by (induction a b xs rule: search2.induct) auto

end
