(* ===== verification/Byte_Order.thy ===== *)
theory Byte_Order
  imports Muduo_Prelude
begin

text \<open>
  Network byte order (\<^verbatim>\<open>muduo/net/Endian.h\<close>). \<open>le_bytes n v\<close> is the memory image of an
  \<open>n\<close>-byte integer on the little-endian hosts muduo runs on (what \<^verbatim>\<open>memcpy\<close> from the integer
  reads), \<open>le_val\<close> the integer such an image denotes. \<^verbatim>\<open>htobe32\<close> and its kin are byte swaps there.
  The shared facts: the two directions are inverse, a swap is an involution, and the image of a
  swapped integer is the big-endian one.
\<close>

section \<open>Memory images of integers\<close>

fun le_bytes :: "nat \<Rightarrow> nat \<Rightarrow> char list" where
  "le_bytes 0 v = []"
| "le_bytes (Suc n) v = char_of v # le_bytes n (v div 256)"

fun le_val :: "char list \<Rightarrow> nat" where
  "le_val [] = 0"
| "le_val (c # cs) = of_char c + 256 * le_val cs"

definition be_bytes :: "nat \<Rightarrow> nat \<Rightarrow> char list" where
  "be_bytes n v = rev (le_bytes n v)"

definition be_val :: "char list \<Rightarrow> nat" where
  "be_val cs = le_val (rev cs)"

lemma of_char_less_256: "(of_char c :: nat) < 256"
  by (metis mod_less_divisor of_char_mod_256 zero_less_numeral)

lemma length_le_bytes [simp]: "length (le_bytes n v) = n"
  by (induction n arbitrary: v) auto

lemma length_be_bytes [simp]: "length (be_bytes n v) = n"
  by (simp add: be_bytes_def)

lemma le_val_bytes: "le_val (le_bytes n v) = v mod 256 ^ n"
proof (induction n arbitrary: v)
  case 0
  then show ?case by simp
next
  case (Suc n)
  have "v mod 256 + 256 * (v div 256 mod 256 ^ n) = v mod (256 * 256 ^ n)"
    by (simp add: mod_mult2_eq)
  then show ?case by (simp add: Suc.IH)
qed

lemma le_val_less: "le_val cs < 256 ^ length cs"
proof (induction cs)
  case Nil
  then show ?case by simp
next
  case (Cons c cs)
  have "of_char c + 256 * le_val cs < 256 * Suc (le_val cs)"
    using of_char_less_256 [of c] by simp
  also from Cons.IH have "\<dots> \<le> 256 * 256 ^ length cs"
    by (intro mult_le_mono2) simp
  finally show ?case by simp
qed

lemma le_bytes_val: "le_bytes (length cs) (le_val cs) = cs"
proof (induction cs)
  case Nil
  then show ?case by simp
next
  case (Cons c cs)
  have "(of_char c :: nat) < 256"
    by (rule of_char_less_256)
  then have "char_of (of_char c + 256 * le_val cs) = c"
    and "(of_char c + 256 * le_val cs) div 256 = le_val cs"
    by (auto intro: of_char_eqI [where ?'a = nat])
  with Cons.IH show ?case by simp
qed

lemma be_val_bytes: "v < 256 ^ n \<Longrightarrow> be_val (be_bytes n v) = v"
  by (simp add: be_val_def be_bytes_def le_val_bytes)

section \<open>Endian.h\<close>

text \<open>\<open>bswap n v\<close> reverses the image of an \<open>n\<close>-byte integer (\<^verbatim>\<open>htobe16/32/64\<close>, \<^verbatim>\<open>be16/32/64toh\<close>).\<close>

definition bswap :: "nat \<Rightarrow> nat \<Rightarrow> nat" where
  "bswap n v = le_val (rev (le_bytes n v))"

definition hostToNetwork64 :: "64 word \<Rightarrow> 64 word" where
  "hostToNetwork64 host64 = of_nat (bswap 8 (unat host64))"

definition hostToNetwork32 :: "32 word \<Rightarrow> 32 word" where
  "hostToNetwork32 host32 = of_nat (bswap 4 (unat host32))"

definition hostToNetwork16 :: "16 word \<Rightarrow> 16 word" where
  "hostToNetwork16 host16 = of_nat (bswap 2 (unat host16))"

definition networkToHost64 :: "64 word \<Rightarrow> 64 word" where
  "networkToHost64 net64 = of_nat (bswap 8 (unat net64))"

definition networkToHost32 :: "32 word \<Rightarrow> 32 word" where
  "networkToHost32 net32 = of_nat (bswap 4 (unat net32))"

definition networkToHost16 :: "16 word \<Rightarrow> 16 word" where
  "networkToHost16 net16 = of_nat (bswap 2 (unat net16))"

text \<open>The memory image of a word of \<open>n\<close> bytes, and the word an image denotes.\<close>

definition word_image :: "nat \<Rightarrow> 'a::len word \<Rightarrow> char list" where
  "word_image n w = le_bytes n (unat w)"

definition image_word :: "char list \<Rightarrow> 'a::len word" where
  "image_word cs = of_nat (le_val cs)"

lemma bswap_less: "bswap n v < 256 ^ n"
  using le_val_less [of "rev (le_bytes n v)"] by (simp add: bswap_def)

lemma bswap_image: "le_bytes n (bswap n v) = be_bytes n v"
  using le_bytes_val [of "rev (le_bytes n v)"] by (simp add: bswap_def be_bytes_def)

lemma bswap_bswap: "v < 256 ^ n \<Longrightarrow> bswap n (bswap n v) = v"
proof -
  assume v: "v < 256 ^ n"
  have "bswap n (bswap n v) = le_val (rev (be_bytes n v))"
    by (simp add: bswap_def [of n "bswap n v"] bswap_image)
  with v show ?thesis by (simp add: be_bytes_def le_val_bytes)
qed

lemma length_word_image [simp]: "length (word_image n w) = n"
  by (simp add: word_image_def)

text \<open>One lemma for the three widths: an image of \<open>n\<close> bytes of a word of \<open>8 n\<close> bits is exact.\<close>

lemma unat_of_nat_bswap:
  assumes "LENGTH('a) = 8 * n"
  shows "unat (of_nat (bswap n v) :: 'a::len word) = bswap n v"
  using bswap_less [of n v] assms
  by (simp add: unat_of_nat power_mult)

lemma unat_less_256:
  assumes "LENGTH('a) = 8 * n"
  shows "unat (w :: 'a::len word) < 256 ^ n"
  using unsigned_less [of w, where ?'a = nat] assms by (simp add: power_mult)

lemma image_word_image:
  assumes "LENGTH('a) = 8 * n"
  shows "image_word (word_image n (w :: 'a::len word)) = w"
  using unat_less_256 [OF assms, of w] by (simp add: image_word_def word_image_def le_val_bytes)

lemma hostToNetwork_image:
  "word_image 8 (hostToNetwork64 x8) = be_bytes 8 (unat x8)"
  "word_image 4 (hostToNetwork32 x4) = be_bytes 4 (unat x4)"
  "word_image 2 (hostToNetwork16 x2) = be_bytes 2 (unat x2)"
  by (simp_all add: word_image_def hostToNetwork64_def hostToNetwork32_def hostToNetwork16_def
      unat_of_nat_bswap bswap_image)

lemma networkToHost_hostToNetwork [simp]:
  "networkToHost64 (hostToNetwork64 x8) = x8"
  "networkToHost32 (hostToNetwork32 x4) = x4"
  "networkToHost16 (hostToNetwork16 x2) = x2"
  using unat_less_256 [of 8 x8] unat_less_256 [of 4 x4] unat_less_256 [of 2 x2]
  by (simp_all add: hostToNetwork64_def hostToNetwork32_def hostToNetwork16_def
      networkToHost64_def networkToHost32_def networkToHost16_def unat_of_nat_bswap bswap_bswap)

lemma networkToHost_image:
  "networkToHost64 (image_word (be_bytes 8 (unat x8))) = x8"
  "networkToHost32 (image_word (be_bytes 4 (unat x4))) = x4"
  "networkToHost16 (image_word (be_bytes 2 (unat x2))) = x2"
  by (simp_all flip: hostToNetwork_image add: image_word_image)

end
