(* ===== verification/Byte_Queue.thy ===== *)
theory Byte_Queue
  imports Muduo_Prelude
begin

text \<open>
  The contract both buffer classes of the repository offer their clients, as a locale: bytes go
  in at the back with \<open>append\<close> and leave at the front with \<open>retrieve\<close>, nothing is lost,
  duplicated or reordered. \<open>content\<close> is the abstraction (the readable bytes), \<open>cap\<close> the
  size of the storage, which bounds what can still be appended without \<^verbatim>\<open>std::length_error\<close>.
  The client lemmas are about whole sequences of operations.
\<close>

datatype queue_op = Append "char list" | Retrieve nat

fun run_queue :: "('b \<Rightarrow> char list \<Rightarrow> 'b res) \<Rightarrow> ('b \<Rightarrow> nat \<Rightarrow> 'b res) \<Rightarrow> 'b \<Rightarrow> queue_op list \<Rightarrow> 'b res" where
  "run_queue app ret b [] = Inr b"
| "run_queue app ret b (Append d # ops) = rbind (app b d) (\<lambda>b'. run_queue app ret b' ops)"
| "run_queue app ret b (Retrieve n # ops) = rbind (ret b n) (\<lambda>b'. run_queue app ret b' ops)"

text \<open>The specification of a run on the abstract byte sequence; \<open>None\<close> when it reads too much.\<close>

fun spec_queue :: "char list \<Rightarrow> queue_op list \<Rightarrow> char list option" where
  "spec_queue c [] = Some c"
| "spec_queue c (Append d # ops) = spec_queue (c @ d) ops"
| "spec_queue c (Retrieve n # ops) = (if n \<le> length c then spec_queue (drop n c) ops else None)"

fun appended :: "queue_op list \<Rightarrow> char list" where
  "appended [] = []"
| "appended (Append d # ops) = d @ appended ops"
| "appended (Retrieve n # ops) = appended ops"

fun retrieved :: "queue_op list \<Rightarrow> nat" where
  "retrieved [] = 0"
| "retrieved (Append d # ops) = retrieved ops"
| "retrieved (Retrieve n # ops) = n + retrieved ops"

lemma spec_queue_conserves:
  "spec_queue c ops = Some c' \<Longrightarrow>
     retrieved ops \<le> length (c @ appended ops) \<and> c' = drop (retrieved ops) (c @ appended ops)"
proof (induction c ops arbitrary: c' rule: spec_queue.induct)
  case (3 c n ops)
  then show ?case by (auto simp: add.commute split: if_splits)
qed auto

locale byte_queue =
  fixes ok :: "'b \<Rightarrow> bool"
    and content :: "'b \<Rightarrow> char list"
    and cap :: "'b \<Rightarrow> nat"
    and append :: "'b \<Rightarrow> char list \<Rightarrow> 'b res"
    and retrieve :: "'b \<Rightarrow> nat \<Rightarrow> 'b res"
  assumes append_ok:
    "ok b \<Longrightarrow> cap b + length d \<le> vec_max \<Longrightarrow>
       \<exists>b'. append b d = Inr b' \<and> ok b' \<and> content b' = content b @ d \<and> cap b' \<le> cap b + length d"
    and retrieve_ok:
    "ok b \<Longrightarrow> n \<le> length (content b) \<Longrightarrow>
       \<exists>b'. retrieve b n = Inr b' \<and> ok b' \<and> content b' = drop n (content b) \<and> cap b' = cap b"
begin

lemma run_refines:
  assumes "ok b" and "cap b + length (appended ops) \<le> vec_max"
    and "spec_queue (content b) ops = Some c"
  shows "\<exists>b'. run_queue append retrieve b ops = Inr b' \<and> ok b' \<and> content b' = c"
  using assms
proof (induction ops arbitrary: b)
  case Nil
  then show ?case by simp
next
  case (Cons op ops)
  show ?case
  proof (cases op)
    case (Append d)
    with Cons.prems append_ok [of b d] obtain b1 where b1: "append b d = Inr b1" "ok b1"
      "content b1 = content b @ d" "cap b1 \<le> cap b + length d"
      by auto
    with Append Cons.prems show ?thesis
      using Cons.IH [of b1] by simp
  next
    case (Retrieve n)
    with Cons.prems retrieve_ok [of b n] obtain b1 where b1: "retrieve b n = Inr b1" "ok b1"
      "content b1 = drop n (content b)" "cap b1 = cap b"
      by (auto split: if_splits)
    with Retrieve Cons.prems show ?thesis
      using Cons.IH [of b1] by (simp split: if_splits)
  qed
qed

text \<open>What leaves the queue followed by what stays is what was there followed by what came in.\<close>

lemma run_conserves:
  assumes "ok b" and "cap b + length (appended ops) \<le> vec_max"
    and "spec_queue (content b) ops \<noteq> None"
  shows "\<exists>b'. run_queue append retrieve b ops = Inr b' \<and> ok b' \<and>
    take (retrieved ops) (content b @ appended ops) @ content b' = content b @ appended ops"
proof -
  from assms(3) obtain c where c: "spec_queue (content b) ops = Some c" by blast
  from run_refines [OF assms(1,2) c] spec_queue_conserves [OF c] show ?thesis
    by (metis append_take_drop_id)
qed

end

end
