(* ===== verification/Net_Buffer.thy ===== *)
theory Net_Buffer
  imports Byte_Order Byte_Queue
begin

text \<open>
  \<^verbatim>\<open>muduo::net::Buffer\<close> (\<^verbatim>\<open>muduo-master/muduo/net/Buffer.h\<close>, \<^verbatim>\<open>Buffer.cc\<close>). The record holds the
  three fields of the class. A \<^verbatim>\<open>const char*\<close> into the buffer is an offset into the storage,
  \<^verbatim>\<open>NULL\<close> is \<open>None\<close>. Every \<^verbatim>\<open>assert\<close> and every copy is checked, so that a theorem that an
  operation returns \<open>Inr\<close> says that no assertion fails and no byte outside the storage is touched.
  \<open>Buffer_wf\<close> is the class invariant drawn in the header comment of the source.
\<close>

section \<open>State and observers\<close>

record net_buffer =
  buffer :: "char list"
  readerIndex :: nat
  writerIndex :: nat

definition kCheapPrepend :: nat where
  "kCheapPrepend = 8"

definition kInitialSize :: nat where
  "kInitialSize = 1024"

definition Buffer_readableBytes :: "net_buffer \<Rightarrow> nat" where
  "Buffer_readableBytes b = size_sub (writerIndex b) (readerIndex b)"

definition Buffer_writableBytes :: "net_buffer \<Rightarrow> nat" where
  "Buffer_writableBytes b = size_sub (length (buffer b)) (writerIndex b)"

definition Buffer_prependableBytes :: "net_buffer \<Rightarrow> nat" where
  "Buffer_prependableBytes b = readerIndex b"

definition Buffer_peek :: "net_buffer \<Rightarrow> nat" where
  "Buffer_peek b = readerIndex b"

definition Buffer_beginWrite :: "net_buffer \<Rightarrow> nat" where
  "Buffer_beginWrite b = writerIndex b"

definition Buffer_new :: "nat \<Rightarrow> net_buffer res" where
  "Buffer_new initialSize =
     rbind (vec_resize (size_add kCheapPrepend initialSize) []) (\<lambda>st.
       let b = \<lparr>buffer = st, readerIndex = kCheapPrepend, writerIndex = kCheapPrepend\<rparr> in
       c_assert (Buffer_readableBytes b = 0)
         (c_assert (Buffer_writableBytes b = initialSize)
           (c_assert (Buffer_prependableBytes b = kCheapPrepend) (Inr b))))"

definition Buffer_swap :: "net_buffer \<Rightarrow> net_buffer \<Rightarrow> net_buffer \<times> net_buffer" where
  "Buffer_swap b rhs =
     (b\<lparr>buffer := buffer rhs, readerIndex := readerIndex rhs, writerIndex := writerIndex rhs\<rparr>,
      rhs\<lparr>buffer := buffer b, readerIndex := readerIndex b, writerIndex := writerIndex b\<rparr>)"

text \<open>The bytes between two offsets, as a pair of pointers delimits them.\<close>

definition range_of :: "net_buffer \<Rightarrow> nat \<Rightarrow> nat \<Rightarrow> char list" where
  "range_of b first stop = take (stop - first) (drop first (buffer b))"

definition Buffer_content :: "net_buffer \<Rightarrow> char list" where
  "Buffer_content b = range_of b (readerIndex b) (writerIndex b)"

section \<open>Searching\<close>

definition std_search_crlf :: "net_buffer \<Rightarrow> nat \<Rightarrow> nat \<Rightarrow> nat" where
  "std_search_crlf b first stop =
     (case search2 (CHR 0x0D) (CHR 0x0A) (range_of b first stop) of
        None \<Rightarrow> stop | Some i \<Rightarrow> first + i)"

definition Buffer_findCRLF :: "net_buffer \<Rightarrow> nat option" where
  "Buffer_findCRLF b =
     (let crlf = std_search_crlf b (Buffer_peek b) (Buffer_beginWrite b)
      in if crlf = Buffer_beginWrite b then None else Some crlf)"

definition Buffer_findCRLF_from :: "net_buffer \<Rightarrow> nat \<Rightarrow> nat option res" where
  "Buffer_findCRLF_from b start =
     c_assert (Buffer_peek b \<le> start) (c_assert (start \<le> Buffer_beginWrite b)
       (let crlf = std_search_crlf b start (Buffer_beginWrite b)
        in Inr (if crlf = Buffer_beginWrite b then None else Some crlf)))"

definition memchr_eol :: "net_buffer \<Rightarrow> nat \<Rightarrow> nat \<Rightarrow> nat option" where
  "memchr_eol b start n =
     map_option (\<lambda>i. start + i) (find_index (\<lambda>c. c = CHR 0x0A) (take n (drop start (buffer b))))"

definition Buffer_findEOL :: "net_buffer \<Rightarrow> nat option" where
  "Buffer_findEOL b = memchr_eol b (Buffer_peek b) (Buffer_readableBytes b)"

definition Buffer_findEOL_from :: "net_buffer \<Rightarrow> nat \<Rightarrow> nat option res" where
  "Buffer_findEOL_from b start =
     c_assert (Buffer_peek b \<le> start) (c_assert (start \<le> Buffer_beginWrite b)
       (Inr (memchr_eol b start (Buffer_beginWrite b - start))))"

section \<open>Reading out\<close>

definition Buffer_retrieveAll :: "net_buffer \<Rightarrow> net_buffer" where
  "Buffer_retrieveAll b = b\<lparr>readerIndex := kCheapPrepend, writerIndex := kCheapPrepend\<rparr>"

definition Buffer_retrieve :: "net_buffer \<Rightarrow> nat \<Rightarrow> net_buffer res" where
  "Buffer_retrieve b len =
     c_assert (len \<le> Buffer_readableBytes b)
       (Inr (if len < Buffer_readableBytes b
             then b\<lparr>readerIndex := size_add (readerIndex b) len\<rparr>
             else Buffer_retrieveAll b))"

definition Buffer_retrieveUntil :: "net_buffer \<Rightarrow> nat \<Rightarrow> net_buffer res" where
  "Buffer_retrieveUntil b end =
     c_assert (Buffer_peek b \<le> end) (c_assert (end \<le> Buffer_beginWrite b)
       (Buffer_retrieve b (size_sub end (Buffer_peek b))))"

definition Buffer_retrieveInt64 :: "net_buffer \<Rightarrow> net_buffer res" where
  "Buffer_retrieveInt64 b = Buffer_retrieve b 8"

definition Buffer_retrieveInt32 :: "net_buffer \<Rightarrow> net_buffer res" where
  "Buffer_retrieveInt32 b = Buffer_retrieve b 4"

definition Buffer_retrieveInt16 :: "net_buffer \<Rightarrow> net_buffer res" where
  "Buffer_retrieveInt16 b = Buffer_retrieve b 2"

definition Buffer_retrieveInt8 :: "net_buffer \<Rightarrow> net_buffer res" where
  "Buffer_retrieveInt8 b = Buffer_retrieve b 1"

definition Buffer_retrieveAsString :: "net_buffer \<Rightarrow> nat \<Rightarrow> (string \<times> net_buffer) res" where
  "Buffer_retrieveAsString b len =
     c_assert (len \<le> Buffer_readableBytes b)
       (rbind (mem_read (buffer b) (Buffer_peek b) len) (\<lambda>result.
          rbind (Buffer_retrieve b len) (\<lambda>b'. Inr (result, b'))))"

definition Buffer_retrieveAllAsString :: "net_buffer \<Rightarrow> (string \<times> net_buffer) res" where
  "Buffer_retrieveAllAsString b = Buffer_retrieveAsString b (Buffer_readableBytes b)"

text \<open>
  A \<^verbatim>\<open>StringPiece\<close> keeps its length in an \<^verbatim>\<open>int\<close>: the conversion from \<^verbatim>\<open>size_t\<close> keeps the low 32
  bits, read as two's complement.
\<close>

definition int32_of_size :: "nat \<Rightarrow> int" where
  "int32_of_size n = sint (of_nat n :: 32 word)"

definition size_of_int :: "int \<Rightarrow> nat" where
  "size_of_int i = nat (i mod 2 ^ 64)"

definition Buffer_toStringPiece :: "net_buffer \<Rightarrow> nat \<times> int" where
  "Buffer_toStringPiece b = (Buffer_peek b, int32_of_size (Buffer_readableBytes b))"

section \<open>Making room and appending\<close>

definition Buffer_makeSpace :: "net_buffer \<Rightarrow> nat \<Rightarrow> net_buffer res" where
  "Buffer_makeSpace b len =
     (if size_add (Buffer_writableBytes b) (Buffer_prependableBytes b) < size_add len kCheapPrepend
      then rbind (vec_resize (size_add (writerIndex b) len) (buffer b)) (\<lambda>st. Inr (b\<lparr>buffer := st\<rparr>))
      else c_assert (kCheapPrepend < readerIndex b)
        (let readable = Buffer_readableBytes b in
         rbind (mem_read (buffer b) (readerIndex b) (writerIndex b - readerIndex b)) (\<lambda>d.
         rbind (mem_write (buffer b) kCheapPrepend d) (\<lambda>st.
           let b' = b\<lparr>buffer := st, readerIndex := kCheapPrepend,
                      writerIndex := size_add kCheapPrepend readable\<rparr>
           in c_assert (readable = Buffer_readableBytes b') (Inr b')))))"

definition Buffer_ensureWritableBytes :: "net_buffer \<Rightarrow> nat \<Rightarrow> net_buffer res" where
  "Buffer_ensureWritableBytes b len =
     rbind (if Buffer_writableBytes b < len then Buffer_makeSpace b len else Inr b) (\<lambda>b'.
       c_assert (len \<le> Buffer_writableBytes b') (Inr b'))"

definition Buffer_hasWritten :: "net_buffer \<Rightarrow> nat \<Rightarrow> net_buffer res" where
  "Buffer_hasWritten b len =
     c_assert (len \<le> Buffer_writableBytes b) (Inr (b\<lparr>writerIndex := size_add (writerIndex b) len\<rparr>))"

definition Buffer_unwrite :: "net_buffer \<Rightarrow> nat \<Rightarrow> net_buffer res" where
  "Buffer_unwrite b len =
     c_assert (len \<le> Buffer_readableBytes b) (Inr (b\<lparr>writerIndex := size_sub (writerIndex b) len\<rparr>))"

definition Buffer_append :: "net_buffer \<Rightarrow> char list \<Rightarrow> net_buffer res" where
  "Buffer_append b data =
     rbind (Buffer_ensureWritableBytes b (length data)) (\<lambda>b1.
     rbind (mem_write (buffer b1) (Buffer_beginWrite b1) data) (\<lambda>st.
       Buffer_hasWritten (b1\<lparr>buffer := st\<rparr>) (length data)))"

text \<open>Appending a \<^verbatim>\<open>StringPiece\<close> that points into the storage \<open>src\<close>.\<close>

definition Buffer_appendPiece :: "net_buffer \<Rightarrow> char list \<Rightarrow> nat \<times> int \<Rightarrow> net_buffer res" where
  "Buffer_appendPiece b src str =
     rbind (mem_read src (fst str) (size_of_int (snd str))) (\<lambda>d. Buffer_append b d)"

definition Buffer_prepend :: "net_buffer \<Rightarrow> char list \<Rightarrow> net_buffer res" where
  "Buffer_prepend b data =
     c_assert (length data \<le> Buffer_prependableBytes b)
       (let r = size_sub (readerIndex b) (length data) in
        rbind (mem_write (buffer b) r data) (\<lambda>st. Inr (b\<lparr>readerIndex := r, buffer := st\<rparr>)))"

definition Buffer_shrink :: "net_buffer \<Rightarrow> nat \<Rightarrow> net_buffer res" where
  "Buffer_shrink b reserve =
     rbind (Buffer_new kInitialSize) (\<lambda>other.
     rbind (Buffer_ensureWritableBytes other (size_add (Buffer_readableBytes b) reserve)) (\<lambda>other1.
     rbind (Buffer_appendPiece other1 (buffer b) (Buffer_toStringPiece b)) (\<lambda>other2.
       Inr (fst (Buffer_swap b other2)))))"

section \<open>Integers in network byte order\<close>

definition Buffer_appendInt64 :: "net_buffer \<Rightarrow> 64 word \<Rightarrow> net_buffer res" where
  "Buffer_appendInt64 b x = Buffer_append b (word_image 8 (hostToNetwork64 x))"

definition Buffer_appendInt32 :: "net_buffer \<Rightarrow> 32 word \<Rightarrow> net_buffer res" where
  "Buffer_appendInt32 b x = Buffer_append b (word_image 4 (hostToNetwork32 x))"

definition Buffer_appendInt16 :: "net_buffer \<Rightarrow> 16 word \<Rightarrow> net_buffer res" where
  "Buffer_appendInt16 b x = Buffer_append b (word_image 2 (hostToNetwork16 x))"

definition Buffer_appendInt8 :: "net_buffer \<Rightarrow> 8 word \<Rightarrow> net_buffer res" where
  "Buffer_appendInt8 b x = Buffer_append b (word_image 1 x)"

definition Buffer_peekInt64 :: "net_buffer \<Rightarrow> 64 word res" where
  "Buffer_peekInt64 b =
     c_assert (8 \<le> Buffer_readableBytes b)
       (rbind (mem_read (buffer b) (Buffer_peek b) 8) (\<lambda>d. Inr (networkToHost64 (image_word d))))"

definition Buffer_peekInt32 :: "net_buffer \<Rightarrow> 32 word res" where
  "Buffer_peekInt32 b =
     c_assert (4 \<le> Buffer_readableBytes b)
       (rbind (mem_read (buffer b) (Buffer_peek b) 4) (\<lambda>d. Inr (networkToHost32 (image_word d))))"

definition Buffer_peekInt16 :: "net_buffer \<Rightarrow> 16 word res" where
  "Buffer_peekInt16 b =
     c_assert (2 \<le> Buffer_readableBytes b)
       (rbind (mem_read (buffer b) (Buffer_peek b) 2) (\<lambda>d. Inr (networkToHost16 (image_word d))))"

definition Buffer_peekInt8 :: "net_buffer \<Rightarrow> 8 word res" where
  "Buffer_peekInt8 b =
     c_assert (1 \<le> Buffer_readableBytes b)
       (rbind (mem_read (buffer b) (Buffer_peek b) 1) (\<lambda>d. Inr (image_word d)))"

definition Buffer_readInt64 :: "net_buffer \<Rightarrow> (64 word \<times> net_buffer) res" where
  "Buffer_readInt64 b =
     rbind (Buffer_peekInt64 b) (\<lambda>result. rbind (Buffer_retrieveInt64 b) (\<lambda>b'. Inr (result, b')))"

definition Buffer_readInt32 :: "net_buffer \<Rightarrow> (32 word \<times> net_buffer) res" where
  "Buffer_readInt32 b =
     rbind (Buffer_peekInt32 b) (\<lambda>result. rbind (Buffer_retrieveInt32 b) (\<lambda>b'. Inr (result, b')))"

definition Buffer_readInt16 :: "net_buffer \<Rightarrow> (16 word \<times> net_buffer) res" where
  "Buffer_readInt16 b =
     rbind (Buffer_peekInt16 b) (\<lambda>result. rbind (Buffer_retrieveInt16 b) (\<lambda>b'. Inr (result, b')))"

definition Buffer_readInt8 :: "net_buffer \<Rightarrow> (8 word \<times> net_buffer) res" where
  "Buffer_readInt8 b =
     rbind (Buffer_peekInt8 b) (\<lambda>result. rbind (Buffer_retrieveInt8 b) (\<lambda>b'. Inr (result, b')))"

definition Buffer_prependInt64 :: "net_buffer \<Rightarrow> 64 word \<Rightarrow> net_buffer res" where
  "Buffer_prependInt64 b x = Buffer_prepend b (word_image 8 (hostToNetwork64 x))"

definition Buffer_prependInt32 :: "net_buffer \<Rightarrow> 32 word \<Rightarrow> net_buffer res" where
  "Buffer_prependInt32 b x = Buffer_prepend b (word_image 4 (hostToNetwork32 x))"

definition Buffer_prependInt16 :: "net_buffer \<Rightarrow> 16 word \<Rightarrow> net_buffer res" where
  "Buffer_prependInt16 b x = Buffer_prepend b (word_image 2 (hostToNetwork16 x))"

definition Buffer_prependInt8 :: "net_buffer \<Rightarrow> 8 word \<Rightarrow> net_buffer res" where
  "Buffer_prependInt8 b x = Buffer_prepend b (word_image 1 x)"

section \<open>Reading from a descriptor\<close>

text \<open>
  \<open>readv\<close> is the system call: given the lengths of the vectors it returns an errno or the bytes
  it stored, in order, into the vectors. The documented contract is that it never stores more
  than the vectors hold.
\<close>

datatype 'e io_result = IoErr 'e | IoOk "char list"

definition extrabuf_size :: nat where
  "extrabuf_size = 65536"

definition readv_contract :: "(nat list \<Rightarrow> 'e io_result) \<Rightarrow> bool" where
  "readv_contract readv \<longleftrightarrow> (\<forall>lens d. readv lens = IoOk d \<longrightarrow> length d \<le> sum_list lens)"

text \<open>The lengths of the vectors handed to \<^verbatim>\<open>readv\<close>: the stack buffer only joins in when it helps.\<close>

definition readFd_iov :: "net_buffer \<Rightarrow> nat list" where
  "readFd_iov b =
     (if Buffer_writableBytes b < extrabuf_size
      then [Buffer_writableBytes b, extrabuf_size] else [Buffer_writableBytes b])"

definition Buffer_readFd :: "(nat list \<Rightarrow> 'e io_result) \<Rightarrow> net_buffer \<Rightarrow> (int \<times> 'e option \<times> net_buffer) res" where
  "Buffer_readFd readv b =
     (let writable = Buffer_writableBytes b
      in case readv (readFd_iov b) of
           IoErr e \<Rightarrow> Inr (- 1, Some e, b)
         | IoOk d \<Rightarrow>
             (let n = length d; extrabuf = drop writable d in
              rbind (mem_write (buffer b) (writerIndex b) (take writable d)) (\<lambda>st.
                if n \<le> writable
                then Inr (int n, None, b\<lparr>buffer := st, writerIndex := size_add (writerIndex b) n\<rparr>)
                else rbind (Buffer_append (b\<lparr>buffer := st, writerIndex := length st\<rparr>) extrabuf)
                       (\<lambda>b'. Inr (int n, None, b')))))"

section \<open>The class invariant\<close>

definition Buffer_wf :: "net_buffer \<Rightarrow> bool" where
  "Buffer_wf b \<longleftrightarrow> readerIndex b \<le> writerIndex b \<and> writerIndex b \<le> length (buffer b) \<and>
     kCheapPrepend \<le> length (buffer b) \<and> length (buffer b) \<le> vec_max"

definition Buffer_cap :: "net_buffer \<Rightarrow> nat" where
  "Buffer_cap b = length (buffer b)"

lemmas Buffer_unfold = Buffer_wf_def Buffer_cap_def Buffer_content_def range_of_def
  Buffer_peek_def Buffer_beginWrite_def Buffer_prependableBytes_def

lemma Buffer_wfD:
  assumes "Buffer_wf b"
  shows "readerIndex b \<le> writerIndex b" and "writerIndex b \<le> length (buffer b)"
    and "kCheapPrepend \<le> length (buffer b)" and "length (buffer b) \<le> vec_max"
    and "writerIndex b < 2 ^ 63" and "length (buffer b) < 2 ^ 63"
  using assms by (auto simp: Buffer_wf_def vec_max_def)

lemma Buffer_wf_sizes [buffer_simps]:
  assumes "Buffer_wf b"
  shows "Buffer_readableBytes b = writerIndex b - readerIndex b"
    and "Buffer_writableBytes b = length (buffer b) - writerIndex b"
  using Buffer_wfD [OF assms]
  by (simp_all add: Buffer_readableBytes_def Buffer_writableBytes_def)

lemma length_Buffer_content [buffer_simps]:
  "Buffer_wf b \<Longrightarrow> length (Buffer_content b) = writerIndex b - readerIndex b"
  using Buffer_wfD [of b] by (simp add: Buffer_content_def range_of_def)

lemma Buffer_new_ok:
  assumes "initialSize + kCheapPrepend \<le> vec_max"
  shows "\<exists>b. Buffer_new initialSize = Inr b \<and> Buffer_wf b \<and> Buffer_content b = [] \<and>
    Buffer_cap b = initialSize + kCheapPrepend \<and> readerIndex b = kCheapPrepend"
  using assms
  by (auto simp: Buffer_new_def vec_resize_def Let_def Buffer_unfold Buffer_readableBytes_def
      Buffer_writableBytes_def vec_max_def kCheapPrepend_def)

lemma Buffer_retrieve_ok:
  assumes "Buffer_wf b" and "n \<le> length (Buffer_content b)"
  shows "\<exists>b'. Buffer_retrieve b n = Inr b' \<and> Buffer_wf b' \<and>
    Buffer_content b' = drop n (Buffer_content b) \<and> Buffer_cap b' = Buffer_cap b"
proof -
  note sizes = Buffer_wf_sizes [OF assms(1)] length_Buffer_content [OF assms(1)]
  have n: "n \<le> writerIndex b - readerIndex b"
    using assms sizes by simp
  show ?thesis
  proof (cases "n < writerIndex b - readerIndex b")
    case True
    with Buffer_wfD [OF assms(1)] show ?thesis
      by (simp add: Buffer_retrieve_def sizes Buffer_unfold drop_take add.commute)
  next
    case False
    with n Buffer_wfD [OF assms(1)] show ?thesis
      by (simp add: Buffer_retrieve_def sizes Buffer_retrieveAll_def Buffer_unfold)
  qed
qed

text \<open>
  The two ways to make room: growing the storage, or moving the readable bytes down to the
  reserved prefix. In the second case the assertion \<^verbatim>\<open>kCheapPrepend < readerIndex_\<close> follows from
  the guard of the call and the guard of the branch.
\<close>

lemma Buffer_makeSpace_grow:
  assumes "Buffer_wf b" and "Buffer_writableBytes b < len" and "Buffer_cap b + len \<le> vec_max"
    and "length (buffer b) - writerIndex b + readerIndex b < len + kCheapPrepend"
  shows "\<exists>b'. Buffer_makeSpace b len = Inr b' \<and> Buffer_wf b' \<and> Buffer_content b' = Buffer_content b \<and>
    len \<le> Buffer_writableBytes b' \<and> Buffer_cap b' = writerIndex b + len"
proof -
  let ?st = "take (writerIndex b + len) (buffer b) @
    replicate (writerIndex b + len - length (buffer b)) (CHR 0x00)"
  have grow: "length (buffer b) < writerIndex b + len" "writerIndex b + len \<le> vec_max"
    using assms Buffer_wf_sizes [OF assms(1)] by (auto simp: Buffer_unfold)
  have "Buffer_makeSpace b len = Inr (b\<lparr>buffer := ?st\<rparr>)"
    using assms grow Buffer_wf_sizes [OF assms(1)]
    by (simp add: Buffer_makeSpace_def Buffer_unfold vec_resize_def vec_max_def kCheapPrepend_def)
  moreover have "Buffer_wf (b\<lparr>buffer := ?st\<rparr>)"
    using assms grow by (simp add: Buffer_wf_def)
  moreover have "Buffer_content (b\<lparr>buffer := ?st\<rparr>) = Buffer_content b"
    using assms grow by (simp add: Buffer_unfold)
  ultimately show ?thesis
    using grow by (simp add: Buffer_wf_sizes Buffer_cap_def)
qed

lemma Buffer_makeSpace_move:
  assumes "Buffer_wf b" and "Buffer_writableBytes b < len" and "Buffer_cap b + len \<le> vec_max"
    and "\<not> length (buffer b) - writerIndex b + readerIndex b < len + kCheapPrepend"
  shows "\<exists>b'. Buffer_makeSpace b len = Inr b' \<and> Buffer_wf b' \<and> Buffer_content b' = Buffer_content b \<and>
    len \<le> Buffer_writableBytes b' \<and> Buffer_cap b' = Buffer_cap b"
proof -
  let ?n = "writerIndex b - readerIndex b"
  let ?st = "take kCheapPrepend (buffer b) @ Buffer_content b @ drop (kCheapPrepend + ?n) (buffer b)"
  let ?b = "b\<lparr>buffer := ?st, readerIndex := kCheapPrepend, writerIndex := kCheapPrepend + ?n\<rparr>"
  note sizes = Buffer_wf_sizes [OF assms(1)] length_Buffer_content [OF assms(1)]
  have bounds: "kCheapPrepend < readerIndex b" "readerIndex b \<le> writerIndex b"
    "writerIndex b \<le> length (buffer b)" "length (buffer b) \<le> vec_max" "len \<le> vec_max"
    using assms sizes by (auto simp: Buffer_unfold)
  have wf': "Buffer_wf ?b"
    using bounds sizes by (auto simp: Buffer_wf_def)
  have "\<not> size_add (Buffer_writableBytes b) (readerIndex b) < size_add len kCheapPrepend"
    using bounds assms(4) sizes by (simp add: vec_max_def kCheapPrepend_def)
  moreover have "mem_read (buffer b) (readerIndex b) ?n = Inr (Buffer_content b)"
    using bounds by (simp add: mem_read_def Buffer_content_def range_of_def)
  moreover have "mem_write (buffer b) kCheapPrepend (Buffer_content b) = Inr ?st"
    using bounds sizes by (simp add: mem_write_def)
  moreover have "size_add kCheapPrepend ?n = kCheapPrepend + ?n"
    using bounds by simp
  ultimately have "Buffer_makeSpace b len = Inr ?b"
    using bounds(1) sizes Buffer_wf_sizes(1) [OF wf']
    by (simp add: Buffer_makeSpace_def Buffer_prependableBytes_def Let_def)
  moreover have "Buffer_content ?b = Buffer_content b"
    using bounds sizes by (subst Buffer_content_def) (simp add: range_of_def)
  moreover have "len \<le> Buffer_writableBytes ?b"
    unfolding Buffer_wf_sizes(2) [OF wf'] using bounds assms(4) sizes by simp
  moreover have "Buffer_cap ?b = Buffer_cap b"
    using bounds sizes by (simp add: Buffer_cap_def)
  ultimately show ?thesis
    using wf' by blast
qed

lemma Buffer_ensureWritableBytes_ok:
  assumes "Buffer_wf b" and "Buffer_cap b + len \<le> vec_max"
  shows "\<exists>b'. Buffer_ensureWritableBytes b len = Inr b' \<and> Buffer_wf b' \<and>
    Buffer_content b' = Buffer_content b \<and> len \<le> Buffer_writableBytes b' \<and>
    Buffer_cap b \<le> Buffer_cap b' \<and> Buffer_cap b' \<le> Buffer_cap b + len"
proof (cases "Buffer_writableBytes b < len")
  case True
  have "writerIndex b \<le> length (buffer b)"
    using assms by (simp add: Buffer_wf_def)
  with True assms show ?thesis
    using Buffer_makeSpace_grow [OF assms(1) True assms(2)]
      Buffer_makeSpace_move [OF assms(1) True assms(2)] Buffer_wf_sizes [OF assms(1)]
    by (fastforce simp: Buffer_ensureWritableBytes_def Buffer_cap_def)
next
  case False
  with assms show ?thesis
    by (simp add: Buffer_ensureWritableBytes_def)
qed

lemma Buffer_put_ok:
  assumes "Buffer_wf b" and "length d \<le> length (buffer b) - writerIndex b"
  shows "\<exists>st. mem_write (buffer b) (writerIndex b) d = Inr st \<and> length st = length (buffer b) \<and>
    Buffer_wf (b\<lparr>buffer := st, writerIndex := writerIndex b + length d\<rparr>) \<and>
    Buffer_content (b\<lparr>buffer := st, writerIndex := writerIndex b + length d\<rparr>) = Buffer_content b @ d"
  using assms
  by (auto simp: mem_write_def Buffer_unfold slice_append drop_take)

lemma Buffer_append_ok:
  assumes "Buffer_wf b" and "Buffer_cap b + length d \<le> vec_max"
  shows "\<exists>b'. Buffer_append b d = Inr b' \<and> Buffer_wf b' \<and> Buffer_content b' = Buffer_content b @ d \<and>
    Buffer_cap b' \<le> Buffer_cap b + length d"
proof -
  obtain b1 where b1: "Buffer_ensureWritableBytes b (length d) = Inr b1" "Buffer_wf b1"
    "Buffer_content b1 = Buffer_content b" "length d \<le> Buffer_writableBytes b1"
    "Buffer_cap b1 \<le> Buffer_cap b + length d"
    using Buffer_ensureWritableBytes_ok [OF assms] by blast
  obtain st where st: "mem_write (buffer b1) (writerIndex b1) d = Inr st"
    "length st = length (buffer b1)"
    "Buffer_wf (b1\<lparr>buffer := st, writerIndex := writerIndex b1 + length d\<rparr>)"
    "Buffer_content (b1\<lparr>buffer := st, writerIndex := writerIndex b1 + length d\<rparr>) = Buffer_content b @ d"
    using Buffer_put_ok [OF b1(2), of d] b1 by (auto simp: Buffer_wf_sizes)
  have "writerIndex b1 + length d \<le> vec_max" "length d \<le> Buffer_writableBytes (b1\<lparr>buffer := st\<rparr>)"
    using st b1 by (auto simp: Buffer_wf_def Buffer_writableBytes_def)
  then have "Buffer_append b d = Inr (b1\<lparr>buffer := st, writerIndex := writerIndex b1 + length d\<rparr>)"
    using b1(1) st(1) by (simp add: Buffer_append_def Buffer_hasWritten_def Buffer_beginWrite_def)
  with st b1 show ?thesis by (auto simp: Buffer_cap_def)
qed

interpretation net: byte_queue Buffer_wf Buffer_content Buffer_cap Buffer_append Buffer_retrieve
  by unfold_locales (simp_all add: Buffer_append_ok Buffer_retrieve_ok)

section \<open>The remaining operations on well-formed buffers\<close>

lemma Buffer_mem_read [buffer_simps]:
  assumes "Buffer_wf b" and "n \<le> length (Buffer_content b)"
  shows "mem_read (buffer b) (Buffer_peek b) n = Inr (take n (Buffer_content b))"
  using Buffer_wfD [OF assms(1)] assms(2) length_Buffer_content [OF assms(1)]
  by (simp add: mem_read_def Buffer_peek_def Buffer_content_def range_of_def min_def)

lemma Buffer_retrieveAsString_ok:
  assumes "Buffer_wf b" and "n \<le> length (Buffer_content b)"
  shows "\<exists>b'. Buffer_retrieveAsString b n = Inr (take n (Buffer_content b), b') \<and> Buffer_wf b' \<and>
    Buffer_content b' = drop n (Buffer_content b) \<and> Buffer_cap b' = Buffer_cap b"
  using net.retrieve_ok [OF assms] assms
  by (auto simp: Buffer_retrieveAsString_def buffer_simps)

lemma Buffer_retrieveUntil_ok:
  assumes "Buffer_wf b" and "readerIndex b \<le> e" and "e \<le> writerIndex b"
  shows "\<exists>b'. Buffer_retrieveUntil b e = Inr b' \<and> Buffer_wf b' \<and>
    Buffer_content b' = drop (e - readerIndex b) (Buffer_content b) \<and> Buffer_cap b' = Buffer_cap b"
  using net.retrieve_ok [OF assms(1), of "e - readerIndex b"] assms Buffer_wfD [OF assms(1)]
  by (simp add: Buffer_retrieveUntil_def Buffer_peek_def Buffer_beginWrite_def buffer_simps)

lemma Buffer_prepend_ok:
  assumes "Buffer_wf b" and "length d \<le> readerIndex b"
  shows "\<exists>b'. Buffer_prepend b d = Inr b' \<and> Buffer_wf b' \<and> Buffer_content b' = d @ Buffer_content b \<and>
    Buffer_cap b' = Buffer_cap b \<and> readerIndex b' = readerIndex b - length d"
proof -
  let ?r = "readerIndex b - length d"
  note wf = Buffer_wfD [OF assms(1)]
  let ?b = "b\<lparr>readerIndex := ?r, buffer := take ?r (buffer b) @ d @ drop (readerIndex b) (buffer b)\<rparr>"
  have eq: "Buffer_prepend b d = Inr ?b"
    using wf assms(2) by (simp add: Buffer_prepend_def Buffer_prependableBytes_def mem_write_def Let_def)
  have "Buffer_wf ?b"
    using wf assms(2) by (simp add: Buffer_wf_def)
  moreover have "Buffer_content ?b = d @ Buffer_content b"
    using wf assms(2) by (simp add: Buffer_content_def range_of_def)
  moreover have "Buffer_cap ?b = Buffer_cap b"
    using wf assms(2) by (simp add: Buffer_cap_def)
  ultimately show ?thesis
    unfolding eq by simp
qed

lemma Buffer_unwrite_ok:
  assumes "Buffer_wf b" and "n \<le> length (Buffer_content b)"
  shows "\<exists>b'. Buffer_unwrite b n = Inr b' \<and> Buffer_wf b' \<and>
    Buffer_content b' = take (length (Buffer_content b) - n) (Buffer_content b)"
  using Buffer_wfD [OF assms(1)] assms(2) length_Buffer_content [OF assms(1)]
  by (auto simp: Buffer_unwrite_def Buffer_wf_sizes [OF assms(1)] Buffer_wf_def Buffer_content_def
      range_of_def min_def add.commute)

lemma Buffer_findCRLF_content:
  assumes "Buffer_wf b"
  shows "Buffer_findCRLF b =
    map_option (\<lambda>i. readerIndex b + i) (search2 (CHR 0x0D) (CHR 0x0A) (Buffer_content b))"
proof (cases "search2 (CHR 0x0D) (CHR 0x0A) (Buffer_content b)")
  case None
  then show ?thesis
    by (simp add: Buffer_findCRLF_def std_search_crlf_def Buffer_content_def Buffer_peek_def
        Buffer_beginWrite_def)
next
  case (Some i)
  with search2_bound [OF Some] length_Buffer_content [OF assms] show ?thesis
    by (auto simp: Buffer_findCRLF_def std_search_crlf_def Buffer_content_def Buffer_peek_def
        Buffer_beginWrite_def Let_def)
qed

lemma networkToHost_be_val:
  "length c8 = 8 \<Longrightarrow> networkToHost64 (image_word c8) = of_nat (be_val c8)"
  "length c4 = 4 \<Longrightarrow> networkToHost32 (image_word c4) = of_nat (be_val c4)"
  "length c2 = 2 \<Longrightarrow> networkToHost16 (image_word c2) = of_nat (be_val c2)"
  using le_val_less [of c8] le_val_less [of c4] le_val_less [of c2]
    le_bytes_val [of c8] le_bytes_val [of c4] le_bytes_val [of c2]
  by (simp_all add: networkToHost64_def networkToHost32_def networkToHost16_def image_word_def
      bswap_def be_val_def unat_of_nat)

lemma Buffer_peekInt_be:
  assumes "Buffer_wf b"
  shows "8 \<le> length (Buffer_content b) \<Longrightarrow>
      Buffer_peekInt64 b = Inr (of_nat (be_val (take 8 (Buffer_content b))))"
    and "4 \<le> length (Buffer_content b) \<Longrightarrow>
      Buffer_peekInt32 b = Inr (of_nat (be_val (take 4 (Buffer_content b))))"
    and "2 \<le> length (Buffer_content b) \<Longrightarrow>
      Buffer_peekInt16 b = Inr (of_nat (be_val (take 2 (Buffer_content b))))"
  using assms Buffer_wf_sizes [OF assms] length_Buffer_content [OF assms]
  by (simp_all add: Buffer_peekInt64_def Buffer_peekInt32_def Buffer_peekInt16_def
      Buffer_mem_read networkToHost_be_val)

lemma Buffer_readFd_ok:
  assumes "Buffer_wf b" and "readv_contract readv" and "Buffer_cap b + extrabuf_size \<le> vec_max"
  shows "(\<exists>e. readv (readFd_iov b) = IoErr e \<and> Buffer_readFd readv b = Inr (- 1, Some e, b)) \<or>
    (\<exists>d b'. readv (readFd_iov b) = IoOk d \<and> Buffer_readFd readv b = Inr (int (length d), None, b') \<and>
       Buffer_wf b' \<and> Buffer_content b' = Buffer_content b @ d \<and>
       Buffer_cap b' \<le> Buffer_cap b + extrabuf_size)"
proof -
  let ?w = "Buffer_writableBytes b"
  note wf = Buffer_wfD [OF assms(1)]
  note w = Buffer_wf_sizes(2) [OF assms(1)]
  show ?thesis
  proof (cases "readv (readFd_iov b)")
    case (IoErr e)
    then show ?thesis by (simp add: Buffer_readFd_def Let_def)
  next
    case (IoOk d)
    with assms(2) have len: "length d \<le> ?w + extrabuf_size"
      by (fastforce simp: readv_contract_def readFd_iov_def split: if_splits)
    have fits: "length (take ?w d) \<le> length (buffer b) - writerIndex b"
      using w by simp
    obtain st where st: "mem_write (buffer b) (writerIndex b) (take ?w d) = Inr st"
      "length st = length (buffer b)"
      "Buffer_wf (b\<lparr>buffer := st, writerIndex := writerIndex b + length (take ?w d)\<rparr>)"
      "Buffer_content (b\<lparr>buffer := st, writerIndex := writerIndex b + length (take ?w d)\<rparr>)
         = Buffer_content b @ take ?w d"
      using Buffer_put_ok [OF assms(1) fits] by blast
    show ?thesis
    proof (cases "length d \<le> ?w")
      case True
      with IoOk st wf w show ?thesis
        by (auto simp: Buffer_readFd_def Let_def Buffer_cap_def)
    next
      case False
      let ?b1 = "b\<lparr>buffer := st, writerIndex := length st\<rparr>"
      have "writerIndex b + length (take ?w d) = length st"
        using False wf w st(2) by simp
      with st have b1: "Buffer_wf ?b1" "Buffer_content ?b1 = Buffer_content b @ take ?w d"
        by simp_all
      have "Buffer_cap ?b1 + length (drop ?w d) \<le> vec_max"
        using st(2) len assms(3) by (simp add: Buffer_cap_def)
      from net.append_ok [OF b1(1) this] obtain b' where
        "Buffer_append ?b1 (drop ?w d) = Inr b'" "Buffer_wf b'" "Buffer_content b' = Buffer_content b @ d"
        "Buffer_cap b' \<le> Buffer_cap ?b1 + length (drop ?w d)"
        using b1(2) by auto
      with False IoOk st len show ?thesis
        by (auto simp: Buffer_readFd_def Let_def Buffer_cap_def)
    qed
  qed
qed

lemma Buffer_swap_eq: "Buffer_swap b c = (c, b)"
  by (cases b, cases c) (simp add: Buffer_swap_def)

text \<open>\<^verbatim>\<open>ensureWritableBytes\<close> on a buffer that has never been read or prepended to always grows.\<close>

lemma Buffer_ensureWritableBytes_fresh:
  assumes "Buffer_wf b" and "readerIndex b = kCheapPrepend" and "writerIndex b = kCheapPrepend"
    and "Buffer_cap b + len \<le> vec_max"
  shows "\<exists>b'. Buffer_ensureWritableBytes b len = Inr b' \<and> Buffer_wf b' \<and> Buffer_content b' = [] \<and>
    len \<le> Buffer_writableBytes b' \<and> Buffer_cap b' = max (Buffer_cap b) (kCheapPrepend + len)"
proof -
  have empty: "Buffer_content b = []"
    using assms by (simp add: Buffer_content_def range_of_def)
  show ?thesis
  proof (cases "Buffer_writableBytes b < len")
    case True
    with assms have "length (buffer b) - writerIndex b + readerIndex b < len + kCheapPrepend"
      by (simp add: Buffer_wf_sizes)
    from Buffer_makeSpace_grow [OF assms(1) True assms(4) this] show ?thesis
      using True empty assms Buffer_wfD [OF assms(1)] Buffer_wf_sizes [OF assms(1)]
      by (auto simp: Buffer_ensureWritableBytes_def Buffer_cap_def)
  next
    case False
    with empty assms Buffer_wfD [OF assms(1)] Buffer_wf_sizes [OF assms(1)] show ?thesis
      by (auto simp: Buffer_ensureWritableBytes_def Buffer_cap_def)
  qed
qed

lemma Buffer_append_in_place:
  assumes "Buffer_wf b" and "length d \<le> Buffer_writableBytes b"
  shows "\<exists>b'. Buffer_append b d = Inr b' \<and> Buffer_wf b' \<and> Buffer_content b' = Buffer_content b @ d \<and>
    Buffer_cap b' = Buffer_cap b"
proof -
  have "length d \<le> length (buffer b) - writerIndex b"
    using assms by (simp add: Buffer_wf_sizes)
  from Buffer_put_ok [OF assms(1) this] obtain st where
    st: "mem_write (buffer b) (writerIndex b) d = Inr st" "length st = length (buffer b)"
      "Buffer_wf (b\<lparr>buffer := st, writerIndex := writerIndex b + length d\<rparr>)"
      "Buffer_content (b\<lparr>buffer := st, writerIndex := writerIndex b + length d\<rparr>) = Buffer_content b @ d"
    by blast
  have "writerIndex b + length d \<le> vec_max"
    using Buffer_wfD [OF assms(1)] assms(2) Buffer_wf_sizes [OF assms(1)] by simp
  then have "Buffer_append b d = Inr (b\<lparr>buffer := st, writerIndex := writerIndex b + length d\<rparr>)"
    using assms(2) st(1,2)
    by (simp add: Buffer_append_def Buffer_ensureWritableBytes_def Buffer_beginWrite_def
        Buffer_hasWritten_def Buffer_writableBytes_def)
  with st show ?thesis by (simp add: Buffer_cap_def)
qed

lemma int32_of_size_small: "n < 2 ^ 31 \<Longrightarrow> size_of_int (int32_of_size n) = n"
proof -
  assume n: "n < 2 ^ 31"
  have "int32_of_size n = signed_take_bit 31 (int n)"
    by (simp add: int32_of_size_def signed_of_nat)
  also have "\<dots> = int n"
    using n by (simp add: signed_take_bit_int_eq_self)
  finally show ?thesis
    using n by (simp add: size_of_int_def)
qed

text \<open>Reading an integer that is at the front of the readable bytes.\<close>

lemma Buffer_readInt_ok:
  assumes "Buffer_wf b"
  shows "Buffer_content b = be_bytes 8 (unat x) @ r \<Longrightarrow>
      \<exists>b'. Buffer_readInt64 b = Inr (x, b') \<and> Buffer_wf b' \<and> Buffer_content b' = r"
    and "Buffer_content b = be_bytes 4 (unat y) @ r \<Longrightarrow>
      \<exists>b'. Buffer_readInt32 b = Inr (y, b') \<and> Buffer_wf b' \<and> Buffer_content b' = r"
    and "Buffer_content b = be_bytes 2 (unat z) @ r \<Longrightarrow>
      \<exists>b'. Buffer_readInt16 b = Inr (z, b') \<and> Buffer_wf b' \<and> Buffer_content b' = r"
    and "Buffer_content b = word_image 1 w @ r \<Longrightarrow>
      \<exists>b'. Buffer_readInt8 b = Inr (w, b') \<and> Buffer_wf b' \<and> Buffer_content b' = r"
  using net.retrieve_ok [OF assms, of 8] net.retrieve_ok [OF assms, of 4]
    net.retrieve_ok [OF assms, of 2] net.retrieve_ok [OF assms, of 1] Buffer_wf_sizes [OF assms]
    length_Buffer_content [OF assms]
  by (auto simp: Buffer_readInt64_def Buffer_readInt32_def Buffer_readInt16_def Buffer_readInt8_def
      Buffer_retrieveInt64_def Buffer_retrieveInt32_def Buffer_retrieveInt16_def Buffer_retrieveInt8_def
      Buffer_peekInt64_def Buffer_peekInt32_def Buffer_peekInt16_def Buffer_peekInt8_def
      Buffer_mem_read [OF assms] networkToHost_image image_word_image)

section \<open>Properties\<close>

text \<open>
  C1. FIFO refinement: whatever sequence of \<^verbatim>\<open>append\<close> and \<^verbatim>\<open>retrieve\<close> calls a client makes on a
  well-formed buffer, as long as it never retrieves more than is readable, no assertion fails, no
  byte outside the storage is touched, the class invariant holds at the end, and the bytes
  retrieved followed by the bytes still readable are exactly the bytes that were readable
  followed by the bytes appended, in order.
\<close>

theorem Buffer_fifo:
  assumes "Buffer_wf b" and "Buffer_cap b + length (appended ops) \<le> vec_max"
    and "spec_queue (Buffer_content b) ops \<noteq> None"
  shows "\<exists>b'. run_queue Buffer_append Buffer_retrieve b ops = Inr b' \<and> Buffer_wf b' \<and>
    take (retrieved ops) (Buffer_content b @ appended ops) @ Buffer_content b'
      = Buffer_content b @ appended ops"
  by (rule net.run_conserves [OF assms])

definition sample_buffer :: net_buffer where
  "sample_buffer = \<lparr>buffer = ''........ab....'', readerIndex = 8, writerIndex = 10\<rparr>"

lemma sample_buffer_wf: "Buffer_wf sample_buffer"
  by (simp add: sample_buffer_def Buffer_wf_def kCheapPrepend_def vec_max_def)

lemma sample_buffer_sizes:
  "Buffer_content sample_buffer = ''ab''" "Buffer_cap sample_buffer = 14"
  "readerIndex sample_buffer = 8" "writerIndex sample_buffer = 10"
  by (simp_all add: sample_buffer_def Buffer_content_def range_of_def Buffer_cap_def)

theorem Buffer_fifo_witness:
  "\<exists>b'. run_queue Buffer_append Buffer_retrieve sample_buffer
       [Append ''cdefgh'', Retrieve 5, Append ''ij''] = Inr b' \<and> Buffer_wf b' \<and>
     ''abcde'' @ Buffer_content b' = ''abcdefghij''"
  using Buffer_fifo [of sample_buffer "[Append ''cdefgh'', Retrieve 5, Append ''ij'']"]
  by (simp add: sample_buffer_wf sample_buffer_sizes vec_max_def)

text \<open>
  Storage growth: appending to a well-formed buffer keeps its storage when the free bytes
  behind the readable data suffice, and also when the free bytes before and behind it suffice
  together with the reserved prefix (the data is moved then); only otherwise does it grow, to
  exactly the writer index plus the appended length.
\<close>

theorem Buffer_append_storage:
  assumes "Buffer_wf b" and "Buffer_cap b + length d \<le> vec_max"
  shows "\<exists>b'. Buffer_append b d = Inr b' \<and> Buffer_content b' = Buffer_content b @ d \<and>
    Buffer_cap b' =
      (if length d \<le> Buffer_cap b - writerIndex b \<or>
          length d + kCheapPrepend \<le> Buffer_cap b - length (Buffer_content b)
       then Buffer_cap b else writerIndex b + length d)"
proof -
  note wf = Buffer_wfD [OF assms(1)] Buffer_wf_sizes [OF assms(1)] length_Buffer_content [OF assms(1)]
  have step: "\<exists>b'. Buffer_append b d = Inr b' \<and> Buffer_content b' = Buffer_content b @ d \<and> Buffer_cap b' = c"
    if "Buffer_makeSpace b (length d) = Inr b1" "Buffer_wf b1" "Buffer_content b1 = Buffer_content b"
      "length d \<le> Buffer_writableBytes b1" "Buffer_cap b1 = c" "Buffer_writableBytes b < length d" for b1 c
    using that Buffer_append_in_place [of b1 d]
    by (auto simp: Buffer_append_def Buffer_ensureWritableBytes_def)
  consider "length d \<le> Buffer_writableBytes b"
    | "Buffer_writableBytes b < length d"
      "length (buffer b) - writerIndex b + readerIndex b < length d + kCheapPrepend"
    | "Buffer_writableBytes b < length d"
      "\<not> length (buffer b) - writerIndex b + readerIndex b < length d + kCheapPrepend"
    by linarith
  then show ?thesis
  proof cases
    case 1
    with Buffer_append_in_place [OF assms(1) 1] wf show ?thesis by (auto simp: Buffer_cap_def)
  next
    case 2
    with Buffer_makeSpace_grow [OF assms(1) 2(1) assms(2)] wf step show ?thesis
      by (auto simp: Buffer_cap_def)
  next
    case 3
    with Buffer_makeSpace_move [OF assms(1) 3(1) assms(2)] wf step show ?thesis
      by (auto simp: Buffer_cap_def)
  qed
qed

theorem Buffer_append_storage_witness:
  "\<exists>b'. Buffer_append sample_buffer ''cdefg'' = Inr b' \<and> Buffer_content b' = ''abcdefg'' \<and> Buffer_cap b' = 15"
  using Buffer_append_storage [of sample_buffer "''cdefg''"]
  by (simp add: sample_buffer_wf sample_buffer_sizes vec_max_def kCheapPrepend_def)

text \<open>
  C2. Scatter read: when \<^verbatim>\<open>readv\<close> delivers \<open>d\<close>, spread over the writable tail and the 64 KiB stack
  buffer, \<^verbatim>\<open>readFd\<close> returns the length of \<open>d\<close> and appends exactly \<open>d\<close> to the readable bytes.
\<close>

theorem Buffer_readFd_appends:
  assumes "Buffer_wf b" and "readv_contract readv" and "Buffer_cap b + extrabuf_size \<le> vec_max"
    and "readv (readFd_iov b) = IoOk d"
  shows "\<exists>b'. Buffer_readFd readv b = Inr (int (length d), None, b') \<and> Buffer_wf b' \<and>
    Buffer_content b' = Buffer_content b @ d"
  using Buffer_readFd_ok [OF assms(1-3)] assms(4) by auto

theorem Buffer_readFd_appends_witness:
  "\<exists>b'. Buffer_readFd (\<lambda>lens. IoOk (take (sum_list lens) ''cdefgh'') :: int io_result) sample_buffer
       = Inr (6, None, b') \<and> Buffer_wf b' \<and> Buffer_content b' = ''abcdefgh''"
  using Buffer_readFd_appends [of sample_buffer "\<lambda>lens. IoOk (take (sum_list lens) ''cdefgh'')" "''cdefgh''"]
  by (simp add: sample_buffer_wf sample_buffer_sizes readv_contract_def readFd_iov_def
      extrabuf_size_def vec_max_def)

text \<open>
  C3. Integers survive the trip: the four widths appended in network byte order to an empty buffer
  are read back, in the same order and with the same values, and leave it empty.
\<close>

theorem Buffer_int_roundtrip:
  assumes "Buffer_wf b" and "Buffer_content b = []" and "Buffer_cap b + 15 \<le> vec_max"
  shows "\<exists>b1 b2 b3 b4 c1 c2 c3 c4.
    Buffer_appendInt64 b x = Inr b1 \<and> Buffer_appendInt32 b1 y = Inr b2 \<and>
    Buffer_appendInt16 b2 z = Inr b3 \<and> Buffer_appendInt8 b3 w = Inr b4 \<and>
    Buffer_readInt64 b4 = Inr (x, c1) \<and> Buffer_readInt32 c1 = Inr (y, c2) \<and>
    Buffer_readInt16 c2 = Inr (z, c3) \<and> Buffer_readInt8 c3 = Inr (w, c4) \<and> Buffer_content c4 = []"
proof -
  let ?X = "be_bytes 8 (unat x)" and ?Y = "be_bytes 4 (unat y)" and ?Z = "be_bytes 2 (unat z)"
  let ?W = "word_image 1 w"
  obtain b1 where b1: "Buffer_appendInt64 b x = Inr b1" "Buffer_wf b1" "Buffer_content b1 = ?X"
    "Buffer_cap b1 \<le> Buffer_cap b + 8"
    using net.append_ok [OF assms(1), of ?X] assms by (auto simp: Buffer_appendInt64_def hostToNetwork_image)
  obtain b2 where b2: "Buffer_appendInt32 b1 y = Inr b2" "Buffer_wf b2" "Buffer_content b2 = ?X @ ?Y"
    "Buffer_cap b2 \<le> Buffer_cap b + 12"
    using net.append_ok [OF b1(2), of ?Y] b1 assms(3)
    by (auto simp: Buffer_appendInt32_def hostToNetwork_image)
  obtain b3 where b3: "Buffer_appendInt16 b2 z = Inr b3" "Buffer_wf b3" "Buffer_content b3 = ?X @ ?Y @ ?Z"
    "Buffer_cap b3 \<le> Buffer_cap b + 14"
    using net.append_ok [OF b2(2), of ?Z] b2 assms(3)
    by (auto simp: Buffer_appendInt16_def hostToNetwork_image)
  obtain b4 where b4: "Buffer_appendInt8 b3 w = Inr b4" "Buffer_wf b4"
    "Buffer_content b4 = ?X @ ?Y @ ?Z @ ?W"
    using net.append_ok [OF b3(2), of ?W] b3 assms(3) by (auto simp: Buffer_appendInt8_def)
  obtain c1 where c1: "Buffer_readInt64 b4 = Inr (x, c1)" "Buffer_wf c1" "Buffer_content c1 = ?Y @ ?Z @ ?W"
    using Buffer_readInt_ok(1) [OF b4(2,3)] by blast
  obtain c2 where c2: "Buffer_readInt32 c1 = Inr (y, c2)" "Buffer_wf c2" "Buffer_content c2 = ?Z @ ?W"
    using Buffer_readInt_ok(2) [OF c1(2,3)] by blast
  obtain c3 where c3: "Buffer_readInt16 c2 = Inr (z, c3)" "Buffer_wf c3" "Buffer_content c3 = ?W @ []"
    using Buffer_readInt_ok(3) [OF c2(2,3)] by auto
  obtain c4 where c4: "Buffer_readInt8 c3 = Inr (w, c4)" "Buffer_content c4 = []"
    using Buffer_readInt_ok(4) [OF c3(2,3)] by auto
  from b1 b2 b3 b4 c1 c2 c3 c4 show ?thesis by blast
qed

theorem Buffer_int_roundtrip_witness:
  "\<exists>b1 b2 b3 b4 c1 c2 c3 c4.
    Buffer_appendInt64 (Buffer_retrieveAll sample_buffer) (- 2) = Inr b1 \<and> Buffer_appendInt32 b1 70000 = Inr b2 \<and>
    Buffer_appendInt16 b2 513 = Inr b3 \<and> Buffer_appendInt8 b3 255 = Inr b4 \<and>
    Buffer_readInt64 b4 = Inr (- 2, c1) \<and> Buffer_readInt32 c1 = Inr (70000, c2) \<and>
    Buffer_readInt16 c2 = Inr (513, c3) \<and> Buffer_readInt8 c3 = Inr (255, c4) \<and> Buffer_content c4 = []"
  by (rule Buffer_int_roundtrip)
    (simp_all add: sample_buffer_def Buffer_retrieveAll_def Buffer_wf_def Buffer_content_def range_of_def
      Buffer_cap_def kCheapPrepend_def vec_max_def)

text \<open>
  \<^verbatim>\<open>shrink\<close> keeps the readable bytes and leaves a storage of exactly the reserved prefix plus
  the larger of the initial size and the readable bytes with the requested reserve. The length
  passes through the \<^verbatim>\<open>int\<close> of a \<^verbatim>\<open>StringPiece\<close>, so the statement needs fewer than \<open>2 ^ 31\<close>
  readable bytes.
\<close>

theorem Buffer_shrink_exact:
  assumes "Buffer_wf b" and "length (Buffer_content b) < 2 ^ 31"
    and "length (Buffer_content b) + reserve + kInitialSize + kCheapPrepend \<le> vec_max"
  shows "\<exists>b'. Buffer_shrink b reserve = Inr b' \<and> Buffer_wf b' \<and> Buffer_content b' = Buffer_content b \<and>
    Buffer_cap b' = kCheapPrepend + max kInitialSize (length (Buffer_content b) + reserve)"
proof -
  let ?n = "length (Buffer_content b)"
  have n: "Buffer_readableBytes b = ?n"
    using assms(1) by (simp add: buffer_simps)
  obtain o1 where o1: "Buffer_new kInitialSize = Inr o1" "Buffer_wf o1"
    "Buffer_cap o1 = kInitialSize + kCheapPrepend" "readerIndex o1 = kCheapPrepend" "Buffer_content o1 = []"
    using Buffer_new_ok [of kInitialSize] assms(3) by auto
  have "writerIndex o1 = kCheapPrepend"
    using length_Buffer_content [OF o1(2)] Buffer_wfD(1) [OF o1(2)] o1 by simp
  then obtain o2 where o2: "Buffer_ensureWritableBytes o1 (?n + reserve) = Inr o2" "Buffer_wf o2"
    "Buffer_content o2 = []" "?n + reserve \<le> Buffer_writableBytes o2"
    "Buffer_cap o2 = kCheapPrepend + max kInitialSize (?n + reserve)"
    using Buffer_ensureWritableBytes_fresh [OF o1(2,4), of "?n + reserve"] o1(3) assms(3)
    by (auto simp: add.commute)
  then obtain o3 where "Buffer_append o2 (Buffer_content b) = Inr o3" "Buffer_wf o3"
    "Buffer_content o3 = Buffer_content b" "Buffer_cap o3 = Buffer_cap o2"
    using Buffer_append_in_place [OF o2(2), of "Buffer_content b"] by auto
  moreover have "mem_read (buffer b) (Buffer_peek b) (size_of_int (int32_of_size ?n)) = Inr (Buffer_content b)"
    using assms(1,2) by (simp add: int32_of_size_small Buffer_mem_read)
  moreover have "size_add ?n reserve = ?n + reserve"
    using assms(3) by simp
  ultimately show ?thesis
    using o1(1) o2 by (simp add: Buffer_shrink_def n Buffer_appendPiece_def Buffer_toStringPiece_def Buffer_swap_eq)
qed

theorem Buffer_shrink_exact_witness:
  "\<exists>b'. Buffer_shrink sample_buffer 3000 = Inr b' \<and> Buffer_wf b' \<and> Buffer_content b' = ''ab'' \<and> Buffer_cap b' = 3010"
  using Buffer_shrink_exact [of sample_buffer 3000]
  by (simp add: sample_buffer_wf sample_buffer_sizes kInitialSize_def kCheapPrepend_def vec_max_def)

end
