(* ===== verification/My_Buffer.thy ===== *)
theory My_Buffer
  imports Net_Buffer
begin

text \<open>
  The rewrite of the buffer in \<^verbatim>\<open>myMuduo/Buffer.h\<close> and \<^verbatim>\<open>Buffer.cc\<close>. It has the same three fields
  (the record is shared), no assertions, and a constructor that resizes the storage after
  allocating it. The theory shows that on well-formed buffers it meets the same \<open>byte_queue\<close>
  contract, that its operations agree with the original's, and what its constructor does.
\<close>

section \<open>Operations\<close>

definition kInitalSize :: nat where
  "kInitalSize = 1024"

definition MyBuffer_new :: "nat \<Rightarrow> net_buffer res" where
  "MyBuffer_new initialSize =
     rbind (vec_resize (size_add kCheapPrepend initialSize) []) (\<lambda>st.
     rbind (vec_resize kInitalSize st) (\<lambda>st'.
       Inr \<lparr>buffer = st', readerIndex = kCheapPrepend, writerIndex = kCheapPrepend\<rparr>))"

definition MyBuffer_readableBytes :: "net_buffer \<Rightarrow> nat" where
  "MyBuffer_readableBytes b = size_sub (writerIndex b) (readerIndex b)"

definition MyBuffer_writableBytes :: "net_buffer \<Rightarrow> nat" where
  "MyBuffer_writableBytes b = size_sub (length (buffer b)) (writerIndex b)"

definition MyBuffer_prependableBytes :: "net_buffer \<Rightarrow> nat" where
  "MyBuffer_prependableBytes b = readerIndex b"

definition MyBuffer_peek :: "net_buffer \<Rightarrow> nat" where
  "MyBuffer_peek b = readerIndex b"

definition MyBuffer_retrieveAll :: "net_buffer \<Rightarrow> net_buffer" where
  "MyBuffer_retrieveAll b = b\<lparr>readerIndex := kCheapPrepend, writerIndex := kCheapPrepend\<rparr>"

definition MyBuffer_retrieve :: "net_buffer \<Rightarrow> nat \<Rightarrow> net_buffer" where
  "MyBuffer_retrieve b len =
     (if len < MyBuffer_readableBytes b
      then b\<lparr>readerIndex := size_add (readerIndex b) len\<rparr>
      else MyBuffer_retrieveAll b)"

definition MyBuffer_retrieveAsString :: "net_buffer \<Rightarrow> nat \<Rightarrow> (string \<times> net_buffer) res" where
  "MyBuffer_retrieveAsString b len =
     rbind (mem_read (buffer b) (MyBuffer_peek b) len) (\<lambda>result.
       Inr (result, MyBuffer_retrieve b len))"

definition MyBuffer_retrieveAllAsString :: "net_buffer \<Rightarrow> (string \<times> net_buffer) res" where
  "MyBuffer_retrieveAllAsString b = MyBuffer_retrieveAsString b (MyBuffer_readableBytes b)"

definition MyBuffer_makeSpace :: "net_buffer \<Rightarrow> nat \<Rightarrow> net_buffer res" where
  "MyBuffer_makeSpace b len =
     (if size_add (MyBuffer_writableBytes b) (MyBuffer_prependableBytes b) < size_add len kCheapPrepend
      then rbind (vec_resize (size_add (writerIndex b) len) (buffer b)) (\<lambda>st. Inr (b\<lparr>buffer := st\<rparr>))
      else
        (let readable = MyBuffer_readableBytes b in
         rbind (mem_read (buffer b) (readerIndex b) (writerIndex b - readerIndex b)) (\<lambda>d.
         rbind (mem_write (buffer b) kCheapPrepend d) (\<lambda>st.
           Inr (b\<lparr>buffer := st, readerIndex := kCheapPrepend,
                  writerIndex := size_add kCheapPrepend readable\<rparr>)))))"

definition MyBuffer_ensureWritableBytes :: "net_buffer \<Rightarrow> nat \<Rightarrow> net_buffer res" where
  "MyBuffer_ensureWritableBytes b len =
     (if MyBuffer_writableBytes b < len then MyBuffer_makeSpace b len else Inr b)"

definition MyBuffer_append :: "net_buffer \<Rightarrow> char list \<Rightarrow> net_buffer res" where
  "MyBuffer_append b data =
     rbind (MyBuffer_ensureWritableBytes b (length data)) (\<lambda>b1.
     rbind (mem_write (buffer b1) (writerIndex b1) data) (\<lambda>st.
       Inr (b1\<lparr>buffer := st, writerIndex := size_add (writerIndex b1) (length data)\<rparr>)))"

definition MyBuffer_readFd :: "(nat list \<Rightarrow> 'e io_result) \<Rightarrow> net_buffer \<Rightarrow> (int \<times> 'e option \<times> net_buffer) res" where
  "MyBuffer_readFd readv b =
     (let writable = MyBuffer_writableBytes b;
          vec = (if writable < extrabuf_size then [writable, extrabuf_size] else [writable])
      in case readv vec of
           IoErr e \<Rightarrow> Inr (- 1, Some e, b)
         | IoOk d \<Rightarrow>
             (let n = length d; extrabuf = drop writable d in
              rbind (mem_write (buffer b) (writerIndex b) (take writable d)) (\<lambda>st.
                if n \<le> writable
                then Inr (int n, None, b\<lparr>buffer := st, writerIndex := size_add (writerIndex b) n\<rparr>)
                else rbind (MyBuffer_append (b\<lparr>buffer := st, writerIndex := length st\<rparr>) extrabuf)
                       (\<lambda>b'. Inr (int n, None, b')))))"

text \<open>
  \<^verbatim>\<open>writeFd\<close> hands the readable bytes to \<open>write\<close>, which returns an errno or how many bytes it
  took; the buffer does not change.
\<close>

definition MyBuffer_writeFd :: "(char list \<Rightarrow> 'e + nat) \<Rightarrow> net_buffer \<Rightarrow> (int \<times> 'e option) res" where
  "MyBuffer_writeFd write b =
     rbind (mem_read (buffer b) (MyBuffer_peek b) (MyBuffer_readableBytes b)) (\<lambda>d.
       Inr (case write d of Inl e \<Rightarrow> (- 1, Some e) | Inr n \<Rightarrow> (int n, None)))"

section \<open>Agreement with the original\<close>

lemma MyBuffer_sizes:
  "MyBuffer_readableBytes b = Buffer_readableBytes b"
  "MyBuffer_writableBytes b = Buffer_writableBytes b"
  "MyBuffer_prependableBytes b = Buffer_prependableBytes b"
  "MyBuffer_peek b = Buffer_peek b"
  "MyBuffer_retrieveAll b = Buffer_retrieveAll b"
  by (simp_all add: MyBuffer_readableBytes_def Buffer_readableBytes_def MyBuffer_writableBytes_def
      Buffer_writableBytes_def MyBuffer_prependableBytes_def Buffer_prependableBytes_def
      MyBuffer_peek_def Buffer_peek_def MyBuffer_retrieveAll_def Buffer_retrieveAll_def)

lemma MyBuffer_makeSpace_agrees:
  "Buffer_makeSpace b len = Inr b' \<Longrightarrow> MyBuffer_makeSpace b len = Inr b'"
  by (auto simp: Buffer_makeSpace_def MyBuffer_makeSpace_def MyBuffer_sizes Let_def res_elims
      split: if_splits)

lemma MyBuffer_append_agrees:
  "Buffer_append b d = Inr b' \<Longrightarrow> MyBuffer_append b d = Inr b'"
  by (auto simp: Buffer_append_def MyBuffer_append_def Buffer_ensureWritableBytes_def
      MyBuffer_ensureWritableBytes_def Buffer_hasWritten_def Buffer_beginWrite_def MyBuffer_sizes
      res_elims MyBuffer_makeSpace_agrees split: if_splits)

lemma MyBuffer_retrieve_agrees:
  "Buffer_retrieve b n = Inr b' \<Longrightarrow> MyBuffer_retrieve b n = b'"
  by (auto simp: Buffer_retrieve_def MyBuffer_retrieve_def MyBuffer_sizes c_assert_eq_Inr
      split: if_splits)

lemma MyBuffer_readFd_agrees:
  "Buffer_readFd readv b = Inr r \<Longrightarrow> MyBuffer_readFd readv b = Inr r"
  by (auto simp: Buffer_readFd_def MyBuffer_readFd_def readFd_iov_def MyBuffer_sizes Let_def
      res_elims MyBuffer_append_agrees split: io_result.splits if_splits)

interpretation my: byte_queue Buffer_wf Buffer_content Buffer_cap MyBuffer_append
  "\<lambda>b n. Inr (MyBuffer_retrieve b n)"
proof unfold_locales
  fix b and d :: "char list"
  assume "Buffer_wf b" "Buffer_cap b + length d \<le> vec_max"
  from net.append_ok [OF this] show "\<exists>b'. MyBuffer_append b d = Inr b' \<and> Buffer_wf b' \<and>
    Buffer_content b' = Buffer_content b @ d \<and> Buffer_cap b' \<le> Buffer_cap b + length d"
    by (auto dest: MyBuffer_append_agrees)
next
  fix b n
  assume "Buffer_wf b" "n \<le> length (Buffer_content b)"
  from net.retrieve_ok [OF this] show "\<exists>b'. Inr (MyBuffer_retrieve b n) = (Inr b' :: net_buffer res) \<and>
    Buffer_wf b' \<and> Buffer_content b' = drop n (Buffer_content b) \<and> Buffer_cap b' = Buffer_cap b"
    by (auto dest: MyBuffer_retrieve_agrees)
qed

lemma MyBuffer_new_ok:
  assumes "initialSize + kCheapPrepend \<le> vec_max"
  shows "\<exists>b. MyBuffer_new initialSize = Inr b \<and> Buffer_wf b \<and> Buffer_content b = [] \<and>
    length (buffer b) = kInitalSize"
  using assms
  by (auto simp: MyBuffer_new_def vec_resize_def Buffer_unfold vec_max_def kCheapPrepend_def
      kInitalSize_def)

section \<open>Properties\<close>

text \<open>
  The rewrite is a FIFO too: any sequence of \<^verbatim>\<open>append\<close> and \<^verbatim>\<open>retrieve\<close> calls that never
  retrieves more than is readable stays within the storage, keeps the class invariant, and
  conserves the bytes in order.
\<close>

theorem MyBuffer_fifo:
  assumes "Buffer_wf b" and "Buffer_cap b + length (appended ops) \<le> vec_max"
    and "spec_queue (Buffer_content b) ops \<noteq> None"
  shows "\<exists>b'. run_queue MyBuffer_append (\<lambda>b n. Inr (MyBuffer_retrieve b n)) b ops = Inr b' \<and> Buffer_wf b' \<and>
    take (retrieved ops) (Buffer_content b @ appended ops) @ Buffer_content b'
      = Buffer_content b @ appended ops"
  by (rule my.run_conserves [OF assms])

theorem MyBuffer_fifo_witness:
  "\<exists>b'. run_queue MyBuffer_append (\<lambda>b n. Inr (MyBuffer_retrieve b n)) sample_buffer
       [Append ''cdefgh'', Retrieve 5, Append ''ij''] = Inr b' \<and> Buffer_wf b' \<and>
     ''abcde'' @ Buffer_content b' = ''abcdefghij''"
  using MyBuffer_fifo [of sample_buffer "[Append ''cdefgh'', Retrieve 5, Append ''ij'']"]
  by (simp add: sample_buffer_wf sample_buffer_sizes vec_max_def)

text \<open>
  The constructor ignores its argument: whatever initial size is asked for, the buffer has
  \<^verbatim>\<open>kInitalSize - kCheapPrepend\<close> = 1016 writable bytes, where the original has \<open>initialSize\<close>.
\<close>

theorem MyBuffer_new_ignores_initialSize:
  assumes "initialSize + kCheapPrepend \<le> vec_max"
  shows "\<exists>b b'. MyBuffer_new initialSize = Inr b \<and> MyBuffer_writableBytes b = 1016 \<and>
    Buffer_new initialSize = Inr b' \<and> Buffer_writableBytes b' = initialSize"
proof -
  obtain b where b: "MyBuffer_new initialSize = Inr b" "Buffer_wf b" "Buffer_content b = []"
    "length (buffer b) = kInitalSize"
    using MyBuffer_new_ok [OF assms] by blast
  then have "writerIndex b = kCheapPrepend"
    by (auto simp: MyBuffer_new_def res_elims)
  with b have "MyBuffer_writableBytes b = 1016"
    by (simp add: MyBuffer_sizes buffer_simps kInitalSize_def kCheapPrepend_def)
  moreover obtain b' where "Buffer_new initialSize = Inr b'"
    using Buffer_new_ok [OF assms] by blast
  moreover from this have "Buffer_writableBytes b' = initialSize"
    by (auto simp: Buffer_new_def Let_def res_elims)
  ultimately show ?thesis using b(1) by blast
qed

theorem MyBuffer_new_ignores_initialSize_witness:
  "\<exists>b b'. MyBuffer_new 4096 = Inr b \<and> MyBuffer_writableBytes b = 1016 \<and>
    Buffer_new 4096 = Inr b' \<and> Buffer_writableBytes b' = 4096"
  by (rule MyBuffer_new_ignores_initialSize) (simp add: kCheapPrepend_def vec_max_def)

end
