(* ===== verification/Net_Channel.thy ===== *)
theory Net_Channel
  imports Muduo_Prelude
begin

text \<open>
  \<^verbatim>\<open>Channel\<close> of both libraries (\<^verbatim>\<open>muduo/net/Channel.h\<close>, \<^verbatim>\<open>Channel.cc\<close>; \<^verbatim>\<open>myMuduo/Channel.h\<close>,
  \<^verbatim>\<open>Channel.cc\<close>): which events a descriptor waits for, and which callbacks a reported event set
  triggers. A \<^verbatim>\<open>Channel*\<close> is a number naming an object in a heap; the poller that owns the
  descriptor is reached through \<^verbatim>\<open>loop_->updateChannel\<close>, a virtual call, so it is an argument
  \<open>upd\<close> of the operations. Event sets are 32-bit flag words.
\<close>

unbundle bit_operations_syntax

section \<open>Event flags\<close>

definition POLLIN :: "32 word" where "POLLIN = 0x1"
definition POLLPRI :: "32 word" where "POLLPRI = 0x2"
definition POLLOUT :: "32 word" where "POLLOUT = 0x4"
definition POLLERR :: "32 word" where "POLLERR = 0x8"
definition POLLHUP :: "32 word" where "POLLHUP = 0x10"
definition POLLNVAL :: "32 word" where "POLLNVAL = 0x20"
definition POLLRDHUP :: "32 word" where "POLLRDHUP = 0x2000"

lemmas poll_flags = POLLIN_def POLLPRI_def POLLOUT_def POLLERR_def POLLHUP_def POLLNVAL_def
  POLLRDHUP_def

definition kNoneEvent :: "32 word" where
  "kNoneEvent = 0"

definition kReadEvent :: "32 word" where
  "kReadEvent = POLLIN OR POLLPRI"

definition kWriteEvent :: "32 word" where
  "kWriteEvent = POLLOUT"

section \<open>The object\<close>

record channel =
  fd :: int
  events :: "32 word"
  revents :: "32 word"
  index :: int
  logHup :: bool
  tied :: bool
  eventHandling :: bool
  addedToLoop :: bool
  hasRead :: bool
  hasWrite :: bool
  hasClose :: bool
  hasError :: bool

definition Channel_new :: "int \<Rightarrow> channel" where
  "Channel_new fd' = \<lparr>fd = fd', events = 0, revents = 0, index = - 1, logHup = True, tied = False,
     eventHandling = False, addedToLoop = False,
     hasRead = False, hasWrite = False, hasClose = False, hasError = False\<rparr>"

definition Channel_isNoneEvent :: "channel \<Rightarrow> bool" where
  "Channel_isNoneEvent c \<longleftrightarrow> events c = kNoneEvent"

definition Channel_isWriting :: "channel \<Rightarrow> bool" where
  "Channel_isWriting c \<longleftrightarrow> events c AND kWriteEvent \<noteq> 0"

definition Channel_isReading :: "channel \<Rightarrow> bool" where
  "Channel_isReading c \<longleftrightarrow> events c AND kReadEvent \<noteq> 0"

text \<open>A loop's channels live in a heap next to the poller's own state.\<close>

record 'p reactor =
  heap :: "nat \<Rightarrow> channel"
  poller :: 'p

definition upd_chan :: "nat \<Rightarrow> (channel \<Rightarrow> channel) \<Rightarrow> 'p reactor \<Rightarrow> 'p reactor" where
  "upd_chan c f s = s\<lparr>heap := (heap s)(c := f (heap s c))\<rparr>"

lemma heap_upd_chan [simp]: "heap (upd_chan c f s) = (heap s)(c := f (heap s c))"
  and poller_upd_chan [simp]: "poller (upd_chan c f s) = poller s"
  by (simp_all add: upd_chan_def)

section \<open>muduo: interest and registration\<close>

definition Channel_update :: "('p reactor \<Rightarrow> nat \<Rightarrow> 'p reactor res) \<Rightarrow> 'p reactor \<Rightarrow> nat \<Rightarrow> 'p reactor res" where
  "Channel_update upd s c = upd (upd_chan c (addedToLoop_update (\<lambda>_. True)) s) c"

definition set_events :: "32 word \<Rightarrow> channel \<Rightarrow> channel" where
  "set_events ev c = c\<lparr>events := ev\<rparr>"

definition Channel_enableReading :: "('p reactor \<Rightarrow> nat \<Rightarrow> 'p reactor res) \<Rightarrow> 'p reactor \<Rightarrow> nat \<Rightarrow> 'p reactor res" where
  "Channel_enableReading upd s c =
     Channel_update upd (upd_chan c (set_events (events (heap s c) OR kReadEvent)) s) c"

definition Channel_disableReading :: "('p reactor \<Rightarrow> nat \<Rightarrow> 'p reactor res) \<Rightarrow> 'p reactor \<Rightarrow> nat \<Rightarrow> 'p reactor res" where
  "Channel_disableReading upd s c =
     Channel_update upd (upd_chan c (set_events (events (heap s c) AND NOT kReadEvent)) s) c"

definition Channel_enableWriting :: "('p reactor \<Rightarrow> nat \<Rightarrow> 'p reactor res) \<Rightarrow> 'p reactor \<Rightarrow> nat \<Rightarrow> 'p reactor res" where
  "Channel_enableWriting upd s c =
     Channel_update upd (upd_chan c (set_events (events (heap s c) OR kWriteEvent)) s) c"

definition Channel_disableWriting :: "('p reactor \<Rightarrow> nat \<Rightarrow> 'p reactor res) \<Rightarrow> 'p reactor \<Rightarrow> nat \<Rightarrow> 'p reactor res" where
  "Channel_disableWriting upd s c =
     Channel_update upd (upd_chan c (set_events (events (heap s c) AND NOT kWriteEvent)) s) c"

definition Channel_disableAll :: "('p reactor \<Rightarrow> nat \<Rightarrow> 'p reactor res) \<Rightarrow> 'p reactor \<Rightarrow> nat \<Rightarrow> 'p reactor res" where
  "Channel_disableAll upd s c = Channel_update upd (upd_chan c (set_events kNoneEvent) s) c"

definition Channel_remove :: "('p reactor \<Rightarrow> nat \<Rightarrow> 'p reactor res) \<Rightarrow> 'p reactor \<Rightarrow> nat \<Rightarrow> 'p reactor res" where
  "Channel_remove rem s c =
     c_assert (Channel_isNoneEvent (heap s c))
       (rem (upd_chan c (addedToLoop_update (\<lambda>_. False)) s) c)"

text \<open>The destructor only asserts; \<open>hasChannel\<close> is the loop's answer when it runs on the loop's thread.\<close>

definition Channel_delete :: "bool \<Rightarrow> bool \<Rightarrow> channel \<Rightarrow> unit res" where
  "Channel_delete isInLoopThread hasChannel c =
     c_assert (\<not> eventHandling c) (c_assert (\<not> addedToLoop c)
       (if isInLoopThread then c_assert (\<not> hasChannel) (Inr ()) else Inr ()))"

definition Channel_tie :: "channel \<Rightarrow> channel" where
  "Channel_tie c = c\<lparr>tied := True\<rparr>"

definition Channel_setReadCallback :: "channel \<Rightarrow> channel" where
  "Channel_setReadCallback c = c\<lparr>hasRead := True\<rparr>"

definition Channel_setWriteCallback :: "channel \<Rightarrow> channel" where
  "Channel_setWriteCallback c = c\<lparr>hasWrite := True\<rparr>"

definition Channel_setCloseCallback :: "channel \<Rightarrow> channel" where
  "Channel_setCloseCallback c = c\<lparr>hasClose := True\<rparr>"

definition Channel_setErrorCallback :: "channel \<Rightarrow> channel" where
  "Channel_setErrorCallback c = c\<lparr>hasError := True\<rparr>"

definition Channel_set_revents :: "32 word \<Rightarrow> channel \<Rightarrow> channel" where
  "Channel_set_revents revt c = c\<lparr>revents := revt\<rparr>"

definition Channel_set_index :: "int \<Rightarrow> channel \<Rightarrow> channel" where
  "Channel_set_index idx c = c\<lparr>index := idx\<rparr>"

definition Channel_doNotLogHup :: "channel \<Rightarrow> channel" where
  "Channel_doNotLogHup c = c\<lparr>logHup := False\<rparr>"

section \<open>muduo: dispatching\<close>

datatype callback = CloseCallback | ErrorCallback | ReadCallback int | WriteCallback

text \<open>
  The callbacks are user code: \<open>run\<close> is what each of them does to the state. An empty
  \<^verbatim>\<open>std::function\<close> is skipped by the tests of the source. The flags are read again before every
  call, as the source does.
\<close>

definition call_if :: "bool \<Rightarrow> ('s \<Rightarrow> 's res) \<Rightarrow> 's \<Rightarrow> 's res" where
  "call_if b f s = (if b then f s else Inr s)"

definition Channel_handleEventWithGuard ::
  "(callback \<Rightarrow> 'p reactor \<Rightarrow> 'p reactor res) \<Rightarrow> 'p reactor \<Rightarrow> nat \<Rightarrow> int \<Rightarrow> 'p reactor res" where
  "Channel_handleEventWithGuard run s0 c receiveTime =
     rbind (Inr (upd_chan c (eventHandling_update (\<lambda>_. True)) s0)) (\<lambda>s.
     rbind (call_if (revents (heap s c) AND POLLHUP \<noteq> 0 \<and> revents (heap s c) AND POLLIN = 0)
             (call_if (hasClose (heap s c)) (run CloseCallback)) s) (\<lambda>s.
     rbind (call_if (revents (heap s c) AND (POLLERR OR POLLNVAL) \<noteq> 0)
             (call_if (hasError (heap s c)) (run ErrorCallback)) s) (\<lambda>s.
     rbind (call_if (revents (heap s c) AND (POLLIN OR POLLPRI OR POLLRDHUP) \<noteq> 0)
             (call_if (hasRead (heap s c)) (run (ReadCallback receiveTime))) s) (\<lambda>s.
     rbind (call_if (revents (heap s c) AND POLLOUT \<noteq> 0)
             (call_if (hasWrite (heap s c)) (run WriteCallback)) s) (\<lambda>s.
     Inr (upd_chan c (eventHandling_update (\<lambda>_. False)) s))))))"

text \<open>\<open>alive\<close> says whether \<^verbatim>\<open>tie_.lock()\<close> still yields an object.\<close>

definition Channel_handleEvent ::
  "(callback \<Rightarrow> 'p reactor \<Rightarrow> 'p reactor res) \<Rightarrow> bool \<Rightarrow> 'p reactor \<Rightarrow> nat \<Rightarrow> int \<Rightarrow> 'p reactor res" where
  "Channel_handleEvent run alive s c receiveTime =
     (if tied (heap s c)
      then (if alive then Channel_handleEventWithGuard run s c receiveTime else Inr s)
      else Channel_handleEventWithGuard run s c receiveTime)"

definition Channel_eventsToString :: "(int \<Rightarrow> string) \<Rightarrow> int \<Rightarrow> 32 word \<Rightarrow> string" where
  "Channel_eventsToString show_int fd' ev =
     show_int fd' @ '': ''
   @ (if ev AND POLLIN \<noteq> 0 then ''IN '' else '''')
   @ (if ev AND POLLPRI \<noteq> 0 then ''PRI '' else '''')
   @ (if ev AND POLLOUT \<noteq> 0 then ''OUT '' else '''')
   @ (if ev AND POLLHUP \<noteq> 0 then ''HUP '' else '''')
   @ (if ev AND POLLRDHUP \<noteq> 0 then ''RDHUP '' else '''')
   @ (if ev AND POLLERR \<noteq> 0 then ''ERR '' else '''')
   @ (if ev AND POLLNVAL \<noteq> 0 then ''NVAL '' else '''')"

section \<open>myMuduo\<close>

definition MyChannel_update :: "('p reactor \<Rightarrow> nat \<Rightarrow> 'p reactor res) \<Rightarrow> 'p reactor \<Rightarrow> nat \<Rightarrow> 'p reactor res" where
  "MyChannel_update upd s c = upd s c"

definition MyChannel_enableReading :: "('p reactor \<Rightarrow> nat \<Rightarrow> 'p reactor res) \<Rightarrow> 'p reactor \<Rightarrow> nat \<Rightarrow> 'p reactor res" where
  "MyChannel_enableReading upd s c =
     MyChannel_update upd (upd_chan c (set_events (events (heap s c) OR kReadEvent)) s) c"

definition MyChannel_disableReading :: "('p reactor \<Rightarrow> nat \<Rightarrow> 'p reactor res) \<Rightarrow> 'p reactor \<Rightarrow> nat \<Rightarrow> 'p reactor res" where
  "MyChannel_disableReading upd s c =
     MyChannel_update upd (upd_chan c (set_events (events (heap s c) AND NOT kReadEvent)) s) c"

definition MyChannel_enableWriting :: "('p reactor \<Rightarrow> nat \<Rightarrow> 'p reactor res) \<Rightarrow> 'p reactor \<Rightarrow> nat \<Rightarrow> 'p reactor res" where
  "MyChannel_enableWriting upd s c =
     MyChannel_update upd (upd_chan c (set_events (events (heap s c) OR kWriteEvent)) s) c"

text \<open>The source has \<^verbatim>\<open>events_ &= kWriteEvent\<close>, without the complement.\<close>

definition MyChannel_disableWriting :: "('p reactor \<Rightarrow> nat \<Rightarrow> 'p reactor res) \<Rightarrow> 'p reactor \<Rightarrow> nat \<Rightarrow> 'p reactor res" where
  "MyChannel_disableWriting upd s c =
     MyChannel_update upd (upd_chan c (set_events (events (heap s c) AND kWriteEvent)) s) c"

definition MyChannel_disableAll :: "('p reactor \<Rightarrow> nat \<Rightarrow> 'p reactor res) \<Rightarrow> 'p reactor \<Rightarrow> nat \<Rightarrow> 'p reactor res" where
  "MyChannel_disableAll upd s c = MyChannel_update upd (upd_chan c (set_events kNoneEvent) s) c"

definition MyChannel_remove :: "('p reactor \<Rightarrow> nat \<Rightarrow> 'p reactor res) \<Rightarrow> 'p reactor \<Rightarrow> nat \<Rightarrow> 'p reactor res" where
  "MyChannel_remove rem s c = rem s c"

text \<open>Read and write callbacks are called without a test: an empty one throws.\<close>

definition MyChannel_handleEventWithGuard ::
  "(callback \<Rightarrow> 'p reactor \<Rightarrow> 'p reactor res) \<Rightarrow> 'p reactor \<Rightarrow> nat \<Rightarrow> int \<Rightarrow> 'p reactor res" where
  "MyChannel_handleEventWithGuard run s0 c receiveTime =
     rbind (call_if (revents (heap s0 c) AND POLLHUP \<noteq> 0 \<and> revents (heap s0 c) AND POLLIN = 0)
             (call_if (hasClose (heap s0 c)) (run CloseCallback)) s0) (\<lambda>s.
     rbind (call_if (revents (heap s c) AND POLLERR \<noteq> 0)
             (call_if (hasError (heap s c)) (run ErrorCallback)) s) (\<lambda>s.
     rbind (call_if (revents (heap s c) AND (POLLIN OR POLLPRI) \<noteq> 0)
             (\<lambda>s. if hasRead (heap s c) then run (ReadCallback receiveTime) s else Inl NullDeref) s) (\<lambda>s.
     call_if (revents (heap s c) AND POLLOUT \<noteq> 0)
             (\<lambda>s. if hasWrite (heap s c) then run WriteCallback s else Inl NullDeref) s)))"

definition MyChannel_handleEvent ::
  "(callback \<Rightarrow> 'p reactor \<Rightarrow> 'p reactor res) \<Rightarrow> bool \<Rightarrow> 'p reactor \<Rightarrow> nat \<Rightarrow> int \<Rightarrow> 'p reactor res" where
  "MyChannel_handleEvent run alive s c receiveTime =
     (if tied (heap s c)
      then (if alive then MyChannel_handleEventWithGuard run s c receiveTime else Inr s)
      else MyChannel_handleEventWithGuard run s c receiveTime)"

section \<open>Facts about the flags\<close>

lemma kEvent_bits:
  "kReadEvent = 3" "kWriteEvent = 4" "kNoneEvent = 0"
  by (simp_all add: kReadEvent_def kWriteEvent_def kNoneEvent_def poll_flags)

lemma bit_three: "bit (3 :: 32 word) n \<longleftrightarrow> n < 2"
proof -
  have eq: "(3 :: 32 word) = mask 2"
    by (simp add: mask_eq_exp_minus_1)
  show ?thesis
    unfolding eq by (auto simp only: bit_mask_iff possible_bit_word) simp
qed

lemma bit_four: "bit (4 :: 32 word) n \<longleftrightarrow> n = 2"
proof -
  have eq: "(4 :: 32 word) = 2 ^ 2" by simp
  show ?thesis unfolding eq by (simp only: bit_exp_iff possible_bit_word) auto
qed

lemma bit_not_four: "bit (- 5 :: 32 word) n \<longleftrightarrow> n < 32 \<and> n \<noteq> 2"
proof -
  have eq: "(- 5 :: 32 word) = NOT 4" by simp
  show ?thesis unfolding eq by (simp only: bit_not_iff bit_four possible_bit_word) simp
qed

lemma bit_not_three: "bit (- 4 :: 32 word) n \<longleftrightarrow> n < 32 \<and> \<not> n < 2"
proof -
  have eq: "(- 4 :: 32 word) = NOT 3" by simp
  show ?thesis unfolding eq by (simp only: bit_not_iff bit_three possible_bit_word) simp
qed

lemma word_nonzero_bit: "(w :: 32 word) \<noteq> 0 \<longleftrightarrow> (\<exists>n. bit w n)"
  by (metis bit_0_eq bot_apply bot_bool_def bit_eqI)

lemma and_four: "(w :: 32 word) AND 4 \<noteq> 0 \<longleftrightarrow> bit w 2"
  unfolding word_nonzero_bit bit_and_iff bit_four by simp

lemma and_three: "(w :: 32 word) AND 3 \<noteq> 0 \<longleftrightarrow> bit w 0 \<or> bit w 1"
  unfolding word_nonzero_bit bit_and_iff bit_three less_2_cases_iff by auto

lemma isWriting_bit: "Channel_isWriting c \<longleftrightarrow> bit (events c) 2"
  by (simp add: Channel_isWriting_def kEvent_bits and_four)

lemma isReading_bit: "Channel_isReading c \<longleftrightarrow> bit (events c) 0 \<or> bit (events c) 1"
  by (simp only: Channel_isReading_def kEvent_bits and_three)

lemmas event_bits = isWriting_bit isReading_bit bit_and_iff bit_or_iff bit_not_iff kEvent_bits
  bit_three bit_four bit_not_three bit_not_four set_events_def

section \<open>What an event triggers\<close>

text \<open>The specification: the callbacks that are installed and wanted, in a fixed order.\<close>

fun Channel_wants :: "channel \<Rightarrow> callback \<Rightarrow> bool" where
  "Channel_wants c CloseCallback \<longleftrightarrow>
     hasClose c \<and> revents c AND POLLHUP \<noteq> 0 \<and> revents c AND POLLIN = 0"
| "Channel_wants c ErrorCallback \<longleftrightarrow> hasError c \<and> revents c AND (POLLERR OR POLLNVAL) \<noteq> 0"
| "Channel_wants c (ReadCallback t) \<longleftrightarrow> hasRead c \<and> revents c AND (POLLIN OR POLLPRI OR POLLRDHUP) \<noteq> 0"
| "Channel_wants c WriteCallback \<longleftrightarrow> hasWrite c \<and> revents c AND POLLOUT \<noteq> 0"

definition Channel_callbacks :: "channel \<Rightarrow> int \<Rightarrow> callback list" where
  "Channel_callbacks c t =
     filter (Channel_wants c) [CloseCallback, ErrorCallback, ReadCallback t, WriteCallback]"

fun run_all :: "('a \<Rightarrow> 's \<Rightarrow> 's res) \<Rightarrow> 'a list \<Rightarrow> 's \<Rightarrow> 's res" where
  "run_all run [] s = Inr s"
| "run_all run (x # xs) s = rbind (run x s) (run_all run xs)"

text \<open>A callback that runs to its end leaves the reported events and the installed callbacks of
  the channel as they are.\<close>

definition dispatch_view :: "channel \<Rightarrow> 32 word \<times> bool \<times> bool \<times> bool \<times> bool" where
  "dispatch_view c = (revents c, hasRead c, hasWrite c, hasClose c, hasError c)"

definition callbacks_keep :: "(callback \<Rightarrow> 'p reactor \<Rightarrow> 'p reactor res) \<Rightarrow> nat \<Rightarrow> bool" where
  "callbacks_keep run c \<longleftrightarrow>
     (\<forall>cb s s'. run cb s = Inr s' \<longrightarrow> dispatch_view (heap s' c) = dispatch_view (heap s c))"

lemma wants_view: "dispatch_view c = dispatch_view d \<Longrightarrow> Channel_wants c = Channel_wants d"
proof
  fix cb
  assume "dispatch_view c = dispatch_view d"
  then show "Channel_wants c cb = Channel_wants d cb"
    by (cases cb) (auto simp: dispatch_view_def)
qed

lemma run_stage:
  assumes "callbacks_keep run c" and "dispatch_view (heap s c) = dispatch_view d"
    and "r = (if Channel_wants d cb then run cb s else Inr s)"
    and "\<And>s'. dispatch_view (heap s' c) = dispatch_view d \<Longrightarrow>
      k s' = rbind (run_all run (filter (Channel_wants d) cbs) s') j"
  shows "rbind r k = rbind (run_all run (filter (Channel_wants d) (cb # cbs)) s) j"
  using assms by (cases "run cb s") (auto simp: callbacks_keep_def)

lemma run_stage_end:
  "j s = rbind (run_all run (filter p []) s) j"
  by simp

text \<open>The state while the handler runs, and after it.\<close>

definition mark_handling :: "bool \<Rightarrow> nat \<Rightarrow> 'p reactor \<Rightarrow> 'p reactor" where
  "mark_handling b c = upd_chan c (eventHandling_update (\<lambda>_. b))"

lemma view_mark [simp]: "dispatch_view (heap (mark_handling b c s) c) = dispatch_view (heap s c)"
  by (simp add: mark_handling_def dispatch_view_def)

lemma stage_eqs:
  assumes "dispatch_view (heap s c) = dispatch_view d"
  shows "call_if (revents (heap s c) AND POLLHUP \<noteq> 0 \<and> revents (heap s c) AND POLLIN = 0)
      (call_if (hasClose (heap s c)) (run CloseCallback)) s =
      (if Channel_wants d CloseCallback then run CloseCallback s else Inr s)"
    and "call_if (revents (heap s c) AND (POLLERR OR POLLNVAL) \<noteq> 0)
      (call_if (hasError (heap s c)) (run ErrorCallback)) s =
      (if Channel_wants d ErrorCallback then run ErrorCallback s else Inr s)"
    and "call_if (revents (heap s c) AND (POLLIN OR POLLPRI OR POLLRDHUP) \<noteq> 0)
      (call_if (hasRead (heap s c)) (run (ReadCallback t))) s =
      (if Channel_wants d (ReadCallback t) then run (ReadCallback t) s else Inr s)"
    and "call_if (revents (heap s c) AND POLLOUT \<noteq> 0) (call_if (hasWrite (heap s c)) (run WriteCallback)) s =
      (if Channel_wants d WriteCallback then run WriteCallback s else Inr s)"
  using assms by (auto simp: dispatch_view_def call_if_def)

lemma handleEventWithGuard_runs:
  assumes keep: "callbacks_keep run c"
  shows "Channel_handleEventWithGuard run s c t =
    rbind (run_all run (Channel_callbacks (heap s c) t) (mark_handling True c s))
      (\<lambda>s'. Inr (mark_handling False c s'))"
  unfolding Channel_handleEventWithGuard_def Channel_callbacks_def mark_handling_def [symmetric] rbind_simps
  by (intro run_stage [OF keep] run_stage_end stage_eqs) simp_all

text \<open>
  C4. Dispatching an event of a muduo channel runs exactly the installed callbacks the reported
  flags ask for, each once, in the order close, error, read, write, with \<^verbatim>\<open>eventHandling_\<close> set while
  they run and cleared after; a tied channel whose owner is gone runs none. A callback that fails
  stops the dispatch with its failure.
\<close>
theorem Channel_dispatch:
  assumes "callbacks_keep run c"
  shows "Channel_handleEvent run alive s c t =
    (if tied (heap s c) \<and> \<not> alive then Inr s
     else rbind (run_all run (Channel_callbacks (heap s c) t) (mark_handling True c s))
            (\<lambda>s'. Inr (mark_handling False c s')))"
  by (simp add: Channel_handleEvent_def handleEventWithGuard_runs [OF assms])

text \<open>A callback runner that only writes a trace, and a channel that hung up and has an error.\<close>

definition trace_run :: "callback \<Rightarrow> callback list reactor \<Rightarrow> callback list reactor res" where
  "trace_run cb s = Inr (s\<lparr>poller := poller s @ [cb]\<rparr>)"

definition sample_channel :: channel where
  "sample_channel = Channel_set_revents (POLLHUP OR POLLERR OR POLLOUT)
     (Channel_setReadCallback (Channel_setWriteCallback (Channel_setCloseCallback (Channel_setErrorCallback
       (Channel_new 7)))))"

definition sample_reactor :: "callback list reactor" where
  "sample_reactor = \<lparr>heap = (\<lambda>_. sample_channel), poller = []\<rparr>"

lemma trace_run_keeps: "callbacks_keep trace_run c"
  by (simp add: callbacks_keep_def trace_run_def)

lemmas channel_eval = sample_reactor_def sample_channel_def Channel_set_revents_def Channel_new_def
  Channel_setReadCallback_def Channel_setWriteCallback_def Channel_setCloseCallback_def
  Channel_setErrorCallback_def Channel_callbacks_def poll_flags trace_run_def mark_handling_def

theorem Channel_dispatch_witness:
  "map_sum id poller (Channel_handleEvent trace_run True sample_reactor 0 5) =
     Inr [CloseCallback, ErrorCallback, WriteCallback]"
  unfolding Channel_dispatch [OF trace_run_keeps] by (simp add: channel_eval)

text \<open>
  \<^verbatim>\<open>disableWriting\<close> of muduo hands the poller a channel that no longer waits for writability
  and waits for the other events exactly as before.
\<close>
theorem Channel_disableWriting_clears:
  "\<exists>s'. Channel_disableWriting upd s c = upd s' c \<and> poller s' = poller s
     \<and> \<not> Channel_isWriting (heap s' c)
     \<and> (\<forall>n. n \<noteq> 2 \<longrightarrow> bit (events (heap s' c)) n = bit (events (heap s c)) n)
     \<and> (\<forall>d. d \<noteq> c \<longrightarrow> heap s' d = heap s d)"
proof (intro exI conjI)
  let ?s = "upd_chan c (addedToLoop_update (\<lambda>_. True))
    (upd_chan c (set_events (events (heap s c) AND NOT kWriteEvent)) s)"
  show "Channel_disableWriting upd s c = upd ?s c"
    by (simp add: Channel_disableWriting_def Channel_update_def)
  show "\<not> Channel_isWriting (heap ?s c)"
    by (simp add: event_bits)
  show "\<forall>n. n \<noteq> 2 \<longrightarrow> bit (events (heap ?s c)) n = bit (events (heap s c)) n"
    by (auto simp: event_bits simp del: bit_numeral_word_iff bit_neg_numeral_word_iff dest: bit_imp_le_length)
qed simp_all

theorem Channel_disableWriting_clears_witness:
  "\<exists>s'. Channel_disableWriting (\<lambda>s c. Inr s) sample_reactor 0 = Inr s'
     \<and> \<not> Channel_isWriting (heap s' 0) \<and> \<not> bit (events (heap s' 0)) 5"
proof -
  obtain s' where "Channel_disableWriting (\<lambda>s c. Inr s) sample_reactor 0 = Inr s'"
    and "\<not> Channel_isWriting (heap s' 0)"
    and "\<forall>n. n \<noteq> 2 \<longrightarrow> bit (events (heap s' 0)) n = bit (events (heap sample_reactor 0)) n"
    using Channel_disableWriting_clears [of "\<lambda>s c. Inr s" sample_reactor 0] by blast
  then show ?thesis by (simp add: channel_eval)
qed

text \<open>
  \<^verbatim>\<open>disableWriting\<close> of myMuduo does not disable writing: the channel it hands the poller waits
  for writability exactly when it did before, and for nothing else, so reading is lost.
\<close>
theorem MyChannel_disableWriting_wrong:
  "\<exists>s'. MyChannel_disableWriting upd s c = upd s' c
     \<and> Channel_isWriting (heap s' c) = Channel_isWriting (heap s c)
     \<and> (\<forall>n. n \<noteq> 2 \<longrightarrow> \<not> bit (events (heap s' c)) n)"
  by (rule exI [of _ "upd_chan c (set_events (events (heap s c) AND kWriteEvent)) s"])
    (simp add: MyChannel_disableWriting_def MyChannel_update_def event_bits
      del: bit_numeral_word_iff)

theorem MyChannel_disableWriting_wrong_witness:
  "\<exists>s'. MyChannel_disableWriting (\<lambda>s c. Inr s) sample_reactor 0 = Inr s'
     \<and> \<not> bit (events (heap s' 0)) 0"
proof -
  obtain s' where "MyChannel_disableWriting (\<lambda>s c. Inr s) sample_reactor 0 = Inr s'"
    and "\<forall>n. n \<noteq> 2 \<longrightarrow> \<not> bit (events (heap s' 0)) n"
    using MyChannel_disableWriting_wrong [of "\<lambda>s c. Inr s" sample_reactor 0] by blast
  then show ?thesis by auto
qed

lemma and_or_zero: "w AND (a OR b) = 0 \<longleftrightarrow> w AND a = 0 \<and> w AND b = (0 :: 32 word)"
  by (simp add: bit.conj_disj_distrib or_eq_0_iff)

lemma my_stage_eqs:
  assumes "dispatch_view (heap s c) = dispatch_view d" "hasRead d" "hasWrite d"
    "revents d AND (POLLNVAL OR POLLRDHUP) = 0"
  shows "call_if (revents (heap s c) AND POLLERR \<noteq> 0) (call_if (hasError (heap s c)) (run ErrorCallback)) s =
      (if Channel_wants d ErrorCallback then run ErrorCallback s else Inr s)"
    and "call_if (revents (heap s c) AND (POLLIN OR POLLPRI) \<noteq> 0)
      (\<lambda>s. if hasRead (heap s c) then run (ReadCallback t) s else Inl NullDeref) s =
      (if Channel_wants d (ReadCallback t) then run (ReadCallback t) s else Inr s)"
    and "call_if (revents (heap s c) AND POLLOUT \<noteq> 0)
      (\<lambda>s. if hasWrite (heap s c) then run WriteCallback s else Inl NullDeref) s =
      (if Channel_wants d WriteCallback then run WriteCallback s else Inr s)"
  using assms by (auto simp: dispatch_view_def call_if_def and_or_zero)

lemma rbind_Inr [simp]: "rbind r Inr = r"
  by (cases r) simp_all

lemma run_stage_last:
  "r = (if Channel_wants d cb then run cb s else Inr s) \<Longrightarrow>
   r = rbind (run_all run (filter (Channel_wants d) [cb]) s) Inr"
  by (cases "run cb s") simp_all

text \<open>
  On a channel with read and write callbacks installed, and for event sets without POLLNVAL and
  POLLRDHUP, myMuduo dispatches the same callbacks in the same order as muduo.
\<close>
theorem MyChannel_dispatch_agrees:
  assumes keep: "callbacks_keep run c" and cbs: "hasRead (heap s c)" "hasWrite (heap s c)"
    and ev: "revents (heap s c) AND (POLLNVAL OR POLLRDHUP) = 0"
  shows "MyChannel_handleEvent run alive s c t =
    (if tied (heap s c) \<and> \<not> alive then Inr s else run_all run (Channel_callbacks (heap s c) t) s)"
proof -
  have "MyChannel_handleEventWithGuard run s c t =
      rbind (run_all run (Channel_callbacks (heap s c) t) s) Inr"
    unfolding MyChannel_handleEventWithGuard_def Channel_callbacks_def
    by (intro run_stage [OF keep] run_stage_last stage_eqs(1) my_stage_eqs [OF _ cbs ev]) simp_all
  then show ?thesis by (simp add: MyChannel_handleEvent_def)
qed

theorem MyChannel_dispatch_agrees_witness:
  "map_sum id poller (MyChannel_handleEvent trace_run True sample_reactor 0 5) =
     Inr [CloseCallback, ErrorCallback, WriteCallback]"
  using MyChannel_dispatch_agrees [OF trace_run_keeps, of sample_reactor 0 True 5]
  by (simp add: channel_eval)

end
