(* ===== verification/Net_Poller.thy ===== *)
theory Net_Poller
  imports Net_Channel
begin

text \<open>
  The I/O multiplexers: \<^verbatim>\<open>Poller\<close>, \<^verbatim>\<open>EPollPoller\<close> and \<^verbatim>\<open>PollPoller\<close> of muduo, and
  \<^verbatim>\<open>EPollPoller\<close> of myMuduo. A record extension stands for the base class and its subclasses.
  The kernel's interest list of an epoll descriptor is part of the state; \<^verbatim>\<open>epoll_ctl\<close>,
  \<^verbatim>\<open>epoll_wait\<close> and \<^verbatim>\<open>poll\<close> are arguments; the \<^verbatim>\<open>Timestamp\<close> that \<^verbatim>\<open>poll\<close> returns is a clock
  reading and is supplied by the caller of the event loop's model instead. \<open>inLoopThread\<close> is the answer of
  \<^verbatim>\<open>ownerLoop_->isInLoopThread()\<close>; \<^verbatim>\<open>assertInLoopThread\<close> aborts the process when it is false.
  The interface that \<^verbatim>\<open>Channel\<close> and \<^verbatim>\<open>EventLoop\<close> rely on is the locale \<open>multiplexer\<close>, interpreted
  on the three implementations.
\<close>

unbundle bit_operations_syntax

section \<open>State\<close>

record poller_base =
  channels :: "int \<Rightarrow> nat option"
  inLoopThread :: bool

record epoll_poller = poller_base +
  interest :: "int \<Rightarrow> (32 word \<times> nat) option"
  eventsSize :: nat

record pollfd =
  pfd_fd :: int
  pfd_events :: "16 word"
  pfd_revents :: "16 word"

record poll_poller = poller_base +
  pollfds :: "pollfd list"

definition kInitEventListSize :: nat where "kInitEventListSize = 16"
definition kNew :: int where "kNew = - 1"
definition kAdded :: int where "kAdded = 1"
definition kDeleted :: int where "kDeleted = 2"

definition set_poller :: "('p \<Rightarrow> 'p) \<Rightarrow> 'p reactor \<Rightarrow> 'p reactor" where
  "set_poller f s = s\<lparr>poller := f (poller s)\<rparr>"

lemma set_poller_simps [simp]:
  "heap (set_poller f s) = heap s" "poller (set_poller f s) = f (poller s)"
  by (simp_all add: set_poller_def)

definition Poller_assertInLoopThread :: "'z poller_base_scheme reactor \<Rightarrow> 'a res \<Rightarrow> 'a res" where
  "Poller_assertInLoopThread s k = (if inLoopThread (poller s) then k else Inl Exited)"

definition Poller_hasChannel :: "'z poller_base_scheme reactor \<Rightarrow> nat \<Rightarrow> bool res" where
  "Poller_hasChannel s c =
     Poller_assertInLoopThread s (Inr (channels (poller s) (fd (heap s c)) = Some c))"

definition MyPoller_hasChannel :: "'z poller_base_scheme reactor \<Rightarrow> nat \<Rightarrow> bool" where
  "MyPoller_hasChannel s c \<longleftrightarrow> channels (poller s) (fd (heap s c)) = Some c"

section \<open>EPollPoller\<close>

datatype ctl_op = CTL_ADD | CTL_MOD | CTL_DEL

type_synonym interest_list = "int \<Rightarrow> (32 word \<times> nat) option"

text \<open>\<open>epoll_ctl\<close> answers \<open>None\<close> when the system call returns a negative value.\<close>

type_synonym epoll_ctl = "ctl_op \<Rightarrow> int \<Rightarrow> 32 word \<times> nat \<Rightarrow> interest_list \<Rightarrow> interest_list option"

definition EPollPoller_new :: "bool \<Rightarrow> int \<Rightarrow> epoll_poller res" where
  "EPollPoller_new isInLoopThread epollfd =
     (if epollfd < 0 then Inl Exited
      else Inr \<lparr>channels = Map.empty, inLoopThread = isInLoopThread, interest = Map.empty,
             eventsSize = kInitEventListSize\<rparr>)"

definition EPollPoller_update ::
  "epoll_ctl \<Rightarrow> ctl_op \<Rightarrow> epoll_poller reactor \<Rightarrow> nat \<Rightarrow> epoll_poller reactor res" where
  "EPollPoller_update ctl operation s c =
     (case ctl operation (fd (heap s c)) (events (heap s c), c) (interest (poller s)) of
        Some i \<Rightarrow> Inr (set_poller (interest_update (\<lambda>_. i)) s)
      | None \<Rightarrow> if operation = CTL_DEL then Inr s else Inl Exited)"

definition set_idx :: "int \<Rightarrow> nat \<Rightarrow> 'p reactor \<Rightarrow> 'p reactor" where
  "set_idx i c = upd_chan c (Channel_set_index i)"

definition EPollPoller_updateChannel ::
  "epoll_ctl \<Rightarrow> epoll_poller reactor \<Rightarrow> nat \<Rightarrow> epoll_poller reactor res" where
  "EPollPoller_updateChannel ctl s c =
     Poller_assertInLoopThread s
       (let idx = index (heap s c); f = fd (heap s c); chs = channels (poller s) in
        if idx = kNew \<or> idx = kDeleted
        then rbind (if idx = kNew
                    then c_assert (chs f = None) (Inr (set_poller (channels_update (\<lambda>m. m(f \<mapsto> c))) s))
                    else c_assert (chs f \<noteq> None) (c_assert (chs f = Some c) (Inr s)))
               (\<lambda>s. EPollPoller_update ctl CTL_ADD (set_idx kAdded c s) c)
        else c_assert (chs f \<noteq> None) (c_assert (chs f = Some c) (c_assert (idx = kAdded)
               (if Channel_isNoneEvent (heap s c)
                then rbind (EPollPoller_update ctl CTL_DEL s c) (\<lambda>s. Inr (set_idx kDeleted c s))
                else EPollPoller_update ctl CTL_MOD s c))))"

definition EPollPoller_removeChannel ::
  "epoll_ctl \<Rightarrow> epoll_poller reactor \<Rightarrow> nat \<Rightarrow> epoll_poller reactor res" where
  "EPollPoller_removeChannel ctl s c =
     Poller_assertInLoopThread s
       (let f = fd (heap s c); chs = channels (poller s); idx = index (heap s c) in
        c_assert (chs f \<noteq> None) (c_assert (chs f = Some c)
          (c_assert (Channel_isNoneEvent (heap s c)) (c_assert (idx = kAdded \<or> idx = kDeleted)
            (let s1 = set_poller (channels_update (\<lambda>m. m(f := None))) s in
             rbind (if idx = kAdded then EPollPoller_update ctl CTL_DEL s1 c else Inr s1)
               (\<lambda>s2. Inr (set_idx kNew c s2)))))))"

fun EPollPoller_fill ::
  "(32 word \<times> nat) list \<Rightarrow> epoll_poller reactor \<Rightarrow> nat list \<Rightarrow> (epoll_poller reactor \<times> nat list) res" where
  "EPollPoller_fill [] s active = Inr (s, active)"
| "EPollPoller_fill ((ev, c) # es) s active =
     c_assert (channels (poller s) (fd (heap s c)) \<noteq> None)
       (c_assert (channels (poller s) (fd (heap s c)) = Some c)
         (EPollPoller_fill es (upd_chan c (Channel_set_revents ev) s) (active @ [c])))"

definition EPollPoller_fillActiveChannels ::
  "(32 word \<times> nat) list \<Rightarrow> epoll_poller reactor \<Rightarrow> nat list \<Rightarrow> (epoll_poller reactor \<times> nat list) res" where
  "EPollPoller_fillActiveChannels evs s active =
     c_assert (length evs \<le> eventsSize (poller s)) (EPollPoller_fill evs s active)"

text \<open>
  \<open>epoll_wait\<close> gets the interest list and the size of the event array; \<open>WaitErr\<close> carries whether
  \<^verbatim>\<open>errno\<close> is \<^verbatim>\<open>EINTR\<close>. Doubling \<^verbatim>\<open>events_\<close> is done after the channels are filled in.
\<close>

datatype 'e wait_result = WaitErr bool | WaitOk "'e list"

definition EPollPoller_poll ::
  "(interest_list \<Rightarrow> nat \<Rightarrow> (32 word \<times> nat) wait_result) \<Rightarrow> epoll_poller reactor \<Rightarrow> nat list
   \<Rightarrow> (epoll_poller reactor \<times> nat list) res" where
  "EPollPoller_poll epoll_wait s active =
     (case epoll_wait (interest (poller s)) (eventsSize (poller s)) of
        WaitErr eintr \<Rightarrow> Inr (s, active)
      | WaitOk evs \<Rightarrow>
          if evs = [] then Inr (s, active)
          else rbind (EPollPoller_fillActiveChannels evs s active) (\<lambda>(s', active').
            Inr (if length evs = eventsSize (poller s')
                 then set_poller (eventsSize_update (\<lambda>n. n * 2)) s' else s', active')))"

section \<open>PollPoller\<close>

definition PollPoller_new :: "bool \<Rightarrow> poll_poller" where
  "PollPoller_new isInLoopThread =
     \<lparr>channels = Map.empty, inLoopThread = isInLoopThread, pollfds = []\<rparr>"

text \<open>\<^verbatim>\<open>pfd.fd\<close> of an ignored descriptor is \<^verbatim>\<open>-fd-1\<close>.\<close>

definition PollPoller_updateChannel :: "poll_poller reactor \<Rightarrow> nat \<Rightarrow> poll_poller reactor res" where
  "PollPoller_updateChannel s c =
     Poller_assertInLoopThread s
       (let ch = heap s c; f = fd ch; chs = channels (poller s); fds = pollfds (poller s) in
        if index ch < 0
        then c_assert (chs f = None)
          (let fds' = fds @ [\<lparr>pfd_fd = f, pfd_events = ucast (events ch), pfd_revents = 0\<rparr>] in
           Inr (set_poller (channels_update (\<lambda>m. m(f \<mapsto> c)))
             (set_idx (int (length fds') - 1) c (set_poller (pollfds_update (\<lambda>_. fds')) s))))
        else c_assert (chs f \<noteq> None) (c_assert (chs f = Some c)
          (let idx = nat (index ch) in
           c_assert (idx < length fds)
             (c_assert (pfd_fd (fds ! idx) = f \<or> pfd_fd (fds ! idx) = - f - 1)
               (let pfd = \<lparr>pfd_fd = (if Channel_isNoneEvent ch then - f - 1 else f),
                           pfd_events = ucast (events ch), pfd_revents = 0\<rparr>
                in Inr (set_poller (pollfds_update (\<lambda>_. fds[idx := pfd])) s))))))"

definition PollPoller_removeChannel :: "poll_poller reactor \<Rightarrow> nat \<Rightarrow> poll_poller reactor res" where
  "PollPoller_removeChannel s c =
     Poller_assertInLoopThread s
       (let ch = heap s c; f = fd ch; chs = channels (poller s); fds = pollfds (poller s); idx = nat (index ch) in
        c_assert (chs f \<noteq> None) (c_assert (chs f = Some c) (c_assert (Channel_isNoneEvent ch)
          (c_assert (0 \<le> index ch \<and> idx < length fds)
            (c_assert (pfd_fd (fds ! idx) = - f - 1 \<and> scast (pfd_events (fds ! idx)) = events ch)
              (let s1 = set_poller (channels_update (\<lambda>m. m(f := None))) s in
               if idx = length fds - 1
               then Inr (set_poller (pollfds_update butlast) s1)
               else (let atEnd = pfd_fd (last fds);
                         fds' = fds[idx := last fds, length fds - 1 := fds ! idx];
                         channelAtEnd = (if atEnd < 0 then - atEnd - 1 else atEnd) in
                     case channels (poller s1) channelAtEnd of
                       None \<Rightarrow> Inl NullDeref
                     | Some d \<Rightarrow>
                         Inr (set_poller (pollfds_update (\<lambda>_. butlast fds')) (set_idx (int idx) d s1)))))))))"

fun PollPoller_fillActiveChannels ::
  "pollfd list \<Rightarrow> nat \<Rightarrow> poll_poller reactor \<Rightarrow> nat list \<Rightarrow> (poll_poller reactor \<times> nat list) res" where
  "PollPoller_fillActiveChannels [] numEvents s active = Inr (s, active)"
| "PollPoller_fillActiveChannels (p # ps) numEvents s active =
     (if numEvents = 0 then Inr (s, active)
      else if 0 < sint (pfd_revents p)
      then (case channels (poller s) (pfd_fd p) of
              None \<Rightarrow> Inl AssertFailed
            | Some c \<Rightarrow>
                c_assert (fd (heap s c) = pfd_fd p)
                  (PollPoller_fillActiveChannels ps (numEvents - 1)
                     (upd_chan c (Channel_set_revents (scast (pfd_revents p))) s) (active @ [c])))
      else PollPoller_fillActiveChannels ps numEvents s active)"

text \<open>\<^verbatim>\<open>poll\<close> fills in the \<^verbatim>\<open>revents\<close> of every entry and returns how many are not zero.\<close>

definition PollPoller_poll ::
  "(pollfd list \<Rightarrow> (16 word) wait_result) \<Rightarrow> poll_poller reactor \<Rightarrow> nat list
   \<Rightarrow> (poll_poller reactor \<times> nat list) res" where
  "PollPoller_poll poll s active =
     (case poll (pollfds (poller s)) of
        WaitErr eintr \<Rightarrow> Inr (s, active)
      | WaitOk revs \<Rightarrow>
          (let fds = map2 (\<lambda>p r. p\<lparr>pfd_revents := r\<rparr>) (pollfds (poller s)) revs;
               numEvents = length (filter (\<lambda>r. r \<noteq> 0) revs);
               s' = set_poller (pollfds_update (\<lambda>_. fds)) s in
           if 0 < numEvents then PollPoller_fillActiveChannels fds numEvents s' active
           else Inr (s', active)))"

definition newDefaultPoller :: "bool \<Rightarrow> bool \<Rightarrow> int \<Rightarrow> (poll_poller + epoll_poller) res" where
  "newDefaultPoller muduo_use_poll isInLoopThread epollfd =
     (if muduo_use_poll then Inr (Inl (PollPoller_new isInLoopThread))
      else rbind (EPollPoller_new isInLoopThread epollfd) (\<lambda>p. Inr (Inr p)))"

section \<open>myMuduo\<close>

text \<open>
  No assertions and no thread check. Its log macros end the process on \<^verbatim>\<open>LOG_ERROR\<close> and return
  from \<^verbatim>\<open>LOG_FATAL\<close>, so a failed removal ends the process and a failed registration is ignored.
\<close>

definition MyEPollPoller_new :: "bool \<Rightarrow> int \<Rightarrow> epoll_poller" where
  "MyEPollPoller_new isInLoopThread epollfd =
     \<lparr>channels = Map.empty, inLoopThread = isInLoopThread, interest = Map.empty,
      eventsSize = kInitEventListSize\<rparr>"

definition MyEPollPoller_update ::
  "epoll_ctl \<Rightarrow> ctl_op \<Rightarrow> epoll_poller reactor \<Rightarrow> nat \<Rightarrow> epoll_poller reactor res" where
  "MyEPollPoller_update ctl operation s c =
     (case ctl operation (fd (heap s c)) (events (heap s c), c) (interest (poller s)) of
        Some i \<Rightarrow> Inr (set_poller (interest_update (\<lambda>_. i)) s)
      | None \<Rightarrow> if operation = CTL_DEL then Inl Exited else Inr s)"

definition MyEPollPoller_updateChannel ::
  "epoll_ctl \<Rightarrow> epoll_poller reactor \<Rightarrow> nat \<Rightarrow> epoll_poller reactor res" where
  "MyEPollPoller_updateChannel ctl s c =
     (let idx = index (heap s c); f = fd (heap s c) in
      if idx = kNew \<or> idx = kDeleted
      then (let s1 = (if idx = kNew then set_poller (channels_update (\<lambda>m. m(f \<mapsto> c))) s else s)
            in MyEPollPoller_update ctl CTL_ADD (set_idx kAdded c s1) c)
      else if Channel_isNoneEvent (heap s c)
      then rbind (MyEPollPoller_update ctl CTL_DEL s c) (\<lambda>s. Inr (set_idx kDeleted c s))
      else MyEPollPoller_update ctl CTL_MOD s c)"

definition MyEPollPoller_removeChannel ::
  "epoll_ctl \<Rightarrow> epoll_poller reactor \<Rightarrow> nat \<Rightarrow> epoll_poller reactor res" where
  "MyEPollPoller_removeChannel ctl s c =
     (let idx = index (heap s c); f = fd (heap s c);
          s1 = set_poller (channels_update (\<lambda>m. m(f := None))) s in
      rbind (if idx = kAdded then MyEPollPoller_update ctl CTL_DEL s1 c else Inr s1)
        (\<lambda>s2. Inr (set_idx kNew c s2)))"

fun MyEPollPoller_fillActiveChannels ::
  "(32 word \<times> nat) list \<Rightarrow> epoll_poller reactor \<Rightarrow> nat list \<Rightarrow> epoll_poller reactor \<times> nat list" where
  "MyEPollPoller_fillActiveChannels [] s active = (s, active)"
| "MyEPollPoller_fillActiveChannels ((ev, c) # es) s active =
     MyEPollPoller_fillActiveChannels es (upd_chan c (Channel_set_revents ev) s) (active @ [c])"

definition MyEPollPoller_poll ::
  "(interest_list \<Rightarrow> nat \<Rightarrow> (32 word \<times> nat) wait_result) \<Rightarrow> epoll_poller reactor \<Rightarrow> nat list
   \<Rightarrow> (epoll_poller reactor \<times> nat list) res" where
  "MyEPollPoller_poll epoll_wait s active =
     (case epoll_wait (interest (poller s)) (eventsSize (poller s)) of
        WaitErr eintr \<Rightarrow> if eintr then Inr (s, active) else Inl Exited
      | WaitOk evs \<Rightarrow>
          if evs = [] then Inr (s, active)
          else (let (s', active') = MyEPollPoller_fillActiveChannels evs s active in
            Inr (if length evs = eventsSize (poller s')
                 then set_poller (eventsSize_update (\<lambda>n. n * 2)) s' else s', active')))"

definition MyNewDefaultPoller :: "bool \<Rightarrow> bool \<Rightarrow> int \<Rightarrow> epoll_poller option" where
  "MyNewDefaultPoller muduo_use_poll isInLoopThread epollfd =
     (if muduo_use_poll then None else Some (MyEPollPoller_new isInLoopThread epollfd))"

section \<open>The interface\<close>

text \<open>
  What the rest of the library relies on: a channel can be updated as long as its descriptor is
  not taken by another channel, the multiplexer then watches the channel's events, and a channel
  without interest can be removed. \<open>keeps_id\<close> marks the changes to a channel that its own
  methods make before they call the loop.
\<close>

definition keeps_id :: "(channel \<Rightarrow> channel) \<Rightarrow> bool" where
  "keeps_id f \<longleftrightarrow> (\<forall>c. fd (f c) = fd c \<and> index (f c) = index c)"

definition same_but_index :: "(nat \<Rightarrow> channel) \<Rightarrow> (nat \<Rightarrow> channel) \<Rightarrow> bool" where
  "same_but_index h h' \<longleftrightarrow> (\<forall>d. (h' d)\<lparr>index := 0\<rparr> = (h d)\<lparr>index := 0\<rparr>)"

lemma same_but_index_refl [simp]: "same_but_index h h"
  by (simp add: same_but_index_def)

lemma same_but_indexD:
  assumes "same_but_index h h'"
  shows "fd (h' d) = fd (h d)" "events (h' d) = events (h d)" "addedToLoop (h' d) = addedToLoop (h d)"
proof -
  have eq: "(h' d)\<lparr>index := 0\<rparr> = (h d)\<lparr>index := 0\<rparr>"
    using assms by (simp add: same_but_index_def)
  show "fd (h' d) = fd (h d)" "events (h' d) = events (h d)" "addedToLoop (h' d) = addedToLoop (h d)"
    using arg_cong [OF eq, of fd] arg_cong [OF eq, of events] arg_cong [OF eq, of addedToLoop] by simp_all
qed

lemma same_but_index_set [simp]: "same_but_index h (h(c := (h c)\<lparr>index := i\<rparr>))"
  by (simp add: same_but_index_def)

definition watch_of :: "(nat \<Rightarrow> channel) \<Rightarrow> (int \<Rightarrow> nat option) \<Rightarrow> int \<Rightarrow> 32 word" where
  "watch_of h reg f = (case reg f of None \<Rightarrow> 0 | Some c \<Rightarrow> events (h c))"

text \<open>The methods of \<^verbatim>\<open>Channel\<close> a client calls, and what they mean for the watched events: \<open>None\<close>
  stands for a channel that is not registered.\<close>

datatype chan_op = EnableReading | DisableReading | EnableWriting | DisableWriting | DisableAll | Remove

fun Channel_op :: "('p reactor \<Rightarrow> nat \<Rightarrow> 'p reactor res) \<Rightarrow> ('p reactor \<Rightarrow> nat \<Rightarrow> 'p reactor res) \<Rightarrow> nat
    \<Rightarrow> chan_op \<Rightarrow> 'p reactor \<Rightarrow> 'p reactor res" where
  "Channel_op upd rem c EnableReading s = Channel_enableReading upd s c"
| "Channel_op upd rem c DisableReading s = Channel_disableReading upd s c"
| "Channel_op upd rem c EnableWriting s = Channel_enableWriting upd s c"
| "Channel_op upd rem c DisableWriting s = Channel_disableWriting upd s c"
| "Channel_op upd rem c DisableAll s = Channel_disableAll upd s c"
| "Channel_op upd rem c Remove s = Channel_remove rem s c"

fun new_events :: "chan_op \<Rightarrow> 32 word \<Rightarrow> 32 word" where
  "new_events EnableReading e = e OR kReadEvent"
| "new_events DisableReading e = e AND NOT kReadEvent"
| "new_events EnableWriting e = e OR kWriteEvent"
| "new_events DisableWriting e = e AND NOT kWriteEvent"
| "new_events DisableAll e = kNoneEvent"
| "new_events Remove e = e"

definition state_events :: "32 word option \<Rightarrow> 32 word" where
  "state_events w = (case w of None \<Rightarrow> 0 | Some e \<Rightarrow> e)"

definition spec_chan :: "chan_op \<Rightarrow> 32 word option \<Rightarrow> 32 word option" where
  "spec_chan op w = (if op = Remove then None else Some (new_events op (state_events w)))"

text \<open>A first registration asks for some event; only a registered channel without interest is removed,
  and nothing is asked of a removed channel.\<close>

fun legal_ops :: "chan_op list \<Rightarrow> 32 word option \<Rightarrow> bool" where
  "legal_ops [] w \<longleftrightarrow> True"
| "legal_ops (op # ops) w \<longleftrightarrow>
     (if op = Remove then w = Some 0 \<and> ops = []
      else (w \<noteq> None \<or> new_events op 0 \<noteq> 0) \<and> legal_ops ops (spec_chan op w))"

lemma word_le_7_iff: "(w :: 32 word) \<le> 7 \<longleftrightarrow> (\<forall>n \<ge> 3. \<not> bit w n)"
proof -
  have "w \<le> 7 \<longleftrightarrow> unat w < 2 ^ 3" by (auto simp: word_le_nat_alt)
  also have "\<dots> \<longleftrightarrow> take_bit 3 w = w"
    by (metis take_bit_nat_eq_self_iff unsigned_take_bit_eq unsigned_word_eqI)
  also have "\<dots> \<longleftrightarrow> (\<forall>n \<ge> 3. \<not> bit w n)"
    by (metis bit_eqI bit_take_bit_iff leD not_le)
  finally show ?thesis .
qed

lemma new_events_le: "e \<le> 7 \<Longrightarrow> new_events op e \<le> 7"
  by (cases op) (simp_all add: word_le_7_iff event_bits del: bit_numeral_word_iff bit_neg_numeral_word_iff)

definition chan_state :: "'p reactor \<Rightarrow> (int \<Rightarrow> nat option) \<Rightarrow> nat \<Rightarrow> 32 word option \<Rightarrow> bool" where
  "chan_state s reg c w \<longleftrightarrow> 0 \<le> fd (heap s c) \<and> events (heap s c) = state_events w \<and> state_events w \<le> 7 \<and>
     (if w = None then reg (fd (heap s c)) = None \<and> index (heap s c) < 0 else reg (fd (heap s c)) = Some c)"

locale multiplexer =
  fixes upd rem :: "'p reactor \<Rightarrow> nat \<Rightarrow> 'p reactor res"
    and ok :: "'p reactor \<Rightarrow> bool"
    and reg :: "'p reactor \<Rightarrow> int \<Rightarrow> nat option"
    and watched :: "'p reactor \<Rightarrow> int \<Rightarrow> 32 word"
  assumes upd_ok: "ok s \<Longrightarrow> 0 \<le> fd (heap s c) \<Longrightarrow> keeps_id f \<Longrightarrow> events (f (heap s c)) \<le> 7 \<Longrightarrow>
      reg s (fd (heap s c)) = Some c \<or>
        reg s (fd (heap s c)) = None \<and> index (heap s c) < 0 \<and> events (f (heap s c)) \<noteq> 0 \<Longrightarrow>
      \<exists>s'. upd (upd_chan c f s) c = Inr s' \<and> ok s' \<and> reg s' = (reg s)(fd (heap s c) \<mapsto> c)
        \<and> same_but_index (heap (upd_chan c f s)) (heap s')"
    and rem_ok: "ok s \<Longrightarrow> reg s (fd (heap s c)) = Some c \<Longrightarrow> events (heap s c) = 0 \<Longrightarrow> keeps_id f \<Longrightarrow>
      events (f (heap s c)) = 0 \<Longrightarrow>
      \<exists>s'. rem (upd_chan c f s) c = Inr s' \<and> ok s' \<and> reg s' = (reg s)(fd (heap s c) := None)
        \<and> same_but_index (heap (upd_chan c f s)) (heap s')"
    and watched_ok: "ok s \<Longrightarrow> watched s = watch_of (heap s) (reg s)"
    and reg_fd: "ok s \<Longrightarrow> reg s n = Some c \<Longrightarrow> fd (heap s c) = n"
begin

lemma upd_watches:
  assumes "ok s" "0 \<le> fd (heap s c)" "keeps_id f" "events (f (heap s c)) \<le> 7"
    "reg s (fd (heap s c)) = Some c \<or>
      reg s (fd (heap s c)) = None \<and> index (heap s c) < 0 \<and> events (f (heap s c)) \<noteq> 0"
  shows "\<exists>s'. upd (upd_chan c f s) c = Inr s' \<and> ok s' \<and> reg s' = (reg s)(fd (heap s c) \<mapsto> c)
    \<and> watched s' = (watched s)(fd (heap s c) := events (f (heap s c)))
    \<and> (\<forall>d. fd (heap s' d) = fd (heap s d)) \<and> events (heap s' c) = events (f (heap s c))"
proof -
  obtain s' where s': "upd (upd_chan c f s) c = Inr s'" "ok s'" "reg s' = (reg s)(fd (heap s c) \<mapsto> c)"
    and h: "same_but_index (heap (upd_chan c f s)) (heap s')"
    using upd_ok [OF assms] by blast
  have fds: "fd (heap s' d) = fd (heap s d)" for d
    using same_but_indexD(1) [OF h, of d] assms(3) by (simp add: keeps_id_def)
  have ev: "events (heap s' d) = (if d = c then events (f (heap s c)) else events (heap s d))" for d
    using same_but_indexD(2) [OF h, of d] by simp
  have "watched s' g = ((watched s)(fd (heap s c) := events (f (heap s c)))) g" for g
  proof (cases "g = fd (heap s c)")
    case False
    then have "reg s g \<noteq> Some c" using reg_fd [OF assms(1), of g c] by auto
    with False show ?thesis
      by (auto simp: watched_ok s'(2) assms(1) watch_of_def s'(3) ev split: option.splits)
  qed (simp add: watched_ok s'(2) watch_of_def s'(3) ev)
  then show ?thesis using s' fds ev by auto
qed

lemma rem_forgets:
  assumes "ok s" "reg s (fd (heap s c)) = Some c" "events (heap s c) = 0" "keeps_id f"
    "events (f (heap s c)) = 0"
  shows "\<exists>s'. rem (upd_chan c f s) c = Inr s' \<and> ok s' \<and> reg s' = (reg s)(fd (heap s c) := None)
    \<and> watched s' = watched s \<and> (\<forall>d. fd (heap s' d) = fd (heap s d)) \<and> events (heap s' c) = 0"
proof -
  obtain s' where s': "rem (upd_chan c f s) c = Inr s'" "ok s'" "reg s' = (reg s)(fd (heap s c) := None)"
    and h: "same_but_index (heap (upd_chan c f s)) (heap s')"
    using rem_ok [OF assms] by blast
  have fds: "fd (heap s' d) = fd (heap s d)" for d
    using same_but_indexD(1) [OF h, of d] assms(4) by (simp add: keeps_id_def)
  have ev: "events (heap s' d) = events (heap s d)" for d
    using same_but_indexD(2) [OF h, of d] assms(3,5) by simp
  have "watched s' = watched s"
    by (auto simp: fun_eq_iff watched_ok s'(2) assms(1-3) watch_of_def s'(3) ev split: option.splits)
  then show ?thesis using s' fds ev assms(3) by auto
qed

lemma op_refines:
  assumes "ok s" "chan_state s (reg s) c w" "legal_ops [op] w"
  shows "\<exists>s'. Channel_op upd rem c op s = Inr s' \<and> ok s' \<and> (op \<noteq> Remove \<longrightarrow> chan_state s' (reg s') c (spec_chan op w))
    \<and> reg s' = (reg s)(fd (heap s c) := if op = Remove then None else Some c)
    \<and> watched s' = (watched s)(fd (heap s c) := state_events (spec_chan op w))
    \<and> fd (heap s' c) = fd (heap s c)"
proof (cases "op = Remove")
  case False
  let ?f = "\<lambda>ch. (set_events (new_events op (events (heap s c))) ch)\<lparr>addedToLoop := True\<rparr>"
  have id: "keeps_id ?f" by (simp add: keeps_id_def set_events_def)
  have eq: "Channel_op upd rem c op s = upd (upd_chan c ?f s) c"
    using False by (cases op) (simp_all add: Channel_enableReading_def Channel_disableReading_def
      Channel_enableWriting_def Channel_disableWriting_def Channel_disableAll_def Channel_update_def upd_chan_def)
  have ev: "events (?f (heap s c)) = state_events (spec_chan op w)"
    using assms(2) False by (simp add: set_events_def chan_state_def spec_chan_def state_events_def)
  have "state_events (spec_chan op w) \<le> 7"
    using assms(2) new_events_le False by (auto simp: chan_state_def spec_chan_def state_events_def)
  then obtain s' where "upd (upd_chan c ?f s) c = Inr s'" "ok s'" "reg s' = (reg s)(fd (heap s c) \<mapsto> c)"
      "watched s' = (watched s)(fd (heap s c) := state_events (spec_chan op w))"
      "\<forall>d. fd (heap s' d) = fd (heap s d)" "events (heap s' c) = state_events (spec_chan op w)"
    using upd_watches [OF assms(1) _ id, of c] assms(2,3) False ev
    by (auto simp: chan_state_def spec_chan_def state_events_def split: option.splits)
  then show ?thesis
    using assms(2) False \<open>state_events (spec_chan op w) \<le> 7\<close>
    by (auto simp: eq chan_state_def spec_chan_def state_events_def)
next
  case True
  let ?f = "addedToLoop_update (\<lambda>_. False)"
  have id: "keeps_id ?f" by (simp add: keeps_id_def)
  have w: "w = Some 0" using assms(3) True by simp
  have none: "Channel_isNoneEvent (heap s c)"
    using assms(2) w by (simp add: Channel_isNoneEvent_def chan_state_def state_events_def kNoneEvent_def)
  have zero: "watched s (fd (heap s c)) = 0"
    using assms(2) w by (simp add: watched_ok [OF assms(1)] watch_of_def chan_state_def state_events_def)
  obtain s' where "rem (upd_chan c ?f s) c = Inr s'" "ok s'" "reg s' = (reg s)(fd (heap s c) := None)"
      "watched s' = watched s" "\<forall>d. fd (heap s' d) = fd (heap s d)" "events (heap s' c) = 0"
    using rem_forgets [OF assms(1) _ _ id, of c] assms(2) w by (auto simp: chan_state_def state_events_def)
  then show ?thesis
    using assms(2) w True none zero
    by (auto simp: Channel_remove_def chan_state_def spec_chan_def state_events_def fun_eq_iff)
qed

lemma ops_refine:
  assumes "ok s" "chan_state s (reg s) c w" "legal_ops ops w"
  shows "\<exists>s'. run_all (Channel_op upd rem c) ops s = Inr s' \<and> ok s'
    \<and> reg s' = (reg s)(fd (heap s c) := if fold spec_chan ops w = None then None else Some c)
    \<and> watched s' = (watched s)(fd (heap s c) := state_events (fold spec_chan ops w))"
  using assms
proof (induction ops arbitrary: s w)
  case Nil
  then have "watched s (fd (heap s c)) = state_events w"
    by (auto simp: watched_ok watch_of_def chan_state_def state_events_def split: option.splits)
  with Nil show ?case by (auto simp: fun_eq_iff chan_state_def)
next
  case (Cons op ops)
  then obtain s1 where s1: "Channel_op upd rem c op s = Inr s1" "ok s1"
      "op \<noteq> Remove \<longrightarrow> chan_state s1 (reg s1) c (spec_chan op w)"
      "reg s1 = (reg s)(fd (heap s c) := if op = Remove then None else Some c)"
      "watched s1 = (watched s)(fd (heap s c) := state_events (spec_chan op w))"
      "fd (heap s1 c) = fd (heap s c)"
    using op_refines [of s c w op] by (auto split: if_splits)
  show ?case
  proof (cases "op = Remove")
    case True
    with Cons.prems(3) s1 show ?thesis by (auto simp: spec_chan_def)
  next
    case False
    have legal: "legal_ops ops (spec_chan op w)" using Cons.prems(3) False by simp
    have st: "chan_state s1 (reg s1) c (spec_chan op w)" using s1(3) False by blast
    obtain s' where "run_all (Channel_op upd rem c) ops s1 = Inr s'" "ok s'"
        "reg s' = (reg s1)(fd (heap s1 c) := if fold spec_chan (op # ops) w = None then None else Some c)"
        "watched s' = (watched s1)(fd (heap s1 c) := state_events (fold spec_chan (op # ops) w))"
      unfolding fold_simps using Cons.IH [OF s1(2) st legal] by blast
    with s1 show ?thesis by (simp add: fun_eq_iff)
  qed
qed

end

end
