(* ===== verification/Poller_Laws.thy ===== *)
theory Poller_Laws
  imports Net_Poller
begin

text \<open>
  The three multiplexers meet the interface \<open>multiplexer\<close>: \<^verbatim>\<open>EPollPoller\<close> of muduo and of myMuduo
  for every \<^verbatim>\<open>epoll_ctl\<close> that succeeds where its manual page says so, \<^verbatim>\<open>PollPoller\<close> with its swap of
  the removed entry with the last one. The properties of registration and of polling follow.
\<close>

section \<open>EPollPoller\<close>

text \<open>
  Documented behaviour of \<^verbatim>\<open>epoll_ctl(2)\<close> on an open descriptor: ADD succeeds on a descriptor that is
  not in the interest list, MOD and DEL on one that is.
\<close>

definition epoll_ctl_contract :: "epoll_ctl \<Rightarrow> bool" where
  "epoll_ctl_contract ctl \<longleftrightarrow> (\<forall>f ev i.
     (i f = None \<longrightarrow> ctl CTL_ADD f ev i = Some (i(f \<mapsto> ev))) \<and>
     (i f \<noteq> None \<longrightarrow> ctl CTL_MOD f ev i = Some (i(f \<mapsto> ev))) \<and>
     (i f \<noteq> None \<longrightarrow> ctl CTL_DEL f ev i = Some (i(f := None))))"

definition ctl_doc :: epoll_ctl where
  "ctl_doc op f ev i =
     (case op of
        CTL_ADD \<Rightarrow> if i f = None then Some (i(f \<mapsto> ev)) else None
      | CTL_MOD \<Rightarrow> if i f \<noteq> None then Some (i(f \<mapsto> ev)) else None
      | CTL_DEL \<Rightarrow> if i f \<noteq> None then Some (i(f := None)) else None)"

lemma ctl_doc_contract: "epoll_ctl_contract ctl_doc"
  by (simp add: epoll_ctl_contract_def ctl_doc_def)

definition EPoll_ok :: "epoll_poller reactor \<Rightarrow> bool" where
  "EPoll_ok s \<longleftrightarrow> inLoopThread (poller s) \<and>
     (\<forall>n c. channels (poller s) n = Some c \<longrightarrow> fd (heap s c) = n \<and> index (heap s c) \<in> {kAdded, kDeleted}) \<and>
     (\<forall>c. index (heap s c) \<noteq> kNew \<longrightarrow> channels (poller s) (fd (heap s c)) = Some c) \<and>
     (\<forall>n. interest (poller s) n = (case channels (poller s) n of None \<Rightarrow> None
        | Some c \<Rightarrow> if index (heap s c) = kAdded then Some (events (heap s c), c) else None)) \<and>
     (\<forall>n c. channels (poller s) n = Some c \<and> index (heap s c) = kDeleted \<longrightarrow> events (heap s c) = 0)"

definition EPoll_reg :: "epoll_poller reactor \<Rightarrow> int \<Rightarrow> nat option" where
  "EPoll_reg s = channels (poller s)"

text \<open>The events the kernel watches for a descriptor.\<close>

definition EPoll_watched :: "epoll_poller reactor \<Rightarrow> int \<Rightarrow> 32 word" where
  "EPoll_watched s n = (case interest (poller s) n of None \<Rightarrow> 0 | Some (ev, c) \<Rightarrow> ev)"

lemma index_consts [simp]: "kAdded \<noteq> kNew" "kAdded \<noteq> kDeleted" "kDeleted \<noteq> kNew"
  "kNew \<noteq> kAdded" "kDeleted \<noteq> kAdded" "kNew \<noteq> kDeleted"
  by (simp_all add: kAdded_def kNew_def kDeleted_def)

lemma EPoll_okD:
  assumes "EPoll_ok s"
  shows "inLoopThread (poller s)"
    and "channels (poller s) n = Some c \<Longrightarrow> fd (heap s c) = n \<and> index (heap s c) \<in> {kAdded, kDeleted}"
    and "index (heap s c) \<noteq> kNew \<Longrightarrow> channels (poller s) (fd (heap s c)) = Some c"
    and "interest (poller s) n = (case channels (poller s) n of None \<Rightarrow> None
        | Some c \<Rightarrow> if index (heap s c) = kAdded then Some (events (heap s c), c) else None)"
    and "channels (poller s) n = Some c \<Longrightarrow> index (heap s c) = kDeleted \<Longrightarrow> events (heap s c) = 0"
  using assms unfolding EPoll_ok_def by blast+

lemma EPoll_watched_eq: "EPoll_ok s \<Longrightarrow> EPoll_watched s = watch_of (heap s) (EPoll_reg s)"
  using EPoll_okD(2,5) by (fastforce simp: fun_eq_iff EPoll_watched_def watch_of_def EPoll_reg_def EPoll_okD(4)
      split: option.splits)

text \<open>The state after registering, modifying or dropping channel \<open>c\<close>, whose fields are changed by \<open>f\<close>.\<close>

definition EPoll_put :: "(channel \<Rightarrow> channel) \<Rightarrow> int \<Rightarrow> nat \<Rightarrow> epoll_poller reactor \<Rightarrow> epoll_poller reactor" where
  "EPoll_put f idx c s =
     (let n = fd (heap s c) in
      s\<lparr>heap := (heap s)(c := (f (heap s c))\<lparr>index := idx\<rparr>),
        poller := (poller s)\<lparr>channels := (channels (poller s))(n := if idx = kNew then None else Some c),
          interest := (interest (poller s))(n := if idx = kAdded then Some (events (f (heap s c)), c) else None)\<rparr>\<rparr>)"

lemma EPoll_put_simps:
  "heap (EPoll_put f idx c s) d = (if d = c then (f (heap s c))\<lparr>index := idx\<rparr> else heap s d)"
  "channels (poller (EPoll_put f idx c s)) n =
     (if n = fd (heap s c) then (if idx = kNew then None else Some c) else channels (poller s) n)"
  "interest (poller (EPoll_put f idx c s)) n =
     (if n = fd (heap s c) then (if idx = kAdded then Some (events (f (heap s c)), c) else None)
      else interest (poller s) n)"
  "inLoopThread (poller (EPoll_put f idx c s)) = inLoopThread (poller s)"
  by (simp_all add: EPoll_put_def Let_def)

lemma EPoll_put_ok:
  assumes ok: "EPoll_ok s" and f: "keeps_id f" and idx: "idx \<in> {kNew, kAdded, kDeleted}"
    and del: "idx = kDeleted \<longrightarrow> events (f (heap s c)) = 0"
    and free: "channels (poller s) (fd (heap s c)) \<in> {None, Some c}"
  shows "EPoll_ok (EPoll_put f idx c s)"
proof -
  have id: "fd (f ch) = fd ch" for ch using f by (simp add: keeps_id_def)
  have own: "channels (poller s) n = Some c \<Longrightarrow> n = fd (heap s c)" for n
    using EPoll_okD(2) [OF ok, of n c] by simp
  have other: "fd (heap s d) \<noteq> fd (heap s c)" if "index (heap s d) \<noteq> kNew" "d \<noteq> c" for d
    using EPoll_okD(3) [OF ok that(1)] free that(2) by auto
  have 1: "fd (heap (EPoll_put f idx c s) d) = n \<and> index (heap (EPoll_put f idx c s) d) \<in> {kAdded, kDeleted}"
    if "channels (poller (EPoll_put f idx c s)) n = Some d" for n d
  proof (cases "n = fd (heap s c)")
    case True
    with that have "d = c" "idx \<noteq> kNew" by (simp_all add: EPoll_put_simps split: if_splits)
    with True idx show ?thesis by (simp add: EPoll_put_simps id)
  next
    case False
    with that have d: "channels (poller s) n = Some d" by (simp add: EPoll_put_simps)
    with False own [of n] have "d \<noteq> c" by auto
    then show ?thesis using EPoll_okD(2) [OF ok d] by (simp add: EPoll_put_simps)
  qed
  have 2: "channels (poller (EPoll_put f idx c s)) (fd (heap (EPoll_put f idx c s) d)) = Some d"
    if "index (heap (EPoll_put f idx c s) d) \<noteq> kNew" for d
    using that EPoll_okD(3) [OF ok, of d] other [of d] by (auto simp: EPoll_put_simps id split: if_splits)
  have 3: "interest (poller (EPoll_put f idx c s)) n = (case channels (poller (EPoll_put f idx c s)) n of
      None \<Rightarrow> None | Some d \<Rightarrow> if index (heap (EPoll_put f idx c s) d) = kAdded
        then Some (events (heap (EPoll_put f idx c s) d), d) else None)" for n
    using own [of n] by (auto simp: EPoll_put_simps EPoll_okD(4) [OF ok, of n] split: option.split)
  have 4: "events (heap (EPoll_put f idx c s) d) = 0"
    if "channels (poller (EPoll_put f idx c s)) n = Some d \<and> index (heap (EPoll_put f idx c s) d) = kDeleted" for n d
  proof (cases "d = c")
    case True
    with that del show ?thesis by (simp add: EPoll_put_simps)
  next
    case False
    with that have "channels (poller s) n = Some d" by (simp add: EPoll_put_simps split: if_splits)
    with False that show ?thesis using EPoll_okD(5) [OF ok] by (simp add: EPoll_put_simps)
  qed
  show ?thesis
    unfolding EPoll_ok_def
    using 1 2 3 4 EPoll_okD(1) [OF ok] by (simp only: EPoll_put_simps(4)) blast
qed

lemma ctl_contractD:
  assumes "epoll_ctl_contract ctl"
  shows "i n = None \<Longrightarrow> ctl CTL_ADD n ev i = Some (i(n \<mapsto> ev))"
    and "i n = Some v \<Longrightarrow> ctl CTL_MOD n ev i = Some (i(n \<mapsto> ev))"
    and "i n = Some v \<Longrightarrow> ctl CTL_DEL n ev i = Some (i(n := None))"
  using assms unfolding epoll_ctl_contract_def by blast+

lemmas epoll_step = upd_chan_def set_poller_def set_idx_def Channel_set_index_def EPoll_put_def Let_def

text \<open>The index of a channel and the map of channels agree.\<close>

lemma EPoll_index_cases:
  assumes "EPoll_ok s" "channels (poller s) (fd (heap s c)) \<in> {None, Some c}"
  obtains "index (heap s c) = kNew" "channels (poller s) (fd (heap s c)) = None"
      "interest (poller s) (fd (heap s c)) = None"
  | "index (heap s c) = kDeleted" "channels (poller s) (fd (heap s c)) = Some c"
      "interest (poller s) (fd (heap s c)) = None"
  | "index (heap s c) = kAdded" "channels (poller s) (fd (heap s c)) = Some c"
      "interest (poller s) (fd (heap s c)) = Some (events (heap s c), c)"
proof (cases "index (heap s c) = kNew")
  case True
  then have "channels (poller s) (fd (heap s c)) \<noteq> Some c"
    using EPoll_okD(2) [OF assms(1), of "fd (heap s c)" c] by auto
  with assms(2) True that(1) show thesis by (simp add: EPoll_okD(4) [OF assms(1)])
next
  case False
  then have ch: "channels (poller s) (fd (heap s c)) = Some c" by (rule EPoll_okD(3) [OF assms(1)])
  then have "index (heap s c) \<in> {kAdded, kDeleted}" using EPoll_okD(2) [OF assms(1) ch] by simp
  with ch that(2,3) show thesis by (auto simp: EPoll_okD(4) [OF assms(1)])
qed

lemma EPoll_update_put:
  assumes ctl: "epoll_ctl_contract ctl" and ok: "EPoll_ok s" and f: "keeps_id f"
    and free: "channels (poller s) (fd (heap s c)) \<in> {None, Some c}"
  shows "EPollPoller_updateChannel ctl (upd_chan c f s) c =
    Inr (EPoll_put f (if index (heap s c) = kAdded \<and> events (f (heap s c)) = 0 then kDeleted else kAdded) c s)"
proof -
  have id: "fd (f ch) = fd ch" "index (f ch) = index ch" for ch using f by (simp_all add: keeps_id_def)
  note step = EPollPoller_updateChannel_def Poller_assertInLoopThread_def EPollPoller_update_def
    Channel_isNoneEvent_def kNoneEvent_def epoll_step id EPoll_okD(1) [OF ok] ctl_contractD [OF ctl]
  from ok free show ?thesis
  proof (cases rule: EPoll_index_cases)
    case 1
    then show ?thesis by (simp add: step)
  next
    case 2
    then show ?thesis by (simp add: step fun_upd_idem)
  next
    case 3
    then have same: "(f (heap s c))\<lparr>index := kAdded\<rparr> = f (heap s c)"
      using id(2) [of "heap s c"] by (cases "f (heap s c)") simp
    from 3 show ?thesis by (simp add: step fun_upd_idem same)
  qed
qed

lemma EPoll_remove_put:
  assumes ctl: "epoll_ctl_contract ctl" and ok: "EPoll_ok s" and f: "keeps_id f"
    and ch: "channels (poller s) (fd (heap s c)) = Some c" and ev: "events (f (heap s c)) = 0"
  shows "EPollPoller_removeChannel ctl (upd_chan c f s) c = Inr (EPoll_put f kNew c s)"
proof -
  have id: "fd (f ch) = fd ch" "index (f ch) = index ch" for ch using f by (simp_all add: keeps_id_def)
  note step = EPollPoller_removeChannel_def Poller_assertInLoopThread_def EPollPoller_update_def
    Channel_isNoneEvent_def kNoneEvent_def epoll_step id EPoll_okD(1) [OF ok] ctl_contractD [OF ctl]
  from ch have "channels (poller s) (fd (heap s c)) \<in> {None, Some c}" by simp
  with ok show ?thesis
  proof (cases rule: EPoll_index_cases)
    case 1
    with ch show ?thesis by simp
  next
    case 2
    with ev show ?thesis by (simp add: step fun_upd_idem)
  next
    case 3
    with ev show ?thesis by (simp add: step)
  qed
qed

lemma EPoll_put_same: "same_but_index ((heap s)(c := f (heap s c))) (heap (EPoll_put f idx c s))"
  by (simp add: same_but_index_def EPoll_put_simps)

lemma EPoll_put_reg: "channels (poller (EPoll_put f idx c s)) =
  (channels (poller s))(fd (heap s c) := if idx = kNew then None else Some c)"
  by (simp add: fun_eq_iff EPoll_put_simps)

locale epoll_kernel =
  fixes ctl :: epoll_ctl
  assumes contract: "epoll_ctl_contract ctl"
begin

lemma update_ok:
  assumes "EPoll_ok s" "keeps_id f" "EPoll_reg s (fd (heap s c)) \<in> {None, Some c}"
  shows "\<exists>s'. EPollPoller_updateChannel ctl (upd_chan c f s) c = Inr s' \<and> EPoll_ok s'
    \<and> EPoll_reg s' = (EPoll_reg s)(fd (heap s c) \<mapsto> c)
    \<and> same_but_index (heap (upd_chan c f s)) (heap s')"
  using assms EPoll_update_put [OF contract assms(1,2), of c] EPoll_put_ok [OF assms(1,2)]
  by (simp add: EPoll_put_same EPoll_put_reg EPoll_reg_def)

lemma remove_ok:
  assumes "EPoll_ok s" "keeps_id f" "EPoll_reg s (fd (heap s c)) = Some c" "events (f (heap s c)) = 0"
  shows "\<exists>s'. EPollPoller_removeChannel ctl (upd_chan c f s) c = Inr s' \<and> EPoll_ok s'
    \<and> EPoll_reg s' = (EPoll_reg s)(fd (heap s c) := None)
    \<and> same_but_index (heap (upd_chan c f s)) (heap s')"
  using assms EPoll_remove_put [OF contract assms(1,2), of c] EPoll_put_ok [OF assms(1,2)]
  by (simp add: EPoll_put_same EPoll_put_reg EPoll_reg_def)

end

sublocale epoll_kernel \<subseteq> multiplexer "EPollPoller_updateChannel ctl" "EPollPoller_removeChannel ctl"
  EPoll_ok EPoll_reg EPoll_watched
proof unfold_locales
  fix s c f
  assume "EPoll_ok s" "keeps_id f" "EPoll_reg s (fd (heap s c)) = Some c \<or>
    EPoll_reg s (fd (heap s c)) = None \<and> index (heap s c) < 0 \<and> events (f (heap s c)) \<noteq> 0"
  then show "\<exists>s'. EPollPoller_updateChannel ctl (upd_chan c f s) c = Inr s' \<and> EPoll_ok s'
    \<and> EPoll_reg s' = (EPoll_reg s)(fd (heap s c) \<mapsto> c)
    \<and> same_but_index (heap (upd_chan c f s)) (heap s')"
    by (intro update_ok) auto
next
  fix s c f
  assume "EPoll_ok s" "EPoll_reg s (fd (heap s c)) = Some c" "keeps_id f" "events (f (heap s c)) = 0"
  then show "\<exists>s'. EPollPoller_removeChannel ctl (upd_chan c f s) c = Inr s' \<and> EPoll_ok s'
    \<and> EPoll_reg s' = (EPoll_reg s)(fd (heap s c) := None)
    \<and> same_but_index (heap (upd_chan c f s)) (heap s')"
    by (intro remove_ok)
next
  fix s n c
  assume "EPoll_ok s"
  then show "EPoll_watched s = watch_of (heap s) (EPoll_reg s)" by (rule EPoll_watched_eq)
next
  fix s n c
  assume "EPoll_ok s" "EPoll_reg s n = Some c"
  then show "fd (heap s c) = n" using EPoll_okD(2) by (simp add: EPoll_reg_def)
qed

context epoll_kernel
begin

lemma channel_ops:
  assumes "EPoll_ok s" "chan_state s (EPoll_reg s) c w" "legal_ops ops w"
  shows "\<exists>s'. run_all (Channel_op (EPollPoller_updateChannel ctl) (EPollPoller_removeChannel ctl) c) ops s = Inr s'
    \<and> EPoll_ok s' \<and> EPoll_watched s' = (EPoll_watched s)(fd (heap s c) := state_events (fold spec_chan ops w))"
  using ops_refine [OF assms] by blast

end

interpretation ep: epoll_kernel ctl_doc
  by unfold_locales (rule ctl_doc_contract)

section \<open>EPollPoller of myMuduo\<close>

text \<open>As long as the kernel accepts every request, the rewrite does what muduo does.\<close>

lemma MyEPoll_update_agrees:
  assumes ctl: "epoll_ctl_contract ctl" and ok: "EPoll_ok s" and f: "keeps_id f"
    and free: "channels (poller s) (fd (heap s c)) \<in> {None, Some c}"
  shows "MyEPollPoller_updateChannel ctl (upd_chan c f s) c = EPollPoller_updateChannel ctl (upd_chan c f s) c"
proof -
  have id: "fd (f ch) = fd ch" "index (f ch) = index ch" for ch using f by (simp_all add: keeps_id_def)
  note step = EPollPoller_updateChannel_def MyEPollPoller_updateChannel_def Poller_assertInLoopThread_def
    EPollPoller_update_def MyEPollPoller_update_def epoll_step id EPoll_okD(1) [OF ok] ctl_contractD [OF ctl]
  from ok free show ?thesis
    by (cases rule: EPoll_index_cases) (simp_all add: step)
qed

lemma MyEPoll_remove_agrees:
  assumes ctl: "epoll_ctl_contract ctl" and ok: "EPoll_ok s" and f: "keeps_id f"
    and ch: "channels (poller s) (fd (heap s c)) = Some c" and ev: "events (f (heap s c)) = 0"
  shows "MyEPollPoller_removeChannel ctl (upd_chan c f s) c = EPollPoller_removeChannel ctl (upd_chan c f s) c"
proof -
  have id: "fd (f ch) = fd ch" "index (f ch) = index ch" for ch using f by (simp_all add: keeps_id_def)
  note step = EPollPoller_removeChannel_def MyEPollPoller_removeChannel_def Poller_assertInLoopThread_def
    EPollPoller_update_def MyEPollPoller_update_def epoll_step id EPoll_okD(1) [OF ok] ctl_contractD [OF ctl]
    Channel_isNoneEvent_def kNoneEvent_def
  from ch have "channels (poller s) (fd (heap s c)) \<in> {None, Some c}" by simp
  with ok show ?thesis
    using ch ev by (cases rule: EPoll_index_cases) (simp_all add: step)
qed

sublocale epoll_kernel \<subseteq> rewrite: multiplexer "MyEPollPoller_updateChannel ctl"
  "MyEPollPoller_removeChannel ctl" EPoll_ok EPoll_reg EPoll_watched
proof unfold_locales
  fix s c f
  assume a: "EPoll_ok s" "keeps_id f" "EPoll_reg s (fd (heap s c)) = Some c \<or>
    EPoll_reg s (fd (heap s c)) = None \<and> index (heap s c) < 0 \<and> events (f (heap s c)) \<noteq> 0"
  then have "EPoll_reg s (fd (heap s c)) \<in> {None, Some c}" by auto
  then show "\<exists>s'. MyEPollPoller_updateChannel ctl (upd_chan c f s) c = Inr s' \<and> EPoll_ok s'
    \<and> EPoll_reg s' = (EPoll_reg s)(fd (heap s c) \<mapsto> c)
    \<and> same_but_index (heap (upd_chan c f s)) (heap s')"
    using update_ok [OF a(1,2)] MyEPoll_update_agrees [OF contract a(1,2)] by (simp add: EPoll_reg_def)
next
  fix s c f
  assume a: "EPoll_ok s" "EPoll_reg s (fd (heap s c)) = Some c" "keeps_id f" "events (f (heap s c)) = 0"
  then show "\<exists>s'. MyEPollPoller_removeChannel ctl (upd_chan c f s) c = Inr s' \<and> EPoll_ok s'
    \<and> EPoll_reg s' = (EPoll_reg s)(fd (heap s c) := None)
    \<and> same_but_index (heap (upd_chan c f s)) (heap s')"
    using remove_ok [OF a(1,3,2,4)] MyEPoll_remove_agrees [OF contract a(1,3)] by (simp add: EPoll_reg_def)
qed (use watched_ok reg_fd in blast)+

section \<open>PollPoller\<close>

definition pfd_key :: "int \<Rightarrow> int" where
  "pfd_key n = (if n < 0 then - n - 1 else n)"

definition pfd_for :: "channel \<Rightarrow> pollfd \<Rightarrow> bool" where
  "pfd_for ch p \<longleftrightarrow> pfd_fd p = (if events ch = 0 then - fd ch - 1 else fd ch) \<and> pfd_events p = ucast (events ch)"

definition Poll_inv :: "(nat \<Rightarrow> channel) \<Rightarrow> (int \<Rightarrow> nat option) \<Rightarrow> pollfd list \<Rightarrow> bool" where
  "Poll_inv h chs fds \<longleftrightarrow>
     (\<forall>n c. chs n = Some c \<longrightarrow> 0 \<le> n \<and> fd (h c) = n \<and> events (h c) \<le> 7 \<and>
        0 \<le> index (h c) \<and> nat (index (h c)) < length fds \<and> pfd_for (h c) (fds ! nat (index (h c)))) \<and>
     (\<forall>i < length fds. \<exists>c. chs (pfd_key (pfd_fd (fds ! i))) = Some c \<and> index (h c) = int i)"

definition Poll_ok :: "poll_poller reactor \<Rightarrow> bool" where
  "Poll_ok s \<longleftrightarrow> inLoopThread (poller s) \<and> Poll_inv (heap s) (channels (poller s)) (pollfds (poller s))"

definition Poll_reg :: "poll_poller reactor \<Rightarrow> int \<Rightarrow> nat option" where
  "Poll_reg s = channels (poller s)"

text \<open>The events \<^verbatim>\<open>poll\<close> watches for a descriptor: those of the entry that carries it.\<close>

definition Poll_watched :: "poll_poller reactor \<Rightarrow> int \<Rightarrow> 32 word" where
  "Poll_watched s n = (case find (\<lambda>p. 0 \<le> n \<and> pfd_fd p = n) (pollfds (poller s)) of
     None \<Rightarrow> 0 | Some p \<Rightarrow> scast (pfd_events p))"

lemma Poll_okD:
  assumes "Poll_ok s"
  shows "inLoopThread (poller s)"
    and "channels (poller s) n = Some c \<Longrightarrow> 0 \<le> n \<and> fd (heap s c) = n \<and> events (heap s c) \<le> 7 \<and>
        0 \<le> index (heap s c) \<and> nat (index (heap s c)) < length (pollfds (poller s)) \<and>
        pfd_for (heap s c) (pollfds (poller s) ! nat (index (heap s c)))"
    and "i < length (pollfds (poller s)) \<Longrightarrow>
        \<exists>c. channels (poller s) (pfd_key (pfd_fd (pollfds (poller s) ! i))) = Some c \<and> index (heap s c) = int i"
  using assms unfolding Poll_ok_def Poll_inv_def by blast+

lemma pfd_key_for: "pfd_for ch p \<Longrightarrow> 0 \<le> fd ch \<Longrightarrow> pfd_key (pfd_fd p) = fd ch"
  by (simp add: pfd_for_def pfd_key_def)

lemma short_events:
  assumes "e \<le> 7"
  shows "scast (ucast (e :: 32 word) :: 16 word) = e"
proof (rule bit_eqI)
  fix n
  have high: "\<not> bit e m" if "3 \<le> m" for m using assms that by (simp add: word_le_7_iff)
  show "bit (scast (ucast e :: 16 word) :: 32 word) n \<longleftrightarrow> bit e n"
    using high [of n] high [of "min 15 n"] by (cases "n < 3") (auto simp: bit_signed_iff bit_unsigned_iff min_def)
qed

lemma Poll_entry_unique:
  assumes ok: "Poll_ok s" and i: "i < length (pollfds (poller s))"
    and ch: "channels (poller s) (pfd_key (pfd_fd (pollfds (poller s) ! i))) = Some c"
  shows "index (heap s c) = int i" "pfd_for (heap s c) (pollfds (poller s) ! i)"
proof -
  show idx: "index (heap s c) = int i" using Poll_okD(3) [OF ok i] ch by auto
  show "pfd_for (heap s c) (pollfds (poller s) ! i)"
    using Poll_okD(2) [OF ok ch] idx by simp
qed

lemma Poll_entry_of:
  assumes ok: "Poll_ok s" and p: "p \<in> set (pollfds (poller s))" and n: "pfd_fd p = n" "0 \<le> n"
  obtains c where "channels (poller s) n = Some c" "pfd_for (heap s c) p" "events (heap s c) \<noteq> 0"
proof -
  obtain i where i: "i < length (pollfds (poller s))" "p = pollfds (poller s) ! i"
    using p by (auto simp: in_set_conv_nth)
  then obtain c where c: "channels (poller s) (pfd_key (pfd_fd p)) = Some c"
    using Poll_okD(3) [OF ok, of i] by auto
  then have ch: "channels (poller s) n = Some c" using n by (simp add: pfd_key_def)
  have p: "pfd_for (heap s c) p" using Poll_entry_unique(2) [OF ok i(1)] c i(2) by simp
  have "fd (heap s c) = n" using Poll_okD(2) [OF ok ch] by simp
  then have "events (heap s c) \<noteq> 0" using p n by (auto simp: pfd_for_def)
  then show thesis using that ch p by blast
qed

lemma Poll_watched_eq:
  assumes ok: "Poll_ok s"
  shows "Poll_watched s = watch_of (heap s) (Poll_reg s)"
proof
  fix n
  let ?found = "find (\<lambda>p. 0 \<le> n \<and> pfd_fd p = n) (pollfds (poller s))"
  show "Poll_watched s n = watch_of (heap s) (Poll_reg s) n"
  proof (cases ?found)
    case None
    have "events (heap s c) = 0" if ch: "channels (poller s) n = Some c" for c
    proof (rule ccontr)
      assume "events (heap s c) \<noteq> 0"
      moreover have "pfd_for (heap s c) (pollfds (poller s) ! nat (index (heap s c)))"
        "nat (index (heap s c)) < length (pollfds (poller s))" "0 \<le> n" "fd (heap s c) = n"
        using Poll_okD(2) [OF ok ch] by auto
      ultimately show False using None by (auto simp: find_None_iff pfd_for_def)
    qed
    with None show ?thesis by (auto simp: Poll_watched_def watch_of_def Poll_reg_def split: option.splits)
  next
    case (Some p)
    then have "p \<in> set (pollfds (poller s))" "pfd_fd p = n" "0 \<le> n" by (auto simp: find_Some_iff)
    then obtain c where c: "channels (poller s) n = Some c" "pfd_for (heap s c) p"
      by (rule Poll_entry_of [OF ok])
    moreover have "events (heap s c) \<le> 7" using Poll_okD(2) [OF ok c(1)] by simp
    ultimately show ?thesis
      using Some by (simp add: Poll_watched_def watch_of_def Poll_reg_def pfd_for_def short_events)
  qed
qed

lemma Poll_invD:
  assumes "Poll_inv h chs fds"
  shows "chs n = Some c \<Longrightarrow> 0 \<le> n" "chs n = Some c \<Longrightarrow> fd (h c) = n" "chs n = Some c \<Longrightarrow> events (h c) \<le> 7"
    "chs n = Some c \<Longrightarrow> 0 \<le> index (h c)" "chs n = Some c \<Longrightarrow> nat (index (h c)) < length fds"
    "chs n = Some c \<Longrightarrow> pfd_for (h c) (fds ! nat (index (h c)))"
    "i < length fds \<Longrightarrow> \<exists>c. chs (pfd_key (pfd_fd (fds ! i))) = Some c \<and> index (h c) = int i"
  using assms unfolding Poll_inv_def by blast+

lemma Poll_inv_index_inj:
  assumes "Poll_inv h chs fds" "chs n = Some c" "chs m = Some d" "index (h c) = index (h d)"
  shows "c = d"
proof -
  let ?p = "fds ! nat (index (h c))"
  have "pfd_key (pfd_fd ?p) = fd (h c)"
    using Poll_invD(1,2,6) [OF assms(1,2)] pfd_key_for by auto
  moreover have "pfd_key (pfd_fd ?p) = fd (h d)"
    using Poll_invD(1,2,6) [OF assms(1,3)] pfd_key_for assms(4) by auto
  ultimately have "n = m" using Poll_invD(2) [OF assms(1,2)] Poll_invD(2) [OF assms(1,3)] by simp
  then show ?thesis using assms(2,3) by simp
qed

lemma Poll_inv_frame:
  assumes inv: "Poll_inv h chs fds" and c: "\<forall>m. chs m \<noteq> Some c"
  shows "Poll_inv (h(c := ch)) chs fds"
proof -
  have same: "(h(c := ch)) d = h d" if "chs m = Some d" for m d using c that by auto
  show ?thesis
    unfolding Poll_inv_def
  proof (intro conjI allI impI)
    fix i assume "i < length fds"
    then obtain d where "chs (pfd_key (pfd_fd (fds ! i))) = Some d" "index (h d) = int i"
      using Poll_invD(7) [OF inv] by blast
    with same show "\<exists>d. chs (pfd_key (pfd_fd (fds ! i))) = Some d \<and> index ((h(c := ch)) d) = int i"
      by (intro exI [of _ d]) simp
  qed (use c Poll_invD(1-6) [OF inv] in auto)
qed

lemma Poll_inv_add:
  assumes inv: "Poll_inv h chs fds" and free: "chs n = None" "\<forall>m. chs m \<noteq> Some c"
    and n: "0 \<le> n" "fd ch = n" "events ch \<le> 7" and p: "index ch = int (length fds)" "pfd_for ch p"
  shows "Poll_inv (h(c := ch)) (chs(n \<mapsto> c)) (fds @ [p])"
proof -
  have old: "d \<noteq> c" if "chs m = Some d" for m d using free(2) that by auto
  have key: "pfd_key (pfd_fd p) = n" using pfd_key_for [OF p(2)] n by simp
  show ?thesis
    unfolding Poll_inv_def
  proof (intro conjI allI impI)
    fix i assume "i < length (fds @ [p])"
    then consider "i < length fds" | "i = length fds" by fastforce
    then show "\<exists>d. (chs(n \<mapsto> c)) (pfd_key (pfd_fd ((fds @ [p]) ! i))) = Some d \<and> index ((h(c := ch)) d) = int i"
    proof cases
      case 1
      then obtain d where "chs (pfd_key (pfd_fd (fds ! i))) = Some d" "index (h d) = int i"
        using Poll_invD(7) [OF inv] by blast
      with 1 free(1) old show ?thesis by (intro exI [of _ d]) (auto simp: nth_append)
    qed (use key p in auto)
  qed (use n p Poll_invD(1-6) [OF inv] old in \<open>auto simp: nth_append less_Suc_eq split: if_splits\<close>)
qed

lemma Poll_inv_modify:
  assumes inv: "Poll_inv h chs fds" and c: "chs n = Some c"
    and ch: "fd ch = n" "index ch = index (h c)" "events ch \<le> 7" and p: "pfd_for ch p"
  shows "Poll_inv (h(c := ch)) chs (fds[nat (index (h c)) := p])"
proof -
  have nn: "0 \<le> n" "0 \<le> index (h c)" "nat (index (h c)) < length fds" "fd (h c) = n"
    using Poll_invD(1,2,4,5) [OF inv c] by auto
  have key: "pfd_key (pfd_fd p) = n" using pfd_key_for [OF p] ch nn by simp
  have diff: "nat (index (h d)) \<noteq> nat (index (h c))" if "chs m = Some d" "d \<noteq> c" for m d
    using Poll_inv_index_inj [OF inv that(1) c] that(2) Poll_invD(4) [OF inv that(1)] nn by (auto simp: eq_nat_nat_iff)
  show ?thesis
    unfolding Poll_inv_def
  proof (intro conjI allI impI)
    fix i assume i: "i < length (fds[nat (index (h c)) := p])"
    show "\<exists>d. chs (pfd_key (pfd_fd (fds[nat (index (h c)) := p] ! i))) = Some d \<and> index ((h(c := ch)) d) = int i"
    proof (cases "i = nat (index (h c))")
      case True
      with key c ch nn show ?thesis by (intro exI [of _ c]) auto
    next
      case False
      obtain d where "chs (pfd_key (pfd_fd (fds ! i))) = Some d" "index (h d) = int i"
        using Poll_invD(7) [OF inv] i by auto
      with False show ?thesis by (intro exI [of _ d]) auto
    qed
  next
    fix m d assume d: "chs m = Some d"
    show "fd ((h(c := ch)) d) = m" using Poll_invD(2) [OF inv d] nn(4) ch(1) by auto
    show "pfd_for ((h(c := ch)) d) (fds[nat (index (h c)) := p] ! nat (index ((h(c := ch)) d)))"
      using Poll_invD(6) [OF inv d] diff [OF d] p ch nn by auto
  qed (use nn ch Poll_invD(1,3-5) [OF inv] c in \<open>auto split: if_splits\<close>)
qed

lemma Poll_inv_drop_last:
  assumes inv: "Poll_inv h chs fds" and c: "chs n = Some c" and idx: "nat (index (h c)) = length fds - 1"
  shows "Poll_inv h (chs(n := None)) (butlast fds)"
proof -
  have len: "0 \<le> index (h c)" "nat (index (h c)) < length fds" using Poll_invD(4,5) [OF inv c] by auto
  have less: "nat (index (h d)) < length fds - 1" if "chs m = Some d" "m \<noteq> n" for m d
  proof -
    have "d \<noteq> c" using that Poll_invD(2) [OF inv c] Poll_invD(2) [OF inv that(1)] by auto
    then have "index (h d) \<noteq> index (h c)" using Poll_inv_index_inj [OF inv that(1) c] by blast
    then show ?thesis using Poll_invD(4,5) [OF inv that(1)] idx len by linarith
  qed
  show ?thesis
    unfolding Poll_inv_def
  proof (intro conjI allI impI)
    fix i assume i: "i < length (butlast fds)"
    then have "i < length fds" unfolding length_butlast by linarith
    then obtain d where d: "chs (pfd_key (pfd_fd (fds ! i))) = Some d" "index (h d) = int i"
      using Poll_invD(7) [OF inv] by blast
    have "d \<noteq> c" using d(2) idx i len by auto
    then have "pfd_key (pfd_fd (fds ! i)) \<noteq> n" using d(1) c by auto
    with d i show "\<exists>d. (chs(n := None)) (pfd_key (pfd_fd (butlast fds ! i))) = Some d \<and> index (h d) = int i"
      by (intro exI [of _ d]) (simp add: nth_butlast)
  next
    fix m d assume "(chs(n := None)) m = Some d"
    then have d: "chs m = Some d" "m \<noteq> n" by (auto split: if_splits)
    show "nat (index (h d)) < length (butlast fds)" using less [OF d] by simp
    show "pfd_for (h d) (butlast fds ! nat (index (h d)))"
      using less [OF d] Poll_invD(6) [OF inv d(1)] by (simp add: nth_butlast)
  qed (use Poll_invD(1-4) [OF inv] in \<open>auto split: if_splits\<close>)
qed

lemma butlast_swap_last:
  assumes "i < length xs - Suc 0"
  shows "butlast (xs[i := last xs, length xs - Suc 0 := y]) = (butlast xs)[i := last xs]"
  using assms by (simp add: butlast_list_update)

lemma Poll_inv_swap:
  assumes inv: "Poll_inv h chs fds" and c: "chs n = Some c" and idx: "nat (index (h c)) < length fds - 1"
    and e: "chs (pfd_key (pfd_fd (last fds))) = Some e"
  shows "Poll_inv (h(e := (h e)\<lparr>index := index (h c)\<rparr>)) (chs(n := None))
    ((butlast fds)[nat (index (h c)) := last fds])"
proof -
  let ?L = "length fds - 1" and ?i = "nat (index (h c))"
  have nn: "0 \<le> index (h c)" "fd (h c) = n" using Poll_invD(2,4) [OF inv c] by auto
  have ne: "fds \<noteq> []" "?L < length fds" using idx by auto
  then have lst: "last fds = fds ! ?L" by (simp add: last_conv_nth)
  obtain e' where "chs (pfd_key (pfd_fd (fds ! ?L))) = Some e'" "index (h e') = int ?L"
    using Poll_invD(7) [OF inv ne(2)] by blast
  then have ei: "index (h e) = int ?L" using e lst by simp
  have ec: "e \<noteq> c" using ei idx by auto
  have diff: "nat (index (h d)) \<noteq> nat (index (h b))" if "chs m = Some d" "chs k = Some b" "d \<noteq> b" for m d k b
    using Poll_inv_index_inj [OF inv that(1,2)] that(3) Poll_invD(4) [OF inv that(1)] Poll_invD(4) [OF inv that(2)]
    by (auto simp: eq_nat_nat_iff)
  have less: "nat (index (h d)) < ?L" if "chs m = Some d" "d \<noteq> e" for m d
    using diff [OF that(1) e that(2)] Poll_invD(5) [OF inv that(1)] ei by simp
  have entry: "pfd_for (h e) (last fds)" using Poll_invD(6) [OF inv e] ei lst by simp
  show ?thesis
    unfolding Poll_inv_def
  proof (intro conjI allI impI)
    fix i assume i: "i < length ((butlast fds)[?i := last fds])"
    then have "i < length fds" unfolding length_list_update length_butlast by linarith
    then obtain d where d: "chs (pfd_key (pfd_fd (fds ! i))) = Some d" "index (h d) = int i"
      using Poll_invD(7) [OF inv] by blast
    show "\<exists>d. (chs(n := None)) (pfd_key (pfd_fd ((butlast fds)[?i := last fds] ! i))) = Some d
        \<and> index ((h(e := (h e)\<lparr>index := index (h c)\<rparr>)) d) = int i"
    proof (cases "i = ?i")
      case True
      have "pfd_key (pfd_fd (last fds)) \<noteq> n" using e c ec by auto
      with True e nn i show ?thesis by (intro exI [of _ e]) simp
    next
      case False
      then have "d \<noteq> c" using d(2) by auto
      then have "pfd_key (pfd_fd (fds ! i)) \<noteq> n" using d(1) c by auto
      moreover have "d \<noteq> e" using d(2) ei i by auto
      ultimately show ?thesis using False d i by (intro exI [of _ d]) (simp add: nth_butlast)
    qed
  next
    fix m d assume "(chs(n := None)) m = Some d"
    then have d: "chs m = Some d" "m \<noteq> n" by (auto split: if_splits)
    then have "d \<noteq> c" using Poll_invD(2) [OF inv d(1)] nn by auto
    show "nat (index ((h(e := (h e)\<lparr>index := index (h c)\<rparr>)) d)) < length ((butlast fds)[?i := last fds])"
      using less [OF d(1)] idx by simp
    show "pfd_for ((h(e := (h e)\<lparr>index := index (h c)\<rparr>)) d)
        ((butlast fds)[?i := last fds] ! nat (index ((h(e := (h e)\<lparr>index := index (h c)\<rparr>)) d)))"
      using entry idx less [OF d(1)] Poll_invD(6) [OF inv d(1)] diff [OF d(1) c \<open>d \<noteq> c\<close>]
      by (auto simp: pfd_for_def nth_butlast)
  qed (use nn Poll_invD(1-4) [OF inv] in \<open>auto split: if_splits\<close>)
qed

lemma Poll_update_ok:
  assumes ok: "Poll_ok s" and fd: "0 \<le> fd (heap s c)" and f: "keeps_id f" and ev: "events (f (heap s c)) \<le> 7"
    and reg: "Poll_reg s (fd (heap s c)) = Some c \<or>
      Poll_reg s (fd (heap s c)) = None \<and> index (heap s c) < 0 \<and> events (f (heap s c)) \<noteq> 0"
  shows "\<exists>s'. PollPoller_updateChannel (upd_chan c f s) c = Inr s' \<and> Poll_ok s'
    \<and> Poll_reg s' = (Poll_reg s)(fd (heap s c) \<mapsto> c) \<and> same_but_index (heap (upd_chan c f s)) (heap s')"
proof -
  have id: "fd (f ch) = fd ch" "index (f ch) = index ch" for ch using f by (simp_all add: keeps_id_def)
  have inv: "Poll_inv (heap s) (channels (poller s)) (pollfds (poller s))" and thr: "inLoopThread (poller s)"
    using ok by (simp_all add: Poll_ok_def)
  let ?n = "fd (heap s c)" and ?e = "events (f (heap s c))" and ?fds = "pollfds (poller s)"
  note step = PollPoller_updateChannel_def Poller_assertInLoopThread_def Let_def id thr set_idx_def
    Channel_set_index_def Channel_isNoneEvent_def kNoneEvent_def Poll_ok_def Poll_reg_def
  from reg show ?thesis
  proof
    assume "Poll_reg s ?n = Some c"
    then have c: "channels (poller s) ?n = Some c" by (simp add: Poll_reg_def)
    let ?i = "nat (index (heap s c))"
    let ?p = "\<lparr>pfd_fd = (if ?e = 0 then - ?n - 1 else ?n), pfd_events = ucast ?e, pfd_revents = 0\<rparr>"
    have "Poll_inv ((heap s)(c := f (heap s c))) (channels (poller s)) (?fds[?i := ?p])"
      by (rule Poll_inv_modify [OF inv c]) (simp_all add: id ev pfd_for_def)
    moreover have "0 \<le> index (heap s c)" "?i < length ?fds" "pfd_for (heap s c) (?fds ! ?i)"
      using Poll_invD(4-6) [OF inv c] by auto
    ultimately show ?thesis
      using c by (simp add: step pfd_for_def fun_upd_idem split: if_splits)
  next
    assume "Poll_reg s ?n = None \<and> index (heap s c) < 0 \<and> ?e \<noteq> 0"
    then have r: "channels (poller s) ?n = None" "index (heap s c) < 0" "?e \<noteq> 0" by (simp_all add: Poll_reg_def)
    have "\<forall>m. channels (poller s) m \<noteq> Some c" using Poll_invD(2) [OF inv] r(1) by force
    then have "Poll_inv ((heap s)(c := (f (heap s c))\<lparr>index := int (length ?fds)\<rparr>)) ((channels (poller s))(?n \<mapsto> c))
        (?fds @ [\<lparr>pfd_fd = ?n, pfd_events = ucast ?e, pfd_revents = 0\<rparr>])"
      using r(3) by (intro Poll_inv_add [OF inv r(1)]) (simp_all add: id fd ev pfd_for_def)
    then show ?thesis using r by (simp add: step same_but_index_def)
  qed
qed

lemma Poll_remove_ok:
  assumes ok: "Poll_ok s" and reg: "Poll_reg s (fd (heap s c)) = Some c" and ev: "events (heap s c) = 0"
    and f: "keeps_id f" "events (f (heap s c)) = 0"
  shows "\<exists>s'. PollPoller_removeChannel (upd_chan c f s) c = Inr s' \<and> Poll_ok s'
    \<and> Poll_reg s' = (Poll_reg s)(fd (heap s c) := None) \<and> same_but_index (heap (upd_chan c f s)) (heap s')"
proof -
  have id: "fd (f ch) = fd ch" "index (f ch) = index ch" for ch using f by (simp_all add: keeps_id_def)
  have inv: "Poll_inv (heap s) (channels (poller s)) (pollfds (poller s))" and thr: "inLoopThread (poller s)"
    using ok by (simp_all add: Poll_ok_def)
  let ?n = "fd (heap s c)" and ?fds = "pollfds (poller s)" and ?i = "nat (index (heap s c))"
  have c: "channels (poller s) ?n = Some c" using reg by (simp add: Poll_reg_def)
  have entry: "0 \<le> index (heap s c)" "?i < length ?fds" "pfd_fd (?fds ! ?i) = - ?n - 1"
      "pfd_events (?fds ! ?i) = 0"
    using Poll_invD(4-6) [OF inv c] ev by (auto simp: pfd_for_def)
  have gone: "\<forall>m. ((channels (poller s))(?n := None)) m \<noteq> Some c"
  proof
    fix m show "((channels (poller s))(?n := None)) m \<noteq> Some c" using Poll_invD(2) [OF inv, of m c] by auto
  qed
  note step = PollPoller_removeChannel_def Poller_assertInLoopThread_def Let_def id thr set_idx_def
    Channel_set_index_def Channel_isNoneEvent_def kNoneEvent_def Poll_ok_def Poll_reg_def c f(2)
  show ?thesis
  proof (cases "?i = length ?fds - 1")
    case True
    from Poll_inv_frame [OF Poll_inv_drop_last [OF inv c True] gone] show ?thesis
      using True entry by (simp add: step fun_upd_def)
  next
    case False
    then have i: "?i < length ?fds - 1" using entry(2) by linarith
    then have ne: "?fds \<noteq> []" "length ?fds - 1 < length ?fds" by auto
    obtain e where e: "channels (poller s) (pfd_key (pfd_fd (last ?fds))) = Some e"
        "index (heap s e) = int (length ?fds - 1)"
      using Poll_invD(7) [OF inv ne(2)] ne(1) by (auto simp: last_conv_nth)
    have ec: "e \<noteq> c" using e(2) i by auto
    then have key: "pfd_key (pfd_fd (last ?fds)) \<noteq> ?n" using e(1) c by auto
    have "Poll_inv (((heap s)(e := (heap s e)\<lparr>index := index (heap s c)\<rparr>))(c := f (heap s c)))
        ((channels (poller s))(?n := None)) ((butlast ?fds)[?i := last ?fds])"
      by (rule Poll_inv_frame [OF Poll_inv_swap [OF inv c i e(1)] gone])
    then show ?thesis
      using False ec key e(1) i entry
      by (simp add: step butlast_swap_last pfd_key_def [symmetric] fun_upd_twist same_but_index_def)
  qed
qed

interpretation pp: multiplexer PollPoller_updateChannel PollPoller_removeChannel Poll_ok Poll_reg Poll_watched
proof unfold_locales
  fix s n c
  assume "Poll_ok s" "Poll_reg s n = Some c"
  then show "fd (heap s c) = n" using Poll_okD(2) by (simp add: Poll_reg_def)
qed (use Poll_update_ok Poll_remove_ok Poll_watched_eq in blast)+

section \<open>Polling\<close>

text \<open>
  Documented behaviour of \<^verbatim>\<open>epoll_wait(2)\<close>: it reports at most the number of events asked for, each
  with the data pointer of an entry of the interest list, no entry twice.
\<close>

definition epoll_wait_contract :: "(interest_list \<Rightarrow> nat \<Rightarrow> (32 word \<times> nat) wait_result) \<Rightarrow> bool" where
  "epoll_wait_contract w \<longleftrightarrow> (\<forall>i n evs. w i n = WaitOk evs \<longrightarrow> length evs \<le> n \<and> distinct (map snd evs) \<and>
     (\<forall>(ev, c) \<in> set evs. \<exists>f e. i f = Some (e, c)))"

fun set_all_revents :: "(32 word \<times> nat) list \<Rightarrow> (nat \<Rightarrow> channel) \<Rightarrow> nat \<Rightarrow> channel" where
  "set_all_revents [] h = h"
| "set_all_revents ((ev, c) # es) h = set_all_revents es (h(c := Channel_set_revents ev (h c)))"

lemma set_all_revents_fields:
  "fd (set_all_revents evs h d) = fd (h d)" "index (set_all_revents evs h d) = index (h d)"
  "events (set_all_revents evs h d) = events (h d)"
  by (induction evs h rule: set_all_revents.induct) (auto simp: Channel_set_revents_def)

lemma set_all_revents_get:
  "distinct (map snd evs) \<Longrightarrow> revents (set_all_revents evs h d) =
     (case map_of (map (\<lambda>(ev, c). (c, ev)) evs) d of None \<Rightarrow> revents (h d) | Some ev \<Rightarrow> ev)"
proof (induction evs h rule: set_all_revents.induct)
  case (2 ev c es h)
  have "map_of (map (\<lambda>(ev, c). (c, ev)) es) c = None"
    using 2(2) by (auto simp: map_of_eq_None_iff image_iff)
  with 2 show ?case by (auto simp: Channel_set_revents_def fun_upd_def split: option.split)
qed simp

lemma EPoll_ok_heap:
  assumes "EPoll_ok s" "\<And>d. fd (h d) = fd (heap s d)" "\<And>d. index (h d) = index (heap s d)"
    "\<And>d. events (h d) = events (heap s d)"
  shows "EPoll_ok (s\<lparr>heap := h\<rparr>)"
  using assms(1) unfolding EPoll_ok_def by (simp add: assms(2-4) cong: option.case_cong if_cong) blast

lemma EPoll_fill_all:
  "(\<forall>(ev, c) \<in> set evs. channels (poller s) (fd (heap s c)) = Some c) \<Longrightarrow>
   EPollPoller_fill evs s active = Inr (s\<lparr>heap := set_all_revents evs (heap s)\<rparr>, active @ map snd evs)"
proof (induction evs s active rule: EPollPoller_fill.induct)
  case (2 ev c es s active)
  have "\<forall>(ev', d) \<in> set es. channels (poller (upd_chan c (Channel_set_revents ev) s))
      (fd (heap (upd_chan c (Channel_set_revents ev) s) d)) = Some d"
    using 2(2) by (auto simp: Channel_set_revents_def)
  with 2 show ?case by (simp add: upd_chan_def fun_upd_def)
qed simp

text \<open>
  A poll of a well-formed muduo \<^verbatim>\<open>EPollPoller\<close> never fails: it appends the reported channels to
  the active list in the order of the report, stores in each the reported events, keeps the
  registration invariant, and doubles the event array exactly when it was filled.
\<close>
theorem EPoll_poll_reports:
  assumes "EPoll_ok s" "epoll_wait_contract w" "w (interest (poller s)) (eventsSize (poller s)) = WaitOk evs"
  shows "\<exists>s'. EPollPoller_poll w s active = Inr (s', active @ map snd evs) \<and> EPoll_ok s'
    \<and> (\<forall>(ev, c) \<in> set evs. revents (heap s' c) = ev)
    \<and> interest (poller s') = interest (poller s)
    \<and> eventsSize (poller s') =
        (if length evs = eventsSize (poller s) \<and> evs \<noteq> [] then 2 else 1) * eventsSize (poller s)"
proof -
  have c: "length evs \<le> eventsSize (poller s)" "distinct (map snd evs)"
    using assms(2,3) unfolding epoll_wait_contract_def by blast+
  have "channels (poller s) (fd (heap s c)) = Some c" if "(ev, c) \<in> set evs" for ev c
  proof -
    have "\<exists>f e. interest (poller s) f = Some (e, c)"
      using assms(2,3) that unfolding epoll_wait_contract_def by blast
    then obtain f where "channels (poller s) f = Some c"
      by (auto simp: EPoll_okD(4) [OF assms(1)] split: option.splits if_splits)
    then show ?thesis using EPoll_okD(2) [OF assms(1)] by simp
  qed
  then have fill: "EPollPoller_fill evs s active = Inr (s\<lparr>heap := set_all_revents evs (heap s)\<rparr>, active @ map snd evs)"
    by (intro EPoll_fill_all) auto
  have ok: "EPoll_ok (s\<lparr>heap := set_all_revents evs (heap s)\<rparr>)"
    by (intro EPoll_ok_heap assms(1) set_all_revents_fields)
  have rev: "revents (set_all_revents evs (heap s) c) = ev" if "(ev, c) \<in> set evs" for ev c
  proof -
    have "map_of (map (\<lambda>(ev, c). (c, ev)) evs) c = Some ev"
      using that c(2) by (intro map_of_is_SomeI) (force simp: comp_def case_prod_unfold)+
    then show ?thesis using c(2) by (simp add: set_all_revents_get)
  qed
  have grow: "EPoll_ok (set_poller (eventsSize_update g) t) = EPoll_ok t" for g t
    by (simp add: EPoll_ok_def cong: option.case_cong if_cong)
  show ?thesis
    using c(1) fill ok rev assms(1,3)
    by (auto simp: EPollPoller_poll_def EPollPoller_fillActiveChannels_def grow)
qed

text \<open>A poller with one channel registered for reading.\<close>

definition sample_epoll :: "epoll_poller reactor" where
  "sample_epoll = \<lparr>heap = (\<lambda>c. if c = 0 then (Channel_new 5)\<lparr>events := 3, index := 1\<rparr> else Channel_new (6 + int c)),
     poller = \<lparr>channels = [5 \<mapsto> 0], inLoopThread = True, interest = [5 \<mapsto> (3, 0)], eventsSize = 1\<rparr>\<rparr>"

definition wait_one :: "interest_list \<Rightarrow> nat \<Rightarrow> (32 word \<times> nat) wait_result" where
  "wait_one i n = (case i 5 of Some (e, c) \<Rightarrow> if n = 0 then WaitErr True else WaitOk [(1, c)] | None \<Rightarrow> WaitErr True)"

lemma sample_epoll_ok: "EPoll_ok sample_epoll"
  by (simp add: EPoll_ok_def sample_epoll_def kAdded_def kNew_def kDeleted_def Channel_new_def)

lemma wait_one_contract: "epoll_wait_contract wait_one"
  by (auto simp: epoll_wait_contract_def wait_one_def split: option.splits prod.splits if_splits)

theorem EPoll_poll_reports_witness:
  "\<exists>s'. EPollPoller_poll wait_one sample_epoll [] = Inr (s', [0]) \<and> revents (heap s' 0) = 1
    \<and> eventsSize (poller s') = 2"
  using EPoll_poll_reports [OF sample_epoll_ok wait_one_contract, of "[(1, 0)]" "[]"]
  by (auto simp: wait_one_def sample_epoll_def)

section \<open>Properties of registration\<close>

text \<open>
  C5. Every legal sequence of \<^verbatim>\<open>Channel\<close> calls (interest changes after a first registration, then a
  removal without interest) runs to its end on \<^verbatim>\<open>EPollPoller\<close> with no assertion failing, for any
  \<^verbatim>\<open>epoll_ctl\<close> that behaves as documented; the kernel then watches exactly the events the sequence
  asks for on that descriptor and the same events as before on every other.
\<close>
theorem EPoll_channel_ops:
  assumes "epoll_ctl_contract ctl" "EPoll_ok s" "chan_state s (channels (poller s)) c None" "legal_ops ops None"
  shows "\<exists>s'. run_all (Channel_op (EPollPoller_updateChannel ctl) (EPollPoller_removeChannel ctl) c) ops s = Inr s'
    \<and> EPoll_ok s'
    \<and> EPoll_watched s' = (EPoll_watched s)(fd (heap s c) := state_events (fold spec_chan ops None))"
  using epoll_kernel.channel_ops [OF epoll_kernel.intro [OF assms(1)] assms(2), of c None ops] assms(3,4)
  by (simp add: EPoll_reg_def)

lemma sample_ops: "legal_ops [EnableReading, EnableWriting, DisableWriting] None"
  by (simp add: spec_chan_def state_events_def kEvent_bits)

lemma sample_ops_events: "state_events (fold spec_chan [EnableReading, EnableWriting, DisableWriting] None) = 3"
  by (simp add: spec_chan_def state_events_def kEvent_bits)

theorem EPoll_channel_ops_witness:
  "\<exists>s'. run_all (Channel_op (EPollPoller_updateChannel ctl_doc) (EPollPoller_removeChannel ctl_doc) 1)
      [EnableReading, EnableWriting, DisableWriting] sample_epoll = Inr s' \<and> EPoll_watched s' 7 = 3 \<and> EPoll_watched s' 5 = 3"
proof -
  have st: "chan_state sample_epoll (channels (poller sample_epoll)) 1 None"
    by (simp add: chan_state_def sample_epoll_def Channel_new_def state_events_def)
  have fd: "fd (heap sample_epoll 1) = 7" and five: "EPoll_watched sample_epoll 5 = 3"
    by (simp_all add: sample_epoll_def Channel_new_def EPoll_watched_def)
  from EPoll_channel_ops [OF ctl_doc_contract sample_epoll_ok st sample_ops, unfolded fd sample_ops_events]
  obtain s' where "run_all (Channel_op (EPollPoller_updateChannel ctl_doc) (EPollPoller_removeChannel ctl_doc) 1)
      [EnableReading, EnableWriting, DisableWriting] sample_epoll = Inr s'"
    and "EPoll_watched s' = (EPoll_watched sample_epoll)(7 := 3)" by blast
  then show ?thesis by (intro exI [of _ s'] conjI) (simp_all only: fun_upd_apply five, simp_all)
qed

text \<open>
  C6. The same holds of \<^verbatim>\<open>PollPoller\<close>, whose removal swaps the entry with the last one and renumbers
  the moved channel: legal sequences never fail, and \<^verbatim>\<open>poll\<close> is asked for exactly the wanted events.
\<close>
theorem Poll_channel_ops:
  assumes "Poll_ok s" "chan_state s (channels (poller s)) c w" "legal_ops ops w"
  shows "\<exists>s'. run_all (Channel_op PollPoller_updateChannel PollPoller_removeChannel c) ops s = Inr s'
    \<and> Poll_ok s'
    \<and> Poll_watched s' = (Poll_watched s)(fd (heap s c) := state_events (fold spec_chan ops w))"
  using pp.ops_refine [OF assms(1), of c w ops] assms(2,3) by (auto simp: Poll_reg_def)

text \<open>Three channels, the first of which is removed.\<close>

definition sample_poll :: "poll_poller reactor" where
  "sample_poll = \<lparr>heap = (\<lambda>c. (Channel_new (4 + int c))\<lparr>events := 3, index := (if c < 3 then int c else - 1)\<rparr>),
     poller = \<lparr>channels = [4 \<mapsto> 0, 5 \<mapsto> 1, 6 \<mapsto> 2], inLoopThread = True,
       pollfds = map (\<lambda>n. \<lparr>pfd_fd = n, pfd_events = 3, pfd_revents = 0\<rparr>) [4, 5, 6]\<rparr>\<rparr>"

lemma sample_poll_ok: "Poll_ok sample_poll"
proof -
  have "\<exists>c. ([4 \<mapsto> 0, 5 \<mapsto> 1, 6 \<mapsto> 2] :: int \<rightharpoonup> nat) (pfd_key (pfd_fd (map (\<lambda>n. \<lparr>pfd_fd = n, pfd_events = 3, pfd_revents = 0\<rparr>) [4, 5, 6] ! i)))
      = Some c \<and> index ((Channel_new (4 + int c))\<lparr>events := 3, index := (if c < 3 then int c else - 1)\<rparr>) = int i"
    if "i < 3" for i
  proof -
    consider "i = 0" | "i = 1" | "i = 2" using \<open>i < 3\<close> by linarith
    then show ?thesis by cases (simp_all add: pfd_key_def)
  qed
  then show ?thesis
    by (auto simp: Poll_ok_def Poll_inv_def sample_poll_def pfd_for_def Channel_new_def split: if_splits)
qed

theorem Poll_channel_ops_witness:
  "\<exists>s'. run_all (Channel_op PollPoller_updateChannel PollPoller_removeChannel 0) [DisableAll, Remove] sample_poll = Inr s'
    \<and> Poll_watched s' 4 = 0 \<and> Poll_watched s' 6 = 3"
proof -
  have st: "chan_state sample_poll (channels (poller sample_poll)) 0 (Some 3)"
    by (simp add: chan_state_def sample_poll_def Channel_new_def state_events_def)
  have legal: "legal_ops [DisableAll, Remove] (Some 3)"
    and ev: "state_events (fold spec_chan [DisableAll, Remove] (Some 3)) = 0"
    by (simp_all add: spec_chan_def kEvent_bits state_events_def)
  have fd: "fd (heap sample_poll 0) = 4" and six: "Poll_watched sample_poll 6 = 3"
    by (simp_all add: sample_poll_def Channel_new_def Poll_watched_def)
  from Poll_channel_ops [OF sample_poll_ok st legal, unfolded fd ev]
  obtain s' where "run_all (Channel_op PollPoller_updateChannel PollPoller_removeChannel 0) [DisableAll, Remove]
      sample_poll = Inr s'" and "Poll_watched s' = (Poll_watched sample_poll)(4 := 0)" by blast
  then show ?thesis by (intro exI [of _ s'] conjI) (simp_all only: fun_upd_apply six, simp_all)
qed

text \<open>
  A channel that was never registered can be disabled and removed on \<^verbatim>\<open>EPollPoller\<close>, which is what
  \<^verbatim>\<open>~Acceptor\<close> does on a server that never listened, but the same calls fail an assertion of
  \<^verbatim>\<open>PollPoller::removeChannel\<close>: the entry added without events is not marked ignored.
\<close>
theorem Poll_remove_unused_fails:
  assumes "Poll_ok s" "index (heap s c) < 0" "channels (poller s) (fd (heap s c)) = None" "0 \<le> fd (heap s c)"
  shows "run_all (Channel_op PollPoller_updateChannel PollPoller_removeChannel c) [DisableAll, Remove] s
    = Inl AssertFailed"
  using assms Poll_okD(1) [OF assms(1)]
  by (simp add: Channel_disableAll_def Channel_update_def Channel_remove_def PollPoller_updateChannel_def
      PollPoller_removeChannel_def Poller_assertInLoopThread_def Let_def set_events_def set_idx_def
      Channel_set_index_def Channel_isNoneEvent_def kNoneEvent_def)

theorem Poll_remove_unused_fails_witness:
  "run_all (Channel_op PollPoller_updateChannel PollPoller_removeChannel 9) [DisableAll, Remove] sample_poll
    = Inl AssertFailed"
  by (rule Poll_remove_unused_fails [OF sample_poll_ok]) (simp_all add: sample_poll_def Channel_new_def)

text \<open>
  myMuduo's poller ignores a registration the kernel refuses: the channel is recorded as added
  while the kernel does not watch it, where muduo ends the process; a refused removal, which muduo
  only logs, ends the process of myMuduo.
\<close>
theorem MyEPoll_refusals:
  assumes "\<forall>op f ev i. ctl op f ev i = None" "index (heap s c) = kNew" "inLoopThread (poller s)"
    "channels (poller s) (fd (heap s c)) = None" "index (heap s d) = kAdded"
  shows "(\<exists>s'. MyEPollPoller_updateChannel ctl s c = Inr s' \<and> index (heap s' c) = kAdded
        \<and> interest (poller s') = interest (poller s))
    \<and> EPollPoller_updateChannel ctl s c = Inl Exited
    \<and> MyEPollPoller_removeChannel ctl s d = Inl Exited"
  using assms by (simp add: MyEPollPoller_updateChannel_def MyEPollPoller_update_def EPollPoller_updateChannel_def
      EPollPoller_update_def MyEPollPoller_removeChannel_def Poller_assertInLoopThread_def Let_def set_idx_def
      Channel_set_index_def)

theorem MyEPoll_refusals_witness:
  "EPollPoller_updateChannel (\<lambda>op f ev i. None) sample_epoll 1 = Inl Exited
    \<and> MyEPollPoller_removeChannel (\<lambda>op f ev i. None) sample_epoll 0 = Inl Exited"
  using MyEPoll_refusals [of "\<lambda>op f ev i. None" sample_epoll 1 0]
  by (simp add: sample_epoll_def Channel_new_def kNew_def kAdded_def)

end
