(* ===== verification/Text_Format.thy ===== *)
theory Text_Format
  imports Muduo_Prelude "HOL-Library.Signed_Division"
begin

text \<open>
  Decimal text as \<^verbatim>\<open>snprintf\<close> produces it for the directives the sources use: \<^verbatim>\<open>%d\<close>, \<^verbatim>\<open>%ld\<close> and their
  zero- or blank-padded forms, and what reading the digits back gives. Integer division in C++
  truncates towards zero: \<^const>\<open>signed_divide\<close> and \<^const>\<open>signed_modulo\<close> of the library.
\<close>

definition digit_char :: "nat \<Rightarrow> char" where
  "digit_char d = char_of (48 + d)"

fun show_nat :: "nat \<Rightarrow> string" where
  "show_nat n = (if n < 10 then [digit_char n] else show_nat (n div 10) @ [digit_char (n mod 10)])"

declare show_nat.simps [simp del]

definition show_int :: "int \<Rightarrow> string" where
  "show_int i = (if i < 0 then CHR ''-'' # show_nat (nat (- i)) else show_nat (nat i))"

definition pad_left :: "char \<Rightarrow> nat \<Rightarrow> string \<Rightarrow> string" where
  "pad_left c w s = replicate (w - length s) c @ s"

text \<open>\<^verbatim>\<open>%0wd\<close>: the sign comes before the zeros and counts for the width.\<close>

definition show_int_zero :: "nat \<Rightarrow> int \<Rightarrow> string" where
  "show_int_zero w i =
     (if i < 0 then CHR ''-'' # pad_left (CHR ''0'') (w - 1) (show_nat (nat (- i)))
      else pad_left (CHR ''0'') w (show_nat (nat i)))"

definition show_int_blank :: "nat \<Rightarrow> int \<Rightarrow> string" where
  "show_int_blank w i = pad_left (CHR '' '') w (show_int i)"

section \<open>Reading decimal text back\<close>

definition digit_value :: "char \<Rightarrow> nat" where
  "digit_value c = of_char c - 48"

definition read_nat :: "string \<Rightarrow> nat" where
  "read_nat s = foldl (\<lambda>v c. 10 * v + digit_value c) 0 s"

lemma digit_value_char [simp]: "d < 10 \<Longrightarrow> digit_value (digit_char d) = d"
  by (simp add: digit_value_def digit_char_def of_char_of)

lemma read_nat_snoc [simp]: "read_nat (s @ [c]) = 10 * read_nat s + digit_value c"
  by (simp add: read_nat_def)

lemma read_show_nat [simp]: "read_nat (show_nat n) = n"
proof (induction n rule: show_nat.induct)
  case (1 n)
  then show ?case
    by (subst show_nat.simps) (auto simp: read_nat_def [of "[_]"])
qed

lemma show_nat_inj: "show_nat m = show_nat n \<longleftrightarrow> m = n"
  by (metis read_show_nat)

lemma length_show_nat_pos: "0 < length (show_nat n)"
  by (subst show_nat.simps) simp

lemma length_show_nat_le: "n < 10 ^ Suc k \<Longrightarrow> length (show_nat n) \<le> Suc k"
proof (induction k arbitrary: n)
  case 0
  then show ?case by (subst show_nat.simps) simp
next
  case (Suc k)
  show ?case
  proof (cases "n < 10")
    case True
    then show ?thesis by (subst show_nat.simps) simp
  next
    case False
    have "n div 10 < 10 ^ Suc k" using Suc.prems by (simp add: less_mult_imp_div_less)
    then show ?thesis using Suc.IH [of "n div 10"] False by (subst show_nat.simps) simp
  qed
qed

lemma of_digit_char [simp]: "d < 10 \<Longrightarrow> (of_char (digit_char d) :: nat) = 48 + d"
  by (simp add: digit_char_def of_char_of)

lemma set_show_nat: "c \<in> set (show_nat n) \<Longrightarrow> (of_char c :: nat) \<in> {48..57}"
proof (induction n rule: show_nat.induct)
  case (1 n)
  show ?case
  proof (cases "n < 10")
    case True
    with 1(2) have "c = digit_char n" by (simp add: show_nat.simps [of n])
    with True show ?thesis by simp
  next
    case False
    with 1(2) have "c \<in> set (show_nat (n div 10)) \<or> c = digit_char (n mod 10)"
      by (subst (asm) show_nat.simps) auto
    with False 1(1) show ?thesis by auto
  qed
qed

section \<open>Truncating division\<close>

lemma sdiv_nonneg [simp]: "0 \<le> a \<Longrightarrow> 0 < b \<Longrightarrow> a sdiv b = a div (b :: int)"
  by (cases "a = 0") (simp_all add: signed_divide_int_def)

lemma smod_nonneg [simp]: "0 \<le> a \<Longrightarrow> 0 < b \<Longrightarrow> a smod b = a mod (b :: int)"
  by (cases "a = 0") (simp_all add: signed_modulo_int_def)

lemma div_eqI: "q * b \<le> x \<Longrightarrow> x < q * b + b \<Longrightarrow> x div b = (q :: int)"
  by (rule int_div_pos_eq [of _ _ _ "x - q * b"]) simp_all

end
