(* ===== verification/Base_Time.thy ===== *)
theory Base_Time
  imports Text_Format
begin

text \<open>
  \<^verbatim>\<open>Timestamp\<close> and \<^verbatim>\<open>Date\<close> of \<^verbatim>\<open>muduo/base\<close>. Microseconds and Julian day numbers are integers: the
  documented ranges (years 1900 to 2500) stay far inside \<^verbatim>\<open>int64_t\<close> and \<^verbatim>\<open>int\<close>. Division
  truncates as in C++. \<^verbatim>\<open>gmtime_r\<close> is an argument of the formatting function.
\<close>

section \<open>Timestamp\<close>

datatype timestamp = Timestamp (microSecondsSinceEpoch: int)

definition kMicroSecondsPerSecond :: int where
  "kMicroSecondsPerSecond = 1000 * 1000"

definition Timestamp_before :: "timestamp \<Rightarrow> timestamp \<Rightarrow> bool" where
  "Timestamp_before lhs rhs \<longleftrightarrow> microSecondsSinceEpoch lhs < microSecondsSinceEpoch rhs"

instantiation timestamp :: linorder
begin

definition less_timestamp :: "timestamp \<Rightarrow> timestamp \<Rightarrow> bool" where
  "less_timestamp = Timestamp_before"

definition less_eq_timestamp :: "timestamp \<Rightarrow> timestamp \<Rightarrow> bool" where
  "less_eq_timestamp lhs rhs \<longleftrightarrow> microSecondsSinceEpoch lhs \<le> microSecondsSinceEpoch rhs"

instance
  by standard (auto simp: less_timestamp_def Timestamp_before_def less_eq_timestamp_def timestamp.expand)

end

lemma Timestamp_less [simp]: "Timestamp a < Timestamp b \<longleftrightarrow> a < b" "Timestamp a \<le> Timestamp b \<longleftrightarrow> a \<le> b"
  by (simp_all add: less_timestamp_def Timestamp_before_def less_eq_timestamp_def)

definition Timestamp_invalid :: timestamp where
  "Timestamp_invalid = Timestamp 0"

definition Timestamp_valid :: "timestamp \<Rightarrow> bool" where
  "Timestamp_valid t \<longleftrightarrow> microSecondsSinceEpoch t > 0"

definition Timestamp_swap :: "timestamp \<Rightarrow> timestamp \<Rightarrow> timestamp \<times> timestamp" where
  "Timestamp_swap t that =
     (Timestamp (microSecondsSinceEpoch that), Timestamp (microSecondsSinceEpoch t))"

definition Timestamp_secondsSinceEpoch :: "timestamp \<Rightarrow> int" where
  "Timestamp_secondsSinceEpoch t = microSecondsSinceEpoch t sdiv kMicroSecondsPerSecond"

definition Timestamp_fromUnixTime :: "int \<Rightarrow> int \<Rightarrow> timestamp" where
  "Timestamp_fromUnixTime t microseconds = Timestamp (t * kMicroSecondsPerSecond + microseconds)"

text \<open>\<open>tv\<close> is what \<^verbatim>\<open>gettimeofday\<close> stored: seconds and microseconds.\<close>

definition Timestamp_now :: "int \<times> int \<Rightarrow> timestamp" where
  "Timestamp_now tv = Timestamp (fst tv * kMicroSecondsPerSecond + snd tv)"

text \<open>The product of a \<^verbatim>\<open>double\<close> with a million, converted to \<^verbatim>\<open>int64_t\<close>, is given as \<open>delta\<close>.\<close>

definition addTime :: "timestamp \<Rightarrow> int \<Rightarrow> timestamp" where
  "addTime t delta = Timestamp (microSecondsSinceEpoch t + delta)"

definition Timestamp_toString :: "timestamp \<Rightarrow> string" where
  "Timestamp_toString t =
     (let seconds = microSecondsSinceEpoch t sdiv kMicroSecondsPerSecond;
          microseconds = microSecondsSinceEpoch t smod kMicroSecondsPerSecond
      in take 30 (show_int seconds @ ''.'' @ show_int_zero 6 microseconds))"

record tm =
  tm_year :: int
  tm_mon :: int
  tm_mday :: int
  tm_hour :: int
  tm_min :: int
  tm_sec :: int

definition Timestamp_toFormattedString :: "(int \<Rightarrow> tm) \<Rightarrow> bool \<Rightarrow> timestamp \<Rightarrow> string" where
  "Timestamp_toFormattedString gmtime showMicroseconds t =
     (let seconds = microSecondsSinceEpoch t sdiv kMicroSecondsPerSecond;
          tm = gmtime seconds;
          text = show_int_blank 4 (tm_year tm + 1900) @ show_int_zero 2 (tm_mon tm + 1)
            @ show_int_zero 2 (tm_mday tm) @ '' '' @ show_int_zero 2 (tm_hour tm) @ '':''
            @ show_int_zero 2 (tm_min tm) @ '':'' @ show_int_zero 2 (tm_sec tm)
      in take 63 (if showMicroseconds
         then text @ ''.'' @ show_int_zero 6 (microSecondsSinceEpoch t smod kMicroSecondsPerSecond)
         else text))"

section \<open>Date\<close>

record YearMonthDay =
  year :: int
  month :: int
  day :: int

definition getJulianDayNumber :: "int \<Rightarrow> int \<Rightarrow> int \<Rightarrow> int" where
  "getJulianDayNumber yr mon dy =
     (let a = (14 - mon) sdiv 12;
          y = yr + 4800 - a;
          m = mon + 12 * a - 3
      in dy + (153 * m + 2) sdiv 5 + y * 365 + y sdiv 4 - y sdiv 100 + y sdiv 400 - 32045)"

definition getYearMonthDay :: "int \<Rightarrow> YearMonthDay" where
  "getYearMonthDay julianDayNumber =
     (let a = julianDayNumber + 32044;
          b = (4 * a + 3) sdiv 146097;
          c = a - ((b * 146097) sdiv 4);
          d = (4 * c + 3) sdiv 1461;
          e = c - ((1461 * d) sdiv 4);
          m = (5 * e + 2) sdiv 153
      in \<lparr>year = b * 100 + d - 4800 + (m sdiv 10),
          month = m + 3 - 12 * (m sdiv 10),
          day = e - ((153 * m + 2) sdiv 5) + 1\<rparr>)"

definition kJulianDayOf1970_01_01 :: int where
  "kJulianDayOf1970_01_01 = getJulianDayNumber 1970 1 1"

definition kDaysPerWeek :: int where
  "kDaysPerWeek = 7"

datatype date = Date (julianDayNumber: int)

definition Date_before :: "date \<Rightarrow> date \<Rightarrow> bool" where
  "Date_before x y \<longleftrightarrow> julianDayNumber x < julianDayNumber y"

instantiation date :: linorder
begin

definition less_date :: "date \<Rightarrow> date \<Rightarrow> bool" where
  "less_date = Date_before"

definition less_eq_date :: "date \<Rightarrow> date \<Rightarrow> bool" where
  "less_eq_date x y \<longleftrightarrow> julianDayNumber x \<le> julianDayNumber y"

instance
  by standard (auto simp: less_date_def Date_before_def less_eq_date_def date.expand)

end

definition Date_ymd :: "int \<Rightarrow> int \<Rightarrow> int \<Rightarrow> date" where
  "Date_ymd y m d = Date (getJulianDayNumber y m d)"

definition Date_tm :: "tm \<Rightarrow> date" where
  "Date_tm t = Date (getJulianDayNumber (tm_year t + 1900) (tm_mon t + 1) (tm_mday t))"

definition Date_valid :: "date \<Rightarrow> bool" where
  "Date_valid x \<longleftrightarrow> julianDayNumber x > 0"

definition Date_yearMonthDay :: "date \<Rightarrow> YearMonthDay" where
  "Date_yearMonthDay x = getYearMonthDay (julianDayNumber x)"

definition Date_weekDay :: "date \<Rightarrow> int" where
  "Date_weekDay x = (julianDayNumber x + 1) smod kDaysPerWeek"

definition Date_toIsoString :: "date \<Rightarrow> string" where
  "Date_toIsoString x =
     (let ymd = Date_yearMonthDay x
      in take 31 (show_int_blank 4 (year ymd) @ ''-'' @ show_int_zero 2 (month ymd) @ ''-''
           @ show_int_zero 2 (day ymd)))"

section \<open>The Gregorian calendar\<close>

definition leap :: "int \<Rightarrow> bool" where
  "leap y \<longleftrightarrow> 4 dvd y \<and> (100 dvd y \<longrightarrow> 400 dvd y)"

definition month_days :: "int \<Rightarrow> int \<Rightarrow> int" where
  "month_days y m = (if m = 2 then (if leap y then 29 else 28) else if m \<in> {4, 6, 9, 11} then 30 else 31)"

definition real_date :: "int \<Rightarrow> int \<Rightarrow> int \<Rightarrow> bool" where
  "real_date y m d \<longleftrightarrow> - 4800 < y \<and> 1 \<le> m \<and> m \<le> 12 \<and> 1 \<le> d \<and> d \<le> month_days y m"

text \<open>
  The algorithm counts years from March: \<open>doy\<close> is the day of such a year, \<open>B\<close> its century and \<open>D\<close>
  its place in the century.
\<close>

definition march_doy :: "int \<Rightarrow> int \<Rightarrow> int" where
  "march_doy m d = (d - 1) + (153 * m + 2) div 5"

lemma century_split:
  fixes y :: int
  assumes "0 \<le> y"
  shows "y div 4 - y div 100 + y div 400 =
    24 * (y div 100) + (y div 100) div 4 + (y mod 100) div 4"
proof -
  have "y div 400 = (y div 100) div 4" by (simp add: zdiv_zmult2_eq)
  moreover have "y div 4 = 25 * (y div 100) + (y mod 100) div 4"
  proof -
    have "y = y mod 100 + (25 * (y div 100)) * 4" by simp
    then show ?thesis by (metis div_mult_self1 zero_neq_numeral)
  qed
  ultimately show ?thesis by simp
qed

lemma decode_century:
  fixes B D doy :: int
  assumes "0 \<le> B" "0 \<le> D" "D < 100" "0 \<le> doy" "doy \<le> 365" "doy = 365 \<longrightarrow> D mod 4 = 3 \<and> (D = 99 \<longrightarrow> B mod 4 = 3)"
  shows "(4 * (36524 * B + B div 4 + (365 * D + D div 4 + doy)) + 3) div 146097 = B"
proof (rule div_eqI)
  define q r p where "q = B div 4" and "r = B mod 4" and "p = D div 4"
  have "B = 4 * q + r" "0 \<le> r" "r \<le> 3" by (simp_all add: q_def r_def)
  moreover have "0 \<le> p" "p \<le> 24" using assms by (auto simp: p_def)
  moreover have "D \<le> 98 \<or> D = 99 \<and> doy \<le> 364 \<or> D = 99 \<and> doy = 365 \<and> r = 3"
    using assms by (auto simp: r_def)
  ultimately have "B * 146097 \<le> 4 * (36524 * B + q + (365 * D + p + doy)) + 3 \<and>
      4 * (36524 * B + q + (365 * D + p + doy)) + 3 < B * 146097 + 146097"
    using assms(1-5) by auto
  then show "B * 146097 \<le> 4 * (36524 * B + B div 4 + (365 * D + D div 4 + doy)) + 3"
    "4 * (36524 * B + B div 4 + (365 * D + D div 4 + doy)) + 3 < B * 146097 + 146097"
    by (simp_all add: q_def p_def)
qed

lemma decode_year:
  fixes D doy :: int
  assumes "0 \<le> D" "0 \<le> doy" "doy \<le> 365" "doy = 365 \<longrightarrow> D mod 4 = 3"
  shows "(4 * (365 * D + D div 4 + doy) + 3) div 1461 = D"
proof (rule div_eqI)
  define q r where "q = D div 4" and "r = D mod 4"
  have "D = 4 * q + r" "0 \<le> r" "r \<le> 3" by (simp_all add: q_def r_def)
  moreover have "doy \<le> 364 \<or> doy = 365 \<and> r = 3" using assms by (auto simp: r_def)
  ultimately have "D * 1461 \<le> 4 * (365 * D + q + doy) + 3 \<and> 4 * (365 * D + q + doy) + 3 < D * 1461 + 1461"
    using assms(1-3) by auto
  then show "D * 1461 \<le> 4 * (365 * D + D div 4 + doy) + 3"
    "4 * (365 * D + D div 4 + doy) + 3 < D * 1461 + 1461"
    by (simp_all add: q_def)
qed

text \<open>Month and day inside a March year.\<close>

lemma decode_month:
  fixes m d :: int
  assumes "0 \<le> m" "m \<le> 11" "1 \<le> d" "d \<le> (if m \<in> {1, 3, 6, 8} then 30 else if m = 11 then 29 else 31)"
  shows "(5 * march_doy m d + 2) div 153 = m" "0 \<le> march_doy m d" "march_doy m d \<le> 365"
    "march_doy m d = 365 \<longleftrightarrow> m = 11 \<and> d = 29"
proof -
  have "m \<in> {0, 1, 2, 3, 4, 5, 6, 7, 8, 9, 10, 11}" using assms(1,2) by (simp; presburger)
  then have "(5 * march_doy m d + 2) div 153 = m \<and> 0 \<le> march_doy m d \<and> march_doy m d \<le> 365
      \<and> (march_doy m d = 365 \<longleftrightarrow> m = 11 \<and> d = 29)"
    using assms(3,4) by (elim insertE emptyE) (simp_all add: march_doy_def div_eqI split: if_splits)
  then show "(5 * march_doy m d + 2) div 153 = m" "0 \<le> march_doy m d" "march_doy m d \<le> 365"
    "march_doy m d = 365 \<longleftrightarrow> m = 11 \<and> d = 29" by auto
qed

lemma leap_march:
  assumes "leap y"
  shows "(y + 4799) mod 100 mod 4 = 3 \<and> ((y + 4799) mod 100 = 99 \<longrightarrow> (y + 4799) div 100 mod 4 = 3)"
proof -
  have four: "4 dvd y" and cent: "100 dvd y \<longrightarrow> 400 dvd y" using assms by (auto simp: leap_def)
  have "(y + 4799) mod 4 = 3" using four by presburger
  then have "(y + 4799) mod 100 mod 4 = 3" by (simp add: mod_mod_cancel)
  moreover have "(y + 4799) div 100 mod 4 = 3" if "(y + 4799) mod 100 = 99"
  proof -
    have "100 dvd y" using that by presburger
    then obtain k where k: "y = 400 * k" using cent by (auto elim: dvdE)
    have "(y + 4799) div 100 = 4 * (k + 11) + 3" by (rule div_eqI) (simp_all add: k)
    then show ?thesis by simp
  qed
  ultimately show ?thesis by blast
qed

lemma julian_march:
  fixes Y M d :: int
  defines "B \<equiv> Y div 100" and "D \<equiv> Y mod 100"
  assumes "0 \<le> Y" "0 \<le> M"
  shows "d + (153 * M + 2) sdiv 5 + Y * 365 + Y sdiv 4 - Y sdiv 100 + Y sdiv 400 - 32045 + 32044 =
    36524 * B + B div 4 + (365 * D + D div 4 + march_doy M d)"
proof -
  have "Y = 100 * B + D" by (simp add: B_def D_def)
  then have Y: "Y * 365 = 36500 * B + 365 * D" by simp
  have cs: "Y div 4 - Y div 100 + Y div 400 = 24 * B + B div 4 + D div 4"
    unfolding B_def D_def by (rule century_split [OF assms(3)])
  have "d + (153 * M + 2) sdiv 5 + Y * 365 + Y sdiv 4 - Y sdiv 100 + Y sdiv 400 - 32045 + 32044 =
      march_doy M d + Y * 365 + (Y div 4 - Y div 100 + Y div 400)"
    using assms(3,4) by (simp add: march_doy_def)
  also have "\<dots> = march_doy M d + (36500 * B + 365 * D) + (24 * B + B div 4 + D div 4)"
    unfolding cs Y ..
  finally show ?thesis by simp
qed

lemma decode_march:
  fixes Y M d :: int
  assumes Y: "0 \<le> Y" and M: "0 \<le> M" "M \<le> 11"
    and d: "1 \<le> d" "d \<le> (if M \<in> {1, 3, 6, 8} then 30 else if M = 11 then 29 else 31)"
    and leap: "M = 11 \<and> d = 29 \<longrightarrow> Y mod 100 mod 4 = 3 \<and> (Y mod 100 = 99 \<longrightarrow> Y div 100 mod 4 = 3)"
    and J: "J + 32044 = 36524 * (Y div 100) + Y div 100 div 4 + (365 * (Y mod 100) + Y mod 100 div 4 + march_doy M d)"
  shows "getYearMonthDay J = \<lparr>year = Y - 4800 + M div 10, month = M + 3 - 12 * (M div 10), day = d\<rparr>"
proof -
  define B D where "B = Y div 100" and "D = Y mod 100"
  have BD: "0 \<le> B" "0 \<le> D" "D < 100" "Y = 100 * B + D" using Y by (simp_all add: B_def D_def pos_imp_zdiv_nonneg_iff)
  note doy = decode_month [OF M d]
  have l: "march_doy M d = 365 \<longrightarrow> D mod 4 = 3 \<and> (D = 99 \<longrightarrow> B mod 4 = 3)"
    using leap doy(4) by (simp add: B_def D_def)
  define a where "a = J + 32044"
  have a: "a = 36524 * B + B div 4 + (365 * D + D div 4 + march_doy M d)" using J by (simp add: a_def B_def D_def)
  have a0: "0 \<le> a" using a BD doy(2) by (simp add: pos_imp_zdiv_nonneg_iff)
  have b: "(4 * a + 3) sdiv 146097 = B"
    using decode_century [OF BD(1-3) doy(2,3) l] a0 by (simp add: a)
  have "(B * 146097) div 4 = 36524 * B + B div 4"
  proof -
    have "B * 146097 = B + (36524 * B) * 4" by simp
    then show ?thesis by (metis div_mult_self1 zero_neq_numeral)
  qed
  then have c: "a - (B * 146097) sdiv 4 = 365 * D + D div 4 + march_doy M d" using BD a by simp
  have d': "(4 * (365 * D + D div 4 + march_doy M d) + 3) sdiv 1461 = D"
    using decode_year [OF BD(2) doy(2,3)] l BD doy(2) by (simp add: pos_imp_zdiv_nonneg_iff)
  have "(1461 * D) div 4 = 365 * D + D div 4"
  proof -
    have "1461 * D = D + (365 * D) * 4" by simp
    then show ?thesis by (metis div_mult_self1 zero_neq_numeral)
  qed
  then have e: "365 * D + D div 4 + march_doy M d - (1461 * D) sdiv 4 = march_doy M d" using BD by simp
  have m: "(5 * march_doy M d + 2) sdiv 153 = M" using doy(1,2) by simp
  show ?thesis
    unfolding getYearMonthDay_def Let_def a_def [symmetric] b c d' e m
    using M BD by (simp add: march_doy_def)
qed

lemma Date_decode:
  assumes "real_date y m d"
  shows "getYearMonthDay (getJulianDayNumber y m d) = \<lparr>year = y, month = m, day = d\<rparr>"
proof -
  define a where "a = (if m \<le> 2 then 1 else 0 :: int)"
  have rd: "- 4800 < y" "1 \<le> m" "m \<le> 12" "1 \<le> d" "d \<le> month_days y m" using assms by (simp_all add: real_date_def)
  have a: "(14 - m) sdiv 12 = a"
    using rd by (auto simp: a_def intro!: div_eqI)
  let ?Y = "y + 4800 - a" and ?M = "m + 12 * a - 3"
  have YM: "0 \<le> ?Y" "0 \<le> ?M" "?M \<le> 11" using rd by (auto simp: a_def)
  have len: "d \<le> (if ?M \<in> {1, 3, 6, 8} then 30 else if ?M = 11 then 29 else 31)"
    using rd by (auto simp: a_def month_days_def split: if_splits)
  have leap: "?M = 11 \<and> d = 29 \<longrightarrow> ?Y mod 100 mod 4 = 3 \<and> (?Y mod 100 = 99 \<longrightarrow> ?Y div 100 mod 4 = 3)"
  proof
    assume "?M = 11 \<and> d = 29"
    then have m: "m = 2" "d = 29" using rd(3) by (auto simp: a_def split: if_splits)
    then have "leap y" using rd(5) by (simp add: month_days_def split: if_splits)
    moreover have Y: "?Y = y + 4799" using m by (simp add: a_def)
    ultimately show "?Y mod 100 mod 4 = 3 \<and> (?Y mod 100 = 99 \<longrightarrow> ?Y div 100 mod 4 = 3)"
      unfolding Y using leap_march by blast
  qed
  have J: "getJulianDayNumber y m d + 32044 = 36524 * (?Y div 100) + ?Y div 100 div 4 +
      (365 * (?Y mod 100) + ?Y mod 100 div 4 + march_doy ?M d)"
    using julian_march [OF YM(1,2), of d] by (simp add: getJulianDayNumber_def Let_def a)
  have "?M div 10 = a" using rd by (auto simp: a_def intro!: div_eqI)
  then show ?thesis
    using decode_march [OF YM rd(4) len leap J] by simp
qed

text \<open>
  Calendar round trip: for every date of the Gregorian calendar after the year -4800, leap days
  included, converting to the Julian day number and back gives the same year, month and day.
\<close>
theorem Date_roundtrip:
  assumes "real_date y m d"
  shows "Date_yearMonthDay (Date_ymd y m d) = \<lparr>year = y, month = m, day = d\<rparr>"
  using Date_decode [OF assms] by (simp add: Date_yearMonthDay_def Date_ymd_def)

theorem Date_roundtrip_witness:
  "Date_yearMonthDay (Date_ymd 2000 2 29) = \<lparr>year = 2000, month = 2, day = 29\<rparr>"
  by (rule Date_roundtrip) (simp add: real_date_def month_days_def leap_def)

end
