(* ===== verification/Net_Timer.thy ===== *)
theory Net_Timer
  imports Base_Time "HOL-Library.Product_Lexorder"
begin

text \<open>
  \<^verbatim>\<open>Timer\<close>, \<^verbatim>\<open>TimerId\<close> and \<^verbatim>\<open>TimerQueue\<close> of \<^verbatim>\<open>muduo/net\<close>. A \<^verbatim>\<open>Timer*\<close> is an address; the heap maps
  live addresses to timers, so that \<^verbatim>\<open>delete\<close> empties a cell and a use after it is the fault
  \<open>NullDeref\<close>. A \<^verbatim>\<open>std::set\<close> is its sorted list of elements. The clock readings, the address the
  allocator returns and the user's callbacks are arguments. A timer's interval is given by its sign
  and by its value in microseconds, the two things the code computes from the \<^verbatim>\<open>double\<close>.
\<close>

section \<open>Timer\<close>

record 'cb timer =
  callback :: 'cb
  expiration :: timestamp
  interval :: int
  repeat :: bool
  sequence :: int

definition Timer_new :: "'cb \<Rightarrow> timestamp \<Rightarrow> bool \<Rightarrow> int \<Rightarrow> int \<Rightarrow> 'cb timer" where
  "Timer_new cb when positive delta numCreated =
     \<lparr>callback = cb, expiration = when, interval = delta, repeat = positive, sequence = numCreated + 1\<rparr>"

definition Timer_restart :: "timestamp \<Rightarrow> 'cb timer \<Rightarrow> 'cb timer" where
  "Timer_restart now t =
     (if repeat t then t\<lparr>expiration := addTime now (interval t)\<rparr>
      else t\<lparr>expiration := Timestamp_invalid\<rparr>)"

type_synonym timer_id = "nat \<times> int"
type_synonym entry = "timestamp \<times> nat"

section \<open>The timer descriptor\<close>

definition howMuchTimeFromNow :: "timestamp \<Rightarrow> timestamp \<Rightarrow> int \<times> int" where
  "howMuchTimeFromNow now when =
     (let us = microSecondsSinceEpoch when - microSecondsSinceEpoch now;
          us = (if us < 100 then 100 else us)
      in (us sdiv kMicroSecondsPerSecond, (us smod kMicroSecondsPerSecond) * 1000))"

section \<open>TimerQueue\<close>

record 'cb timer_queue =
  theap :: "nat \<Rightarrow> 'cb timer option"
  numCreated :: int
  timers :: "entry list"
  activeTimers :: "timer_id list"
  callingExpiredTimers :: bool
  cancelingTimers :: "timer_id list"
  inLoop :: bool
  timerfd :: "(timestamp \<times> int \<times> int) option"

definition TimerQueue_new :: "bool \<Rightarrow> 'cb timer_queue" where
  "TimerQueue_new isInLoopThread =
     \<lparr>theap = Map.empty, numCreated = 0, timers = [], activeTimers = [], callingExpiredTimers = False,
      cancelingTimers = [], inLoop = isInLoopThread, timerfd = None\<rparr>"

text \<open>\<^verbatim>\<open>std::set::insert\<close> returns whether the element is new, \<^verbatim>\<open>erase\<close> how many elements went.\<close>

definition set_insert :: "'a::linorder \<Rightarrow> 'a list \<Rightarrow> 'a list \<times> bool" where
  "set_insert x xs = (if x \<in> set xs then (xs, False) else (insort x xs, True))"

definition set_erase :: "'a::linorder \<Rightarrow> 'a list \<Rightarrow> 'a list \<times> nat" where
  "set_erase x xs = (if x \<in> set xs then (remove1 x xs, 1) else (xs, 0))"

definition deref :: "'cb timer_queue \<Rightarrow> nat \<Rightarrow> 'cb timer res" where
  "deref q p = (case theap q p of None \<Rightarrow> Inl NullDeref | Some t \<Rightarrow> Inr t)"

definition loop_assert :: "'cb timer_queue \<Rightarrow> 'a res \<Rightarrow> 'a res" where
  "loop_assert q k = (if inLoop q then k else Inl Exited)"

text \<open>The value given to \<^verbatim>\<open>timerfd_settime\<close>, with the clock reading it is relative to.\<close>

definition resetTimerfd :: "timestamp \<Rightarrow> timestamp \<Rightarrow> 'cb timer_queue \<Rightarrow> 'cb timer_queue" where
  "resetTimerfd clock when q = q\<lparr>timerfd := Some (clock, howMuchTimeFromNow clock when)\<rparr>"

definition TimerQueue_insert :: "'cb timer_queue \<Rightarrow> nat \<Rightarrow> (bool \<times> 'cb timer_queue) res" where
  "TimerQueue_insert q p =
     loop_assert q (c_assert (length (timers q) = length (activeTimers q))
       (rbind (deref q p) (\<lambda>t.
         let when = expiration t;
             earliestChanged = (timers q = [] \<or> when < fst (hd (timers q)));
             (ts, fresh1) = set_insert (when, p) (timers q);
             (as, fresh2) = set_insert (p, sequence t) (activeTimers q);
             q' = q\<lparr>timers := ts, activeTimers := as\<rparr>
         in c_assert fresh1 (c_assert fresh2
              (c_assert (length (timers q') = length (activeTimers q')) (Inr (earliestChanged, q')))))))"

definition TimerQueue_addTimerInLoop :: "timestamp \<Rightarrow> 'cb timer_queue \<Rightarrow> nat \<Rightarrow> 'cb timer_queue res" where
  "TimerQueue_addTimerInLoop clock q p =
     loop_assert q (rbind (TimerQueue_insert q p) (\<lambda>(earliestChanged, q').
       if earliestChanged then rbind (deref q' p) (\<lambda>t. Inr (resetTimerfd clock (expiration t) q'))
       else Inr q'))"

text \<open>
  \<^verbatim>\<open>addTimer\<close> allocates the timer at once and hands \<^verbatim>\<open>addTimerInLoop\<close> to the loop: the id is the result,
  the address is what the loop is asked to add.
\<close>

definition TimerQueue_addTimer ::
  "nat \<Rightarrow> 'cb \<Rightarrow> timestamp \<Rightarrow> bool \<Rightarrow> int \<Rightarrow> 'cb timer_queue \<Rightarrow> timer_id \<times> 'cb timer_queue" where
  "TimerQueue_addTimer p cb when positive delta q =
     (let t = Timer_new cb when positive delta (numCreated q)
      in ((p, sequence t), q\<lparr>theap := (theap q)(p \<mapsto> t), numCreated := numCreated q + 1\<rparr>))"

definition TimerQueue_cancelInLoop :: "'cb timer_queue \<Rightarrow> timer_id \<Rightarrow> 'cb timer_queue res" where
  "TimerQueue_cancelInLoop q timerId =
     loop_assert q (c_assert (length (timers q) = length (activeTimers q))
       (rbind
         (if timerId \<in> set (activeTimers q)
          then rbind (deref q (fst timerId)) (\<lambda>t.
            let (ts, n) = set_erase (expiration t, fst timerId) (timers q)
            in c_assert (n = 1)
                 (Inr (q\<lparr>timers := ts, theap := (theap q)(fst timerId := None),
                         activeTimers := remove1 timerId (activeTimers q)\<rparr>)))
          else if callingExpiredTimers q
          then Inr (q\<lparr>cancelingTimers := fst (set_insert timerId (cancelingTimers q))\<rparr>)
          else Inr q)
         (\<lambda>q'. c_assert (length (timers q') = length (activeTimers q')) (Inr q'))))"

fun erase_active :: "entry list \<Rightarrow> 'cb timer_queue \<Rightarrow> 'cb timer_queue res" where
  "erase_active [] q = Inr q"
| "erase_active ((when, p) # es) q =
     rbind (deref q p) (\<lambda>t.
       let (as, n) = set_erase (p, sequence t) (activeTimers q)
       in c_assert (n = 1) (erase_active es (q\<lparr>activeTimers := as\<rparr>)))"

definition UINTPTR_MAX :: nat where
  "UINTPTR_MAX = 2 ^ 64 - 1"

definition TimerQueue_getExpired :: "timestamp \<Rightarrow> 'cb timer_queue \<Rightarrow> (entry list \<times> 'cb timer_queue) res" where
  "TimerQueue_getExpired now q =
     c_assert (length (timers q) = length (activeTimers q))
       (let sentry = (now, UINTPTR_MAX);
            expired = takeWhile (\<lambda>e. e < sentry) (timers q);
            rest = dropWhile (\<lambda>e. e < sentry) (timers q)
        in c_assert (rest = [] \<or> now < fst (hd rest))
             (rbind (erase_active expired (q\<lparr>timers := rest\<rparr>)) (\<lambda>q'.
               c_assert (length (timers q') = length (activeTimers q')) (Inr (expired, q')))))"

fun reset_each :: "timestamp \<Rightarrow> entry list \<Rightarrow> 'cb timer_queue \<Rightarrow> 'cb timer_queue res" where
  "reset_each now [] q = Inr q"
| "reset_each now ((when, p) # es) q =
     rbind (deref q p) (\<lambda>t.
       if repeat t \<and> (p, sequence t) \<notin> set (cancelingTimers q)
       then rbind (TimerQueue_insert (q\<lparr>theap := (theap q)(p \<mapsto> Timer_restart now t)\<rparr>) p)
              (\<lambda>(_, q'). reset_each now es q')
       else reset_each now es (q\<lparr>theap := (theap q)(p := None)\<rparr>))"

definition TimerQueue_reset :: "timestamp \<Rightarrow> entry list \<Rightarrow> timestamp \<Rightarrow> 'cb timer_queue \<Rightarrow> 'cb timer_queue res" where
  "TimerQueue_reset clock expired now q =
     rbind (reset_each now expired q) (\<lambda>q'.
       rbind (if timers q' = [] then Inr Timestamp_invalid
              else rbind (deref q' (snd (hd (timers q')))) (\<lambda>t. Inr (expiration t)))
         (\<lambda>nextExpire. Inr (if Timestamp_valid nextExpire then resetTimerfd clock nextExpire q' else q')))"

fun run_expired :: "('cb \<Rightarrow> 'cb timer_queue \<Rightarrow> 'cb timer_queue res) \<Rightarrow> entry list \<Rightarrow> 'cb timer_queue \<Rightarrow> 'cb timer_queue res" where
  "run_expired run [] q = Inr q"
| "run_expired run ((when, p) # es) q =
     rbind (deref q p) (\<lambda>t. rbind (run (callback t) q) (run_expired run es))"

text \<open>Reading the descriptor only clears it; \<open>run\<close> is what each user callback does.\<close>

definition TimerQueue_handleRead ::
  "('cb \<Rightarrow> 'cb timer_queue \<Rightarrow> 'cb timer_queue res) \<Rightarrow> timestamp \<Rightarrow> timestamp \<Rightarrow> 'cb timer_queue \<Rightarrow> 'cb timer_queue res" where
  "TimerQueue_handleRead run now clock q =
     loop_assert q (rbind (TimerQueue_getExpired now q) (\<lambda>(expired, q1).
       rbind (run_expired run expired (q1\<lparr>callingExpiredTimers := True, cancelingTimers := []\<rparr>)) (\<lambda>q2.
         TimerQueue_reset clock expired now (q2\<lparr>callingExpiredTimers := False\<rparr>))))"

text \<open>The destructor deletes the timers still in the list.\<close>

definition TimerQueue_delete :: "'cb timer_queue \<Rightarrow> 'cb timer_queue" where
  "TimerQueue_delete q = q\<lparr>theap := (\<lambda>p. if p \<in> snd ` set (timers q) then None else theap q p)\<rparr>"

end
