(* ===== verification/Timer_Laws.thy ===== *)
theory Timer_Laws
  imports Net_Timer
begin

text \<open>
  The timer queue keeps its two sets in step and never touches a deleted timer: an invariant relative
  to the set of timers that are being run, preserved by every operation, and the functional
  description of \<^verbatim>\<open>handleRead\<close> and \<^verbatim>\<open>cancel\<close>.
\<close>

section \<open>The invariant\<close>

definition TQ_inv :: "nat set \<Rightarrow> 'cb timer_queue \<Rightarrow> bool" where
  "TQ_inv E q \<longleftrightarrow> inLoop q \<and> sorted (timers q) \<and> distinct (timers q) \<and>
     sorted (activeTimers q) \<and> distinct (activeTimers q) \<and>
     (\<forall>w p. (w, p) \<in> set (timers q) \<longrightarrow> p \<notin> E \<and> p < UINTPTR_MAX \<and>
        (\<exists>t. theap q p = Some t \<and> expiration t = w \<and> (p, sequence t) \<in> set (activeTimers q))) \<and>
     (\<forall>p n. (p, n) \<in> set (activeTimers q) \<longrightarrow>
        (\<exists>t. theap q p = Some t \<and> sequence t = n \<and> (expiration t, p) \<in> set (timers q))) \<and>
     (\<forall>p \<in> E. theap q p \<noteq> None \<and> p < UINTPTR_MAX)"

lemma TQ_invD:
  assumes "TQ_inv E q"
  shows "inLoop q" "sorted (timers q)" "distinct (timers q)" "sorted (activeTimers q)" "distinct (activeTimers q)"
    and "(w, p) \<in> set (timers q) \<Longrightarrow> p \<notin> E \<and> p < UINTPTR_MAX"
    and "(w, p) \<in> set (timers q) \<Longrightarrow> \<exists>t. theap q p = Some t \<and> expiration t = w \<and> (p, sequence t) \<in> set (activeTimers q)"
    and "(p, n) \<in> set (activeTimers q) \<Longrightarrow> \<exists>t. theap q p = Some t \<and> sequence t = n \<and> (expiration t, p) \<in> set (timers q)"
    and "p \<in> E \<Longrightarrow> theap q p \<noteq> None" and "p \<in> E \<Longrightarrow> p < UINTPTR_MAX"
  using assms unfolding TQ_inv_def by blast+

lemma TQ_lengths:
  assumes inv: "TQ_inv E q"
  shows "length (timers q) = length (activeTimers q)"
proof -
  have "inj_on snd (set (timers q))"
    by (intro inj_onI) (metis TQ_invD(7) [OF inv] prod.collapse option.inject)
  moreover have "inj_on fst (set (activeTimers q))"
    by (intro inj_onI) (metis TQ_invD(8) [OF inv] prod.collapse option.inject)
  moreover have "snd ` set (timers q) = fst ` set (activeTimers q)"
    using TQ_invD(7,8) [OF inv] by force
  ultimately have "card (set (timers q)) = card (set (activeTimers q))"
    by (metis card_image)
  then show ?thesis using TQ_invD(3,5) [OF inv] by (simp add: distinct_card)
qed

lemma TQ_inv_cong:
  assumes "TQ_inv E q" "inLoop q' = inLoop q" "timers q' = timers q" "activeTimers q' = activeTimers q"
    "theap q' = theap q"
  shows "TQ_inv E q'"
  using assms by (simp add: TQ_inv_def)

text \<open>Adding a live timer that is in no set.\<close>

definition TQ_added :: "nat \<Rightarrow> 'cb timer \<Rightarrow> 'cb timer_queue \<Rightarrow> 'cb timer_queue" where
  "TQ_added p t q = q\<lparr>timers := insort (expiration t, p) (timers q),
     activeTimers := insort (p, sequence t) (activeTimers q)\<rparr>"

lemma TQ_added_simps [simp]:
  "theap (TQ_added p t q) = theap q" "cancelingTimers (TQ_added p t q) = cancelingTimers q"
  "callingExpiredTimers (TQ_added p t q) = callingExpiredTimers q" "inLoop (TQ_added p t q) = inLoop q"
  "timers (TQ_added p t q) = insort (expiration t, p) (timers q)"
  "activeTimers (TQ_added p t q) = insort (p, sequence t) (activeTimers q)"
  by (simp_all add: TQ_added_def)

lemma TQ_inv_added:
  assumes inv: "TQ_inv E q" and t: "theap q p = Some t" and p: "p \<notin> snd ` set (timers q)" "p < UINTPTR_MAX"
  shows "TQ_inv (E - {p}) (TQ_added p t q)"
proof -
  have "(p, n) \<notin> set (activeTimers q)" for n
    using TQ_invD(8) [OF inv, of p n] p(1) by force
  moreover have "(w, p) \<notin> set (timers q)" for w using p(1) by force
  ultimately show ?thesis
    using inv t p(2) unfolding TQ_inv_def
    by (auto simp: set_insort_key sorted_insort distinct_insort; blast)
qed

lemma TQ_insert_ok:
  assumes inv: "TQ_inv E q" and t: "theap q p = Some t" and p: "p \<notin> snd ` set (timers q)"
  shows "TimerQueue_insert q p =
    Inr (timers q = [] \<or> expiration t < fst (hd (timers q)), TQ_added p t q)"
proof -
  have "(p, sequence t) \<notin> set (activeTimers q)"
    using TQ_invD(8) [OF inv, of p] p by force
  moreover have "(expiration t, p) \<notin> set (timers q)" using p by force
  ultimately show ?thesis
    using TQ_lengths [OF inv] TQ_invD(1) [OF inv]
    by (simp add: TimerQueue_insert_def loop_assert_def deref_def t set_insert_def TQ_added_def Let_def)
qed

lemma TQ_addTimerInLoop_ok:
  assumes inv: "TQ_inv E q" and t: "theap q p = Some t" and p: "p \<notin> snd ` set (timers q)" "p < UINTPTR_MAX" "p \<notin> E"
  shows "\<exists>q'. TimerQueue_addTimerInLoop clock q p = Inr q' \<and> TQ_inv E q' \<and> theap q' = theap q
    \<and> set (timers q') = insert (expiration t, p) (set (timers q))
    \<and> callingExpiredTimers q' = callingExpiredTimers q"
proof -
  have "TQ_inv E (TQ_added p t q)" using TQ_inv_added [OF inv t p(1,2)] p(3) by simp
  moreover from this have "TQ_inv E (resetTimerfd clock w (TQ_added p t q))" for w
    by (rule TQ_inv_cong) (simp_all add: resetTimerfd_def)
  ultimately show ?thesis
    using TQ_invD(1) [OF inv]
    by (simp add: TimerQueue_addTimerInLoop_def loop_assert_def TQ_insert_ok [OF inv t p(1)] deref_def t
        set_insort_key resetTimerfd_def)
qed

lemma TQ_addTimer_ok:
  assumes inv: "TQ_inv E q" and p: "theap q p = None"
  shows "TQ_inv E (snd (TimerQueue_addTimer p cb when positive delta q))"
proof -
  have "p \<noteq> p'" if "theap q p' \<noteq> None" for p' using p that by auto
  then show ?thesis
    using inv unfolding TQ_inv_def TimerQueue_addTimer_def Let_def by (auto; metis option.distinct(1))
qed

text \<open>Cancelling.\<close>

lemma TQ_inv_removed:
  assumes inv: "TQ_inv E q" and t: "theap q p = Some t" and a: "(p, sequence t) \<in> set (activeTimers q)"
  shows "TQ_inv E (q\<lparr>timers := remove1 (expiration t, p) (timers q), theap := (theap q)(p := None),
     activeTimers := remove1 (p, sequence t) (activeTimers q)\<rparr>)"
proof -
  have in1: "(expiration t, p) \<in> set (timers q)" using TQ_invD(8) [OF inv a] t by auto
  have notE: "p \<notin> E" using TQ_invD(6) [OF inv in1] by blast
  have only: "w = expiration t" if "(w, p) \<in> set (timers q)" for w
    using TQ_invD(7) [OF inv that] t by auto
  have only2: "n = sequence t" if "(p, n) \<in> set (activeTimers q)" for n
    using TQ_invD(8) [OF inv that] t by auto
  show ?thesis
    unfolding TQ_inv_def
    using TQ_invD(1-5) [OF inv] TQ_invD(6-10) [OF inv] notE only only2
    by (simp add: sorted_remove1 distinct_remove1) (metis Pair_inject)
qed

definition TQ_cancelled :: "timer_id \<Rightarrow> 'cb timer \<Rightarrow> 'cb timer_queue \<Rightarrow> 'cb timer_queue" where
  "TQ_cancelled tid t q = q\<lparr>timers := remove1 (expiration t, fst tid) (timers q), theap := (theap q)(fst tid := None),
     activeTimers := remove1 tid (activeTimers q)\<rparr>"

lemma TQ_cancel_active:
  assumes inv: "TQ_inv E q" and tid: "tid \<in> set (activeTimers q)"
  obtains t where "theap q (fst tid) = Some t" "sequence t = snd tid" "(expiration t, fst tid) \<in> set (timers q)"
    "TimerQueue_cancelInLoop q tid = Inr (TQ_cancelled tid t q)" "TQ_inv E (TQ_cancelled tid t q)"
proof -
  obtain p n where pn: "tid = (p, n)" by (cases tid)
  then obtain t where t: "theap q p = Some t" "sequence t = n" "(expiration t, p) \<in> set (timers q)"
    using TQ_invD(8) [OF inv] tid by blast
  have inv': "TQ_inv E (TQ_cancelled tid t q)"
    using TQ_inv_removed [OF inv t(1)] tid pn t(2) by (simp add: TQ_cancelled_def)
  have "TimerQueue_cancelInLoop q tid = Inr (TQ_cancelled tid t q)"
    using TQ_lengths [OF inv] TQ_lengths [OF inv'] TQ_invD(1) [OF inv] tid t pn
    by (simp add: TimerQueue_cancelInLoop_def loop_assert_def deref_def set_erase_def TQ_cancelled_def)
  then show thesis using that [of t] t pn inv' by simp
qed

lemma TQ_cancel_other:
  assumes inv: "TQ_inv E q" and tid: "tid \<notin> set (activeTimers q)"
  shows "TimerQueue_cancelInLoop q tid =
    Inr (if callingExpiredTimers q then q\<lparr>cancelingTimers := fst (set_insert tid (cancelingTimers q))\<rparr> else q)"
  using TQ_lengths [OF inv] TQ_invD(1) [OF inv] tid
  by (simp add: TimerQueue_cancelInLoop_def loop_assert_def)

lemma TQ_cancel_ok:
  assumes inv: "TQ_inv E q"
  shows "\<exists>q'. TimerQueue_cancelInLoop q tid = Inr q' \<and> TQ_inv E q' \<and> callingExpiredTimers q' = callingExpiredTimers q
    \<and> (\<forall>p \<in> E. theap q' p = theap q p)"
proof (cases "tid \<in> set (activeTimers q)")
  case True
  then obtain t where t: "(expiration t, fst tid) \<in> set (timers q)" "TimerQueue_cancelInLoop q tid = Inr (TQ_cancelled tid t q)"
      "TQ_inv E (TQ_cancelled tid t q)"
    by (rule TQ_cancel_active [OF inv])
  moreover have "fst tid \<notin> E" using TQ_invD(6) [OF inv t(1)] by blast
  ultimately show ?thesis by (auto simp: TQ_cancelled_def)
next
  case False
  have "TQ_inv E (q\<lparr>cancelingTimers := cs\<rparr>)" for cs by (rule TQ_inv_cong [OF inv]) simp_all
  then show ?thesis using inv by (simp add: TQ_cancel_other [OF inv False])
qed

section \<open>Taking out the expired timers\<close>

definition expired_of :: "timestamp \<Rightarrow> entry list \<Rightarrow> entry list" where
  "expired_of now es = filter (\<lambda>(w, p). w \<le> now) es"

lemma takeWhile_sorted_filter:
  assumes "sorted xs" "\<And>x y. P y \<Longrightarrow> x \<le> y \<Longrightarrow> P (x :: 'a :: linorder)"
  shows "takeWhile P xs = filter P xs" "dropWhile P xs = filter (\<lambda>x. \<not> P x) xs"
proof -
  have "takeWhile P xs = filter P xs \<and> dropWhile P xs = filter (\<lambda>x. \<not> P x) xs"
    using assms(1)
  proof (induction xs)
    case (Cons x xs)
    show ?case
    proof (cases "P x")
      case True
      with Cons show ?thesis by simp
    next
      case False
      then have "\<forall>y \<in> set xs. \<not> P y" using Cons.prems assms(2) by auto
      with False show ?thesis by (simp add: filter_empty_conv filter_id_conv)
    qed
  qed simp
  then show "takeWhile P xs = filter P xs" "dropWhile P xs = filter (\<lambda>x. \<not> P x) xs" by blast+
qed

lemma sentry_less:
  "p < UINTPTR_MAX \<Longrightarrow> ((w, p) < (now, UINTPTR_MAX)) \<longleftrightarrow> w \<le> (now :: timestamp)"
  by auto

lemma expired_takeWhile:
  assumes inv: "TQ_inv E q"
  shows "takeWhile (\<lambda>e. e < (now, UINTPTR_MAX)) (timers q) = expired_of now (timers q)"
    and "dropWhile (\<lambda>e. e < (now, UINTPTR_MAX)) (timers q) = filter (\<lambda>(w, p). now < w) (timers q)"
proof -
  have bound: "snd e < UINTPTR_MAX" if "e \<in> set (timers q)" for e
    using TQ_invD(6) [OF inv, of "fst e" "snd e"] that by simp
  have down: "x < (now, UINTPTR_MAX)" if "y < (now, UINTPTR_MAX)" "x \<le> y" for x y
    using that by (rule order.strict_trans1 [rotated])
  have "takeWhile (\<lambda>e. e < (now, UINTPTR_MAX)) (timers q) = filter (\<lambda>e. e < (now, UINTPTR_MAX)) (timers q)"
    "dropWhile (\<lambda>e. e < (now, UINTPTR_MAX)) (timers q) = filter (\<lambda>e. \<not> e < (now, UINTPTR_MAX)) (timers q)"
    by (rule takeWhile_sorted_filter [OF TQ_invD(2) [OF inv]], erule (1) down)+
  moreover have "filter (\<lambda>e. e < (now, UINTPTR_MAX)) (timers q) = expired_of now (timers q)"
    "filter (\<lambda>e. \<not> e < (now, UINTPTR_MAX)) (timers q) = filter (\<lambda>(w, p). now < w) (timers q)"
    unfolding expired_of_def by (rule filter_cong, simp, use bound in force)+
  ultimately show "takeWhile (\<lambda>e. e < (now, UINTPTR_MAX)) (timers q) = expired_of now (timers q)"
    and "dropWhile (\<lambda>e. e < (now, UINTPTR_MAX)) (timers q) = filter (\<lambda>(w, p). now < w) (timers q)"
    by simp_all
qed

lemma erase_active_ok:
  assumes "distinct (activeTimers q)" "inj_on fst (set (activeTimers q))" "distinct (map snd es)"
    "\<And>w p. (w, p) \<in> set es \<Longrightarrow> \<exists>t. theap q p = Some t \<and> (p, sequence t) \<in> set (activeTimers q)"
  shows "erase_active es q = Inr (q\<lparr>activeTimers := filter (\<lambda>a. fst a \<notin> snd ` set es) (activeTimers q)\<rparr>)"
  using assms
proof (induction es arbitrary: q)
  case (Cons e es)
  obtain w p where e: "e = (w, p)" by (cases e)
  obtain t where t: "theap q p = Some t" "(p, sequence t) \<in> set (activeTimers q)"
    using Cons.prems(4) [of w p] e by auto
  let ?q = "q\<lparr>activeTimers := remove1 (p, sequence t) (activeTimers q)\<rparr>"
  have same: "a = (p, sequence t)" if "a \<in> set (activeTimers q)" "fst a = p" for a
    using Cons.prems(2) t(2) that by (metis fst_conv inj_onD)
  have rem: "remove1 (p, sequence t) (activeTimers q) = filter (\<lambda>a. fst a \<noteq> p) (activeTimers q)"
    unfolding distinct_remove1_removeAll [OF Cons.prems(1)] removeAll_filter_not_eq
    by (rule filter_cong [OF refl]) (metis same fst_conv)
  have "erase_active es ?q = Inr (?q\<lparr>activeTimers := filter (\<lambda>a. fst a \<notin> snd ` set es) (activeTimers ?q)\<rparr>)"
  proof (rule Cons.IH)
    show "inj_on fst (set (activeTimers ?q))"
      using Cons.prems(2) by (rule inj_on_subset) (auto simp: rem)
    fix w' p' assume e': "(w', p') \<in> set es"
    then obtain t' where "theap q p' = Some t'" "(p', sequence t') \<in> set (activeTimers q)"
      using Cons.prems(4) [of w' p'] by auto
    moreover have "p \<notin> snd ` set es" using Cons.prems(3) e by simp
    then have "p' \<noteq> p" using e' by (metis snd_conv image_eqI)
    ultimately show "\<exists>t. theap ?q p' = Some t \<and> (p', sequence t) \<in> set (activeTimers ?q)"
      by (auto simp: rem)
  qed (use Cons.prems in \<open>simp_all add: rem\<close>)
  then show ?case
    using t e by (simp add: deref_def set_erase_def rem conj_commute)
qed simp

definition TQ_taken :: "timestamp \<Rightarrow> 'cb timer_queue \<Rightarrow> 'cb timer_queue" where
  "TQ_taken now q = q\<lparr>timers := filter (\<lambda>(w, p). now < w) (timers q),
     activeTimers := filter (\<lambda>a. fst a \<notin> snd ` set (expired_of now (timers q))) (activeTimers q)\<rparr>"

lemma TQ_taken_inv:
  assumes inv: "TQ_inv {} q"
  shows "TQ_inv (snd ` set (expired_of now (timers q))) (TQ_taken now q)"
proof -
  have one: "w = w'" if "(w, p) \<in> set (timers q)" "(w', p) \<in> set (timers q)" for w w' p
    using TQ_invD(7) [OF inv that(1)] TQ_invD(7) [OF inv that(2)] by auto
  have gone: "p \<in> snd ` set (expired_of now (timers q)) \<longleftrightarrow> (\<exists>w. (w, p) \<in> set (timers q) \<and> w \<le> now)" for p
    by (force simp: expired_of_def)
  show ?thesis
    unfolding TQ_inv_def
  proof (intro conjI allI impI)
    fix w p assume "(w, p) \<in> set (timers (TQ_taken now q))"
    then have wp: "(w, p) \<in> set (timers q)" "now < w" by (auto simp: TQ_taken_def)
    have notin: "p \<notin> snd ` set (expired_of now (timers q))"
    proof
      assume "p \<in> snd ` set (expired_of now (timers q))"
      then obtain w' where "(w', p) \<in> set (timers q)" "w' \<le> now" using gone by blast
      with one [OF wp(1)] wp(2) show False by auto
    qed
    then show "p \<notin> snd ` set (expired_of now (timers q))" .
    show "p < UINTPTR_MAX" using TQ_invD(6) [OF inv wp(1)] by blast
    show "\<exists>t. theap (TQ_taken now q) p = Some t \<and> expiration t = w \<and> (p, sequence t) \<in> set (activeTimers (TQ_taken now q))"
      using TQ_invD(7) [OF inv wp(1)] notin by (simp add: TQ_taken_def)
  next
    fix p n assume "(p, n) \<in> set (activeTimers (TQ_taken now q))"
    then have pn: "(p, n) \<in> set (activeTimers q)" "p \<notin> snd ` set (expired_of now (timers q))"
      by (auto simp: TQ_taken_def)
    then show "\<exists>t. theap (TQ_taken now q) p = Some t \<and> sequence t = n \<and> (expiration t, p) \<in> set (timers (TQ_taken now q))"
      using TQ_invD(8) [OF inv pn(1)] gone by (force simp: TQ_taken_def)
  next
    show "\<forall>p \<in> snd ` set (expired_of now (timers q)). theap (TQ_taken now q) p \<noteq> None \<and> p < UINTPTR_MAX"
      using TQ_invD(6,7) [OF inv] by (fastforce simp: TQ_taken_def expired_of_def)
  qed (use TQ_invD(1-5) [OF inv] in \<open>simp_all add: TQ_taken_def sorted_filter [where f = id, simplified]\<close>)
qed

lemma TQ_getExpired_ok:
  assumes inv: "TQ_inv {} q"
  shows "TimerQueue_getExpired now q = Inr (expired_of now (timers q), TQ_taken now q)"
proof -
  have inj: "inj_on fst (set (activeTimers q))"
    by (intro inj_onI) (metis TQ_invD(8) [OF inv] prod.collapse option.inject)
  have injt: "inj_on snd (set (timers q))"
    by (intro inj_onI) (metis TQ_invD(7) [OF inv] prod.collapse option.inject)
  have "distinct (map snd (expired_of now (timers q)))"
    using TQ_invD(3) [OF inv] injt unfolding expired_of_def
    by (metis (no_types, lifting) distinct_filter distinct_map filter_is_subset inj_on_subset)
  then have "erase_active (expired_of now (timers q)) (q\<lparr>timers := filter (\<lambda>(w, p). now < w) (timers q)\<rparr>)
      = Inr (TQ_taken now q)"
    using erase_active_ok [of "q\<lparr>timers := filter (\<lambda>(w, p). now < w) (timers q)\<rparr>" "expired_of now (timers q)"]
      TQ_invD(5,7) [OF inv] inj by (fastforce simp: TQ_taken_def expired_of_def)
  moreover have "filter (\<lambda>(w, p). now < w) (timers q) = [] \<or> now < fst (hd (filter (\<lambda>(w, p). now < w) (timers q)))"
    using hd_in_set [of "filter (\<lambda>(w, p). now < w) (timers q)"] by (metis (mono_tags, lifting) case_prod_beta mem_Collect_eq set_filter)
  ultimately show ?thesis
    using TQ_lengths [OF inv] TQ_lengths [OF TQ_taken_inv [OF inv, of now]]
    unfolding TimerQueue_getExpired_def Let_def expired_takeWhile [OF inv] by (simp del: empty_filter_conv)
qed

section \<open>Running and requeueing\<close>

text \<open>
  A callback may add and cancel timers, through the operations above: it returns, keeps the
  invariant and leaves the timers that are being run alone.
\<close>

definition callbacks_ok :: "('cb \<Rightarrow> 'cb timer_queue \<Rightarrow> 'cb timer_queue res) \<Rightarrow> bool" where
  "callbacks_ok run \<longleftrightarrow> (\<forall>cb E q. TQ_inv E q \<longrightarrow>
     (\<exists>q'. run cb q = Inr q' \<and> TQ_inv E q' \<and> (\<forall>p \<in> E. theap q' p = theap q p)))"

lemma run_expired_ok:
  assumes run: "callbacks_ok run" and "TQ_inv E q" "snd ` set es \<subseteq> E"
  shows "\<exists>q'. run_expired run es q = Inr q' \<and> TQ_inv E q' \<and> (\<forall>p \<in> E. theap q' p = theap q p)"
  using assms(2,3)
proof (induction es arbitrary: q)
  case (Cons e es)
  obtain w p where e: "e = (w, p)" by (cases e)
  with Cons.prems obtain t where t: "theap q p = Some t" using TQ_invD(9) [OF Cons.prems(1), of p] by auto
  obtain q1 where q1: "run (callback t) q = Inr q1" "TQ_inv E q1" "\<forall>p \<in> E. theap q1 p = theap q p"
    using run Cons.prems(1) unfolding callbacks_ok_def by blast
  obtain q' where "run_expired run es q1 = Inr q'" "TQ_inv E q'" "\<forall>p \<in> E. theap q' p = theap q1 p"
    using Cons.IH [OF q1(2)] Cons.prems(2) by auto
  with q1 t e show ?case by (auto simp: deref_def)
qed auto

definition survives :: "'cb timer_queue \<Rightarrow> nat \<Rightarrow> 'cb timer \<Rightarrow> bool" where
  "survives q p t \<longleftrightarrow> theap q p = Some t \<and> repeat t \<and> (p, sequence t) \<notin> set (cancelingTimers q)"

definition requeued :: "timestamp \<Rightarrow> entry list \<Rightarrow> 'cb timer_queue \<Rightarrow> entry set" where
  "requeued now es q = {(addTime now (interval t), p) | p t. p \<in> snd ` set es \<and> survives q p t}"

lemma TQ_inv_heap:
  assumes "TQ_inv E q" "\<And>p. p \<notin> E \<Longrightarrow> h p = theap q p" "\<And>p. p \<in> E' \<Longrightarrow> h p \<noteq> None" "E' \<subseteq> E"
  shows "TQ_inv E' (q\<lparr>theap := h\<rparr>)"
proof -
  have "p \<notin> E" if "(p, n) \<in> set (activeTimers q)" for p n
    using TQ_invD(8) [OF assms(1) that] TQ_invD(6) [OF assms(1)] by blast
  then show ?thesis
    unfolding TQ_inv_def
    using TQ_invD(1-5) [OF assms(1)] TQ_invD(6-8,10) [OF assms(1)] assms(2-4)
    by (simp; metis subsetD)
qed

lemma reset_each_ok:
  assumes "TQ_inv (snd ` set es) q" "distinct (map snd es)"
  shows "\<exists>q'. reset_each now es q = Inr q' \<and> TQ_inv {} q' \<and> set (timers q') = set (timers q) \<union> requeued now es q
    \<and> (\<forall>p. p \<notin> snd ` set es \<longrightarrow> theap q' p = theap q p)
    \<and> (\<forall>p \<in> snd ` set es. theap q' p \<noteq> None \<longleftrightarrow> (\<exists>t. survives q p t))
    \<and> timerfd q' = timerfd q"
  using assms
proof (induction es arbitrary: q)
  case Nil
  then show ?case by (auto simp: requeued_def)
next
  case (Cons e es)
  obtain w p where e: "e = (w, p)" by (cases e)
  let ?E = "snd ` set es"
  have p: "p \<notin> ?E" "distinct (map snd es)" using Cons.prems(2) e by auto
  have inv: "TQ_inv (insert p ?E) q" using Cons.prems(1) e by simp
  obtain t where t: "theap q p = Some t" using TQ_invD(9) [OF inv, of p] by auto
  have out: "p \<notin> snd ` set (timers q)" using TQ_invD(6) [OF inv] by force
  have req: "requeued now (e # es) q = requeued now es q \<union>
      (if survives q p t then {(addTime now (interval t), p)} else {})"
    using t e by (auto simp: requeued_def survives_def)
  have one: "(\<exists>t'. survives q p t') \<longleftrightarrow> survives q p t" using t by (auto simp: survives_def)
  obtain q1 where q1: "reset_each now (e # es) q = reset_each now es q1" "TQ_inv ?E q1"
      "set (timers q1) = set (timers q) \<union> (if survives q p t then {(addTime now (interval t), p)} else {})"
      "\<And>p'. p' \<noteq> p \<Longrightarrow> theap q1 p' = theap q p'" "theap q1 p \<noteq> None \<longleftrightarrow> survives q p t"
      "cancelingTimers q1 = cancelingTimers q" "timerfd q1 = timerfd q"
  proof (cases "survives q p t")
    case True
    let ?t = "Timer_restart now t" and ?q = "q\<lparr>theap := (theap q)(p \<mapsto> Timer_restart now t)\<rparr>"
    have inv': "TQ_inv (insert p ?E) ?q" using inv TQ_invD(9) [OF inv] by (intro TQ_inv_heap) auto
    have ins: "TimerQueue_insert ?q p = Inr (timers q = [] \<or> expiration ?t < fst (hd (timers q)), TQ_added p ?t ?q)"
      using TQ_insert_ok [OF inv', of p ?t] out by simp
    have "TQ_inv (insert p ?E - {p}) (TQ_added p ?t ?q)"
      using TQ_inv_added [OF inv', of p ?t] out TQ_invD(10) [OF inv, of p] by simp
    then show thesis
      using that [of "TQ_added p ?t ?q"] ins True t e p(1)
      by (simp add: survives_def deref_def set_insort_key Timer_restart_def TQ_added_def)
  next
    case False
    have "TQ_inv ?E (q\<lparr>theap := (theap q)(p := None)\<rparr>)"
      using inv p(1) TQ_invD(9) [OF inv] by (intro TQ_inv_heap) auto
    then show thesis
      using that [of "q\<lparr>theap := (theap q)(p := None)\<rparr>"] False t e by (auto simp: survives_def deref_def)
  qed
  have surv: "survives q1 p' t' \<longleftrightarrow> survives q p' t'" if "p' \<in> ?E" for p' t'
  proof -
    have "p' \<noteq> p" using p(1) that by blast
    then show ?thesis using q1(4,6) by (simp add: survives_def)
  qed
  then have req1: "requeued now es q1 = requeued now es q"
    unfolding requeued_def by (intro Collect_cong) metis
  obtain q' where q': "reset_each now es q1 = Inr q'" "TQ_inv {} q'" "set (timers q') = set (timers q1) \<union> requeued now es q1"
      "\<forall>p. p \<notin> ?E \<longrightarrow> theap q' p = theap q1 p" "\<forall>p \<in> ?E. theap q' p \<noteq> None \<longleftrightarrow> (\<exists>t. survives q1 p t)"
      "timerfd q' = timerfd q1"
    using Cons.IH [OF q1(2) p(2)] by blast
  have "theap q' p' \<noteq> None \<longleftrightarrow> (\<exists>t. survives q p' t)" if "p' \<in> insert p ?E" for p'
    using that q'(4,5) q1(5) p(1) one surv by (cases "p' = p") auto
  then show ?case
    using q' q1 req req1 e by (intro exI [of _ q']) auto
qed

lemma expired_distinct:
  assumes inv: "TQ_inv E q"
  shows "distinct (map snd (expired_of now (timers q)))"
proof -
  have "inj_on snd (set (timers q))"
    by (intro inj_onI) (metis TQ_invD(7) [OF inv] prod.collapse option.inject)
  then show ?thesis
    using TQ_invD(3) [OF inv] unfolding expired_of_def
    by (metis (no_types, lifting) distinct_filter distinct_map filter_is_subset inj_on_subset)
qed

lemma TQ_reset_ok:
  assumes "TQ_inv (snd ` set es) q" "distinct (map snd es)"
  shows "\<exists>q'. TimerQueue_reset clock es now q = Inr q' \<and> TQ_inv {} q' \<and> set (timers q') = set (timers q) \<union> requeued now es q
    \<and> (\<forall>p \<in> snd ` set es. theap q' p \<noteq> None \<longleftrightarrow> (\<exists>t. survives q p t))
    \<and> (timers q' \<noteq> [] \<and> Timestamp_valid (fst (hd (timers q'))) \<longrightarrow>
        timerfd q' = Some (clock, howMuchTimeFromNow clock (fst (hd (timers q')))))"
proof -
  obtain q' where q': "reset_each now es q = Inr q'" "TQ_inv {} q'" "set (timers q') = set (timers q) \<union> requeued now es q"
      "\<forall>p \<in> snd ` set es. theap q' p \<noteq> None \<longleftrightarrow> (\<exists>t. survives q p t)"
    using reset_each_ok [OF assms, of now] by blast
  show ?thesis
  proof (cases "timers q'")
    case Nil
    with q' show ?thesis by (simp add: TimerQueue_reset_def Timestamp_valid_def Timestamp_invalid_def)
  next
    case (Cons e ts)
    then obtain t where t: "theap q' (snd e) = Some t" "expiration t = fst e"
      using TQ_invD(7) [OF q'(2), of "fst e" "snd e"] by auto
    have "TQ_inv {} (resetTimerfd clock x q')" for x
      by (rule TQ_inv_cong [OF q'(2)]) (simp_all add: resetTimerfd_def)
    with q' t Cons show ?thesis
      by (simp add: TimerQueue_reset_def deref_def resetTimerfd_def)
  qed
qed

text \<open>
  C7. When the timer descriptor fires, \<^verbatim>\<open>handleRead\<close> runs exactly the timers whose time has come, in
  the order of their expiration, and no assertion fails and no deleted timer is touched, whatever
  timers the callbacks add or cancel. Afterwards the queue holds what the callbacks left plus every
  run timer that repeats and was not cancelled, due one interval after \<open>now\<close>; the other run timers
  are deleted; and the descriptor is armed for the earliest timer.
\<close>
theorem TimerQueue_handleRead_ok:
  assumes inv: "TQ_inv {} q" and run: "callbacks_ok run"
  shows "\<exists>q2 q'. run_expired run (expired_of now (timers q))
        ((TQ_taken now q)\<lparr>callingExpiredTimers := True, cancelingTimers := []\<rparr>) = Inr q2
    \<and> TimerQueue_handleRead run now clock q = Inr q' \<and> TQ_inv {} q'
    \<and> set (timers q') = set (timers q2) \<union> requeued now (expired_of now (timers q)) q2
    \<and> (\<forall>p \<in> snd ` set (expired_of now (timers q)). theap q' p \<noteq> None \<longleftrightarrow> (\<exists>t. survives q2 p t))
    \<and> (timers q' \<noteq> [] \<and> Timestamp_valid (fst (hd (timers q'))) \<longrightarrow>
        timerfd q' = Some (clock, howMuchTimeFromNow clock (fst (hd (timers q')))))"
proof -
  let ?es = "expired_of now (timers q)"
  let ?q1 = "(TQ_taken now q)\<lparr>callingExpiredTimers := True, cancelingTimers := []\<rparr>"
  have "TQ_inv (snd ` set ?es) ?q1"
    by (rule TQ_inv_cong [OF TQ_taken_inv [OF inv]]) simp_all
  then obtain q2 where q2: "run_expired run ?es ?q1 = Inr q2" "TQ_inv (snd ` set ?es) q2"
    using run_expired_ok [OF run] by blast
  let ?q2 = "q2\<lparr>callingExpiredTimers := False\<rparr>"
  have inv2: "TQ_inv (snd ` set ?es) ?q2" by (rule TQ_inv_cong [OF q2(2)]) simp_all
  have s: "survives ?q2 = survives q2" "requeued now ?es ?q2 = requeued now ?es q2"
    by (simp_all add: survives_def requeued_def fun_eq_iff)
  have "TimerQueue_handleRead run now clock q = TimerQueue_reset clock ?es now ?q2"
    using TQ_invD(1) [OF inv] q2(1)
    by (simp add: TimerQueue_handleRead_def loop_assert_def TQ_getExpired_ok [OF inv])
  with TQ_reset_ok [OF inv2 expired_distinct [OF inv], of clock now] q2(1) show ?thesis
    by (simp add: s)
qed

text \<open>Three timers; the first repeats and its callback cancels the third.\<close>

definition cancel_run :: "timer_id option \<Rightarrow> timer_id option timer_queue \<Rightarrow> timer_id option timer_queue res" where
  "cancel_run cb q = (case cb of None \<Rightarrow> Inr q | Some i \<Rightarrow> TimerQueue_cancelInLoop q i)"

definition sample_timers :: "timer_id option timer_queue" where
  "sample_timers = \<lparr>theap = [1 \<mapsto> Timer_new (Some (3, 3)) (Timestamp 10) True 50 0,
       2 \<mapsto> Timer_new None (Timestamp 20) False 0 1, 3 \<mapsto> Timer_new None (Timestamp 90) False 0 2],
     numCreated = 3, timers = [(Timestamp 10, 1), (Timestamp 20, 2), (Timestamp 90, 3)],
     activeTimers = [(1, 1), (2, 2), (3, 3)], callingExpiredTimers = False, cancelingTimers = [],
     inLoop = True, timerfd = None\<rparr>"

lemma cancel_run_ok: "callbacks_ok cancel_run"
  unfolding callbacks_ok_def cancel_run_def
  using TQ_cancel_ok by (fastforce split: option.split)

lemma sample_timers_inv: "TQ_inv {} sample_timers"
  by (auto simp: TQ_inv_def sample_timers_def Timer_new_def UINTPTR_MAX_def)

theorem TimerQueue_handleRead_ok_witness:
  "\<exists>q'. TimerQueue_handleRead cancel_run (Timestamp 50) (Timestamp 60) sample_timers = Inr q'
    \<and> set (timers q') = {(Timestamp 100, 1)} \<and> theap q' 2 = None \<and> timerfd q' = Some (Timestamp 60, 0, 100000)"
proof -
  let ?es = "expired_of (Timestamp 50) (timers sample_timers)"
  have es: "?es = [(Timestamp 10, 1), (Timestamp 20, 2)]"
    by (simp add: expired_of_def sample_timers_def)
  obtain q2 q' where q2: "run_expired cancel_run ?es
        ((TQ_taken (Timestamp 50) sample_timers)\<lparr>callingExpiredTimers := True, cancelingTimers := []\<rparr>) = Inr q2"
    and q': "TimerQueue_handleRead cancel_run (Timestamp 50) (Timestamp 60) sample_timers = Inr q'"
      "set (timers q') = set (timers q2) \<union> requeued (Timestamp 50) ?es q2"
      "\<forall>p \<in> snd ` set ?es. theap q' p \<noteq> None \<longleftrightarrow> (\<exists>t. survives q2 p t)"
      "timers q' \<noteq> [] \<and> Timestamp_valid (fst (hd (timers q'))) \<longrightarrow>
        timerfd q' = Some (Timestamp 60, howMuchTimeFromNow (Timestamp 60) (fst (hd (timers q'))))"
    using TimerQueue_handleRead_ok [OF sample_timers_inv cancel_run_ok, of "Timestamp 50" "Timestamp 60"] by blast
  have taken: "TQ_taken (Timestamp 50) sample_timers =
      sample_timers\<lparr>timers := [(Timestamp 90, 3)], activeTimers := [(3, 3)]\<rparr>"
    unfolding TQ_taken_def es by (simp add: sample_timers_def)
  have run: "timers q2 = []" "theap q2 1 = Some (Timer_new (Some (3, 3)) (Timestamp 10) True 50 0)"
      "theap q2 2 = Some (Timer_new None (Timestamp 20) False 0 1)" "cancelingTimers q2 = []"
    using q2 unfolding es taken
    by (auto simp: sample_timers_def deref_def cancel_run_def Timer_new_def TimerQueue_cancelInLoop_def
        loop_assert_def set_erase_def)
  have "requeued (Timestamp 50) ?es q2 = {(Timestamp 100, 1)}"
    unfolding es using run by (auto simp: requeued_def survives_def Timer_new_def addTime_def)
  then have t: "set (timers q') = {(Timestamp 100, 1)}" using q'(2) run(1) by simp
  then obtain e es where "timers q' = e # es" by (cases "timers q'") auto
  with t have "timers q' \<noteq> []" "hd (timers q') = (Timestamp 100, 1)" by auto
  moreover have "theap q' 2 = None"
    using q'(3) run(3) unfolding es by (auto simp: survives_def Timer_new_def)
  ultimately show ?thesis
    using q'(1,4) t by (simp add: Timestamp_valid_def howMuchTimeFromNow_def kMicroSecondsPerSecond_def)
qed

text \<open>
  A cancelled timer is gone: cancelling the id of a waiting timer deletes that timer and removes
  exactly its entry, so no later alarm can run it; an id whose timer is gone, even when its address
  has been given to a newer timer, cancels nothing.
\<close>
theorem TimerQueue_cancel_exact:
  assumes inv: "TQ_inv {} q" and idle: "\<not> callingExpiredTimers q"
  shows "\<exists>q'. TimerQueue_cancelInLoop q (p, n) = Inr q' \<and> TQ_inv {} q' \<and>
    (case theap q p of
       Some t \<Rightarrow> if n = sequence t \<and> (expiration t, p) \<in> set (timers q)
         then theap q' = (theap q)(p := None) \<and> set (timers q') = set (timers q) - {(expiration t, p)}
         else q' = q
     | None \<Rightarrow> q' = q)"
proof (cases "(p, n) \<in> set (activeTimers q)")
  case True
  then obtain t where "theap q p = Some t" "sequence t = n" "(expiration t, p) \<in> set (timers q)"
      "TimerQueue_cancelInLoop q (p, n) = Inr (TQ_cancelled (p, n) t q)" "TQ_inv {} (TQ_cancelled (p, n) t q)"
    using TQ_cancel_active [OF inv True] by (metis fst_conv snd_conv)
  then show ?thesis
    using TQ_invD(3) [OF inv] by (auto simp: TQ_cancelled_def)
next
  case False
  have "(expiration t, p) \<notin> set (timers q)" if "theap q p = Some t" "n = sequence t" for t
    using TQ_invD(7) [OF inv, of "expiration t" p] False that by auto
  then show ?thesis
    using inv idle by (auto simp: TQ_cancel_other [OF inv False] split: option.split)
qed

theorem TimerQueue_cancel_exact_witness:
  "\<exists>q'. TimerQueue_cancelInLoop sample_timers (2, 2) = Inr q' \<and> theap q' 2 = None
    \<and> set (timers q') = {(Timestamp 10, 1), (Timestamp 90, 3)}
    \<and> TimerQueue_cancelInLoop sample_timers (2, 7) = Inr sample_timers"
proof -
  have idle: "\<not> callingExpiredTimers sample_timers" by (simp add: sample_timers_def)
  show ?thesis
    using TimerQueue_cancel_exact [OF sample_timers_inv idle, of 2 2]
      TimerQueue_cancel_exact [OF sample_timers_inv idle, of 2 7]
    by (auto simp: sample_timers_def Timer_new_def)
qed

text \<open>
  The value given to \<^verbatim>\<open>timerfd_settime\<close> is a normal time, never zero (which would disarm the
  descriptor), and the alarm comes at the wanted time or, when that is less than 100 microseconds
  away, 100 microseconds from now.
\<close>
theorem howMuchTimeFromNow_alarm:
  "case howMuchTimeFromNow now when of (sec, nsec) \<Rightarrow>
     0 \<le> sec \<and> 0 \<le> nsec \<and> nsec < 1000000000 \<and> 0 < sec + nsec \<and> nsec mod 1000 = 0 \<and>
     microSecondsSinceEpoch now + sec * 1000000 + nsec div 1000 =
       max (microSecondsSinceEpoch when) (microSecondsSinceEpoch now + 100)"
proof -
  define us where "us = max 100 (microSecondsSinceEpoch when - microSecondsSinceEpoch now)"
  have us: "100 \<le> us" "us = us div 1000000 * 1000000 + us mod 1000000" by (simp_all add: us_def)
  have eq: "howMuchTimeFromNow now when = (us div 1000000, us mod 1000000 * 1000)"
    by (auto simp: howMuchTimeFromNow_def Let_def us_def kMicroSecondsPerSecond_def max_def)
  have "us mod 1000000 < 1000000" "0 \<le> us mod 1000000" by simp_all
  moreover have "microSecondsSinceEpoch now + us = max (microSecondsSinceEpoch when) (microSecondsSinceEpoch now + 100)"
    by (auto simp: us_def max_def)
  moreover have nn: "0 \<le> us div 1000000" using us(1) by (simp add: pos_imp_zdiv_nonneg_iff)
  moreover have "0 < us div 1000000 + us mod 1000000 * 1000"
    using us nn \<open>0 \<le> us mod 1000000\<close> by linarith
  ultimately show ?thesis using us(2) unfolding eq prod.case by (intro conjI) simp_all
qed

end
