(* ===== verification/Net_EventLoop.thy ===== *)
theory Net_EventLoop
  imports Poller_Laws Timer_Laws
begin

text \<open>
  \<^verbatim>\<open>EventLoop\<close> of muduo and of myMuduo. The loop's own fields are a record; what its callbacks and
  its poller work on is the field \<open>env\<close>. Functors are values of a type \<open>'f\<close>; \<open>run\<close> says what each does
  to the loop. \<^verbatim>\<open>wakeupFd_\<close> is an eventfd: its counter is part of the state, a write adds one and a
  read clears it. \<open>inThread\<close> is the answer of \<^verbatim>\<open>isInLoopThread()\<close> in the calling thread.
\<close>

section \<open>State\<close>

record ('f, 'w) event_loop =
  looping :: bool
  quit :: bool
  loopEventHandling :: bool
  callingPendingFunctors :: bool
  iteration :: int
  pollReturnTime :: timestamp
  activeChannels :: "nat list"
  currentActiveChannel :: "nat option"
  pendingFunctors :: "'f list"
  wakeupCounter :: nat
  env :: 'w

text \<open>\<open>enable\<close> is \<^verbatim>\<open>wakeupChannel_->enableReading()\<close> on the poller of the new loop.\<close>

definition EventLoop_new :: "('w \<Rightarrow> 'w res) \<Rightarrow> 'w \<Rightarrow> bool \<Rightarrow> ('f, 'w) event_loop res" where
  "EventLoop_new enable w anotherLoopInThread =
     (if anotherLoopInThread then Inl Exited
      else rbind (enable w) (\<lambda>w1.
        Inr \<lparr>looping = False, quit = False, loopEventHandling = False, callingPendingFunctors = False,
             iteration = 0, pollReturnTime = Timestamp_invalid, activeChannels = [], currentActiveChannel = None,
             pendingFunctors = [], wakeupCounter = 0, env = w1\<rparr>))"

definition EventLoop_assertInLoopThread :: "bool \<Rightarrow> 'a res \<Rightarrow> 'a res" where
  "EventLoop_assertInLoopThread inThread k = (if inThread then k else Inl Exited)"

section \<open>Queueing and waking\<close>

text \<open>A write to the eventfd fails only when the counter would pass its largest value.\<close>

definition eventfd_max :: nat where
  "eventfd_max = 2 ^ 64 - 2"

definition EventLoop_wakeup :: "('f, 'w) event_loop \<Rightarrow> ('f, 'w) event_loop" where
  "EventLoop_wakeup s = (if wakeupCounter s < eventfd_max then s\<lparr>wakeupCounter := wakeupCounter s + 1\<rparr> else s)"

definition EventLoop_handleRead :: "('f, 'w) event_loop \<Rightarrow> ('f, 'w) event_loop" where
  "EventLoop_handleRead s = s\<lparr>wakeupCounter := 0\<rparr>"

text \<open>The critical section of \<^verbatim>\<open>queueInLoop\<close>, and what the caller does after it.\<close>

definition EventLoop_push :: "'f \<Rightarrow> ('f, 'w) event_loop \<Rightarrow> ('f, 'w) event_loop" where
  "EventLoop_push f s = s\<lparr>pendingFunctors := pendingFunctors s @ [f]\<rparr>"

definition EventLoop_queueInLoop :: "bool \<Rightarrow> 'f \<Rightarrow> ('f, 'w) event_loop \<Rightarrow> ('f, 'w) event_loop" where
  "EventLoop_queueInLoop inThread f s =
     (let s1 = EventLoop_push f s in
      if \<not> inThread \<or> callingPendingFunctors s1 then EventLoop_wakeup s1 else s1)"

definition EventLoop_runInLoop ::
  "('f \<Rightarrow> ('f, 'w) event_loop \<Rightarrow> ('f, 'w) event_loop res) \<Rightarrow> bool \<Rightarrow> 'f \<Rightarrow> ('f, 'w) event_loop \<Rightarrow> ('f, 'w) event_loop res" where
  "EventLoop_runInLoop run inThread f s =
     (if inThread then run f s else Inr (EventLoop_queueInLoop inThread f s))"

definition EventLoop_quit :: "bool \<Rightarrow> ('f, 'w) event_loop \<Rightarrow> ('f, 'w) event_loop" where
  "EventLoop_quit inThread s =
     (let s1 = s\<lparr>quit := True\<rparr> in if \<not> inThread then EventLoop_wakeup s1 else s1)"

definition EventLoop_queueSize :: "('f, 'w) event_loop \<Rightarrow> nat" where
  "EventLoop_queueSize s = length (pendingFunctors s)"

section \<open>One pass\<close>

definition EventLoop_swap :: "('f, 'w) event_loop \<Rightarrow> 'f list \<times> ('f, 'w) event_loop" where
  "EventLoop_swap s = (pendingFunctors s, s\<lparr>pendingFunctors := []\<rparr>)"

definition EventLoop_doPendingFunctors ::
  "('f \<Rightarrow> ('f, 'w) event_loop \<Rightarrow> ('f, 'w) event_loop res) \<Rightarrow> ('f, 'w) event_loop \<Rightarrow> ('f, 'w) event_loop res" where
  "EventLoop_doPendingFunctors run s =
     (let (functors, s1) = EventLoop_swap (s\<lparr>callingPendingFunctors := True\<rparr>) in
      rbind (run_all run functors s1) (\<lambda>s2. Inr (s2\<lparr>callingPendingFunctors := False\<rparr>)))"

fun EventLoop_handleActive ::
  "(nat \<Rightarrow> timestamp \<Rightarrow> ('f, 'w) event_loop \<Rightarrow> ('f, 'w) event_loop res) \<Rightarrow> nat list \<Rightarrow> ('f, 'w) event_loop
    \<Rightarrow> ('f, 'w) event_loop res" where
  "EventLoop_handleActive handle [] s = Inr s"
| "EventLoop_handleActive handle (c # cs) s =
     rbind (handle c (pollReturnTime s) (s\<lparr>currentActiveChannel := Some c\<rparr>)) (EventLoop_handleActive handle cs)"

text \<open>\<open>poll\<close> is the poller's answer: the time and the active channels, with the poller's new state.\<close>

definition EventLoop_iterate ::
  "(('f, 'w) event_loop \<Rightarrow> (timestamp \<times> nat list \<times> 'w) res) \<Rightarrow>
   (nat \<Rightarrow> timestamp \<Rightarrow> ('f, 'w) event_loop \<Rightarrow> ('f, 'w) event_loop res) \<Rightarrow>
   ('f \<Rightarrow> ('f, 'w) event_loop \<Rightarrow> ('f, 'w) event_loop res) \<Rightarrow> ('f, 'w) event_loop \<Rightarrow> ('f, 'w) event_loop res" where
  "EventLoop_iterate poll handle run s =
     rbind (poll (s\<lparr>activeChannels := []\<rparr>)) (\<lambda>(now, active, w).
       let s1 = s\<lparr>activeChannels := active, pollReturnTime := now, env := w, iteration := iteration s + 1,
                  loopEventHandling := True\<rparr>
       in rbind (EventLoop_handleActive handle active s1) (\<lambda>s2.
            EventLoop_doPendingFunctors run (s2\<lparr>currentActiveChannel := None, loopEventHandling := False\<rparr>)))"

section \<open>The loop\<close>

text \<open>The loop may run for ever: \<open>None\<close> is a loop that does not return.\<close>

partial_function (option) EventLoop_while ::
  "(('f, 'w) event_loop \<Rightarrow> ('f, 'w) event_loop res) \<Rightarrow> ('f, 'w) event_loop \<Rightarrow> ('f, 'w) event_loop res option" where
  "EventLoop_while body s =
     (if quit s then Some (Inr s)
      else case body s of Inl e \<Rightarrow> Some (Inl e) | Inr s' \<Rightarrow> EventLoop_while body s')"

definition EventLoop_loop ::
  "bool \<Rightarrow> (('f, 'w) event_loop \<Rightarrow> (timestamp \<times> nat list \<times> 'w) res) \<Rightarrow>
   (nat \<Rightarrow> timestamp \<Rightarrow> ('f, 'w) event_loop \<Rightarrow> ('f, 'w) event_loop res) \<Rightarrow>
   ('f \<Rightarrow> ('f, 'w) event_loop \<Rightarrow> ('f, 'w) event_loop res) \<Rightarrow> ('f, 'w) event_loop \<Rightarrow> ('f, 'w) event_loop res option" where
  "EventLoop_loop inThread poll handle run s =
     (if looping s then Some (Inl AssertFailed)
      else if \<not> inThread then Some (Inl Exited)
      else map_option (\<lambda>r. rbind r (\<lambda>s'. Inr (s'\<lparr>looping := False\<rparr>)))
             (EventLoop_while (EventLoop_iterate poll handle run) (s\<lparr>looping := True, quit := False\<rparr>)))"

section \<open>Channels and timers\<close>

text \<open>\<open>owns\<close> is \<^verbatim>\<open>channel->ownerLoop() == this\<close>; the poller's operation is \<open>upd\<close>, \<open>rem\<close> or \<open>has\<close>.\<close>

definition EventLoop_updateChannel ::
  "bool \<Rightarrow> bool \<Rightarrow> ('w \<Rightarrow> nat \<Rightarrow> 'w res) \<Rightarrow> ('f, 'w) event_loop \<Rightarrow> nat \<Rightarrow> ('f, 'w) event_loop res" where
  "EventLoop_updateChannel owns inThread upd s c =
     c_assert owns (EventLoop_assertInLoopThread inThread
       (rbind (upd (env s) c) (\<lambda>w. Inr (s\<lparr>env := w\<rparr>))))"

definition EventLoop_removeChannel ::
  "bool \<Rightarrow> bool \<Rightarrow> ('w \<Rightarrow> nat \<Rightarrow> 'w res) \<Rightarrow> ('f, 'w) event_loop \<Rightarrow> nat \<Rightarrow> ('f, 'w) event_loop res" where
  "EventLoop_removeChannel owns inThread rem s c =
     c_assert owns (EventLoop_assertInLoopThread inThread
       (c_assert (loopEventHandling s \<longrightarrow> currentActiveChannel s = Some c \<or> c \<notin> set (activeChannels s))
         (rbind (rem (env s) c) (\<lambda>w. Inr (s\<lparr>env := w\<rparr>)))))"

definition EventLoop_hasChannel ::
  "bool \<Rightarrow> bool \<Rightarrow> ('w \<Rightarrow> nat \<Rightarrow> bool res) \<Rightarrow> ('f, 'w) event_loop \<Rightarrow> nat \<Rightarrow> bool res" where
  "EventLoop_hasChannel owns inThread has s c =
     c_assert owns (EventLoop_assertInLoopThread inThread (has (env s) c))"

text \<open>\<^verbatim>\<open>runAt\<close> passes the interval 0.0; \<open>p\<close> is the address of the new timer.\<close>

definition EventLoop_runAt :: "nat \<Rightarrow> timestamp \<Rightarrow> 'cb \<Rightarrow> 'cb timer_queue \<Rightarrow> timer_id \<times> 'cb timer_queue" where
  "EventLoop_runAt p time cb q = TimerQueue_addTimer p cb time False 0 q"

definition EventLoop_runAfter ::
  "nat \<Rightarrow> timestamp \<Rightarrow> int \<Rightarrow> 'cb \<Rightarrow> 'cb timer_queue \<Rightarrow> timer_id \<times> 'cb timer_queue" where
  "EventLoop_runAfter p now delay cb q = EventLoop_runAt p (addTime now delay) cb q"

definition EventLoop_runEvery ::
  "nat \<Rightarrow> timestamp \<Rightarrow> bool \<Rightarrow> int \<Rightarrow> 'cb \<Rightarrow> 'cb timer_queue \<Rightarrow> timer_id \<times> 'cb timer_queue" where
  "EventLoop_runEvery p now positive delta cb q = TimerQueue_addTimer p cb (addTime now delta) positive delta q"

section \<open>myMuduo\<close>

text \<open>A failed write or read of the eventfd reaches \<^verbatim>\<open>LOG_ERROR\<close>, which ends the process.\<close>

definition MyEventLoop_wakeup :: "('f, 'w) event_loop \<Rightarrow> ('f, 'w) event_loop res" where
  "MyEventLoop_wakeup s =
     (if wakeupCounter s < eventfd_max then Inr (s\<lparr>wakeupCounter := wakeupCounter s + 1\<rparr>) else Inl Exited)"

definition MyEventLoop_handleRead :: "('f, 'w) event_loop \<Rightarrow> ('f, 'w) event_loop res" where
  "MyEventLoop_handleRead s = (if wakeupCounter s = 0 then Inl Exited else Inr (s\<lparr>wakeupCounter := 0\<rparr>))"

definition MyEventLoop_queueInLoop :: "bool \<Rightarrow> 'f \<Rightarrow> ('f, 'w) event_loop \<Rightarrow> ('f, 'w) event_loop res" where
  "MyEventLoop_queueInLoop inThread f s =
     (let s1 = s\<lparr>pendingFunctors := pendingFunctors s @ [f]\<rparr> in
      if \<not> inThread \<or> callingPendingFunctors s1 then MyEventLoop_wakeup s1 else Inr s1)"

definition MyEventLoop_runInLoop ::
  "('f \<Rightarrow> ('f, 'w) event_loop \<Rightarrow> ('f, 'w) event_loop res) \<Rightarrow> bool \<Rightarrow> 'f \<Rightarrow> ('f, 'w) event_loop \<Rightarrow> ('f, 'w) event_loop res" where
  "MyEventLoop_runInLoop run inThread f s =
     (if inThread then run f s else MyEventLoop_queueInLoop inThread f s)"

definition MyEventLoop_quit :: "bool \<Rightarrow> ('f, 'w) event_loop \<Rightarrow> ('f, 'w) event_loop res" where
  "MyEventLoop_quit inThread s =
     (let s1 = s\<lparr>quit := True\<rparr> in if \<not> inThread then MyEventLoop_wakeup s1 else Inr s1)"

definition MyEventLoop_doPendingFunctors ::
  "('f \<Rightarrow> ('f, 'w) event_loop \<Rightarrow> ('f, 'w) event_loop res) \<Rightarrow> ('f, 'w) event_loop \<Rightarrow> ('f, 'w) event_loop res" where
  "MyEventLoop_doPendingFunctors run s =
     rbind (run_all run (pendingFunctors s) (s\<lparr>callingPendingFunctors := True, pendingFunctors := []\<rparr>))
       (\<lambda>s'. Inr (s'\<lparr>callingPendingFunctors := False\<rparr>))"

definition MyEventLoop_iterate ::
  "(('f, 'w) event_loop \<Rightarrow> (timestamp \<times> nat list \<times> 'w) res) \<Rightarrow>
   (nat \<Rightarrow> timestamp \<Rightarrow> ('f, 'w) event_loop \<Rightarrow> ('f, 'w) event_loop res) \<Rightarrow>
   ('f \<Rightarrow> ('f, 'w) event_loop \<Rightarrow> ('f, 'w) event_loop res) \<Rightarrow> ('f, 'w) event_loop \<Rightarrow> ('f, 'w) event_loop res" where
  "MyEventLoop_iterate poll handle run s =
     rbind (poll (s\<lparr>activeChannels := []\<rparr>)) (\<lambda>(now, active, w).
       rbind (run_all (\<lambda>c s. handle c (pollReturnTime s) s) active
               (s\<lparr>activeChannels := active, pollReturnTime := now, env := w\<rparr>))
         (MyEventLoop_doPendingFunctors run))"

definition MyEventLoop_loop ::
  "(('f, 'w) event_loop \<Rightarrow> (timestamp \<times> nat list \<times> 'w) res) \<Rightarrow>
   (nat \<Rightarrow> timestamp \<Rightarrow> ('f, 'w) event_loop \<Rightarrow> ('f, 'w) event_loop res) \<Rightarrow>
   ('f \<Rightarrow> ('f, 'w) event_loop \<Rightarrow> ('f, 'w) event_loop res) \<Rightarrow> ('f, 'w) event_loop \<Rightarrow> ('f, 'w) event_loop res option" where
  "MyEventLoop_loop poll handle run s =
     map_option (\<lambda>r. rbind r (\<lambda>s'. Inr (s'\<lparr>looping := False\<rparr>)))
       (EventLoop_while (MyEventLoop_iterate poll handle run) (s\<lparr>looping := True, quit := False\<rparr>))"

section \<open>A pass over the functors\<close>

text \<open>Functors that queue other functors from the loop's own thread.\<close>

definition run_queueing :: "('f \<Rightarrow> 'f list) \<Rightarrow> 'f \<Rightarrow> ('f, 'w) event_loop \<Rightarrow> ('f, 'w) event_loop res" where
  "run_queueing queues f s = Inr (fold (EventLoop_queueInLoop True) (queues f) s)"

lemma queueInLoop_calling:
  "callingPendingFunctors s \<Longrightarrow> fold (EventLoop_queueInLoop True) fs s =
     s\<lparr>pendingFunctors := pendingFunctors s @ fs,
       wakeupCounter := (if fs = [] then wakeupCounter s
                         else max (wakeupCounter s) (min eventfd_max (wakeupCounter s + length fs)))\<rparr>"
proof (induction fs arbitrary: s)
  case (Cons f fs)
  then show ?case
    by (simp add: EventLoop_queueInLoop_def EventLoop_push_def EventLoop_wakeup_def Let_def min_def max_def)
qed simp

lemma run_all_queueing:
  assumes "callingPendingFunctors s"
  shows "run_all (run_queueing queues) fs s = Inr (fold (EventLoop_queueInLoop True) (concat (map queues fs)) s)"
  using assms
proof (induction fs arbitrary: s)
  case (Cons f fs)
  then show ?case by (simp add: run_queueing_def queueInLoop_calling)
qed simp

text \<open>
  C9. One pass over the pending functors runs each of those queued before it once, in order, and
  comes to an end even when functors queue further ones, or themselves again: what they queue stays
  pending for the next pass, in order, and the eventfd is readable so that the next poll returns.
\<close>
theorem doPendingFunctors_pass:
  "\<exists>s'. EventLoop_doPendingFunctors (run_queueing queues) s = Inr s'
    \<and> pendingFunctors s' = concat (map queues (pendingFunctors s))
    \<and> \<not> callingPendingFunctors s' \<and> quit s' = quit s
    \<and> (wakeupCounter s' = 0 \<longleftrightarrow> pendingFunctors s' = [] \<and> wakeupCounter s = 0)"
proof -
  let ?fs = "concat (map queues (pendingFunctors s))"
  let ?s = "s\<lparr>callingPendingFunctors := True, pendingFunctors := []\<rparr>"
  have "EventLoop_doPendingFunctors (run_queueing queues) s =
      Inr ((fold (EventLoop_queueInLoop True) ?fs ?s)\<lparr>callingPendingFunctors := False\<rparr>)"
    by (simp add: EventLoop_doPendingFunctors_def EventLoop_swap_def run_all_queueing)
  then show ?thesis
    by (auto simp: queueInLoop_calling eventfd_max_def min_def max_def)
qed

end
