(* ===== verification/Loop_Wakeup.thy ===== *)
theory Loop_Wakeup
  imports Net_EventLoop
begin

text \<open>
  The event loop and the threads that hand it work, as a step relation. The loop's thread is outside \<^verbatim>\<open>loop()\<close>, at
  the head of its \<^verbatim>\<open>while\<close>, in the poll, handling events, or in the pass over the functors; it may queue functors and quit
  wherever user code runs in it, also before \<^verbatim>\<open>loop()\<close>. Any number of other threads call \<^verbatim>\<open>queueInLoop\<close> and \<^verbatim>\<open>quit\<close>,
  whose stores and whose \<^verbatim>\<open>wakeup()\<close> are separate steps with anything in between. The ghost fields record what was queued,
  what has run, and whether a functor waits that the loop's own thread queued outside \<^verbatim>\<open>loop()\<close>.
\<close>

datatype 'f phase = Outside | Head | Polling | Handling | Running "'f list"

record 'f loop_run =
  lp :: "('f, unit) event_loop"
  phase :: "'f phase"
  midway :: nat
  pushed :: "'f list"
  executed :: "'f list"
  early :: bool


text \<open>Where user code runs in the loop's thread.\<close>

fun user_code :: "'f phase \<Rightarrow> bool" where
  "user_code Outside \<longleftrightarrow> True"
| "user_code Handling \<longleftrightarrow> True"
| "user_code (Running fs) \<longleftrightarrow> True"
| "user_code _ \<longleftrightarrow> False"

inductive loop_step :: "'f loop_run \<Rightarrow> 'f loop_run \<Rightarrow> bool" where
  other_push: "loop_step r (r\<lparr>lp := EventLoop_push f (lp r), midway := midway r + 1, pushed := pushed r @ [f]\<rparr>)"
| other_quit: "loop_step r (r\<lparr>lp := (lp r)\<lparr>quit := True\<rparr>, midway := midway r + 1\<rparr>)"
| other_wake: "midway r = Suc n \<Longrightarrow> loop_step r (r\<lparr>lp := EventLoop_wakeup (lp r), midway := n\<rparr>)"
| own_queue: "user_code (phase r) \<Longrightarrow>
    loop_step r (r\<lparr>lp := EventLoop_queueInLoop True f (lp r), pushed := pushed r @ [f], early := early r \<or> phase r = Outside\<rparr>)"
| own_quit: "user_code (phase r) \<Longrightarrow> loop_step r (r\<lparr>lp := EventLoop_quit True (lp r)\<rparr>)"
| enter_loop: "phase r = Outside \<Longrightarrow> loop_step r (r\<lparr>lp := (lp r)\<lparr>looping := True, quit := False\<rparr>, phase := Head\<rparr>)"
| begin_poll: "phase r = Head \<Longrightarrow> \<not> quit (lp r) \<Longrightarrow> loop_step r (r\<lparr>phase := Polling\<rparr>)"
| leave_loop: "phase r = Head \<Longrightarrow> quit (lp r) \<Longrightarrow> loop_step r (r\<lparr>lp := (lp r)\<lparr>looping := False\<rparr>, phase := Outside\<rparr>)"
| poll_returns: "phase r = Polling \<Longrightarrow> loop_step r (r\<lparr>phase := Handling\<rparr>)"
| read_wakeup: "phase r = Handling \<Longrightarrow> loop_step r (r\<lparr>lp := EventLoop_handleRead (lp r)\<rparr>)"
| begin_pass: "phase r = Handling \<Longrightarrow>
    EventLoop_swap ((lp r)\<lparr>callingPendingFunctors := True\<rparr>) = (fs, l) \<Longrightarrow>
    loop_step r (r\<lparr>lp := l, phase := Running fs, early := False\<rparr>)"
| run_functor: "phase r = Running (f # fs) \<Longrightarrow>
    loop_step r (r\<lparr>phase := Running fs, executed := executed r @ [f]\<rparr>)"
| end_pass: "phase r = Running [] \<Longrightarrow>
    loop_step r (r\<lparr>lp := (lp r)\<lparr>callingPendingFunctors := False\<rparr>, phase := Head\<rparr>)"

inductive_cases loop_stepE: "loop_step r r'"

text \<open>A loop that was just constructed.\<close>

definition loop_start :: "'f loop_run" where
  "loop_start = \<lparr>lp = \<lparr>looping = False, quit = False, loopEventHandling = False, callingPendingFunctors = False,
       iteration = 0, pollReturnTime = Timestamp_invalid, activeChannels = [], currentActiveChannel = None,
       pendingFunctors = [], wakeupCounter = 0, env = ()\<rparr>,
     phase = Outside, midway = 0, pushed = [], executed = [], early = False\<rparr>"

lemma loop_start_new: "EventLoop_new Inr () False = Inr (lp loop_start)"
  by (simp add: EventLoop_new_def loop_start_def)

definition loop_reachable :: "'f loop_run \<Rightarrow> bool" where
  "loop_reachable = loop_step\<^sup>*\<^sup>* loop_start"


lemmas loop_ops = EventLoop_push_def EventLoop_wakeup_def EventLoop_queueInLoop_def EventLoop_handleRead_def
  EventLoop_swap_def Let_def


lemma wakeup_counter_pos [simp]: "0 < wakeupCounter (EventLoop_wakeup s)"
  by (simp add: EventLoop_wakeup_def eventfd_max_def)

lemma wakeup_keeps [simp]:
  "pendingFunctors (EventLoop_wakeup s) = pendingFunctors s"
  "callingPendingFunctors (EventLoop_wakeup s) = callingPendingFunctors s" "quit (EventLoop_wakeup s) = quit s"
  by (simp_all add: EventLoop_wakeup_def)

lemma push_keeps [simp]:
  "pendingFunctors (EventLoop_push f s) = pendingFunctors s @ [f]"
  "callingPendingFunctors (EventLoop_push f s) = callingPendingFunctors s" "quit (EventLoop_push f s) = quit s"
  "wakeupCounter (EventLoop_push f s) = wakeupCounter s"
  by (simp_all add: EventLoop_push_def)




lemma loop_reach_step: "loop_reachable r \<Longrightarrow> loop_step r r' \<Longrightarrow> loop_reachable r'"
  unfolding loop_reachable_def by (rule rtranclp.rtrancl_into_rtrancl)

lemma loop_reach_start: "loop_reachable loop_start"
  by (simp add: loop_reachable_def)






text \<open>The exception happens: a functor queued by the loop's own thread before \<^verbatim>\<open>loop()\<close> waits for the first poll to time out.\<close>

lemma EventLoop_early_functor_waits:
  "\<exists>r. loop_reachable r \<and> phase r = Polling \<and> pendingFunctors (lp r) = [f] \<and> wakeupCounter (lp r) = 0 \<and> midway r = 0"
proof -
  let ?r1 = "loop_start\<lparr>lp := (lp loop_start)\<lparr>pendingFunctors := [f]\<rparr>, pushed := [f], early := True\<rparr>"
  let ?r2 = "?r1\<lparr>lp := (lp ?r1)\<lparr>looping := True, quit := False\<rparr>, phase := Head\<rparr>"
  have "loop_step loop_start ?r1"
    using own_queue [of "loop_start" f] by (simp add: loop_start_def loop_ops)
  moreover have "loop_step ?r1 ?r2"
    using enter_loop [of ?r1] by (simp add: loop_start_def)
  moreover have "loop_step ?r2 (?r2\<lparr>phase := Polling\<rparr>)"
    using begin_poll [of ?r2] by (simp add: loop_start_def)
  ultimately have "loop_reachable (?r2\<lparr>phase := Polling\<rparr>)"
    using loop_reach_step loop_reach_start by blast
  then show ?thesis
    by (intro exI [of _ "?r2\<lparr>phase := Polling\<rparr>"]) (simp add: loop_start_def)
qed

section \<open>Running the loop\<close>

text \<open>A functor notes that it ran, queues other functors, and may quit the loop.\<close>

definition run_script :: "('f \<Rightarrow> 'f list) \<Rightarrow> ('f \<Rightarrow> bool) \<Rightarrow> 'f \<Rightarrow> ('f, 'f list) event_loop \<Rightarrow> ('f, 'f list) event_loop res" where
  "run_script queues quits f s =
     (let s1 = fold (EventLoop_queueInLoop True) (queues f) (s\<lparr>env := env s @ [f]\<rparr>) in
      Inr (if quits f then EventLoop_quit True s1 else s1))"

text \<open>The functors of the \<open>n\<close>-th pass.\<close>

primrec generation :: "('f \<Rightarrow> 'f list) \<Rightarrow> 'f list \<Rightarrow> nat \<Rightarrow> 'f list" where
  "generation queues fs 0 = fs"
| "generation queues fs (Suc n) = concat (map queues (generation queues fs n))"

text \<open>Documented behaviour of the poll on an eventfd, with no other activity: the wakeup channel \<open>wk\<close> is active exactly when its counter
  is not zero, and otherwise the poll returns after its time-out.\<close>

definition quiet_poll :: "nat \<Rightarrow> (('f, 'w) event_loop \<Rightarrow> (timestamp \<times> nat list \<times> 'w) res) \<Rightarrow> bool" where
  "quiet_poll wk poll \<longleftrightarrow> (\<forall>s. \<exists>now. poll s = Inr (now, if 0 < wakeupCounter s then [wk] else [], env s))"

lemma run_script_ok:
  assumes "callingPendingFunctors s"
  shows "\<exists>s'. run_script queues quits f s = Inr s' \<and> callingPendingFunctors s' \<and> pendingFunctors s' = pendingFunctors s @ queues f \<and>
    env s' = env s @ [f] \<and> quit s' = (quit s \<or> quits f) \<and> iteration s' = iteration s"
  using assms by (simp add: run_script_def Let_def queueInLoop_calling EventLoop_quit_def)

lemma run_all_script:
  "callingPendingFunctors s \<Longrightarrow> \<exists>s'. run_all (run_script queues quits) fs s = Inr s' \<and> callingPendingFunctors s' \<and>
     pendingFunctors s' = pendingFunctors s @ concat (map queues fs) \<and> env s' = env s @ fs \<and>
     quit s' = (quit s \<or> (\<exists>f\<in>set fs. quits f)) \<and> iteration s' = iteration s"
proof (induction fs arbitrary: s)
  case (Cons f fs)
  obtain s1 where s1: "run_script queues quits f s = Inr s1" "callingPendingFunctors s1" "pendingFunctors s1 = pendingFunctors s @ queues f"
      "env s1 = env s @ [f]" "quit s1 = (quit s \<or> quits f)" "iteration s1 = iteration s"
    using run_script_ok [OF Cons.prems, of queues quits f] by blast
  then show ?case
    using Cons.IH [OF s1(2)] by auto
qed simp

lemma iterate_script:
  assumes "quiet_poll wk poll" "\<forall>t s. handle wk t s = Inr (EventLoop_handleRead s)"
  shows "\<exists>s'. EventLoop_iterate poll handle (run_script queues quits) s = Inr s' \<and>
    pendingFunctors s' = concat (map queues (pendingFunctors s)) \<and> env s' = env s @ pendingFunctors s \<and>
    quit s' = (quit s \<or> (\<exists>f\<in>set (pendingFunctors s). quits f)) \<and> iteration s' = iteration s + 1"
proof -
  obtain now where "poll (s\<lparr>activeChannels := []\<rparr>) = Inr (now, if 0 < wakeupCounter s then [wk] else [], env s)"
    using assms(1) [unfolded quiet_poll_def, rule_format, of "s\<lparr>activeChannels := []\<rparr>"] by auto
  moreover define s1 where "s1 = s\<lparr>activeChannels := if 0 < wakeupCounter s then [wk] else [], pollReturnTime := now, env := env s,
      iteration := iteration s + 1, loopEventHandling := True\<rparr>"
  moreover obtain s2 where s2: "EventLoop_handleActive handle (if 0 < wakeupCounter s then [wk] else []) s1 = Inr s2"
      "pendingFunctors s2 = pendingFunctors s" "env s2 = env s" "quit s2 = quit s" "iteration s2 = iteration s + 1"
    using assms(2) by (cases "0 < wakeupCounter s") (simp_all add: s1_def EventLoop_handleRead_def)
  ultimately have "EventLoop_iterate poll handle (run_script queues quits) s =
      EventLoop_doPendingFunctors (run_script queues quits) (s2\<lparr>currentActiveChannel := None, loopEventHandling := False\<rparr>)"
    by (simp add: EventLoop_iterate_def Let_def)
  moreover have "\<exists>s'. EventLoop_doPendingFunctors (run_script queues quits) (s2\<lparr>currentActiveChannel := None, loopEventHandling := False\<rparr>) = Inr s' \<and>
      pendingFunctors s' = concat (map queues (pendingFunctors s)) \<and> env s' = env s @ pendingFunctors s \<and>
      quit s' = (quit s \<or> (\<exists>f\<in>set (pendingFunctors s). quits f)) \<and> iteration s' = iteration s + 1"
    using run_all_script [of "s2\<lparr>currentActiveChannel := None, loopEventHandling := False, callingPendingFunctors := True, pendingFunctors := []\<rparr>"
        queues quits "pendingFunctors s"] s2(2-)
    by (auto simp: EventLoop_doPendingFunctors_def EventLoop_swap_def)
  ultimately show ?thesis
    by simp
qed

lemma EventLoop_while_step: "\<not> quit s \<Longrightarrow> body s = Inr s' \<Longrightarrow> EventLoop_while body s = EventLoop_while body s'"
  by (subst EventLoop_while.simps) simp

lemma EventLoop_while_end: "quit s \<Longrightarrow> EventLoop_while body s = Some (Inr s)"
  by (subst EventLoop_while.simps) simp

lemma generation_shift: "generation queues (concat (map queues fs)) n = generation queues fs (Suc n)"
  by (induction n) auto

lemma while_script:
  assumes "quiet_poll wk poll" "\<forall>t s. handle wk t s = Inr (EventLoop_handleRead s)"
  shows "\<not> quit s \<Longrightarrow> \<exists>f\<in>set (generation queues (pendingFunctors s) n). quits f \<Longrightarrow>
    \<forall>k<n. \<forall>f\<in>set (generation queues (pendingFunctors s) k). \<not> quits f \<Longrightarrow>
    \<exists>s'. EventLoop_while (EventLoop_iterate poll handle (run_script queues quits)) s = Some (Inr s') \<and>
      env s' = env s @ concat (map (generation queues (pendingFunctors s)) [0..<Suc n]) \<and>
      pendingFunctors s' = generation queues (pendingFunctors s) (Suc n) \<and> quit s' \<and> iteration s' = iteration s + int n + 1"
proof (induction n arbitrary: s)
  case 0
  obtain s1 where s1: "EventLoop_iterate poll handle (run_script queues quits) s = Inr s1"
      "pendingFunctors s1 = concat (map queues (pendingFunctors s))" "env s1 = env s @ pendingFunctors s" "quit s1" "iteration s1 = iteration s + 1"
    using iterate_script [where handle = handle and wk = wk, OF assms, of queues quits s] 0 by auto
  then show ?case
    using EventLoop_while_step [where body = "EventLoop_iterate poll handle (run_script queues quits)", OF 0(1) s1(1)] EventLoop_while_end [OF s1(4)] by simp
next
  case (Suc n)
  obtain s1 where s1: "EventLoop_iterate poll handle (run_script queues quits) s = Inr s1"
      "pendingFunctors s1 = concat (map queues (pendingFunctors s))" "env s1 = env s @ pendingFunctors s" "iteration s1 = iteration s + 1"
      "\<not> quit s1"
    using iterate_script [where handle = handle and wk = wk, OF assms, of queues quits s] Suc.prems(1) Suc.prems(3) [rule_format, of 0] by auto
  have gen: "generation queues (pendingFunctors s1) k = generation queues (pendingFunctors s) (Suc k)" for k
    unfolding s1(2) by (rule generation_shift)
  have "\<forall>k<n. \<forall>f\<in>set (generation queues (pendingFunctors s1) k). \<not> quits f"
    using Suc.prems(3) unfolding gen by blast
  then obtain s' where s': "EventLoop_while (EventLoop_iterate poll handle (run_script queues quits)) s1 = Some (Inr s')"
      "env s' = env s1 @ concat (map (generation queues (pendingFunctors s1)) [0..<Suc n])"
      "pendingFunctors s' = generation queues (pendingFunctors s1) (Suc n)" "quit s'" "iteration s' = iteration s1 + int n + 1"
    using Suc.IH [OF s1(5)] Suc.prems(2) unfolding gen by blast
  have "map (generation queues (pendingFunctors s)) [0..<Suc (Suc n)] = pendingFunctors s # map (generation queues (pendingFunctors s1)) [0..<Suc n]"
    unfolding gen by (subst upt_conv_Cons) (simp_all add: map_Suc_upt [symmetric] del: upt_Suc)
  then show ?case
    using EventLoop_while_step [where body = "EventLoop_iterate poll handle (run_script queues quits)", OF Suc.prems(1) s1(1)] s' s1(3,4) gen [of "Suc n"]
    by (simp del: upt_Suc generation.simps)
qed

text \<open>
  C10. What \<^verbatim>\<open>loop()\<close> does with functors that queue functors and one of which quits, when nothing else is
  active: it runs the functors pass by pass, the ones queued before it, then those these queued, and so on, each once and in
  order; it returns after the pass in which the first functor quits, having finished that pass, with what was queued in it
  still pending and \<^verbatim>\<open>looping_\<close> cleared, whatever \<^verbatim>\<open>quit_\<close> was before; and it takes one iteration for each pass.
\<close>
theorem EventLoop_loop_runs:
  assumes "\<not> looping s" "quiet_poll wk poll" "\<forall>t s. handle wk t s = Inr (EventLoop_handleRead s)"
    "\<exists>f\<in>set (generation queues (pendingFunctors s) n). quits f"
    "\<forall>k<n. \<forall>f\<in>set (generation queues (pendingFunctors s) k). \<not> quits f"
  shows "\<exists>s'. EventLoop_loop True poll handle (run_script queues quits) s = Some (Inr s') \<and>
    env s' = env s @ concat (map (generation queues (pendingFunctors s)) [0..<Suc n]) \<and>
    pendingFunctors s' = generation queues (pendingFunctors s) (Suc n) \<and> \<not> looping s' \<and> iteration s' = iteration s + int n + 1"
  using while_script [where handle = handle and wk = wk, OF assms(2,3), of "s\<lparr>looping := True, quit := False\<rparr>" queues n quits] assms(1,4,5)
  by (auto simp: EventLoop_loop_def simp del: generation.simps upt_Suc)

definition timed_poll :: "(nat, nat list) event_loop \<Rightarrow> (timestamp \<times> nat list \<times> nat list) res" where
  "timed_poll s = Inr (Timestamp 5, if 0 < wakeupCounter s then [0] else [], env s)"

text \<open>Functor \<open>k\<close> queues \<open>k - 1\<close> twice; functor 0 quits.\<close>

theorem EventLoop_loop_runs_witness:
  "\<exists>s'. EventLoop_loop True timed_poll (\<lambda>c t s. Inr (EventLoop_handleRead s)) (run_script (\<lambda>k. if k = 0 then [] else [k - 1, k - 1]) (\<lambda>k. k = 0))
      \<lparr>looping = False, quit = True, loopEventHandling = False, callingPendingFunctors = False, iteration = 0,
       pollReturnTime = Timestamp_invalid, activeChannels = [], currentActiveChannel = None, pendingFunctors = [2 :: nat], wakeupCounter = 0,
       env = []\<rparr> = Some (Inr s') \<and> env s' = [2, 1, 1, 0, 0, 0, 0] \<and> pendingFunctors s' = []"
proof -
  let ?q = "\<lambda>k. if k = 0 then [] else [k - 1, k - 1 :: nat]"
  let ?s = "\<lparr>looping = False, quit = True, loopEventHandling = False, callingPendingFunctors = False, iteration = 0,
       pollReturnTime = Timestamp_invalid, activeChannels = [], currentActiveChannel = None, pendingFunctors = [2], wakeupCounter = 0,
       env = []\<rparr> :: (nat, nat list) event_loop"
  have gen: "generation ?q [2] 0 = [2]" "generation ?q [2] 1 = [1, 1]" "generation ?q [2] 2 = [0, 0, 0, 0]" "generation ?q [2] 3 = []"
    by (simp_all add: numeral_2_eq_2 numeral_3_eq_3)
  have poll: "quiet_poll 0 timed_poll"
    by (simp add: quiet_poll_def timed_poll_def)
  have zero: "\<exists>f\<in>set (generation ?q (pendingFunctors ?s) 2). f = 0"
    using gen(3) by simp
  have before: "\<forall>k<2. \<forall>f\<in>set (generation ?q (pendingFunctors ?s) k). f \<noteq> 0"
    using gen(1,2) by (auto simp: less_2_cases_iff)
  have passes: "concat (map (generation ?q [2]) [0..<Suc 2]) = [2, 1, 1, 0, 0, 0, 0]"
    using gen by (simp add: numeral_2_eq_2)
  show ?thesis
    using EventLoop_loop_runs [of ?s 0 timed_poll "\<lambda>c t s. Inr (EventLoop_handleRead s)" ?q 2 "\<lambda>k. k = 0"] poll zero before passes gen(4)
    by (auto simp add: eval_nat_numeral simp del: generation.simps upt_Suc)
qed

end
