(* ===== verification/Net_Pool.thy ===== *)
theory Net_Pool
  imports Text_Format "HOL-Library.Multiset"
begin

text \<open>
  \<^verbatim>\<open>EventLoopThread\<close> and \<^verbatim>\<open>EventLoopThreadPool\<close> of muduo and of myMuduo: how a loop's thread hands its
  loop to the thread that started it, and how the pool deals connections out to the loops. Loops are
  values of a type \<open>'l\<close>; \<open>startLoop\<close> is what starting the \<open>i\<close>-th thread returns. The contract of the
  dealing is the locale \<open>round_robin\<close>.
\<close>

section \<open>EventLoopThread\<close>

record 'l loop_thread =
  threadLoop :: "'l option"
  exiting :: bool
  threadStarted :: bool
  threadJoined :: bool

definition EventLoopThread_new :: "'l loop_thread" where
  "EventLoopThread_new = \<lparr>threadLoop = None, exiting = False, threadStarted = False, threadJoined = False\<rparr>"

text \<open>
  \<^verbatim>\<open>startLoop\<close> starts the thread and then waits on the condition variable while \<^verbatim>\<open>loop_\<close> is null; the
  wait is the second step, which does not return before the thread has published its loop.
\<close>

definition EventLoopThread_start :: "'l loop_thread \<Rightarrow> 'l loop_thread res" where
  "EventLoopThread_start t = c_assert (\<not> threadStarted t) (Inr (t\<lparr>threadStarted := True\<rparr>))"

definition EventLoopThread_wait :: "'l loop_thread \<Rightarrow> 'l res" where
  "EventLoopThread_wait t = (case threadLoop t of None \<Rightarrow> Inl Blocked | Some l \<Rightarrow> Inr l)"

definition EventLoopThread_publish :: "'l \<Rightarrow> 'l loop_thread \<Rightarrow> 'l loop_thread" where
  "EventLoopThread_publish l t = t\<lparr>threadLoop := Some l\<rparr>"

definition EventLoopThread_leave :: "'l loop_thread \<Rightarrow> 'l loop_thread" where
  "EventLoopThread_leave t = t\<lparr>threadLoop := None\<rparr>"

text \<open>The destructor answers which loop it asks to quit.\<close>

definition EventLoopThread_delete :: "'l loop_thread \<Rightarrow> 'l option \<times> 'l loop_thread" where
  "EventLoopThread_delete t =
     (let t1 = t\<lparr>exiting := True\<rparr> in
      case threadLoop t1 of None \<Rightarrow> (None, t1) | Some l \<Rightarrow> (Some l, t1\<lparr>threadJoined := True\<rparr>))"

section \<open>EventLoopThreadPool\<close>

record 'l loop_pool =
  baseLoop :: 'l
  poolName :: string
  started :: bool
  numThreads :: int
  next_index :: nat
  threadNames :: "string list"
  loops :: "'l list"

definition EventLoopThreadPool_new :: "'l \<Rightarrow> string \<Rightarrow> 'l loop_pool" where
  "EventLoopThreadPool_new base nameArg =
     \<lparr>baseLoop = base, poolName = nameArg, started = False, numThreads = 0, next_index = 0, threadNames = [], loops = []\<rparr>"

definition EventLoopThreadPool_setThreadNum :: "int \<Rightarrow> 'l loop_pool \<Rightarrow> 'l loop_pool" where
  "EventLoopThreadPool_setThreadNum n p = p\<lparr>numThreads := n\<rparr>"

text \<open>The answer says whether the thread callback has to be run on the base loop.\<close>

definition EventLoopThreadPool_start ::
  "bool \<Rightarrow> (nat \<Rightarrow> 'l) \<Rightarrow> bool \<Rightarrow> 'l loop_pool \<Rightarrow> (bool \<times> 'l loop_pool) res" where
  "EventLoopThreadPool_start inBaseThread startLoop hasCb p =
     c_assert (\<not> started p)
       (if \<not> inBaseThread then Inl Exited
        else (let is = [0..<nat (numThreads p)] in
          Inr (numThreads p = 0 \<and> hasCb,
            p\<lparr>started := True,
              threadNames := threadNames p @ map (\<lambda>i. poolName p @ show_nat i) is,
              loops := loops p @ map startLoop is\<rparr>)))"

definition EventLoopThreadPool_getNextLoop :: "bool \<Rightarrow> 'l loop_pool \<Rightarrow> ('l \<times> 'l loop_pool) res" where
  "EventLoopThreadPool_getNextLoop inBaseThread p =
     (if \<not> inBaseThread then Inl Exited
      else c_assert (started p)
        (if loops p = [] then Inr (baseLoop p, p)
         else if next_index p < length (loops p)
         then (let n = next_index p + 1 in
               Inr (loops p ! next_index p, p\<lparr>next_index := if length (loops p) \<le> n then 0 else n\<rparr>))
         else Inl OutOfRange))"

definition EventLoopThreadPool_getLoopForHash :: "bool \<Rightarrow> nat \<Rightarrow> 'l loop_pool \<Rightarrow> 'l res" where
  "EventLoopThreadPool_getLoopForHash inBaseThread hashCode p =
     (if \<not> inBaseThread then Inl Exited
      else Inr (if loops p = [] then baseLoop p else loops p ! (hashCode mod length (loops p))))"

definition EventLoopThreadPool_getAllLoops :: "bool \<Rightarrow> 'l loop_pool \<Rightarrow> 'l list res" where
  "EventLoopThreadPool_getAllLoops inBaseThread p =
     (if \<not> inBaseThread then Inl Exited
      else c_assert (started p) (Inr (if loops p = [] then [baseLoop p] else loops p)))"

section \<open>myMuduo\<close>

definition MyEventLoopThreadPool_start :: "(nat \<Rightarrow> 'l) \<Rightarrow> bool \<Rightarrow> 'l loop_pool \<Rightarrow> bool \<times> 'l loop_pool" where
  "MyEventLoopThreadPool_start startLoop hasCb p =
     (let is = [0..<nat (numThreads p)] in
      (numThreads p = 0 \<and> hasCb,
       p\<lparr>started := True,
         threadNames := threadNames p @ map (\<lambda>i. poolName p @ show_nat i) is,
         loops := loops p @ map startLoop is\<rparr>))"

definition MyEventLoopThreadPool_getNextLoop :: "'l loop_pool \<Rightarrow> ('l \<times> 'l loop_pool) res" where
  "MyEventLoopThreadPool_getNextLoop p =
     (if loops p = [] then Inr (baseLoop p, p)
      else if next_index p < length (loops p)
      then (let n = next_index p + 1 in
            Inr (loops p ! next_index p, p\<lparr>next_index := if length (loops p) \<le> n then 0 else n\<rparr>))
      else Inl OutOfRange)"

definition MyEventLoopThreadPool_getAllLoops :: "'l loop_pool \<Rightarrow> 'l list" where
  "MyEventLoopThreadPool_getAllLoops p = (if loops p = [] then [baseLoop p] else loops p)"

section \<open>Round robin\<close>

fun deal :: "('s \<Rightarrow> ('l \<times> 's) res) \<Rightarrow> nat \<Rightarrow> 's \<Rightarrow> ('l list \<times> 's) res" where
  "deal get 0 s = Inr ([], s)"
| "deal get (Suc k) s = rbind (get s) (\<lambda>(l, s'). rbind (deal get k s') (\<lambda>(ls, s''). Inr (l # ls, s'')))"

locale round_robin =
  fixes get :: "'s \<Rightarrow> ('l \<times> 's) res"
    and ok :: "'s \<Rightarrow> bool"
    and items :: "'s \<Rightarrow> 'l list"
    and pos :: "'s \<Rightarrow> nat"
  assumes items_pos: "ok s \<Longrightarrow> pos s < length (items s)"
    and get_ok: "ok s \<Longrightarrow> \<exists>s'. get s = Inr (items s ! pos s, s') \<and> ok s' \<and> items s' = items s
      \<and> pos s' = Suc (pos s) mod length (items s)"
begin

lemma deal_kth:
  assumes "ok s"
  shows "\<exists>s'. deal get k s = Inr (map (\<lambda>i. items s ! ((pos s + i) mod length (items s))) [0..<k], s')
    \<and> ok s' \<and> items s' = items s \<and> pos s' = (pos s + k) mod length (items s)"
  using assms
proof (induction k arbitrary: s)
  case 0
  then show ?case using items_pos [of s] by simp
next
  case (Suc k)
  obtain s1 where s1: "get s = Inr (items s ! pos s, s1)" "ok s1" "items s1 = items s"
      "pos s1 = Suc (pos s) mod length (items s)"
    using get_ok [OF Suc.prems] by blast
  obtain s' where s': "deal get k s1 = Inr (map (\<lambda>i. items s ! ((pos s1 + i) mod length (items s))) [0..<k], s')"
      "ok s'" "items s' = items s" "pos s' = (pos s1 + k) mod length (items s)"
    using Suc.IH [OF s1(2)] s1(3) by auto
  have shift: "(pos s1 + i) mod length (items s) = (pos s + Suc i) mod length (items s)" for i
    by (simp add: s1(4) mod_simps)
  have "map (\<lambda>i. items s ! ((pos s + i) mod length (items s))) [0..<Suc k] =
      items s ! pos s # map (\<lambda>i. items s ! ((pos s1 + i) mod length (items s))) [0..<k]"
    using items_pos [OF Suc.prems] unfolding upt_conv_Cons [OF zero_less_Suc] map_Suc_upt [symmetric]
    by (simp add: shift comp_def)
  then show ?case using s1 s' shift [of k] by simp
qed

text \<open>A round deals to every item once.\<close>

lemma deal_round:
  assumes "ok s"
  shows "\<exists>ls s'. deal get (length (items s)) s = Inr (ls, s') \<and> mset ls = mset (items s) \<and> pos s' = pos s"
proof -
  let ?n = "length (items s)" and ?p = "pos s"
  have p: "?p < ?n" by (rule items_pos [OF assms])
  have "map (\<lambda>i. items s ! ((?p + i) mod ?n)) [0..<?n] = rotate ?p (items s)"
    by (rule nth_equalityI) (auto simp: nth_rotate)
  moreover have "mset (rotate ?p (items s)) = mset (items s)"
    by (metis append_take_drop_id mset_append union_commute rotate_drop_take)
  ultimately show ?thesis using deal_kth [OF assms, of ?n] p by auto
qed

end

definition pool_ok :: "'l loop_pool \<Rightarrow> bool" where
  "pool_ok p \<longleftrightarrow> started p \<and> next_index p < length (loops p)"

lemma next_wraps: "i < n \<Longrightarrow> (if n \<le> i + 1 then 0 else i + 1) = Suc i mod n"
  by (cases "Suc i = n") simp_all

lemma getNextLoop_eq:
  assumes "pool_ok p"
  shows "EventLoopThreadPool_getNextLoop True p =
      Inr (loops p ! next_index p, p\<lparr>next_index := Suc (next_index p) mod length (loops p)\<rparr>)"
    and "MyEventLoopThreadPool_getNextLoop p = EventLoopThreadPool_getNextLoop True p"
  using assms next_wraps [of "next_index p" "length (loops p)"]
  by (auto simp: pool_ok_def EventLoopThreadPool_getNextLoop_def MyEventLoopThreadPool_getNextLoop_def Let_def
      simp del: mod_less)

lemma pool_ok_next: "pool_ok p \<Longrightarrow> pool_ok (p\<lparr>next_index := Suc (next_index p) mod length (loops p)\<rparr>)"
  by (cases "loops p = []") (simp_all add: pool_ok_def)

interpretation pool: round_robin "EventLoopThreadPool_getNextLoop True" pool_ok loops next_index
proof unfold_locales
  show "pool_ok p \<Longrightarrow> next_index p < length (loops p)" for p :: "'a loop_pool" by (simp add: pool_ok_def)
qed (simp add: getNextLoop_eq(1) pool_ok_next)

interpretation mypool: round_robin MyEventLoopThreadPool_getNextLoop pool_ok loops next_index
proof unfold_locales
  show "pool_ok p \<Longrightarrow> next_index p < length (loops p)" for p :: "'a loop_pool" by (simp add: pool_ok_def)
qed (simp add: getNextLoop_eq pool_ok_next)

text \<open>
  A started pool with threads deals its loops out in turn: every call returns a loop, the \<open>k\<close>-th
  after the start is loop \<open>k\<close> modulo the number of threads, and each round of as many calls as there
  are loops gives every loop exactly one connection.
\<close>
theorem getNextLoop_round_robin:
  assumes "EventLoopThreadPool_start True startLoop hasCb (EventLoopThreadPool_setThreadNum n (EventLoopThreadPool_new base nm))
      = Inr (c, p)" and "0 < n"
  shows "(\<exists>p'. deal (EventLoopThreadPool_getNextLoop True) k p = Inr (map (\<lambda>i. startLoop (i mod nat n)) [0..<k], p'))
    \<and> (\<exists>ls p'. deal (EventLoopThreadPool_getNextLoop True) (nat n) p = Inr (ls, p')
          \<and> mset ls = mset (map startLoop [0..<nat n]) \<and> next_index p' = 0)"
proof -
  have p: "started p" "loops p = map startLoop [0..<nat n]" "next_index p = 0"
    using assms(1) by (auto simp: EventLoopThreadPool_start_def EventLoopThreadPool_setThreadNum_def
        EventLoopThreadPool_new_def Let_def c_assert_def)
  then have ok: "pool_ok p" using assms(2) by (simp add: pool_ok_def)
  show ?thesis
    using pool.deal_kth [OF ok, of k] pool.deal_round [OF ok] p assms(2) by auto
qed

theorem getNextLoop_round_robin_witness:
  "\<exists>p p'. EventLoopThreadPool_start True (\<lambda>i. 100 + i) False
      (EventLoopThreadPool_setThreadNum 3 (EventLoopThreadPool_new 0 ''srv'')) = Inr (False, p)
    \<and> deal (EventLoopThreadPool_getNextLoop True) 4 p = Inr ([100, 101, 102, 100 :: nat], p')"
proof -
  obtain p where p: "EventLoopThreadPool_start True (\<lambda>i. 100 + i) False
      (EventLoopThreadPool_setThreadNum 3 (EventLoopThreadPool_new 0 ''srv'')) = Inr (False, p)"
    by (simp add: EventLoopThreadPool_start_def EventLoopThreadPool_setThreadNum_def EventLoopThreadPool_new_def Let_def)
  have "map (\<lambda>i. 100 + i mod nat 3) [0..<4] = [100, 101, 102, 100 :: nat]"
    by (simp add: upt_rec)
  with getNextLoop_round_robin [OF p, of 4] p show ?thesis by auto
qed

text \<open>
  The pool of myMuduo deals the same way: on every pool with loops, a round gives every loop
  exactly one connection and both libraries agree on each answer.
\<close>
theorem MyPool_round_robin:
  assumes "pool_ok p"
  shows "(\<exists>ls p'. deal MyEventLoopThreadPool_getNextLoop (length (loops p)) p = Inr (ls, p')
      \<and> mset ls = mset (loops p) \<and> next_index p' = next_index p)
    \<and> MyEventLoopThreadPool_getNextLoop p = EventLoopThreadPool_getNextLoop True p"
  using mypool.deal_round [OF assms] assms
  by (simp add: MyEventLoopThreadPool_getNextLoop_def EventLoopThreadPool_getNextLoop_def pool_ok_def)

theorem MyPool_round_robin_witness:
  "\<exists>ls p'. deal MyEventLoopThreadPool_getNextLoop 2
      (snd (MyEventLoopThreadPool_start (\<lambda>i. i) False (EventLoopThreadPool_setThreadNum 2 (EventLoopThreadPool_new 9 ''x''))))
      = Inr (ls, p') \<and> mset ls = {#0, 1#}"
  using MyPool_round_robin [of "snd (MyEventLoopThreadPool_start (\<lambda>i. i) False
      (EventLoopThreadPool_setThreadNum 2 (EventLoopThreadPool_new 9 ''x'')))"]
  by (auto simp: MyEventLoopThreadPool_start_def EventLoopThreadPool_setThreadNum_def EventLoopThreadPool_new_def
      pool_ok_def Let_def upt_rec numeral_2_eq_2)

end
