(* ===== verification/Net_TcpConnection.thy ===== *)
theory Net_TcpConnection
  imports Net_Buffer Net_Channel Net_EventLoop
begin

text \<open>
  \<^verbatim>\<open>TcpConnection\<close> of muduo (\<^verbatim>\<open>TcpConnection.h\<close>, \<^verbatim>\<open>TcpConnection.cc\<close>). The record holds the fields of the
  class; the socket is represented by the bytes the kernel accepted (\<open>wireOut\<close>) and by whether its
  writing side was shut down; what the code hands to its loop is appended to \<open>loopTasks\<close>. The channel's
  methods are those of \<^theory_text>\<open>Net_Channel\<close> with a poller that accepts them, which
  the laws of the multiplexers justify. \<^verbatim>\<open>write\<close>, \<^verbatim>\<open>readv\<close> and the user's callbacks are arguments;
  the callbacks get the connection and may act on it. \<open>onLoopThread\<close> says whether the caller runs in
  the loop's thread.
\<close>

section \<open>State\<close>

text \<open>The tasks a connection hands to its loop; \<open>SendPointer n\<close> is the task the rewrite queues with a
  pointer to \<open>n\<close> bytes it does not own.\<close>

datatype conn_state = kDisconnected | kConnecting | kConnected | kDisconnecting

datatype conn_task = SendInLoop "char list" | ShutdownInLoop | ForceCloseInLoop | StartReadInLoop | StopReadInLoop
  | WriteComplete | HighWaterMark nat | ForceCloseAfter int | SendPointer nat

record tcp_connection =
  connState :: conn_state
  reading :: bool
  chan :: channel
  highWaterMark :: nat
  hasWriteComplete :: bool
  hasHighWaterMark :: bool
  inputBuffer :: net_buffer
  outputBuffer :: net_buffer
  loopTasks :: "conn_task list"
  wireOut :: "char list"
  writeShut :: bool
  onLoopThread :: bool

record conn_callbacks =
  connectionCallback :: "tcp_connection \<Rightarrow> tcp_connection res"
  messageCallback :: "timestamp \<Rightarrow> tcp_connection \<Rightarrow> tcp_connection res"
  closeCallback :: "tcp_connection \<Rightarrow> tcp_connection res"

datatype write_result = WErr errno | WOk nat

type_synonym write_fn = "char list \<Rightarrow> write_result"

definition TcpConnection_new :: "int \<Rightarrow> bool \<Rightarrow> tcp_connection res" where
  "TcpConnection_new sockfd inThread =
     rbind (Buffer_new kInitialSize) (\<lambda>b.
       Inr \<lparr>connState = kConnecting, reading = True,
            chan = Channel_setErrorCallback (Channel_setCloseCallback (Channel_setWriteCallback
              (Channel_setReadCallback (Channel_new sockfd)))),
            highWaterMark = 64 * 1024 * 1024, hasWriteComplete = False, hasHighWaterMark = False,
            inputBuffer = b, outputBuffer = b, loopTasks = [], wireOut = [], writeShut = False,
            onLoopThread = inThread\<rparr>)"

definition TcpConnection_delete :: "tcp_connection \<Rightarrow> unit res" where
  "TcpConnection_delete c = c_assert (connState c = kDisconnected) (Inr ())"

definition TcpConnection_setState :: "conn_state \<Rightarrow> tcp_connection \<Rightarrow> tcp_connection" where
  "TcpConnection_setState s c = c\<lparr>connState := s\<rparr>"

definition TcpConnection_setWriteCompleteCallback :: "tcp_connection \<Rightarrow> tcp_connection" where
  "TcpConnection_setWriteCompleteCallback c = c\<lparr>hasWriteComplete := True\<rparr>"

definition TcpConnection_setHighWaterMarkCallback :: "nat \<Rightarrow> tcp_connection \<Rightarrow> tcp_connection" where
  "TcpConnection_setHighWaterMarkCallback mark c = c\<lparr>hasHighWaterMark := True, highWaterMark := mark\<rparr>"

definition conn_assert :: "tcp_connection \<Rightarrow> 'a res \<Rightarrow> 'a res" where
  "conn_assert c k = EventLoop_assertInLoopThread (onLoopThread c) k"

definition queue_task :: "conn_task \<Rightarrow> tcp_connection \<Rightarrow> tcp_connection" where
  "queue_task t c = c\<lparr>loopTasks := loopTasks c @ [t]\<rparr>"

text \<open>\<^verbatim>\<open>loop_->runInLoop\<close>: at once in the loop's thread, queued otherwise.\<close>

definition run_or_queue :: "(tcp_connection \<Rightarrow> tcp_connection res) \<Rightarrow> conn_task \<Rightarrow> tcp_connection \<Rightarrow> tcp_connection res" where
  "run_or_queue f t c = (if onLoopThread c then f c else Inr (queue_task t c))"

text \<open>A method of the channel, on a reactor that holds this channel only.\<close>

definition on_chan ::
  "((unit reactor \<Rightarrow> nat \<Rightarrow> unit reactor res) \<Rightarrow> unit reactor \<Rightarrow> nat \<Rightarrow> unit reactor res) \<Rightarrow> tcp_connection \<Rightarrow> tcp_connection res" where
  "on_chan method c =
     rbind (method (\<lambda>s k. Inr s) \<lparr>heap = (\<lambda>k. chan c), poller = ()\<rparr> 0) (\<lambda>s. Inr (c\<lparr>chan := heap s 0\<rparr>))"

section \<open>Sending\<close>

definition TcpConnection_sendInLoop :: "write_fn \<Rightarrow> char list \<Rightarrow> tcp_connection \<Rightarrow> tcp_connection res" where
  "TcpConnection_sendInLoop write data c =
     conn_assert c
       (if connState c = kDisconnected then Inr c
        else (let len = length data;
                  (nwrote, faultError, c1) =
                    (if \<not> Channel_isWriting (chan c) \<and> Buffer_readableBytes (outputBuffer c) = 0
                     then case write data of
                            WOk n \<Rightarrow> (n, False,
                              (if size_sub len n = 0 \<and> hasWriteComplete c then queue_task WriteComplete else id)
                                (c\<lparr>wireOut := wireOut c @ take n data\<rparr>))
                          | WErr e \<Rightarrow> (0, e = EPIPE \<or> e = ECONNRESET, c)
                     else (0, False, c));
                  remaining = size_sub len nwrote
              in c_assert (remaining \<le> len)
                   (if \<not> faultError \<and> 0 < remaining
                    then (let oldLen = Buffer_readableBytes (outputBuffer c1);
                              c2 = (if highWaterMark c1 \<le> size_add oldLen remaining \<and> oldLen < highWaterMark c1
                                       \<and> hasHighWaterMark c1
                                    then queue_task (HighWaterMark (size_add oldLen remaining)) c1 else c1)
                          in rbind (Buffer_append (outputBuffer c2) (drop nwrote data)) (\<lambda>b.
                               let c3 = c2\<lparr>outputBuffer := b\<rparr> in
                               if \<not> Channel_isWriting (chan c3) then on_chan Channel_enableWriting c3 else Inr c3))
                    else Inr c1)))"

text \<open>\<^verbatim>\<open>send(const StringPiece&)\<close>; another thread queues a copy of the data.\<close>

definition TcpConnection_send :: "write_fn \<Rightarrow> char list \<Rightarrow> tcp_connection \<Rightarrow> tcp_connection res" where
  "TcpConnection_send write message c =
     (if connState c = kConnected
      then (if onLoopThread c then TcpConnection_sendInLoop write message c
            else Inr (queue_task (SendInLoop message) c))
      else Inr c)"

text \<open>\<^verbatim>\<open>send(Buffer*)\<close>: the answer is also the emptied buffer.\<close>

definition TcpConnection_sendBuffer ::
  "write_fn \<Rightarrow> net_buffer \<Rightarrow> tcp_connection \<Rightarrow> (net_buffer \<times> tcp_connection) res" where
  "TcpConnection_sendBuffer write buf c =
     (if connState c = kConnected
      then (if onLoopThread c
            then rbind (mem_read (buffer buf) (Buffer_peek buf) (Buffer_readableBytes buf)) (\<lambda>d.
                 rbind (TcpConnection_sendInLoop write d c) (\<lambda>c'. Inr (Buffer_retrieveAll buf, c')))
            else rbind (Buffer_retrieveAllAsString buf) (\<lambda>(d, buf'). Inr (buf', queue_task (SendInLoop d) c)))
      else Inr (buf, c))"

section \<open>Closing\<close>

definition TcpConnection_shutdownInLoop :: "tcp_connection \<Rightarrow> tcp_connection res" where
  "TcpConnection_shutdownInLoop c =
     conn_assert c (Inr (if \<not> Channel_isWriting (chan c) then c\<lparr>writeShut := True\<rparr> else c))"

definition TcpConnection_shutdown :: "tcp_connection \<Rightarrow> tcp_connection res" where
  "TcpConnection_shutdown c =
     (if connState c = kConnected
      then run_or_queue TcpConnection_shutdownInLoop ShutdownInLoop (TcpConnection_setState kDisconnecting c)
      else Inr c)"

definition TcpConnection_handleClose :: "conn_callbacks \<Rightarrow> tcp_connection \<Rightarrow> tcp_connection res" where
  "TcpConnection_handleClose cbs c =
     conn_assert c (c_assert (connState c = kConnected \<or> connState c = kDisconnecting)
       (rbind (on_chan Channel_disableAll (TcpConnection_setState kDisconnected c)) (\<lambda>c1.
        rbind (connectionCallback cbs c1) (closeCallback cbs))))"

definition TcpConnection_forceCloseInLoop :: "conn_callbacks \<Rightarrow> tcp_connection \<Rightarrow> tcp_connection res" where
  "TcpConnection_forceCloseInLoop cbs c =
     conn_assert c (if connState c = kConnected \<or> connState c = kDisconnecting
                    then TcpConnection_handleClose cbs c else Inr c)"

definition TcpConnection_forceClose :: "tcp_connection \<Rightarrow> tcp_connection" where
  "TcpConnection_forceClose c =
     (if connState c = kConnected \<or> connState c = kDisconnecting
      then queue_task ForceCloseInLoop (TcpConnection_setState kDisconnecting c) else c)"

definition TcpConnection_forceCloseWithDelay :: "int \<Rightarrow> tcp_connection \<Rightarrow> tcp_connection" where
  "TcpConnection_forceCloseWithDelay delay c =
     (if connState c = kConnected \<or> connState c = kDisconnecting
      then queue_task (ForceCloseAfter delay) (TcpConnection_setState kDisconnecting c) else c)"

text \<open>
  The test and the store of \<^verbatim>\<open>state_\<close> in \<^verbatim>\<open>shutdown\<close>, \<^verbatim>\<open>forceClose\<close> and \<^verbatim>\<open>forceCloseWithDelay\<close> are two accesses (the source notes that
  a compare-and-swap is missing): a call from another thread can be held up between them. Such a call, and what it does when
  it goes on; outside the loop's thread the work is always queued.
\<close>

datatype half_call = HalfShutdown | HalfForceClose | HalfForceCloseDelay int

primrec half_test :: "half_call \<Rightarrow> conn_state \<Rightarrow> bool" where
  "half_test HalfShutdown st \<longleftrightarrow> st = kConnected"
| "half_test HalfForceClose st \<longleftrightarrow> st = kConnected \<or> st = kDisconnecting"
| "half_test (HalfForceCloseDelay delay) st \<longleftrightarrow> st = kConnected \<or> st = kDisconnecting"

primrec half_store :: "half_call \<Rightarrow> tcp_connection \<Rightarrow> tcp_connection" where
  "half_store HalfShutdown c = queue_task ShutdownInLoop (TcpConnection_setState kDisconnecting c)"
| "half_store HalfForceClose c = queue_task ForceCloseInLoop (TcpConnection_setState kDisconnecting c)"
| "half_store (HalfForceCloseDelay delay) c = queue_task (ForceCloseAfter delay) (TcpConnection_setState kDisconnecting c)"

definition TcpConnection_stateToString :: "tcp_connection \<Rightarrow> string" where
  "TcpConnection_stateToString c =
     (case connState c of kDisconnected \<Rightarrow> ''kDisconnected'' | kConnecting \<Rightarrow> ''kConnecting''
      | kConnected \<Rightarrow> ''kConnected'' | kDisconnecting \<Rightarrow> ''kDisconnecting'')"

section \<open>Reading on and off, life cycle\<close>

definition TcpConnection_startReadInLoop :: "tcp_connection \<Rightarrow> tcp_connection res" where
  "TcpConnection_startReadInLoop c =
     conn_assert c (if \<not> reading c \<or> \<not> Channel_isReading (chan c)
       then rbind (on_chan Channel_enableReading c) (\<lambda>c1. Inr (c1\<lparr>reading := True\<rparr>)) else Inr c)"

definition TcpConnection_startRead :: "tcp_connection \<Rightarrow> tcp_connection res" where
  "TcpConnection_startRead c = run_or_queue TcpConnection_startReadInLoop StartReadInLoop c"

definition TcpConnection_stopReadInLoop :: "tcp_connection \<Rightarrow> tcp_connection res" where
  "TcpConnection_stopReadInLoop c =
     conn_assert c (if reading c \<or> Channel_isReading (chan c)
       then rbind (on_chan Channel_disableReading c) (\<lambda>c1. Inr (c1\<lparr>reading := False\<rparr>)) else Inr c)"

definition TcpConnection_stopRead :: "tcp_connection \<Rightarrow> tcp_connection res" where
  "TcpConnection_stopRead c = run_or_queue TcpConnection_stopReadInLoop StopReadInLoop c"

definition TcpConnection_connectEstablished :: "conn_callbacks \<Rightarrow> tcp_connection \<Rightarrow> tcp_connection res" where
  "TcpConnection_connectEstablished cbs c =
     conn_assert c (c_assert (connState c = kConnecting)
       (let c1 = TcpConnection_setState kConnected c in
        rbind (on_chan Channel_enableReading (c1\<lparr>chan := Channel_tie (chan c1)\<rparr>)) (connectionCallback cbs)))"

definition TcpConnection_connectDestroyed :: "conn_callbacks \<Rightarrow> tcp_connection \<Rightarrow> tcp_connection res" where
  "TcpConnection_connectDestroyed cbs c =
     conn_assert c
       (rbind (if connState c = kConnected
               then rbind (on_chan Channel_disableAll (TcpConnection_setState kDisconnected c)) (connectionCallback cbs)
               else Inr c)
         (on_chan Channel_remove))"

section \<open>Events\<close>

text \<open>\<^verbatim>\<open>handleError\<close> reads the socket's pending error and logs it.\<close>

definition TcpConnection_handleError :: "tcp_connection \<Rightarrow> tcp_connection res" where
  "TcpConnection_handleError c = Inr c"

definition TcpConnection_handleRead ::
  "(nat list \<Rightarrow> errno io_result) \<Rightarrow> conn_callbacks \<Rightarrow> timestamp \<Rightarrow> tcp_connection \<Rightarrow> tcp_connection res" where
  "TcpConnection_handleRead readv cbs receiveTime c =
     conn_assert c (rbind (Buffer_readFd readv (inputBuffer c)) (\<lambda>(n, savedErrno, b).
       let c1 = c\<lparr>inputBuffer := b\<rparr> in
       if 0 < n then messageCallback cbs receiveTime c1
       else if n = 0 then TcpConnection_handleClose cbs c1
       else TcpConnection_handleError c1))"

definition TcpConnection_handleWrite :: "write_fn \<Rightarrow> tcp_connection \<Rightarrow> tcp_connection res" where
  "TcpConnection_handleWrite write c =
     conn_assert c
       (if Channel_isWriting (chan c)
        then rbind (mem_read (buffer (outputBuffer c)) (Buffer_peek (outputBuffer c)) (Buffer_readableBytes (outputBuffer c)))
          (\<lambda>d. case write d of
             WErr e \<Rightarrow> Inr c
           | WOk n \<Rightarrow>
               if n = 0 then Inr c
               else (let c1 = c\<lparr>wireOut := wireOut c @ take n d\<rparr> in
                 rbind (Buffer_retrieve (outputBuffer c1) n) (\<lambda>b.
                   let c2 = c1\<lparr>outputBuffer := b\<rparr> in
                   if Buffer_readableBytes (outputBuffer c2) = 0
                   then rbind (on_chan Channel_disableWriting c2) (\<lambda>c3.
                     let c4 = (if hasWriteComplete c3 then queue_task WriteComplete c3 else c3) in
                     if connState c4 = kDisconnecting then TcpConnection_shutdownInLoop c4 else Inr c4)
                   else Inr c2)))
        else Inr c)"

text \<open>The default callbacks: the first only logs, the second throws the input away.\<close>

definition defaultConnectionCallback :: "tcp_connection \<Rightarrow> tcp_connection res" where
  "defaultConnectionCallback c = Inr c"

definition defaultMessageCallback :: "timestamp \<Rightarrow> tcp_connection \<Rightarrow> tcp_connection res" where
  "defaultMessageCallback t c = Inr (c\<lparr>inputBuffer := Buffer_retrieveAll (inputBuffer c)\<rparr>)"

end
