(* ===== verification/Connection_Laws.thy ===== *)
theory Connection_Laws
  imports Net_TcpConnection
begin

text \<open>
  What a connection promises. The bytes of the peer's stream come out in the order they were sent,
  each once, whatever the kernel accepts of every \<^verbatim>\<open>write\<close>; the channel waits for writability exactly
  while bytes wait; a half-close waits for the last byte; the life cycle moves forward, except that a
  call of another thread held between its test and its store of the state can take a connection back from down to disconnecting. The
  interface that codecs and servers use is the locale \<open>stream_sender\<close>.
\<close>

section \<open>The channel of a connection\<close>

definition chan_events :: "32 word \<Rightarrow> tcp_connection \<Rightarrow> tcp_connection" where
  "chan_events ev c = c\<lparr>chan := (chan c)\<lparr>events := ev, addedToLoop := True\<rparr>\<rparr>"

lemma on_chan_eqs [conn_simps]:
  "on_chan Channel_enableWriting c = Inr (chan_events (events (chan c) OR kWriteEvent) c)"
  "on_chan Channel_disableWriting c = Inr (chan_events (events (chan c) AND NOT kWriteEvent) c)"
  "on_chan Channel_enableReading c = Inr (chan_events (events (chan c) OR kReadEvent) c)"
  "on_chan Channel_disableReading c = Inr (chan_events (events (chan c) AND NOT kReadEvent) c)"
  "on_chan Channel_disableAll c = Inr (chan_events kNoneEvent c)"
  by (simp_all add: on_chan_def chan_events_def Channel_enableWriting_def Channel_disableWriting_def
      Channel_enableReading_def Channel_disableReading_def Channel_disableAll_def Channel_update_def set_events_def)

lemma chan_events_fields [simp]:
  "chan (chan_events ev c) = (chan c)\<lparr>events := ev, addedToLoop := True\<rparr>"
  "connState (chan_events ev c) = connState c" "reading (chan_events ev c) = reading c"
  "inputBuffer (chan_events ev c) = inputBuffer c" "outputBuffer (chan_events ev c) = outputBuffer c"
  "wireOut (chan_events ev c) = wireOut c" "writeShut (chan_events ev c) = writeShut c"
  "onLoopThread (chan_events ev c) = onLoopThread c" "hasWriteComplete (chan_events ev c) = hasWriteComplete c"
  "loopTasks (chan_events ev c) = loopTasks c"
  by (simp_all add: chan_events_def)

lemma queue_task_fields [simp]:
  "chan (queue_task t c) = chan c" "connState (queue_task t c) = connState c" "reading (queue_task t c) = reading c"
  "inputBuffer (queue_task t c) = inputBuffer c" "outputBuffer (queue_task t c) = outputBuffer c"
  "wireOut (queue_task t c) = wireOut c" "writeShut (queue_task t c) = writeShut c"
  "onLoopThread (queue_task t c) = onLoopThread c" "hasWriteComplete (queue_task t c) = hasWriteComplete c"
  "highWaterMark (queue_task t c) = highWaterMark c" "hasHighWaterMark (queue_task t c) = hasHighWaterMark c"
  "loopTasks (queue_task t c) = loopTasks c @ [t]"
  by (simp_all add: queue_task_def)

lemma chan_interest [simp]:
  "Channel_isWriting (ch\<lparr>events := e OR kWriteEvent, addedToLoop := a\<rparr>)"
  "\<not> Channel_isWriting (ch\<lparr>events := e AND NOT kWriteEvent, addedToLoop := a\<rparr>)"
  "\<not> Channel_isWriting (ch\<lparr>events := kNoneEvent, addedToLoop := a\<rparr>)"
  "Channel_isWriting (ch\<lparr>events := e OR kReadEvent, addedToLoop := a\<rparr>) \<longleftrightarrow> Channel_isWriting (ch\<lparr>events := e\<rparr>)"
  "Channel_isReading (ch\<lparr>events := e OR kWriteEvent, addedToLoop := a\<rparr>) \<longleftrightarrow> Channel_isReading (ch\<lparr>events := e\<rparr>)"
  "Channel_isReading (ch\<lparr>events := e AND NOT kWriteEvent, addedToLoop := a\<rparr>) \<longleftrightarrow> Channel_isReading (ch\<lparr>events := e\<rparr>)"
  "Channel_isReading (ch\<lparr>events := e OR kReadEvent, addedToLoop := a\<rparr>)"
  "\<not> Channel_isReading (ch\<lparr>events := kNoneEvent, addedToLoop := a\<rparr>)"
  "Channel_isWriting (ch\<lparr>events := e AND NOT kReadEvent, addedToLoop := a\<rparr>) \<longleftrightarrow> Channel_isWriting (ch\<lparr>events := e\<rparr>)"
  by (simp_all add: event_bits del: bit_numeral_word_iff bit_neg_numeral_word_iff)

section \<open>The invariant\<close>

definition conn_ok :: "tcp_connection \<Rightarrow> bool" where
  "conn_ok c \<longleftrightarrow> onLoopThread c \<and> connState c \<in> {kConnected, kDisconnecting} \<and>
     Buffer_wf (inputBuffer c) \<and> Buffer_wf (outputBuffer c) \<and>
     (Channel_isWriting (chan c) \<longleftrightarrow> Buffer_content (outputBuffer c) \<noteq> [])"

definition conn_stream :: "tcp_connection \<Rightarrow> char list" where
  "conn_stream c = wireOut c @ Buffer_content (outputBuffer c)"

definition conn_cap :: "tcp_connection \<Rightarrow> nat" where
  "conn_cap c = Buffer_cap (outputBuffer c)"

text \<open>Documented behaviour of \<^verbatim>\<open>write(2)\<close>: it never accepts more than it is given. A peer that is still
  there gives neither of the two errors the code treats as fatal.\<close>

definition write_contract :: "write_fn \<Rightarrow> bool" where
  "write_contract write \<longleftrightarrow> (\<forall>d n. write d = WOk n \<longrightarrow> n \<le> length d)"

definition peer_alive :: "write_fn \<Rightarrow> bool" where
  "peer_alive write \<longleftrightarrow> (\<forall>d e. write d = WErr e \<longrightarrow> e \<noteq> EPIPE \<and> e \<noteq> ECONNRESET)"

lemma readable_content: "Buffer_wf b \<Longrightarrow> Buffer_readableBytes b = length (Buffer_content b)"
  by (simp add: Buffer_wf_sizes length_Buffer_content)

lemma conn_assert_ok [simp]: "onLoopThread c \<Longrightarrow> conn_assert c k = k"
  by (simp add: conn_assert_def EventLoop_assertInLoopThread_def)

text \<open>The part of \<^verbatim>\<open>sendInLoop\<close> that stores what the kernel did not take.\<close>

definition store_rest :: "char list \<Rightarrow> tcp_connection \<Rightarrow> tcp_connection res" where
  "store_rest rest c =
     (let oldLen = Buffer_readableBytes (outputBuffer c);
          c2 = (if highWaterMark c \<le> size_add oldLen (length rest) \<and> oldLen < highWaterMark c \<and> hasHighWaterMark c
                then queue_task (HighWaterMark (size_add oldLen (length rest))) c else c)
      in rbind (Buffer_append (outputBuffer c2) rest) (\<lambda>b.
           let c3 = c2\<lparr>outputBuffer := b\<rparr> in
           if \<not> Channel_isWriting (chan c3) then on_chan Channel_enableWriting c3 else Inr c3))"

definition same_but_output :: "tcp_connection \<Rightarrow> tcp_connection \<Rightarrow> bool" where
  "same_but_output c c' \<longleftrightarrow> connState c' = connState c \<and> reading c' = reading c \<and> inputBuffer c' = inputBuffer c \<and>
     onLoopThread c' = onLoopThread c \<and> Channel_isReading (chan c') = Channel_isReading (chan c)"

lemma same_but_output_refl [simp]: "same_but_output c c"
  by (simp add: same_but_output_def)

lemma store_rest_ok:
  assumes "onLoopThread c" "connState c \<in> {kConnected, kDisconnecting}" "Buffer_wf (inputBuffer c)"
    "Buffer_wf (outputBuffer c)" "rest \<noteq> []" "conn_cap c + length rest \<le> vec_max"
  shows "\<exists>c'. store_rest rest c = Inr c' \<and> conn_ok c' \<and> conn_stream c' = conn_stream c @ rest
    \<and> conn_cap c' \<le> conn_cap c + length rest \<and> same_but_output c c' \<and> writeShut c' = writeShut c
    \<and> loopTasks c' = loopTasks c @ (if hasHighWaterMark c \<and> length (Buffer_content (outputBuffer c)) < highWaterMark c
        \<and> highWaterMark c \<le> length (Buffer_content (outputBuffer c)) + length rest
        then [HighWaterMark (length (Buffer_content (outputBuffer c)) + length rest)] else [])"
proof -
  obtain b where b: "Buffer_append (outputBuffer c) rest = Inr b" "Buffer_wf b"
      "Buffer_content b = Buffer_content (outputBuffer c) @ rest" "Buffer_cap b \<le> conn_cap c + length rest"
    using Buffer_append_ok [OF assms(4)] assms(6) unfolding conn_cap_def by blast
  have "length (Buffer_content (outputBuffer c)) \<le> conn_cap c"
    using assms(4) by (simp add: length_Buffer_content Buffer_wfD conn_cap_def Buffer_cap_def le_diff_conv trans_le_add1)
  then have sum: "size_add (length (Buffer_content (outputBuffer c))) (length rest) =
      length (Buffer_content (outputBuffer c)) + length rest"
    using assms(6) by simp
  show ?thesis
    using assms(1-3,5) b
    by (auto simp: store_rest_def Let_def readable_content [OF assms(4)] sum conn_simps conn_ok_def conn_stream_def
        conn_cap_def same_but_output_def)
qed

lemma store_rest_length:
  assumes "Buffer_wf (outputBuffer c)" "store_rest rest c = Inr c'" "conn_cap c + length rest \<le> vec_max"
  shows "length (Buffer_content (outputBuffer c')) = length (Buffer_content (outputBuffer c)) + length rest"
  using Buffer_append_ok [OF assms(1), of rest] assms(2,3)
  by (auto simp: store_rest_def Let_def conn_cap_def conn_simps split: if_splits)

section \<open>Every handler keeps the invariant\<close>

lemma sendInLoop_unfold:
  assumes "conn_ok c" "write_contract write" "length d \<le> vec_max"
  shows "TcpConnection_sendInLoop write d c =
    (if Buffer_content (outputBuffer c) \<noteq> [] then (if d = [] then Inr c else store_rest d c)
     else case write d of
            WErr e \<Rightarrow> if e = EPIPE \<or> e = ECONNRESET \<or> d = [] then Inr c else store_rest d c
          | WOk n \<Rightarrow> (let c1 = (if n = length d \<and> hasWriteComplete c then queue_task WriteComplete else (\<lambda>x. x))
                               (c\<lparr>wireOut := wireOut c @ take n d\<rparr>)
                     in if n = length d then Inr c1 else store_rest (drop n d) c1))"
proof (cases "Buffer_content (outputBuffer c) = []")
  case False
  moreover have "size_sub (length d) 0 = length d"
    using assms(3) by (simp add: vec_max_def)
  ultimately show ?thesis
    using assms by (auto simp: TcpConnection_sendInLoop_def store_rest_def conn_ok_def readable_content Let_def)
next
  case True
  then have idle: "\<not> Channel_isWriting (chan c)" "Buffer_readableBytes (outputBuffer c) = 0"
    "connState c \<noteq> kDisconnected" "onLoopThread c"
    using assms(1) by (auto simp: conn_ok_def readable_content)
  show ?thesis
  proof (cases "write d")
    case (WErr e)
    moreover have "size_sub (length d) 0 = length d"
      using assms(3) by (simp add: vec_max_def)
    ultimately show ?thesis
      using idle True by (auto simp: TcpConnection_sendInLoop_def store_rest_def Let_def)
  next
    case (WOk n)
    then have n: "n \<le> length d" "length d < 2 ^ 64"
      using assms(2,3) by (auto simp: write_contract_def vec_max_def)
    then have "size_sub (length d) n = length d - n"
      by simp
    then show ?thesis
      using idle n True WOk
      by (auto simp: TcpConnection_sendInLoop_def store_rest_def Let_def)
  qed
qed

text \<open>The half-close is done exactly when it was asked for and the last byte has left.\<close>

definition conn_inv :: "tcp_connection \<Rightarrow> bool" where
  "conn_inv c \<longleftrightarrow> conn_ok c \<and>
     (writeShut c \<longleftrightarrow> connState c = kDisconnecting \<and> Buffer_content (outputBuffer c) = [])"

lemma sendInLoop_ok:
  assumes "conn_ok c" "write_contract write" "peer_alive write" "conn_cap c + length d \<le> vec_max"
  shows "\<exists>c'. TcpConnection_sendInLoop write d c = Inr c' \<and> conn_ok c' \<and> conn_stream c' = conn_stream c @ d
    \<and> conn_cap c' \<le> conn_cap c + length d \<and> same_but_output c c' \<and> writeShut c' = writeShut c"
proof -
  have ok: "onLoopThread c" "connState c \<in> {kConnected, kDisconnecting}" "Buffer_wf (inputBuffer c)"
      "Buffer_wf (outputBuffer c)" and len: "length d \<le> vec_max"
    using assms(1,4) by (auto simp: conn_ok_def)
  have stored: "\<exists>c'. store_rest rest c1 = Inr c' \<and> conn_ok c' \<and> conn_stream c' = conn_stream c1 @ rest
      \<and> conn_cap c' \<le> conn_cap c + length d \<and> same_but_output c c' \<and> writeShut c' = writeShut c"
    if "rest \<noteq> []" "length rest \<le> length d" "c1 = c\<lparr>wireOut := w\<rparr>" for rest c1 w
  proof -
    have "conn_cap c1 = conn_cap c"
      using that(3) by (simp add: conn_cap_def)
    then show ?thesis
      using store_rest_ok [of c1 rest] ok that assms(4) by (force simp: same_but_output_def)
  qed
  show ?thesis
  proof (cases "Buffer_content (outputBuffer c) = [] \<and> (\<exists>n. write d = WOk n)")
    case True
    then obtain n where n: "write d = WOk n" "n \<le> length d" and empty: "Buffer_content (outputBuffer c) = []"
      using assms(2) by (auto simp: write_contract_def)
    show ?thesis
    proof (cases "n = length d")
      case True
      then show ?thesis
        using n empty assms(1) sendInLoop_unfold [OF assms(1,2) len]
        by (auto simp: Let_def conn_ok_def conn_stream_def conn_cap_def same_but_output_def)
    next
      case False
      then have "TcpConnection_sendInLoop write d c = store_rest (drop n d) (c\<lparr>wireOut := wireOut c @ take n d\<rparr>)"
        using n empty sendInLoop_unfold [OF assms(1,2) len] by simp
      then show ?thesis
        using stored [of "drop n d" "c\<lparr>wireOut := wireOut c @ take n d\<rparr>" "wireOut c @ take n d"] n False empty
        by (auto simp: conn_stream_def)
    qed
  next
    case False
    then have "TcpConnection_sendInLoop write d c = (if d = [] then Inr c else store_rest d c)"
      using assms(3) sendInLoop_unfold [OF assms(1,2) len]
      by (auto simp: peer_alive_def split: write_result.split)
    then show ?thesis
      using stored [of d c "wireOut c"] assms(1) by auto
  qed
qed

definition accepted :: "write_fn \<Rightarrow> char list \<Rightarrow> nat" where
  "accepted write d = (case write d of WOk n \<Rightarrow> n | WErr e \<Rightarrow> 0)"

text \<open>A writable event sends what the kernel takes, and completes a half-close with the last byte.\<close>

lemma handleWrite_conn_ok:
  assumes "conn_ok c" "write_contract write"
  shows "\<exists>c'. TcpConnection_handleWrite write c = Inr c' \<and> conn_ok c' \<and> conn_stream c' = conn_stream c
    \<and> conn_cap c' = conn_cap c \<and> connState c' = connState c \<and> Channel_isReading (chan c') = Channel_isReading (chan c)
    \<and> Buffer_content (outputBuffer c') =
        (let d = Buffer_content (outputBuffer c) in if d = [] then [] else drop (accepted write d) d)
    \<and> writeShut c' = (writeShut c \<or> connState c = kDisconnecting \<and> Buffer_content (outputBuffer c) \<noteq> [] \<and> Buffer_content (outputBuffer c') = [])"
proof (cases "Buffer_content (outputBuffer c) = [] \<or> accepted write (Buffer_content (outputBuffer c)) = 0")
  case True
  have ok: "onLoopThread c" "Buffer_wf (outputBuffer c)"
      "Channel_isWriting (chan c) \<longleftrightarrow> Buffer_content (outputBuffer c) \<noteq> []"
    using assms(1) by (auto simp: conn_ok_def)
  have "TcpConnection_handleWrite write c = Inr c"
    using ok True by (auto simp: TcpConnection_handleWrite_def buffer_simps readable_content accepted_def
        split: write_result.splits)
  then show ?thesis
    using True assms(1) by (auto simp: Let_def)
next
  case False
  define d where "d = Buffer_content (outputBuffer c)"
  have ok: "onLoopThread c" "Buffer_wf (outputBuffer c)" "Channel_isWriting (chan c)"
      "connState c \<in> {kConnected, kDisconnecting}" "Buffer_wf (inputBuffer c)"
    using assms(1) False by (auto simp: conn_ok_def)
  obtain n where n: "write d = WOk n" "0 < n" "n \<le> length d" "accepted write d = n"
    using False assms(2) by (auto simp: d_def accepted_def write_contract_def split: write_result.splits)
  obtain b where b: "Buffer_retrieve (outputBuffer c) n = Inr b" "Buffer_wf b" "Buffer_content b = drop n d"
      "Buffer_cap b = conn_cap c"
    using Buffer_retrieve_ok [OF ok(2)] n(3) unfolding d_def conn_cap_def by blast
  have "mem_read (buffer (outputBuffer c)) (Buffer_peek (outputBuffer c)) (Buffer_readableBytes (outputBuffer c)) = Inr d"
    using ok(2) by (simp add: buffer_simps readable_content d_def)
  then have step: "TcpConnection_handleWrite write c =
      (let c2 = c\<lparr>wireOut := wireOut c @ take n d, outputBuffer := b\<rparr> in
       if n = length d
       then (let c3 = chan_events (events (chan c) AND NOT kWriteEvent) c2;
                 c4 = (if hasWriteComplete c then queue_task WriteComplete c3 else c3)
             in Inr (if connState c = kDisconnecting then c4\<lparr>writeShut := True\<rparr> else c4))
       else Inr c2)"
    using ok n b by (auto simp: TcpConnection_handleWrite_def Let_def conn_simps readable_content
        TcpConnection_shutdownInLoop_def)
  show ?thesis
    using ok n b False
    by (auto simp: step Let_def conn_ok_def conn_stream_def conn_cap_def d_def)
qed

lemma handleWrite_ok:
  assumes "conn_inv c" "write_contract write"
  shows "\<exists>c'. TcpConnection_handleWrite write c = Inr c' \<and> conn_inv c' \<and> conn_stream c' = conn_stream c
    \<and> conn_cap c' = conn_cap c \<and> connState c' = connState c \<and> Channel_isReading (chan c') = Channel_isReading (chan c)
    \<and> Buffer_content (outputBuffer c') =
        (let d = Buffer_content (outputBuffer c) in if d = [] then [] else drop (accepted write d) d)"
  using handleWrite_conn_ok [OF _ assms(2), of c] assms(1) by (auto simp: conn_inv_def Let_def)

section \<open>The interface of a sender\<close>

text \<open>What codecs and servers rely on: a send that fits appends its bytes to the peer's stream.\<close>

locale stream_sender =
  fixes send :: "char list \<Rightarrow> 'c \<Rightarrow> 'c res"
    and ok :: "'c \<Rightarrow> bool" and stream :: "'c \<Rightarrow> char list" and cap :: "'c \<Rightarrow> nat"
  assumes send_ok: "ok c \<Longrightarrow> cap c + length d \<le> vec_max \<Longrightarrow>
    \<exists>c'. send d c = Inr c' \<and> ok c' \<and> stream c' = stream c @ d \<and> cap c' \<le> cap c + length d"
begin

primrec send_many :: "char list list \<Rightarrow> 'c \<Rightarrow> 'c res" where
  "send_many [] c = Inr c"
| "send_many (d # ds) c = rbind (send d c) (send_many ds)"

lemma send_many_ok:
  "ok c \<Longrightarrow> cap c + length (concat ds) \<le> vec_max \<Longrightarrow>
   \<exists>c'. send_many ds c = Inr c' \<and> ok c' \<and> stream c' = stream c @ concat ds \<and> cap c' \<le> cap c + length (concat ds)"
proof (induction ds arbitrary: c)
  case Nil
  then show ?case by simp
next
  case (Cons d ds)
  obtain c1 where c1: "send d c = Inr c1" "ok c1" "stream c1 = stream c @ d" "cap c1 \<le> cap c + length d"
    using send_ok [of c d] Cons.prems by auto
  then show ?case
    using Cons.IH [of c1] Cons.prems by fastforce
qed

end

text \<open>A kernel whose \<^verbatim>\<open>write\<close> keeps its documented contract and whose peer is there makes \<^verbatim>\<open>sendInLoop\<close> such
  a sender.\<close>

locale live_socket =
  fixes wr :: write_fn
  assumes contract: "write_contract wr" and alive: "peer_alive wr"

sublocale live_socket \<subseteq> stream_sender "TcpConnection_sendInLoop wr" conn_ok conn_stream conn_cap
proof unfold_locales
  fix c and d :: "char list"
  assume "conn_ok c" "conn_cap c + length d \<le> vec_max"
  then show "\<exists>c'. TcpConnection_sendInLoop wr d c = Inr c' \<and> conn_ok c' \<and> conn_stream c' = conn_stream c @ d
      \<and> conn_cap c' \<le> conn_cap c + length d"
    using sendInLoop_ok [OF _ contract alive] by blast
qed

text \<open>A kernel with room for \<open>k\<close> bytes.\<close>

definition write_room :: "nat \<Rightarrow> write_fn" where
  "write_room k d = (if k = 0 \<and> d \<noteq> [] then WErr EWOULDBLOCK else WOk (min k (length d)))"

lemma write_room_contract [simp]: "write_contract (write_room k)" "peer_alive (write_room k)"
  by (auto simp: write_contract_def peer_alive_def write_room_def)

interpretation room: live_socket "write_room k" for k
  by unfold_locales simp_all

section \<open>Sequences of calls and events\<close>

datatype out_op = Send write_fn "char list" | Writable write_fn | Shutdown

primrec out_step :: "out_op \<Rightarrow> tcp_connection \<Rightarrow> tcp_connection res" where
  "out_step (Send w d) c = TcpConnection_send w d c"
| "out_step (Writable w) c = TcpConnection_handleWrite w c"
| "out_step Shutdown c = TcpConnection_shutdown c"

primrec run_out :: "out_op list \<Rightarrow> tcp_connection \<Rightarrow> tcp_connection res" where
  "run_out [] c = Inr c"
| "run_out (x # xs) c = rbind (out_step x c) (run_out xs)"

text \<open>The bytes a sequence hands over: what is sent before the first \<^verbatim>\<open>shutdown\<close>.\<close>

primrec handed_over :: "conn_state \<Rightarrow> out_op list \<Rightarrow> char list" where
  "handed_over st [] = []"
| "handed_over st (x # xs) =
     (case x of Send w d \<Rightarrow> (if st = kConnected then d else []) @ handed_over st xs
      | Writable w \<Rightarrow> handed_over st xs
      | Shutdown \<Rightarrow> handed_over kDisconnecting xs)"

primrec op_fair :: "out_op \<Rightarrow> bool" where
  "op_fair (Send w d) \<longleftrightarrow> write_contract w \<and> peer_alive w"
| "op_fair (Writable w) \<longleftrightarrow> write_contract w"
| "op_fair Shutdown \<longleftrightarrow> True"

lemma shutdown_ok:
  assumes "conn_inv c"
  shows "\<exists>c'. TcpConnection_shutdown c = Inr c' \<and> conn_inv c' \<and> conn_stream c' = conn_stream c
    \<and> conn_cap c' = conn_cap c \<and> connState c' = kDisconnecting"
  using assms
  by (auto simp: TcpConnection_shutdown_def run_or_queue_def TcpConnection_setState_def TcpConnection_shutdownInLoop_def
      conn_inv_def conn_ok_def conn_stream_def conn_cap_def)

lemma send_ok:
  assumes "conn_inv c" "op_fair (Send w d)" "conn_cap c + (if connState c = kConnected then length d else 0) \<le> vec_max"
  shows "\<exists>c'. TcpConnection_send w d c = Inr c' \<and> conn_inv c' \<and> connState c' = connState c
    \<and> conn_stream c' = conn_stream c @ (if connState c = kConnected then d else []) 
    \<and> conn_cap c' \<le> conn_cap c + (if connState c = kConnected then length d else 0)"
  using sendInLoop_ok [of c w d] assms
  by (auto simp: TcpConnection_send_def conn_inv_def conn_ok_def same_but_output_def)

lemma out_step_ok:
  assumes "conn_inv c" "op_fair x" "conn_cap c + length (handed_over (connState c) [x]) \<le> vec_max"
  shows "\<exists>c'. out_step x c = Inr c' \<and> conn_inv c' \<and> conn_stream c' = conn_stream c @ handed_over (connState c) [x]
    \<and> conn_cap c' \<le> conn_cap c + length (handed_over (connState c) [x])
    \<and> connState c' = (if x = Shutdown then kDisconnecting else connState c)"
proof (cases x)
  case (Send w d)
  then show ?thesis
    using send_ok [of c w d] assms by (auto split: if_splits)
next
  case (Writable w)
  then show ?thesis
    using handleWrite_ok [of c w] assms by auto
next
  case Shutdown
  then show ?thesis
    using shutdown_ok [of c] assms by auto
qed

lemma handed_over_Cons:
  "handed_over st (x # xs) = handed_over st [x] @ handed_over (if x = Shutdown then kDisconnecting else st) xs"
  by (cases x) auto

lemma run_out_ok:
  "conn_inv c \<Longrightarrow> list_all op_fair xs \<Longrightarrow> conn_cap c + length (handed_over (connState c) xs) \<le> vec_max \<Longrightarrow>
   \<exists>c'. run_out xs c = Inr c' \<and> conn_inv c' \<and> conn_stream c' = conn_stream c @ handed_over (connState c) xs
     \<and> conn_cap c' \<le> conn_cap c + length (handed_over (connState c) xs)
     \<and> connState c' = (if Shutdown \<in> set xs then kDisconnecting else connState c)"
proof (induction xs arbitrary: c)
  case Nil
  then show ?case by simp
next
  case (Cons x xs)
  note split = handed_over_Cons [of "connState c" x xs]
  obtain c1 where c1: "out_step x c = Inr c1" "conn_inv c1" "conn_stream c1 = conn_stream c @ handed_over (connState c) [x]"
      "conn_cap c1 \<le> conn_cap c + length (handed_over (connState c) [x])"
      "connState c1 = (if x = Shutdown then kDisconnecting else connState c)"
    using out_step_ok [of c x] Cons.prems split by auto
  have "conn_cap c1 + length (handed_over (connState c1) xs) \<le> vec_max"
    using c1(4,5) Cons.prems(3) split by simp
  then obtain c2 where "run_out xs c1 = Inr c2" "conn_inv c2"
      "conn_stream c2 = conn_stream c1 @ handed_over (connState c1) xs"
      "conn_cap c2 \<le> conn_cap c1 + length (handed_over (connState c1) xs)"
      "connState c2 = (if Shutdown \<in> set xs then kDisconnecting else connState c1)"
    using Cons.IH [OF c1(2)] Cons.prems(2) by auto
  then show ?case
    using c1 split by auto
qed

text \<open>A fresh connection, once established, satisfies the invariant with an empty stream.\<close>

definition idle_callbacks :: conn_callbacks where
  "idle_callbacks = \<lparr>connectionCallback = defaultConnectionCallback, messageCallback = defaultMessageCallback,
     closeCallback = Inr\<rparr>"

definition fresh_connection :: "tcp_connection res" where
  "fresh_connection = rbind (TcpConnection_new 7 True) (TcpConnection_connectEstablished idle_callbacks)"

lemma fresh_connection_ok:
  "\<exists>c. fresh_connection = Inr c \<and> conn_inv c \<and> wireOut c = [] \<and> Buffer_content (outputBuffer c) = []
     \<and> connState c = kConnected \<and> conn_cap c = 1032 \<and> loopTasks c = [] \<and> \<not> hasWriteComplete c
     \<and> Channel_isReading (chan c) \<and> Buffer_content (inputBuffer c) = [] \<and> Buffer_cap (inputBuffer c) = 1032"
proof -
  obtain b where "Buffer_new kInitialSize = Inr b" "Buffer_wf b" "Buffer_content b = []" "Buffer_cap b = 1032"
    using Buffer_new_ok [of kInitialSize] by (auto simp: kInitialSize_def kCheapPrepend_def vec_max_def)
  moreover have "\<not> Channel_isWriting (Channel_tie (Channel_setErrorCallback (Channel_setCloseCallback
      (Channel_setWriteCallback (Channel_setReadCallback (Channel_new 7))))) \<lparr>events := 0\<rparr>)"
    by (simp add: Channel_isWriting_def)
  ultimately show ?thesis
    by (auto simp: fresh_connection_def TcpConnection_new_def TcpConnection_connectEstablished_def conn_simps
        TcpConnection_setState_def idle_callbacks_def defaultConnectionCallback_def conn_inv_def conn_ok_def conn_cap_def
        Let_def Channel_isWriting_def Channel_isReading_def Channel_tie_def Channel_new_def kEvent_bits
        Channel_setErrorCallback_def Channel_setCloseCallback_def Channel_setWriteCallback_def Channel_setReadCallback_def)
qed

section \<open>The promises\<close>

text \<open>
  C11. Over any sequence of calls of \<^verbatim>\<open>send\<close> and \<^verbatim>\<open>shutdown\<close> and of writable events in the loop's
  thread, whatever part of each \<^verbatim>\<open>write\<close> the kernel accepts, no operation fails, the bytes on the wire
  followed by the bytes still buffered are the bytes handed over before \<^verbatim>\<open>shutdown\<close>, in order and each
  once, and the channel waits for writability exactly while bytes are buffered.
\<close>

theorem TcpConnection_stream_order:
  assumes "conn_inv c" "list_all op_fair xs" "conn_cap c + length (handed_over (connState c) xs) \<le> vec_max"
  shows "\<exists>c'. run_out xs c = Inr c' \<and>
    wireOut c' @ Buffer_content (outputBuffer c') =
      wireOut c @ Buffer_content (outputBuffer c) @ handed_over (connState c) xs \<and>
    (Channel_isWriting (chan c') \<longleftrightarrow> Buffer_content (outputBuffer c') \<noteq> []) \<and> conn_inv c'"
  using run_out_ok [OF assms] by (auto simp: conn_stream_def conn_inv_def conn_ok_def)

theorem TcpConnection_stream_order_witness:
  "\<exists>c c'. fresh_connection = Inr c \<and>
     run_out [Send (write_room 1) ''ab'', Send (write_room 5) ''cd'', Writable (write_room 2), Shutdown] c = Inr c' \<and>
     wireOut c' @ Buffer_content (outputBuffer c') = ''abcd''"
proof -
  obtain c where c: "fresh_connection = Inr c" "conn_inv c" "wireOut c = []" "Buffer_content (outputBuffer c) = []"
      "connState c = kConnected" "conn_cap c = 1032"
    using fresh_connection_ok by blast
  then show ?thesis
    using TcpConnection_stream_order [OF c(2),
        of "[Send (write_room 1) ''ab'', Send (write_room 5) ''cd'', Writable (write_room 2), Shutdown]"]
    by (force simp: vec_max_def)
qed

text \<open>
  Closing by all the ways there are: besides the operations above, \<^verbatim>\<open>forceClose\<close>, \<^verbatim>\<open>forceCloseWithDelay\<close>, and the task
  \<^verbatim>\<open>forceCloseInLoop\<close> these lead to, with callbacks that leave the connection alone.
\<close>

datatype close_op = Out out_op | ForceClose | ForceCloseDelay int | CloseNow

primrec close_step :: "close_op \<Rightarrow> tcp_connection \<Rightarrow> tcp_connection res" where
  "close_step (Out x) c = out_step x c"
| "close_step ForceClose c = Inr (TcpConnection_forceClose c)"
| "close_step (ForceCloseDelay t) c = Inr (TcpConnection_forceCloseWithDelay t c)"
| "close_step CloseNow c = TcpConnection_forceCloseInLoop idle_callbacks c"

primrec run_close :: "close_op list \<Rightarrow> tcp_connection \<Rightarrow> tcp_connection res" where
  "run_close [] c = Inr c"
| "run_close (x # xs) c = rbind (close_step x c) (run_close xs)"

primrec closing :: "close_op \<Rightarrow> bool" where
  "closing (Out x) \<longleftrightarrow> x = Shutdown" | "closing ForceClose \<longleftrightarrow> True" | "closing (ForceCloseDelay t) \<longleftrightarrow> True" | "closing CloseNow \<longleftrightarrow> True"

primrec close_fair :: "close_op \<Rightarrow> bool" where
  "close_fair (Out x) \<longleftrightarrow> op_fair x" | "close_fair ForceClose \<longleftrightarrow> True" | "close_fair (ForceCloseDelay t) \<longleftrightarrow> True"
| "close_fair CloseNow \<longleftrightarrow> True"

text \<open>The bytes handed over: what is sent before the connection begins to close.\<close>

fun sent_before_close :: "close_op list \<Rightarrow> char list" where
  "sent_before_close [] = []"
| "sent_before_close (x # xs) =
     (if closing x then [] else (case x of Out (Send w d) \<Rightarrow> d | _ \<Rightarrow> []) @ sent_before_close xs)"

definition closing_inv :: "tcp_connection \<Rightarrow> bool" where
  "closing_inv c \<longleftrightarrow> (conn_ok c \<and> connState c = kDisconnecting \<or> onLoopThread c \<and> connState c = kDisconnected \<and> \<not> Channel_isWriting (chan c)) \<and>
     (writeShut c \<longrightarrow> Buffer_content (outputBuffer c) = [])"

text \<open>The half-close is done as soon as nothing is buffered.\<close>

definition prompt :: "tcp_connection \<Rightarrow> bool" where
  "prompt c \<longleftrightarrow> (Buffer_content (outputBuffer c) = [] \<longrightarrow> writeShut c)"

lemma closing_down:
  assumes "conn_ok c"
  shows "\<exists>c'. TcpConnection_forceCloseInLoop idle_callbacks c = Inr c' \<and> onLoopThread c' \<and> connState c' = kDisconnected \<and>
    \<not> Channel_isWriting (chan c') \<and> conn_stream c' = conn_stream c \<and> outputBuffer c' = outputBuffer c \<and> writeShut c' = writeShut c"
  using assms by (auto simp: TcpConnection_forceCloseInLoop_def TcpConnection_handleClose_def conn_ok_def conn_simps idle_callbacks_def
      defaultConnectionCallback_def TcpConnection_setState_def conn_stream_def)

lemma close_step_closing:
  assumes "closing_inv c" "close_fair x"
  shows "\<exists>c'. close_step x c = Inr c' \<and> closing_inv c' \<and> conn_stream c' = conn_stream c \<and> (prompt c \<longrightarrow> prompt c')"
proof (cases "connState c = kDisconnected")
  case True
  then have "close_step x c = Inr c"
    using assms by (cases x; (cases "case x of Out y \<Rightarrow> y")?) (auto simp: closing_inv_def conn_ok_def TcpConnection_send_def TcpConnection_handleWrite_def
        TcpConnection_shutdown_def TcpConnection_forceClose_def TcpConnection_forceCloseWithDelay_def TcpConnection_forceCloseInLoop_def)
  then show ?thesis
    using assms(1) by simp
next
  case False
  then have c: "conn_ok c" "connState c = kDisconnecting" "writeShut c \<longrightarrow> Buffer_content (outputBuffer c) = []"
    using assms(1) by (auto simp: closing_inv_def)
  have queued: "closing_inv (queue_task t (TcpConnection_setState kDisconnecting c))"
      "conn_stream (queue_task t (TcpConnection_setState kDisconnecting c)) = conn_stream c"
      "prompt c \<longrightarrow> prompt (queue_task t (TcpConnection_setState kDisconnecting c))" for t
    using c by (auto simp: closing_inv_def conn_ok_def conn_stream_def prompt_def TcpConnection_setState_def)
  show ?thesis
  proof (cases x)
    case (Out y)
    show ?thesis
    proof (cases y)
      case (Writable w)
      have fair: "write_contract w"
        using Out Writable assms(2) by simp
      obtain c' where "TcpConnection_handleWrite w c = Inr c'" "conn_ok c'" "conn_stream c' = conn_stream c" "connState c' = connState c"
          "writeShut c' = (writeShut c \<or> connState c = kDisconnecting \<and> Buffer_content (outputBuffer c) \<noteq> [] \<and> Buffer_content (outputBuffer c') = [])"
          "Buffer_content (outputBuffer c') =
            (if Buffer_content (outputBuffer c) = [] then [] else drop (accepted w (Buffer_content (outputBuffer c))) (Buffer_content (outputBuffer c)))"
        using handleWrite_conn_ok [OF c(1) fair, unfolded Let_def] by blast
      then show ?thesis
        using Out Writable c by (auto simp: closing_inv_def prompt_def)
    qed (use Out c(2) assms(1) in \<open>auto simp: TcpConnection_send_def TcpConnection_shutdown_def\<close>)
  next
    case CloseNow
    then show ?thesis
      using closing_down [OF c(1)] c by (auto simp: closing_inv_def prompt_def)
  qed (use c(2) queued in \<open>auto simp: TcpConnection_forceClose_def TcpConnection_forceCloseWithDelay_def\<close>)
qed

lemma run_close_closing:
  "closing_inv c \<Longrightarrow> list_all close_fair xs \<Longrightarrow>
   \<exists>c'. run_close xs c = Inr c' \<and> closing_inv c' \<and> conn_stream c' = conn_stream c \<and> (prompt c \<longrightarrow> prompt c')"
proof (induction xs arbitrary: c)
  case (Cons x xs)
  obtain c1 where c1: "close_step x c = Inr c1" "closing_inv c1" "conn_stream c1 = conn_stream c" "prompt c \<longrightarrow> prompt c1"
    using close_step_closing [OF Cons.prems(1)] Cons.prems(2) by auto
  then show ?case
    using Cons.IH [OF c1(2)] Cons.prems(2) by auto
qed auto

text \<open>The step that begins the closing.\<close>

lemma first_close:
  assumes "conn_inv c" "connState c = kConnected" "closing x"
  shows "\<exists>c'. close_step x c = Inr c' \<and> closing_inv c' \<and> conn_stream c' = conn_stream c \<and> (x = Out Shutdown \<longrightarrow> prompt c')"
proof -
  have c: "conn_ok c" "\<not> writeShut c"
    using assms(1,2) by (auto simp: conn_inv_def)
  show ?thesis
  proof (cases x)
    case (Out y)
    then show ?thesis
      using assms(3) shutdown_ok [OF assms(1)] by (auto simp: closing_inv_def conn_inv_def prompt_def)
  next
    case CloseNow
    then show ?thesis
      using closing_down [OF c(1)] c(2) by (auto simp: closing_inv_def)
  qed (use c assms(2) in \<open>auto simp: TcpConnection_forceClose_def TcpConnection_forceCloseWithDelay_def TcpConnection_setState_def closing_inv_def
      conn_ok_def conn_stream_def\<close>)
qed

lemma run_close_ok:
  "conn_inv c \<Longrightarrow> connState c = kConnected \<Longrightarrow> list_all close_fair xs \<Longrightarrow> conn_cap c + length (sent_before_close xs) \<le> vec_max \<Longrightarrow>
   \<exists>c'. run_close xs c = Inr c' \<and> conn_stream c' = conn_stream c @ sent_before_close xs \<and>
     (if list_ex closing xs then closing_inv c' else \<not> writeShut c') \<and> (find closing xs = Some (Out Shutdown) \<longrightarrow> prompt c')"
proof (induction xs arbitrary: c)
  case Nil
  then show ?case by (auto simp: conn_inv_def)
next
  case (Cons x xs)
  show ?case
  proof (cases "closing x")
    case True
    obtain c1 where c1: "close_step x c = Inr c1" "closing_inv c1" "conn_stream c1 = conn_stream c" "x = Out Shutdown \<longrightarrow> prompt c1"
      using first_close [OF Cons.prems(1,2) True] by blast
    then show ?thesis
      using run_close_closing [OF c1(2)] Cons.prems(3) True by auto
  next
    case False
    then obtain y where y: "x = Out y" "y \<noteq> Shutdown"
      by (cases x) auto
    have sent: "sent_before_close (x # xs) = handed_over (connState c) [y] @ sent_before_close xs"
      using y Cons.prems(2) by (cases y) auto
    obtain c1 where c1: "out_step y c = Inr c1" "conn_inv c1" "conn_stream c1 = conn_stream c @ handed_over (connState c) [y]"
        "conn_cap c1 \<le> conn_cap c + length (handed_over (connState c) [y])" "connState c1 = kConnected"
      using out_step_ok [OF Cons.prems(1), of y] Cons.prems y sent by auto
    have "conn_cap c1 + length (sent_before_close xs) \<le> vec_max"
      using c1(4) Cons.prems(4) unfolding sent by simp
    then show ?thesis
      using Cons.IH [OF c1(2,5)] Cons.prems(3) c1(1,3) y False unfolding sent by auto
  qed
qed

text \<open>
  C12. Over any sequence of calls of \<^verbatim>\<open>send\<close>, \<^verbatim>\<open>shutdown\<close>, \<^verbatim>\<open>forceClose\<close> and \<^verbatim>\<open>forceCloseWithDelay\<close>, of writable events and of the
  final close in the loop's thread, nothing fails, and the bytes on the wire and in the buffer are those sent before the closing
  began. The writing side of the socket is never shut down before the connection was asked to close and the last of those
  bytes is on the wire; and if it was \<^verbatim>\<open>shutdown\<close> that began the closing, then it is shut down as soon as they are.
\<close>

theorem TcpConnection_halfclose_last:
  assumes "conn_inv c" "connState c = kConnected" "list_all close_fair xs" "conn_cap c + length (sent_before_close xs) \<le> vec_max"
  shows "\<exists>c'. run_close xs c = Inr c' \<and> wireOut c' @ Buffer_content (outputBuffer c') = conn_stream c @ sent_before_close xs \<and>
    (writeShut c' \<longrightarrow> list_ex closing xs \<and> wireOut c' = conn_stream c @ sent_before_close xs) \<and>
    (find closing xs = Some (Out Shutdown) \<and> wireOut c' = conn_stream c @ sent_before_close xs \<longrightarrow> writeShut c')"
proof -
  obtain c' where c': "run_close xs c = Inr c'" "conn_stream c' = conn_stream c @ sent_before_close xs"
      "if list_ex closing xs then closing_inv c' else \<not> writeShut c'" "find closing xs = Some (Out Shutdown) \<longrightarrow> prompt c'"
    using run_close_ok [OF assms] by blast
  have "Buffer_content (outputBuffer c') = [] \<longleftrightarrow> wireOut c' = conn_stream c @ sent_before_close xs"
    using c'(2) by (metis append_self_conv conn_stream_def)
  then show ?thesis
    using c' by (auto simp: closing_inv_def prompt_def conn_stream_def split: if_splits)
qed

theorem TcpConnection_halfclose_last_witness:
  "\<exists>c c'. fresh_connection = Inr c \<and>
     run_close [Out (Send (write_room 1) ''ab''), Out Shutdown, ForceClose, Out (Writable (write_room 9)), CloseNow] c = Inr c' \<and>
     (writeShut c' \<longleftrightarrow> wireOut c' = ''ab'')"
proof -
  let ?xs = "[Out (Send (write_room 1) ''ab''), Out Shutdown, ForceClose, Out (Writable (write_room 9)), CloseNow]"
  obtain c where c: "fresh_connection = Inr c" "conn_inv c" "wireOut c = []" "Buffer_content (outputBuffer c) = []"
      "connState c = kConnected" "conn_cap c = 1032"
    using fresh_connection_ok by blast
  have "find closing ?xs = Some (Out Shutdown)" "sent_before_close ?xs = ''ab''" "conn_stream c = []"
    using c by (simp_all add: conn_stream_def)
  then show ?thesis
    using TcpConnection_halfclose_last [OF c(2,5), of ?xs] c(1,6) by (force simp: vec_max_def simp del: run_close.simps)
qed

lemma drain_step:
  assumes "conn_inv c" "write_contract w" "\<And>d. d \<noteq> [] \<Longrightarrow> 0 < accepted w d"
  shows "\<exists>c'. TcpConnection_handleWrite w c = Inr c' \<and> conn_inv c' \<and> conn_stream c' = conn_stream c \<and>
    connState c' = connState c \<and> length (Buffer_content (outputBuffer c')) \<le> length (Buffer_content (outputBuffer c)) - 1"
proof -
  let ?d = "Buffer_content (outputBuffer c)"
  obtain c' where c': "TcpConnection_handleWrite w c = Inr c'" "conn_inv c'" "conn_stream c' = conn_stream c"
      "connState c' = connState c"
      "Buffer_content (outputBuffer c') = (if ?d = [] then [] else drop (accepted w ?d) ?d)"
    using handleWrite_ok [OF assms(1,2)] unfolding Let_def by blast
  moreover have "length (if ?d = [] then [] else drop (accepted w ?d) ?d) \<le> length ?d - 1"
    using assms(3) [of ?d] by (cases "?d = []") auto
  ultimately show ?thesis
    by metis
qed

text \<open>
  C13. A connection whose socket stays writable drains: after as many writable events as bytes are
  buffered, each accepting at least one byte, every byte handed over is on the wire, the channel no longer
  waits for writability, and a pending \<^verbatim>\<open>shutdown\<close> has closed the writing side.
\<close>

theorem TcpConnection_drains:
  assumes "conn_inv c" "list_all (\<lambda>w. write_contract w \<and> (\<forall>d. d \<noteq> [] \<longrightarrow> 0 < accepted w d)) ws"
    "length (Buffer_content (outputBuffer c)) \<le> length ws"
  shows "\<exists>c'. run_out (map Writable ws) c = Inr c' \<and> wireOut c' = conn_stream c \<and>
    Buffer_content (outputBuffer c') = [] \<and> \<not> Channel_isWriting (chan c') \<and>
    connState c' = connState c \<and> (writeShut c' \<longleftrightarrow> connState c = kDisconnecting)"
  using assms
proof (induction ws arbitrary: c)
  case Nil
  then show ?case
    by (auto simp: conn_inv_def conn_ok_def conn_stream_def)
next
  case (Cons w ws)
  obtain c1 where c1: "TcpConnection_handleWrite w c = Inr c1" "conn_inv c1" "conn_stream c1 = conn_stream c"
      "connState c1 = connState c" "length (Buffer_content (outputBuffer c1)) \<le> length ws"
    using drain_step [of c w] Cons.prems by fastforce
  show ?case
    using Cons.IH [OF c1(2) _ c1(5)] Cons.prems(2) c1 by auto
qed

theorem TcpConnection_drains_witness:
  "\<exists>c c1 c'. fresh_connection = Inr c \<and> run_out [Send (write_room 0) ''ab'', Shutdown] c = Inr c1 \<and>
     length (Buffer_content (outputBuffer c1)) \<le> 2 \<and>
     run_out (map Writable [write_room 1, write_room 1]) c1 = Inr c' \<and> wireOut c' = ''ab'' \<and> writeShut c'"
proof -
  obtain c where c: "fresh_connection = Inr c" "conn_inv c" "wireOut c = []" "Buffer_content (outputBuffer c) = []"
      "connState c = kConnected" "conn_cap c = 1032"
    using fresh_connection_ok by blast
  obtain c1 where c1: "run_out [Send (write_room 0) ''ab'', Shutdown] c = Inr c1" "conn_inv c1"
      "conn_stream c1 = ''ab''" "connState c1 = kDisconnecting"
    using run_out_ok [OF c(2), of "[Send (write_room 0) ''ab'', Shutdown]"] c by (auto simp: vec_max_def conn_stream_def)
  then have "length (wireOut c1) + length (Buffer_content (outputBuffer c1)) = 2"
    by (metis conn_stream_def length_append length_Cons list.size(3) numeral_2_eq_2 One_nat_def)
  then have len: "length (Buffer_content (outputBuffer c1)) \<le> length [write_room 1, write_room 1]"
    by simp
  then show ?thesis
    using TcpConnection_drains [OF c1(2) _ len] c(1) c1 by (force simp: accepted_def write_room_def)
qed

text \<open>
  \<^verbatim>\<open>sendInLoop\<close> queues the write-complete callback exactly when the kernel takes the whole message
  at once, and the high-water-mark callback exactly when this message takes the number of buffered bytes
  across the mark from below, with the new number of buffered bytes as its argument.
\<close>

theorem TcpConnection_notifications:
  assumes "conn_ok c" "write_contract write" "conn_cap c + length d \<le> vec_max"
    "TcpConnection_sendInLoop write d c = Inr c'"
  shows "loopTasks c' = loopTasks c
    @ (if Buffer_content (outputBuffer c) = [] \<and> write d = WOk (length d) \<and> hasWriteComplete c then [WriteComplete] else [])
    @ (let before = length (Buffer_content (outputBuffer c)); after = length (Buffer_content (outputBuffer c'))
       in if hasHighWaterMark c \<and> before < highWaterMark c \<and> highWaterMark c \<le> after then [HighWaterMark after] else [])"
proof -
  have ok: "onLoopThread c" "connState c \<in> {kConnected, kDisconnecting}" "Buffer_wf (inputBuffer c)"
      "Buffer_wf (outputBuffer c)" and len: "length d \<le> vec_max"
    using assms(1,3) by (auto simp: conn_ok_def)
  note unfold = sendInLoop_unfold [OF assms(1,2) len]
  have stored: "loopTasks x = loopTasks c @ (let before = length (Buffer_content (outputBuffer c));
        after = length (Buffer_content (outputBuffer x))
       in if hasHighWaterMark c \<and> before < highWaterMark c \<and> highWaterMark c \<le> after then [HighWaterMark after] else [])"
    if rest: "rest \<noteq> []" "length rest \<le> length d" "store_rest rest (c\<lparr>wireOut := w\<rparr>) = Inr x" for rest w x
    using store_rest_ok [of "c\<lparr>wireOut := w\<rparr>" rest] ok rest assms(3) store_rest_length [OF _ rest(3)]
    by (auto simp: conn_cap_def Let_def)
  show ?thesis
  proof (cases "Buffer_content (outputBuffer c) = [] \<and> (\<exists>n. write d = WOk n)")
    case True
    then obtain n where n: "write d = WOk n" "n \<le> length d"
      using assms(2) by (auto simp: write_contract_def)
    show ?thesis
    proof (cases "n = length d")
      case True
      then show ?thesis
        using assms(4) n \<open>_ \<and> _\<close> by (auto simp: unfold Let_def)
    next
      case False
      then show ?thesis
        using stored [of "drop n d" "wireOut c @ take n d" c'] assms(4) n \<open>_ \<and> _\<close> by (auto simp: unfold)
    qed
  next
    case False
    then consider "c' = c" | "d \<noteq> []" "store_rest d (c\<lparr>wireOut := wireOut c\<rparr>) = Inr c'"
      using assms(4) by (auto simp: unfold split: write_result.splits if_splits)
    then show ?thesis
    proof cases
      case 1
      then show ?thesis
        using False by (auto simp: Let_def)
    next
      case 2
      then show ?thesis
        using stored [of d "wireOut c" c'] False by auto
    qed
  qed
qed

theorem TcpConnection_notifications_witness:
  "\<exists>c0 c c'. fresh_connection = Inr c0 \<and> c = TcpConnection_setHighWaterMarkCallback 3 c0 \<and>
     TcpConnection_sendInLoop (write_room 1) ''abcde'' c = Inr c' \<and> loopTasks c' = [HighWaterMark 4]"
proof -
  obtain c0 where c0: "fresh_connection = Inr c0" "conn_inv c0" "wireOut c0 = []" "Buffer_content (outputBuffer c0) = []"
      "conn_cap c0 = 1032" "loopTasks c0 = []" "\<not> hasWriteComplete c0"
    using fresh_connection_ok by blast
  define c where "c = TcpConnection_setHighWaterMarkCallback 3 c0"
  have c: "conn_ok c" "conn_cap c + length ''abcde'' \<le> vec_max" "Buffer_content (outputBuffer c) = []" "\<not> hasWriteComplete c"
      "highWaterMark c = 3" "hasHighWaterMark c" "loopTasks c = []" "wireOut c = []"
    using c0 by (auto simp: c_def TcpConnection_setHighWaterMarkCallback_def conn_inv_def conn_ok_def conn_cap_def vec_max_def)
  have "TcpConnection_sendInLoop (write_room 1) ''abcde'' c = store_rest ''bcde'' (c\<lparr>wireOut := wireOut c @ ''a''\<rparr>)"
    using sendInLoop_unfold [OF c(1) write_room_contract(1), of "''abcde''" 1] c by (simp add: write_room_def vec_max_def)
  moreover obtain c' where "store_rest ''bcde'' (c\<lparr>wireOut := wireOut c @ ''a''\<rparr>) = Inr c'"
      "length (Buffer_content (outputBuffer c')) = 4"
    using store_rest_ok [of "c\<lparr>wireOut := wireOut c @ ''a''\<rparr>" "''bcde''"] c
      store_rest_length [of "c\<lparr>wireOut := wireOut c @ ''a''\<rparr>" "''bcde''"] by (auto simp: conn_ok_def conn_cap_def)
  ultimately have "TcpConnection_sendInLoop (write_room 1) ''abcde'' c = Inr c'" "length (Buffer_content (outputBuffer c')) = 4"
    by simp_all
  then show ?thesis
    using TcpConnection_notifications [OF c(1) write_room_contract(1) c(2)] c c0(1) by (auto simp: c_def)
qed

section \<open>The life cycle\<close>

fun conn_rank :: "conn_state \<Rightarrow> nat" where
  "conn_rank kConnecting = 0" | "conn_rank kConnected = 1" | "conn_rank kDisconnecting = 2" | "conn_rank kDisconnected = 3"

definition down_quiet :: "tcp_connection \<Rightarrow> bool" where
  "down_quiet c \<longleftrightarrow> (connState c = kDisconnected \<longrightarrow> \<not> Channel_isWriting (chan c))"

text \<open>The state moves forward, and a connection that is down puts nothing more on the wire.\<close>

definition conn_fwd :: "tcp_connection \<Rightarrow> tcp_connection \<Rightarrow> bool" where
  "conn_fwd c c' \<longleftrightarrow> conn_rank (connState c) \<le> conn_rank (connState c') \<and>
     (down_quiet c \<longrightarrow> down_quiet c' \<and> (connState c = kDisconnected \<longrightarrow> wireOut c' = wireOut c))"

text \<open>What user code can do to a connection: call its methods, and take bytes from its input buffer.\<close>

inductive api_call :: "tcp_connection \<Rightarrow> tcp_connection \<Rightarrow> bool" where
  send: "TcpConnection_send w d c = Inr c' \<Longrightarrow> api_call c c'"
| sendBuffer: "TcpConnection_sendBuffer w b c = Inr (b', c') \<Longrightarrow> api_call c c'"
| shutdown: "TcpConnection_shutdown c = Inr c' \<Longrightarrow> api_call c c'"
| forceClose: "TcpConnection_forceClose c = c' \<Longrightarrow> api_call c c'"
| forceCloseDelay: "TcpConnection_forceCloseWithDelay t c = c' \<Longrightarrow> api_call c c'"
| startRead: "TcpConnection_startRead c = Inr c' \<Longrightarrow> api_call c c'"
| stopRead: "TcpConnection_stopRead c = Inr c' \<Longrightarrow> api_call c c'"
| retrieve: "Buffer_retrieve (inputBuffer c) n = Inr b \<Longrightarrow> api_call c (c\<lparr>inputBuffer := b\<rparr>)"
| retrieveAll: "api_call c (c\<lparr>inputBuffer := Buffer_retrieveAll (inputBuffer c)\<rparr>)"
| setWriteComplete: "api_call c (TcpConnection_setWriteCompleteCallback c)"
| setHighWaterMark: "api_call c (TcpConnection_setHighWaterMarkCallback n c)"

text \<open>Callbacks get a pointer to the connection: all they can do to it is a sequence of such calls.\<close>

definition callbacks_use_api :: "conn_callbacks \<Rightarrow> bool" where
  "callbacks_use_api cbs \<longleftrightarrow> (\<forall>c c' t. (connectionCallback cbs c = Inr c' \<longrightarrow> api_call\<^sup>*\<^sup>* c c') \<and>
     (messageCallback cbs t c = Inr c' \<longrightarrow> api_call\<^sup>*\<^sup>* c c') \<and> (closeCallback cbs c = Inr c' \<longrightarrow> api_call\<^sup>*\<^sup>* c c'))"

text \<open>Everything that can happen to a connection in its loop's thread: calls of its methods, tasks of its loop, events.\<close>

inductive conn_step :: "conn_callbacks \<Rightarrow> tcp_connection \<Rightarrow> tcp_connection \<Rightarrow> bool" for cbs where
  api: "api_call c c' \<Longrightarrow> conn_step cbs c c'"
| established: "TcpConnection_connectEstablished cbs c = Inr c' \<Longrightarrow> conn_step cbs c c'"
| destroyed: "TcpConnection_connectDestroyed cbs c = Inr c' \<Longrightarrow> conn_step cbs c c'"
| sendInLoop: "TcpConnection_sendInLoop w d c = Inr c' \<Longrightarrow> conn_step cbs c c'"
| shutdownInLoop: "TcpConnection_shutdownInLoop c = Inr c' \<Longrightarrow> conn_step cbs c c'"
| forceCloseInLoop: "TcpConnection_forceCloseInLoop cbs c = Inr c' \<Longrightarrow> conn_step cbs c c'"
| startReadInLoop: "TcpConnection_startReadInLoop c = Inr c' \<Longrightarrow> conn_step cbs c c'"
| stopReadInLoop: "TcpConnection_stopReadInLoop c = Inr c' \<Longrightarrow> conn_step cbs c c'"
| readable: "TcpConnection_handleRead rv cbs t c = Inr c' \<Longrightarrow> conn_step cbs c c'"
| writable: "TcpConnection_handleWrite w c = Inr c' \<Longrightarrow> conn_step cbs c c'"
| hangup: "TcpConnection_handleClose cbs c = Inr c' \<Longrightarrow> conn_step cbs c c'"

text \<open>The connection together with the calls of other threads that have done their test and not yet their store.\<close>

record conn_world =
  wconn :: tcp_connection
  halfway :: "half_call list"

inductive world_step :: "conn_callbacks \<Rightarrow> conn_world \<Rightarrow> conn_world \<Rightarrow> bool" for cbs where
  in_loop: "conn_step cbs (wconn w) c \<Longrightarrow> world_step cbs w (w\<lparr>wconn := c\<rparr>)"
| other_test: "half_test k (connState (wconn w)) \<Longrightarrow> world_step cbs w (w\<lparr>halfway := k # halfway w\<rparr>)"
| other_store: "halfway w = ks @ k # ks' \<Longrightarrow> world_step cbs w (w\<lparr>wconn := half_store k (wconn w), halfway := ks @ ks'\<rparr>)"
| other_queue: "world_step cbs w (w\<lparr>wconn := queue_task t (wconn w)\<rparr>)"

inductive_cases world_stepE: "world_step cbs w w'"

inductive_cases conn_stepE: "conn_step cbs c c'"

lemma conn_fwd_refl [simp]: "conn_fwd c c"
  by (simp add: conn_fwd_def)

lemma conn_fwd_trans: "conn_fwd a b \<Longrightarrow> conn_fwd b c \<Longrightarrow> conn_fwd a c"
  by (cases "connState a"; cases "connState b"; cases "connState c") (auto simp: conn_fwd_def down_quiet_def)

text \<open>Steps that leave state, interest in writing and the wire as they are.\<close>

lemma conn_fwd_same:
  "connState c' = connState c \<Longrightarrow> Channel_isWriting (chan c') = Channel_isWriting (chan c) \<Longrightarrow> wireOut c' = wireOut c \<Longrightarrow>
   conn_fwd c c'"
  by (simp add: conn_fwd_def down_quiet_def)

text \<open>Steps of a connection that is not down, to a state not below.\<close>

lemma conn_fwd_up:
  "connState c \<noteq> kDisconnected \<Longrightarrow> conn_rank (connState c) \<le> conn_rank (connState c') \<Longrightarrow>
   connState c' = kDisconnected \<longrightarrow> \<not> Channel_isWriting (chan c') \<Longrightarrow> conn_fwd c c'"
  by (simp add: conn_fwd_def down_quiet_def)

lemma conn_assert_eq_Inr: "conn_assert c k = Inr x \<longleftrightarrow> onLoopThread c \<and> k = Inr x"
  by (auto simp: conn_assert_def EventLoop_assertInLoopThread_def)

lemmas conn_elims = conn_assert_eq_Inr rbind_eq_Inr c_assert_eq_Inr

lemma shutdownInLoop_fwd: "TcpConnection_shutdownInLoop c = Inr c' \<Longrightarrow> conn_fwd c c'"
  by (rule conn_fwd_same) (auto simp: TcpConnection_shutdownInLoop_def conn_elims split: if_splits)

lemma sendInLoop_state: "TcpConnection_sendInLoop w d c = Inr c' \<Longrightarrow> connState c' = connState c"
  by (cases "write_contract w \<and> w d = WOk 0")
    (auto simp: TcpConnection_sendInLoop_def conn_elims conn_simps Let_def split: if_splits write_result.splits prod.splits)

lemma sendInLoop_fwd:
  assumes "TcpConnection_sendInLoop w d c = Inr c'"
  shows "conn_fwd c c'"
proof (cases "connState c = kDisconnected")
  case True
  then show ?thesis
    using assms by (simp add: TcpConnection_sendInLoop_def conn_elims)
next
  case False
  then show ?thesis
    using sendInLoop_state [OF assms] by (intro conn_fwd_up) auto
qed

lemma startReadInLoop_fwd: "TcpConnection_startReadInLoop c = Inr c' \<Longrightarrow> conn_fwd c c'"
  by (rule conn_fwd_same) (auto simp: TcpConnection_startReadInLoop_def conn_elims conn_simps split: if_splits)

lemma stopReadInLoop_fwd: "TcpConnection_stopReadInLoop c = Inr c' \<Longrightarrow> conn_fwd c c'"
  by (rule conn_fwd_same) (auto simp: TcpConnection_stopReadInLoop_def conn_elims conn_simps split: if_splits)

lemma conn_fwd_task: "conn_fwd c (queue_task t c)"
  by (rule conn_fwd_same) simp_all

lemma setState_fwd: "connState c = kConnected \<or> connState c = kDisconnecting \<Longrightarrow> conn_fwd c (TcpConnection_setState kDisconnecting c)"
  by (rule conn_fwd_up) (auto simp: TcpConnection_setState_def)

lemma api_call_fwd:
  assumes "api_call c c'"
  shows "conn_fwd c c'"
  using assms
proof cases
  case (send w d)
  then show ?thesis
    using sendInLoop_fwd conn_fwd_task by (auto simp: TcpConnection_send_def split: if_splits)
next
  case (sendBuffer w b b')
  then show ?thesis
    using sendInLoop_fwd conn_fwd_task by (auto simp: TcpConnection_sendBuffer_def conn_elims split: if_splits)
next
  case shutdown
  then show ?thesis
    using conn_fwd_trans [OF setState_fwd] shutdownInLoop_fwd conn_fwd_task
    by (auto simp: TcpConnection_shutdown_def run_or_queue_def split: if_splits)
next
  case forceClose
  then show ?thesis
    using conn_fwd_trans [OF setState_fwd conn_fwd_task] by (auto simp: TcpConnection_forceClose_def)
next
  case (forceCloseDelay t)
  then show ?thesis
    using conn_fwd_trans [OF setState_fwd conn_fwd_task] by (auto simp: TcpConnection_forceCloseWithDelay_def)
next
  case startRead
  then show ?thesis
    using startReadInLoop_fwd conn_fwd_task by (auto simp: TcpConnection_startRead_def run_or_queue_def split: if_splits)
next
  case stopRead
  then show ?thesis
    using stopReadInLoop_fwd conn_fwd_task by (auto simp: TcpConnection_stopRead_def run_or_queue_def split: if_splits)
qed (auto intro!: conn_fwd_same simp: TcpConnection_setWriteCompleteCallback_def TcpConnection_setHighWaterMarkCallback_def)

lemma api_calls_fwd: "api_call\<^sup>*\<^sup>* c c' \<Longrightarrow> conn_fwd c c'"
  by (induction rule: rtranclp_induct) (auto intro: conn_fwd_trans api_call_fwd)

lemma callbacks_fwd:
  assumes "callbacks_use_api cbs"
  shows "connectionCallback cbs c = Inr c' \<Longrightarrow> conn_fwd c c'" "closeCallback cbs c = Inr c' \<Longrightarrow> conn_fwd c c'"
    "messageCallback cbs t c = Inr c' \<Longrightarrow> conn_fwd c c'"
  using assms api_calls_fwd by (auto simp: callbacks_use_api_def)

lemma handleClose_fwd:
  assumes "callbacks_use_api cbs" "TcpConnection_handleClose cbs c = Inr c'"
  shows "conn_fwd c c'"
proof -
  define c1 where "c1 = chan_events kNoneEvent (TcpConnection_setState kDisconnected c)"
  obtain c2 where up: "connState c \<noteq> kDisconnected" and c2: "connectionCallback cbs c1 = Inr c2" "closeCallback cbs c2 = Inr c'"
    using assms(2) by (auto simp: TcpConnection_handleClose_def conn_elims conn_simps c1_def)
  have "conn_fwd c c1"
    by (rule conn_fwd_up [OF up]) (cases "connState c", auto simp: c1_def TcpConnection_setState_def)
  then show ?thesis
    using callbacks_fwd [OF assms(1)] c2 conn_fwd_trans by blast
qed

lemma connectEstablished_fwd:
  assumes "callbacks_use_api cbs" "TcpConnection_connectEstablished cbs c = Inr c'"
  shows "conn_fwd c c'"
proof -
  define c1 where "c1 = chan_events (events (chan c) OR kReadEvent) (c\<lparr>connState := kConnected, chan := Channel_tie (chan c)\<rparr>)"
  have st: "connState c = kConnecting" and c1: "connectionCallback cbs c1 = Inr c'"
    using assms(2) by (auto simp: TcpConnection_connectEstablished_def conn_elims conn_simps c1_def TcpConnection_setState_def
        Channel_tie_def)
  have "conn_fwd c c1"
    by (rule conn_fwd_up) (simp_all add: st c1_def)
  then show ?thesis
    using callbacks_fwd [OF assms(1)] c1 conn_fwd_trans by blast
qed

lemma remove_fwd: "on_chan Channel_remove c = Inr c' \<Longrightarrow> conn_fwd c c'"
  by (rule conn_fwd_same) (auto simp: on_chan_def Channel_remove_def Channel_isWriting_def conn_elims)

lemma connectDestroyed_fwd:
  assumes "callbacks_use_api cbs" "TcpConnection_connectDestroyed cbs c = Inr c'"
  shows "conn_fwd c c'"
proof (cases "connState c = kConnected")
  case True
  define c1 where "c1 = chan_events kNoneEvent (TcpConnection_setState kDisconnected c)"
  obtain c2 where c2: "connectionCallback cbs c1 = Inr c2" "on_chan Channel_remove c2 = Inr c'"
    using assms(2) True by (auto simp: TcpConnection_connectDestroyed_def conn_elims conn_simps c1_def)
  have "conn_fwd c c1"
    by (rule conn_fwd_up) (simp_all add: True c1_def TcpConnection_setState_def)
  then show ?thesis
    using callbacks_fwd(1) [OF assms(1) c2(1)] remove_fwd [OF c2(2)] conn_fwd_trans by blast
next
  case False
  then show ?thesis
    using assms(2) remove_fwd by (auto simp: TcpConnection_connectDestroyed_def conn_elims)
qed

lemma ensures_conn_assert [simp]: "ensures (conn_assert c k) P \<longleftrightarrow> (onLoopThread c \<longrightarrow> ensures k P)"
  by (auto simp: ensures_def conn_assert_eq_Inr)

lemma handleWrite_ensures_state: "ensures (TcpConnection_handleWrite w c) (\<lambda>c'. connState c' = connState c)"
proof -
  have "ensures (case w d of WErr e \<Rightarrow> Inr c
      | WOk n \<Rightarrow> if n = 0 then Inr c
          else (let c1 = c\<lparr>wireOut := wireOut c @ take n d\<rparr> in
            rbind (Buffer_retrieve (outputBuffer c1) n) (\<lambda>b.
              let c2 = c1\<lparr>outputBuffer := b\<rparr> in
              if Buffer_readableBytes (outputBuffer c2) = 0
              then rbind (on_chan Channel_disableWriting c2) (\<lambda>c3.
                let c4 = (if hasWriteComplete c3 then queue_task WriteComplete c3 else c3) in
                if connState c4 = kDisconnecting then TcpConnection_shutdownInLoop c4 else Inr c4)
              else Inr c2))) (\<lambda>c'. connState c' = connState c)" for d
    by (cases "w d") (simp_all add: Let_def ensures_rbind_any conn_simps TcpConnection_shutdownInLoop_def)
  then show ?thesis
    by (simp add: TcpConnection_handleWrite_def ensures_rbind_any)
qed

lemmas handleWrite_state = ensuresD [OF handleWrite_ensures_state]

lemma handleWrite_fwd:
  assumes "TcpConnection_handleWrite w c = Inr c'"
  shows "conn_fwd c c'"
proof (cases "connState c = kDisconnected")
  case True
  then have "Channel_isWriting (chan c) \<or> c' = c"
    using assms by (auto simp: TcpConnection_handleWrite_def conn_elims split: if_splits)
  then show ?thesis
    using True handleWrite_state [OF assms] by (auto simp: conn_fwd_def down_quiet_def)
next
  case False
  then show ?thesis
    using handleWrite_state [OF assms] by (intro conn_fwd_up) auto
qed

lemma handleRead_fwd:
  assumes "callbacks_use_api cbs" "TcpConnection_handleRead rv cbs t c = Inr c'"
  shows "conn_fwd c c'"
proof -
  obtain b where "messageCallback cbs t (c\<lparr>inputBuffer := b\<rparr>) = Inr c' \<or>
      TcpConnection_handleClose cbs (c\<lparr>inputBuffer := b\<rparr>) = Inr c' \<or> c' = c\<lparr>inputBuffer := b\<rparr>"
    using assms(2) by (auto simp: TcpConnection_handleRead_def TcpConnection_handleError_def conn_elims Let_def split: if_splits)
  moreover have "conn_fwd c (c\<lparr>inputBuffer := b\<rparr>)"
    by (simp add: conn_fwd_same)
  ultimately show ?thesis
    using callbacks_fwd(3) [OF assms(1)] handleClose_fwd [OF assms(1)] conn_fwd_trans by blast
qed

lemma conn_step_fwd:
  assumes "callbacks_use_api cbs" "conn_step cbs c c'"
  shows "conn_fwd c c'"
  using assms(2)
proof cases
  case forceCloseInLoop
  then show ?thesis
    using handleClose_fwd [OF assms(1)] by (auto simp: TcpConnection_forceCloseInLoop_def conn_elims split: if_splits)
qed (erule api_call_fwd handleClose_fwd [OF assms(1)] connectEstablished_fwd [OF assms(1)] connectDestroyed_fwd [OF assms(1)]
    shutdownInLoop_fwd sendInLoop_fwd handleWrite_fwd handleRead_fwd [OF assms(1)] startReadInLoop_fwd stopReadInLoop_fwd)+

text \<open>A call of another thread in one piece is its test followed by its store.\<close>

lemma half_calls:
  "\<not> onLoopThread c \<Longrightarrow> TcpConnection_shutdown c = Inr (if half_test HalfShutdown (connState c) then half_store HalfShutdown c else c)"
  "TcpConnection_forceClose c = (if half_test HalfForceClose (connState c) then half_store HalfForceClose c else c)"
  "TcpConnection_forceCloseWithDelay t c = (if half_test (HalfForceCloseDelay t) (connState c) then half_store (HalfForceCloseDelay t) c else c)"
  by (simp_all add: TcpConnection_shutdown_def run_or_queue_def TcpConnection_setState_def TcpConnection_forceClose_def
      TcpConnection_forceCloseWithDelay_def)

lemma half_store_state: "connState (half_store k c) = kDisconnecting"
  by (cases k) (simp_all add: TcpConnection_setState_def)

lemma half_test_down: "\<not> half_test k kDisconnected"
  by (cases k) simp_all

text \<open>A connection that is down for good: no call is halfway.\<close>

definition down_for_good :: "conn_world \<Rightarrow> bool" where
  "down_for_good w \<longleftrightarrow> connState (wconn w) = kDisconnected \<and> halfway w = [] \<and> \<not> Channel_isWriting (chan (wconn w))"

lemma world_step_rank:
  assumes "callbacks_use_api cbs" "world_step cbs w w'" "n \<le> 2" "n \<le> conn_rank (connState (wconn w))"
  shows "n \<le> conn_rank (connState (wconn w'))"
  using assms(2)
proof cases
  case (in_loop c)
  then show ?thesis
    using conn_step_fwd [OF assms(1)] assms(4) by (force simp: conn_fwd_def)
qed (use assms(3,4) in \<open>simp_all add: half_store_state\<close>)

lemma world_step_down:
  assumes "callbacks_use_api cbs" "world_step cbs w w'" "down_for_good w"
  shows "down_for_good w' \<and> wireOut (wconn w') = wireOut (wconn w)"
  using assms(2)
proof cases
  case (in_loop c)
  have "conn_fwd (wconn w) c"
    using conn_step_fwd [OF assms(1)] in_loop by blast
  moreover have "connState c = kDisconnected" if "3 \<le> conn_rank (connState c)"
    using that by (cases "connState c") auto
  ultimately show ?thesis
    using in_loop assms(3) by (auto simp: conn_fwd_def down_quiet_def down_for_good_def)
qed (use assms(3) in \<open>simp_all add: down_for_good_def half_test_down\<close>)

text \<open>
  C14. Whatever methods are called in the loop's thread, whatever tasks run and events arrive, and wherever calls of
  \<^verbatim>\<open>shutdown\<close>, \<^verbatim>\<open>forceClose\<close> and \<^verbatim>\<open>forceCloseWithDelay\<close> from other threads are held up between their test and their store of
  the state, the state of a connection never falls back to connecting or connected, nor from disconnecting to an earlier one; and
  once it is down while no such call is halfway, it stays down and nothing more is written to its descriptor. The callbacks may
  call any methods of the connection.
\<close>

theorem TcpConnection_life_cycle:
  assumes "callbacks_use_api cbs" "(world_step cbs)\<^sup>*\<^sup>* w w'"
  shows "min 2 (conn_rank (connState (wconn w))) \<le> conn_rank (connState (wconn w')) \<and>
    (connState (wconn w) = kDisconnected \<and> halfway w = [] \<and> \<not> Channel_isWriting (chan (wconn w)) \<longrightarrow>
       connState (wconn w') = kDisconnected \<and> halfway w' = [] \<and> wireOut (wconn w') = wireOut (wconn w))"
proof -
  have "min 2 (conn_rank (connState (wconn w))) \<le> conn_rank (connState (wconn w')) \<and>
      (down_for_good w \<longrightarrow> down_for_good w' \<and> wireOut (wconn w') = wireOut (wconn w))"
    using assms(2)
  proof (induction rule: rtranclp_induct)
    case (step a b)
    then show ?case
      using world_step_rank [OF assms(1) step(2), of "min 2 (conn_rank (connState (wconn w)))"] world_step_down [OF assms(1) step(2)] by simp
  qed simp
  then show ?thesis
    by (simp add: down_for_good_def)
qed

lemma idle_callbacks_use_api: "callbacks_use_api idle_callbacks"
  using retrieveAll by (auto simp: callbacks_use_api_def idle_callbacks_def defaultConnectionCallback_def defaultMessageCallback_def)

theorem TcpConnection_life_cycle_witness:
  "\<exists>c c1 c'. fresh_connection = Inr c \<and> TcpConnection_handleClose idle_callbacks c = Inr c1 \<and>
     TcpConnection_startRead c1 = Inr c' \<and> connState c' = kDisconnected \<and> wireOut c' = wireOut c1"
proof -
  obtain c where c: "fresh_connection = Inr c" "conn_inv c" "connState c = kConnected"
    using fresh_connection_ok by blast
  define c1 where "c1 = chan_events kNoneEvent (TcpConnection_setState kDisconnected c)"
  have c1: "TcpConnection_handleClose idle_callbacks c = Inr c1" "connState c1 = kDisconnected" "\<not> Channel_isWriting (chan c1)" "onLoopThread c1"
    using c by (auto simp: TcpConnection_handleClose_def conn_inv_def conn_ok_def conn_simps idle_callbacks_def c1_def
        defaultConnectionCallback_def TcpConnection_setState_def)
  obtain c' where c': "TcpConnection_startRead c1 = Inr c'"
    using c1(4) by (cases "\<not> reading c1 \<or> \<not> Channel_isReading (chan c1)")
      (auto simp: TcpConnection_startRead_def run_or_queue_def TcpConnection_startReadInLoop_def conn_simps)
  let ?w = "\<lparr>wconn = c1, halfway = []\<rparr>"
  have "world_step idle_callbacks ?w (?w\<lparr>wconn := c'\<rparr>)"
    using in_loop [of idle_callbacks ?w c'] conn_step.api [OF startRead [OF c']] by simp
  then have "(world_step idle_callbacks)\<^sup>*\<^sup>* ?w (?w\<lparr>wconn := c'\<rparr>)"
    by (rule r_into_rtranclp)
  then show ?thesis
    using TcpConnection_life_cycle [OF idle_callbacks_use_api] c1 c(1) c' by fastforce
qed

text \<open>
  What the missing compare-and-swap allows: a \<^verbatim>\<open>forceClose\<close> of another thread that did its test before the connection went down
  does its store after that; the task it queued then closes the connection, and runs its close callback, a second time.
\<close>

lemma TcpConnection_forceClose_race:
  assumes "conn_inv c" "connState c = kConnected"
  shows "\<exists>c1 c2 c3. TcpConnection_handleClose idle_callbacks c = Inr c1 \<and>
    (world_step idle_callbacks)\<^sup>*\<^sup>* \<lparr>wconn = c, halfway = []\<rparr> \<lparr>wconn = c2, halfway = []\<rparr> \<and> c2 = half_store HalfForceClose c1 \<and>
    ForceCloseInLoop \<in> set (loopTasks c2) \<and> TcpConnection_forceCloseInLoop idle_callbacks c2 = TcpConnection_handleClose idle_callbacks c2 \<and>
    TcpConnection_handleClose idle_callbacks c2 = Inr c3"
proof -
  define c1 where "c1 = chan_events kNoneEvent (TcpConnection_setState kDisconnected c)"
  define c2 where "c2 = half_store HalfForceClose c1"
  have on: "onLoopThread c"
    using assms(1) by (simp add: conn_inv_def conn_ok_def)
  have c1: "TcpConnection_handleClose idle_callbacks c = Inr c1"
    using on assms(2) by (simp add: TcpConnection_handleClose_def conn_simps idle_callbacks_def c1_def defaultConnectionCallback_def)
  have "world_step idle_callbacks \<lparr>wconn = c, halfway = []\<rparr> \<lparr>wconn = c, halfway = [HalfForceClose]\<rparr>"
    using other_test [of HalfForceClose "\<lparr>wconn = c, halfway = []\<rparr>"] assms(2) by simp
  moreover have "world_step idle_callbacks \<lparr>wconn = c, halfway = [HalfForceClose]\<rparr> \<lparr>wconn = c1, halfway = [HalfForceClose]\<rparr>"
    using in_loop [of idle_callbacks "\<lparr>wconn = c, halfway = [HalfForceClose]\<rparr>" c1] hangup [OF c1] by simp
  moreover have "world_step idle_callbacks \<lparr>wconn = c1, halfway = [HalfForceClose]\<rparr> \<lparr>wconn = c2, halfway = []\<rparr>"
    using other_store [of "\<lparr>wconn = c1, halfway = [HalfForceClose]\<rparr>" "[]" HalfForceClose "[]"] by (simp add: c2_def)
  ultimately have "(world_step idle_callbacks)\<^sup>*\<^sup>* \<lparr>wconn = c, halfway = []\<rparr> \<lparr>wconn = c2, halfway = []\<rparr>"
    by (meson r_into_rtranclp rtranclp_trans)
  moreover have "onLoopThread c2" "connState c2 = kDisconnecting" "ForceCloseInLoop \<in> set (loopTasks c2)"
    using on by (simp_all add: c2_def c1_def TcpConnection_setState_def)
  moreover have "TcpConnection_handleClose idle_callbacks c2 = Inr (chan_events kNoneEvent (TcpConnection_setState kDisconnected c2))"
    using calculation(2,3) by (simp add: TcpConnection_handleClose_def conn_simps idle_callbacks_def defaultConnectionCallback_def)
  moreover have "TcpConnection_forceCloseInLoop idle_callbacks c2 = TcpConnection_handleClose idle_callbacks c2"
    using calculation(2,3) by (simp add: TcpConnection_forceCloseInLoop_def)
  ultimately show ?thesis
    using c1 c2_def by blast
qed

text \<open>
  C15. \<^verbatim>\<open>startRead()\<close> does not look at the state: called on a connection that is already down, it turns
  the reading interest of the channel on again, and the \<^verbatim>\<open>connectDestroyed()\<close> that the server has queued
  then fails the assertion in \<^verbatim>\<open>Channel::remove\<close>.
\<close>

theorem TcpConnection_startRead_when_down:
  assumes "onLoopThread c" "connState c = kDisconnected" "Channel_isNoneEvent (chan c)"
  shows "\<exists>c'. TcpConnection_startRead c = Inr c' \<and> Channel_isReading (chan c') \<and>
    TcpConnection_connectDestroyed cbs c' = Inl AssertFailed \<and>
    (\<exists>c''. TcpConnection_connectDestroyed cbs c = Inr c'')"
proof -
  have ev: "events (chan c) = 0" "\<not> Channel_isReading (chan c)"
    using assms(3) by (auto simp: Channel_isNoneEvent_def Channel_isReading_def kEvent_bits)
  define c' where "c' = (chan_events kReadEvent c)\<lparr>reading := True\<rparr>"
  have "TcpConnection_startRead c = Inr c'"
    using assms(1) ev by (simp add: TcpConnection_startRead_def run_or_queue_def TcpConnection_startReadInLoop_def conn_simps c'_def)
  moreover have "Channel_isReading (chan c')" "TcpConnection_connectDestroyed cbs c' = Inl AssertFailed"
    using assms by (simp_all add: c'_def Channel_isReading_def TcpConnection_connectDestroyed_def on_chan_def
        Channel_remove_def Channel_isNoneEvent_def kEvent_bits)
  moreover have "\<exists>c''. TcpConnection_connectDestroyed cbs c = Inr c''"
    using assms by (simp add: TcpConnection_connectDestroyed_def on_chan_def Channel_remove_def Channel_isNoneEvent_def)
  ultimately show ?thesis
    by blast
qed

theorem TcpConnection_startRead_when_down_witness:
  "\<exists>c c1 c'. fresh_connection = Inr c \<and> TcpConnection_handleClose idle_callbacks c = Inr c1 \<and>
     TcpConnection_startRead c1 = Inr c' \<and> TcpConnection_connectDestroyed idle_callbacks c' = Inl AssertFailed"
proof -
  obtain c where c: "fresh_connection = Inr c" "conn_inv c" "connState c = kConnected"
    using fresh_connection_ok by blast
  define c1 where "c1 = chan_events kNoneEvent (TcpConnection_setState kDisconnected c)"
  have c1: "TcpConnection_handleClose idle_callbacks c = Inr c1"
      "onLoopThread c1" "connState c1 = kDisconnected" "Channel_isNoneEvent (chan c1)"
    using c by (auto simp: TcpConnection_handleClose_def conn_inv_def conn_ok_def conn_simps idle_callbacks_def c1_def
        defaultConnectionCallback_def TcpConnection_setState_def Channel_isNoneEvent_def)
  then show ?thesis
    using TcpConnection_startRead_when_down [OF c1(2-4), of idle_callbacks] c(1) by blast
qed

end
