(* ===== verification/My_TcpConnection.thy ===== *)
theory My_TcpConnection
  imports Connection_Laws My_Buffer
begin

text \<open>
  \<^verbatim>\<open>TcpConnection\<close> of the rewrite (\<^verbatim>\<open>myMuduo/TcpConnection.h\<close>, \<^verbatim>\<open>TcpConnection.cc\<close>), on the record of
  the original. Its macro \<^verbatim>\<open>LOG_ERROR\<close> ends the process (\<^verbatim>\<open>Logger.h\<close>), so such a branch is \<open>Inl Exited\<close>.
  No handler checks the calling thread. The theorems show what the rewrite shares with the original, the order of
  the stream, and where it departs from it.
\<close>

section \<open>Operations\<close>

definition MyTcpConnection_new :: "int \<Rightarrow> bool \<Rightarrow> tcp_connection res" where
  "MyTcpConnection_new sockfd inThread =
     rbind (MyBuffer_new kInitalSize) (\<lambda>b.
       Inr \<lparr>connState = kConnecting, reading = True,
            chan = Channel_setErrorCallback (Channel_setCloseCallback (Channel_setWriteCallback
              (Channel_setReadCallback (Channel_new sockfd)))),
            highWaterMark = 64 * 1024 * 1024, hasWriteComplete = False, hasHighWaterMark = False,
            inputBuffer = b, outputBuffer = b, loopTasks = [], wireOut = [], writeShut = False,
            onLoopThread = inThread\<rparr>)"

definition MyTcpConnection_setState :: "conn_state \<Rightarrow> tcp_connection \<Rightarrow> tcp_connection" where
  "MyTcpConnection_setState s c = c\<lparr>connState := s\<rparr>"

definition MyTcpConnection_setHighWaterMarkCallback :: "nat \<Rightarrow> tcp_connection \<Rightarrow> tcp_connection" where
  "MyTcpConnection_setHighWaterMarkCallback mark c = c\<lparr>hasHighWaterMark := True, highWaterMark := mark\<rparr>"

text \<open>The log statement of an error exits before the socket's error could matter.\<close>

definition MyTcpConnection_handleError :: "tcp_connection \<Rightarrow> tcp_connection res" where
  "MyTcpConnection_handleError c = Inl Exited"

definition MyTcpConnection_handleClose :: "conn_callbacks \<Rightarrow> tcp_connection \<Rightarrow> tcp_connection res" where
  "MyTcpConnection_handleClose cbs c =
     rbind (on_chan MyChannel_disableAll (MyTcpConnection_setState kDisconnected c)) (\<lambda>c1.
     rbind (connectionCallback cbs c1) (closeCallback cbs))"

text \<open>The number of bytes read is kept in a \<^verbatim>\<open>size_t\<close>: \<^verbatim>\<open>-1\<close> becomes the largest one.\<close>

definition MyTcpConnection_handleRead ::
  "(nat list \<Rightarrow> errno io_result) \<Rightarrow> conn_callbacks \<Rightarrow> timestamp \<Rightarrow> tcp_connection \<Rightarrow> tcp_connection res" where
  "MyTcpConnection_handleRead readv cbs receiveTime c =
     rbind (MyBuffer_readFd readv (inputBuffer c)) (\<lambda>(r, savedErrno, b).
       let n = size_of_int r; c1 = c\<lparr>inputBuffer := b\<rparr> in
       if 0 < n then messageCallback cbs receiveTime c1
       else if n = 0 then MyTcpConnection_handleClose cbs c1
       else Inl Exited)"

definition MyTcpConnection_shutdownInLoop :: "tcp_connection \<Rightarrow> tcp_connection res" where
  "MyTcpConnection_shutdownInLoop c = Inr (if \<not> Channel_isWriting (chan c) then c\<lparr>writeShut := True\<rparr> else c)"

definition write_sum :: "write_fn \<Rightarrow> char list \<Rightarrow> errno + nat" where
  "write_sum write d = (case write d of WErr e \<Rightarrow> Inl e | WOk n \<Rightarrow> Inr n)"

definition MyTcpConnection_handleWrite :: "write_fn \<Rightarrow> tcp_connection \<Rightarrow> tcp_connection res" where
  "MyTcpConnection_handleWrite write c =
     (if Channel_isWriting (chan c)
      then rbind (MyBuffer_writeFd (write_sum write) (outputBuffer c)) (\<lambda>(n, savedErrno).
        if 0 < n
        then (let c1 = c\<lparr>wireOut := wireOut c @ take (nat n) (Buffer_content (outputBuffer c)),
                         outputBuffer := MyBuffer_retrieve (outputBuffer c) (nat n)\<rparr> in
              if MyBuffer_readableBytes (outputBuffer c1) = 0
              then rbind (on_chan MyChannel_disableWriting c1) (\<lambda>c2.
                let c3 = (if hasWriteComplete c2 then queue_task WriteComplete c2 else c2) in
                if connState c3 = kDisconnecting then MyTcpConnection_shutdownInLoop c3 else Inr c3)
              else Inl Exited)
        else Inr c)
      else Inl Exited)"

definition MyTcpConnection_sendInLoop :: "write_fn \<Rightarrow> char list \<Rightarrow> tcp_connection \<Rightarrow> tcp_connection res" where
  "MyTcpConnection_sendInLoop write data c =
     (if connState c = kDisconnected then Inl Exited
      else rbind
        (if \<not> Channel_isWriting (chan c) \<and> MyBuffer_readableBytes (outputBuffer c) = 0
         then case write data of
                WOk n \<Rightarrow> Inr (n, size_sub (length data) n,
                  (if size_sub (length data) n = 0 \<and> hasWriteComplete c then queue_task WriteComplete else id)
                    (c\<lparr>wireOut := wireOut c @ take n data\<rparr>))
              | WErr e \<Rightarrow> if e \<noteq> EWOULDBLOCK then Inl Exited else Inr (0, length data, c)
         else Inr (0, length data, c))
        (\<lambda>(nwrote, remaining, c1).
          if 0 < remaining
          then (let oldLen = MyBuffer_readableBytes (outputBuffer c1);
                    c2 = (if highWaterMark c1 \<le> size_add oldLen remaining \<and> oldLen < highWaterMark c1
                             \<and> hasHighWaterMark c1
                          then queue_task (HighWaterMark (size_add oldLen remaining)) c1 else c1)
                in rbind (MyBuffer_append (outputBuffer c2) (drop nwrote data)) (\<lambda>b.
                     let c3 = c2\<lparr>outputBuffer := b\<rparr> in
                     if \<not> Channel_isWriting (chan c3) then on_chan MyChannel_enableWriting c3 else Inr c3))
          else Inr c1))"

text \<open>A connected connection writes in the caller's thread; otherwise the task keeps a pointer to the
  caller's string.\<close>

definition MyTcpConnection_send :: "write_fn \<Rightarrow> char list \<Rightarrow> tcp_connection \<Rightarrow> tcp_connection res" where
  "MyTcpConnection_send write buf c =
     (if connState c = kConnected then MyTcpConnection_sendInLoop write buf c
      else run_or_queue (MyTcpConnection_sendInLoop write buf) (SendPointer (length buf)) c)"

definition MyTcpConnection_shutdown :: "tcp_connection \<Rightarrow> tcp_connection res" where
  "MyTcpConnection_shutdown c =
     (if connState c = kConnected
      then run_or_queue MyTcpConnection_shutdownInLoop ShutdownInLoop (MyTcpConnection_setState kDisconnecting c)
      else Inr c)"

definition MyTcpConnection_connectEstablished :: "conn_callbacks \<Rightarrow> tcp_connection \<Rightarrow> tcp_connection res" where
  "MyTcpConnection_connectEstablished cbs c =
     (let c1 = MyTcpConnection_setState kConnected c in
      rbind (on_chan MyChannel_enableReading (c1\<lparr>chan := Channel_tie (chan c1)\<rparr>)) (connectionCallback cbs))"

definition MyTcpConnection_connectDestroyed :: "conn_callbacks \<Rightarrow> tcp_connection \<Rightarrow> tcp_connection res" where
  "MyTcpConnection_connectDestroyed cbs c =
     rbind (if connState c = kConnected
            then rbind (on_chan MyChannel_disableAll (MyTcpConnection_setState kDisconnecting c)) (connectionCallback cbs)
            else Inr c)
       (on_chan MyChannel_remove)"

section \<open>Facts\<close>

definition my_events :: "32 word \<Rightarrow> tcp_connection \<Rightarrow> tcp_connection" where
  "my_events ev c = c\<lparr>chan := (chan c)\<lparr>events := ev\<rparr>\<rparr>"

lemma on_chan_my [conn_simps]:
  "on_chan MyChannel_enableWriting c = Inr (my_events (events (chan c) OR kWriteEvent) c)"
  "on_chan MyChannel_disableWriting c = Inr (my_events (events (chan c) AND kWriteEvent) c)"
  "on_chan MyChannel_enableReading c = Inr (my_events (events (chan c) OR kReadEvent) c)"
  "on_chan MyChannel_disableAll c = Inr (my_events kNoneEvent c)"
  by (simp_all add: on_chan_def my_events_def MyChannel_enableWriting_def MyChannel_disableWriting_def
      MyChannel_enableReading_def MyChannel_disableAll_def MyChannel_update_def set_events_def)

lemma my_events_fields [simp]:
  "chan (my_events ev c) = (chan c)\<lparr>events := ev\<rparr>"
  "connState (my_events ev c) = connState c" "reading (my_events ev c) = reading c"
  "inputBuffer (my_events ev c) = inputBuffer c" "outputBuffer (my_events ev c) = outputBuffer c"
  "wireOut (my_events ev c) = wireOut c" "writeShut (my_events ev c) = writeShut c"
  "onLoopThread (my_events ev c) = onLoopThread c" "hasWriteComplete (my_events ev c) = hasWriteComplete c"
  "loopTasks (my_events ev c) = loopTasks c"
  by (simp_all add: my_events_def)

text \<open>Two connections that agree but for the flag \<^verbatim>\<open>addedToLoop_\<close>, which the rewrite's channel does not have.\<close>

definition same_conn :: "tcp_connection \<Rightarrow> tcp_connection \<Rightarrow> bool" where
  "same_conn c c' \<longleftrightarrow> c'\<lparr>chan := (chan c')\<lparr>addedToLoop := False\<rparr>\<rparr> = c\<lparr>chan := (chan c)\<lparr>addedToLoop := False\<rparr>\<rparr>"

lemma same_conn_refl [simp]: "same_conn c c"
  by (simp add: same_conn_def)

lemma same_conn_events: "same_conn (chan_events ev c) (my_events ev c)"
  by (simp add: same_conn_def chan_events_def my_events_def)

lemma same_conn_fields:
  assumes "same_conn c c'"
  shows "wireOut c' = wireOut c" "outputBuffer c' = outputBuffer c" "connState c' = connState c" "loopTasks c' = loopTasks c"
    "events (chan c') = events (chan c)"
  using assms by (auto simp: same_conn_def dest: arg_cong [where f = wireOut] arg_cong [where f = outputBuffer]
      arg_cong [where f = connState] arg_cong [where f = loopTasks] arg_cong [where f = "\<lambda>c. events (chan c)"])

text \<open>Documented result of \<^verbatim>\<open>write(2)\<close> on a healthy non-blocking socket: the only error is \<^verbatim>\<open>EWOULDBLOCK\<close>.\<close>

definition only_wouldblock :: "write_fn \<Rightarrow> bool" where
  "only_wouldblock write \<longleftrightarrow> (\<forall>d e. write d = WErr e \<longrightarrow> e = EWOULDBLOCK)"

lemma write_room_only_wouldblock [simp]: "only_wouldblock (write_room k)"
  by (auto simp: only_wouldblock_def write_room_def)

definition my_store_rest :: "char list \<Rightarrow> tcp_connection \<Rightarrow> tcp_connection res" where
  "my_store_rest rest c =
     (let oldLen = MyBuffer_readableBytes (outputBuffer c);
          c2 = (if highWaterMark c \<le> size_add oldLen (length rest) \<and> oldLen < highWaterMark c \<and> hasHighWaterMark c
                then queue_task (HighWaterMark (size_add oldLen (length rest))) c else c)
      in rbind (MyBuffer_append (outputBuffer c2) rest) (\<lambda>b.
           let c3 = c2\<lparr>outputBuffer := b\<rparr> in
           if \<not> Channel_isWriting (chan c3) then on_chan MyChannel_enableWriting c3 else Inr c3))"

definition with_flag :: "bool \<Rightarrow> tcp_connection \<Rightarrow> tcp_connection" where
  "with_flag a c = c\<lparr>chan := (chan c)\<lparr>addedToLoop := a\<rparr>\<rparr>"

lemma with_flag_fields [simp]:
  "connState (with_flag a c) = connState c" "inputBuffer (with_flag a c) = inputBuffer c" "outputBuffer (with_flag a c) = outputBuffer c"
  "wireOut (with_flag a c) = wireOut c" "onLoopThread (with_flag a c) = onLoopThread c" "hasWriteComplete (with_flag a c) = hasWriteComplete c"
  "Channel_isWriting (chan (with_flag a c)) = Channel_isWriting (chan c)" "events (chan (with_flag a c)) = events (chan c)"
  "loopTasks (with_flag a c) = loopTasks c" "writeShut (with_flag a c) = writeShut c"
  by (simp_all add: with_flag_def Channel_isWriting_def)

lemma with_flag_conn_ok [simp]: "conn_ok (with_flag a c) = conn_ok c"
  by (simp add: conn_ok_def)

lemma with_flag_updates: "(with_flag a c)\<lparr>wireOut := w\<rparr> = with_flag a (c\<lparr>wireOut := w\<rparr>)" "queue_task t (with_flag a c) = with_flag a (queue_task t c)"
  by (simp_all add: with_flag_def queue_task_def)

lemma same_conn_flag: "same_conn c (with_flag a c)" "same_conn c c' \<Longrightarrow> \<exists>a. c' = with_flag a c"
proof -
  show "same_conn c (with_flag a c)"
    by (simp add: same_conn_def with_flag_def)
  assume same: "same_conn c c'"
  have "c' = with_flag (addedToLoop (chan c')) (c'\<lparr>chan := (chan c')\<lparr>addedToLoop := False\<rparr>\<rparr>)"
    by (simp add: with_flag_def)
  also have "\<dots> = with_flag (addedToLoop (chan c')) c"
    using same by (simp add: same_conn_def with_flag_def)
  finally show "\<exists>a. c' = with_flag a c" ..
qed

lemma store_rest_my:
  assumes "Buffer_append (outputBuffer c) rest = Inr b"
  shows "\<exists>c1 c2. store_rest rest c = Inr c1 \<and> my_store_rest rest (with_flag a c) = Inr c2 \<and> same_conn c1 c2"
  using assms MyBuffer_append_agrees [OF assms]
  by (simp add: store_rest_def my_store_rest_def Let_def MyBuffer_sizes conn_simps with_flag_def same_conn_def chan_events_def my_events_def
      queue_task_def Channel_isWriting_def)

lemma my_sendInLoop_unfold:
  assumes "conn_ok c" "write_contract write" "only_wouldblock write" "length d \<le> vec_max"
  shows "MyTcpConnection_sendInLoop write d c =
    (if Buffer_content (outputBuffer c) \<noteq> [] then (if d = [] then Inr c else my_store_rest d c)
     else case write d of
            WErr e \<Rightarrow> if d = [] then Inr c else my_store_rest d c
          | WOk n \<Rightarrow> (let c1 = (if n = length d \<and> hasWriteComplete c then queue_task WriteComplete else (\<lambda>x. x))
                               (c\<lparr>wireOut := wireOut c @ take n d\<rparr>)
                     in if n = length d then Inr c1 else my_store_rest (drop n d) c1))"
proof (cases "Buffer_content (outputBuffer c) = []")
  case False
  then show ?thesis
    using assms(1)
    by (auto simp: MyTcpConnection_sendInLoop_def my_store_rest_def conn_ok_def readable_content Let_def MyBuffer_sizes)
next
  case True
  then have idle: "\<not> Channel_isWriting (chan c)" "MyBuffer_readableBytes (outputBuffer c) = 0" "connState c \<noteq> kDisconnected"
    using assms(1) by (auto simp: conn_ok_def readable_content MyBuffer_sizes)
  show ?thesis
  proof (cases "write d")
    case (WErr e)
    then show ?thesis
      using idle True assms(3) by (auto simp: MyTcpConnection_sendInLoop_def my_store_rest_def Let_def only_wouldblock_def)
  next
    case (WOk n)
    then have n: "n \<le> length d" "length d < 2 ^ 64"
      using assms(2,4) by (auto simp: write_contract_def vec_max_def)
    then have "size_sub (length d) n = length d - n"
      by simp
    then show ?thesis
      using idle n True WOk by (auto simp: MyTcpConnection_sendInLoop_def my_store_rest_def Let_def)
  qed
qed

lemma sendInLoop_agrees:
  assumes "conn_ok c" "write_contract write" "only_wouldblock write" "conn_cap c + length d \<le> vec_max" "same_conn c k"
  shows "\<exists>c1 c2. TcpConnection_sendInLoop write d c = Inr c1 \<and> MyTcpConnection_sendInLoop write d k = Inr c2 \<and> same_conn c1 c2"
proof -
  have ok: "Buffer_wf (outputBuffer c)" and len: "length d \<le> vec_max"
    using assms(1,4) by (auto simp: conn_ok_def)
  obtain a where k: "k = with_flag a c"
    using same_conn_flag(2) [OF assms(5)] by blast
  then have ok_k: "conn_ok k"
    using assms(1) by simp
  note mine = my_sendInLoop_unfold [OF ok_k assms(2,3) len, unfolded k] and theirs = sendInLoop_unfold [OF assms(1,2) len]
  have app: "\<exists>b. Buffer_append (outputBuffer x) rest = Inr b" if "length rest \<le> length d" "outputBuffer x = outputBuffer c" for x rest
    using Buffer_append_ok [OF ok, of rest] assms(4) that by (auto simp: conn_cap_def)
  show ?thesis
  proof (cases "Buffer_content (outputBuffer c) = [] \<and> (\<exists>n. write d = WOk n)")
    case True
    then obtain n where n: "write d = WOk n" "n \<le> length d"
      using assms(2) by (auto simp: write_contract_def)
    let ?c = "c\<lparr>wireOut := wireOut c @ take n d\<rparr>"
    obtain b where "Buffer_append (outputBuffer ?c) (drop n d) = Inr b"
      using app [of "drop n d" ?c] by auto
    from store_rest_my [OF this, of a] show ?thesis
      using n True unfolding k by (auto simp: theirs mine Let_def with_flag_updates same_conn_flag(1))
  next
    case False
    obtain b where "Buffer_append (outputBuffer c) d = Inr b"
      using app [of d c] by auto
    moreover have "TcpConnection_sendInLoop write d c = (if d = [] then Inr c else store_rest d c)"
        "MyTcpConnection_sendInLoop write d k = (if d = [] then Inr k else my_store_rest d k)"
      using False assms(3) unfolding k by (auto simp: theirs mine only_wouldblock_def split: write_result.split)
    ultimately show ?thesis
      using store_rest_my [of c d b a] assms(5) unfolding k by auto
  qed
qed

text \<open>
  What the rewrite does when the socket becomes writable. A \<^verbatim>\<open>write\<close> that takes part of the
  buffered bytes, the usual case for which the buffer exists, ends the process. A \<^verbatim>\<open>write\<close> that takes them all leaves
  the connection deaf: \<^verbatim>\<open>disableWriting\<close> keeps the write interest and drops the read interest. A
  writable event on a channel without write interest ends the process as well, where the original logs and
  returns.
\<close>

theorem MyTcpConnection_handleWrite_faults:
  assumes "conn_ok c" "d = Buffer_content (outputBuffer c)" "write d = WOk n" "0 < n" "n \<le> length d"
  shows "if n < length d then MyTcpConnection_handleWrite write c = Inl Exited
    else (\<exists>c'. MyTcpConnection_handleWrite write c = Inr c' \<and> wireOut c' = wireOut c @ d \<and>
           Channel_isWriting (chan c') \<and> \<not> Channel_isReading (chan c') \<and> writeShut c' = writeShut c \<and>
           MyTcpConnection_handleWrite write (my_events kReadEvent c') = Inl Exited)"
proof -
  have ok: "Buffer_wf (outputBuffer c)" "Channel_isWriting (chan c)"
    using assms by (auto simp: conn_ok_def)
  have w: "MyBuffer_writeFd (write_sum write) (outputBuffer c) = Inr (int n, None)"
    using ok(1) assms(2,3) by (simp add: MyBuffer_writeFd_def MyBuffer_sizes buffer_simps readable_content write_sum_def)
  obtain b where b: "Buffer_retrieve (outputBuffer c) n = Inr b" "Buffer_wf b" "Buffer_content b = drop n d"
    using Buffer_retrieve_ok [OF ok(1), of n] assms(2,5) by auto
  then have r: "MyBuffer_retrieve (outputBuffer c) n = b" "MyBuffer_readableBytes b = length d - n"
    by (simp_all add: MyBuffer_retrieve_agrees MyBuffer_sizes readable_content)
  have bits: "Channel_isWriting (ch\<lparr>events := events ch AND kWriteEvent\<rparr>) = Channel_isWriting ch"
      "\<not> Channel_isReading (ch\<lparr>events := e AND kWriteEvent\<rparr>)"
      "\<not> Channel_isWriting (ch\<lparr>events := kReadEvent\<rparr>)" for ch :: channel and e
    by (simp_all add: event_bits del: bit_numeral_word_iff bit_neg_numeral_word_iff)
  show ?thesis
    using ok(2) w r assms(2,4,5)
    by (auto simp: MyTcpConnection_handleWrite_def MyTcpConnection_shutdownInLoop_def Let_def conn_simps bits)
qed

theorem MyTcpConnection_handleWrite_faults_witness:
  "\<exists>c c1. fresh_connection = Inr c \<and> TcpConnection_sendInLoop (write_room 0) ''abc'' c = Inr c1 \<and>
     MyTcpConnection_handleWrite (write_room 2) c1 = Inl Exited"
proof -
  obtain c where c: "fresh_connection = Inr c" "conn_inv c" "conn_cap c = 1032" "wireOut c = []"
      "Buffer_content (outputBuffer c) = []"
    using fresh_connection_ok by blast
  then have ok: "conn_ok c"
    by (simp add: conn_inv_def)
  have "TcpConnection_sendInLoop (write_room 0) ''abc'' c = store_rest ''abc'' c"
    using sendInLoop_unfold [OF ok write_room_contract(1), of "''abc''" 0] c(5) by (simp add: write_room_def vec_max_def)
  moreover obtain c1 where c1: "store_rest ''abc'' c = Inr c1" "conn_ok c1" "length (Buffer_content (outputBuffer c1)) = 3"
    using store_rest_ok [of c "''abc''"] store_rest_length [of c "''abc''"] ok c by (auto simp: conn_ok_def vec_max_def)
  ultimately show ?thesis
    using MyTcpConnection_handleWrite_faults [OF c1(2) refl, of "write_room 2" 2] c(1) by (force simp: write_room_def)
qed

text \<open>A sequence of \<^verbatim>\<open>send\<close>, in the loop's thread.\<close>

primrec my_sends :: "(write_fn \<times> char list) list \<Rightarrow> tcp_connection \<Rightarrow> tcp_connection res" where
  "my_sends [] c = Inr c"
| "my_sends (x # xs) c = rbind (MyTcpConnection_send (fst x) (snd x) c) (my_sends xs)"

lemma only_wouldblock_alive: "only_wouldblock w \<Longrightarrow> peer_alive w"
  by (auto simp: only_wouldblock_def peer_alive_def)

lemma sends_agree:
  "conn_inv c \<Longrightarrow> connState c = kConnected \<Longrightarrow> same_conn c k \<Longrightarrow> list_all (\<lambda>(w, d). write_contract w \<and> only_wouldblock w) xs \<Longrightarrow>
   conn_cap c + length (concat (map snd xs)) \<le> vec_max \<Longrightarrow>
   \<exists>c1 c2. run_out (map (\<lambda>(w, d). Send w d) xs) c = Inr c1 \<and> my_sends xs k = Inr c2 \<and> same_conn c1 c2 \<and> conn_inv c1"
proof (induction xs arbitrary: c k)
  case (Cons x xs)
  obtain w d where x: "x = (w, d)" "write_contract w" "only_wouldblock w"
    using Cons.prems(4) by (cases x) auto
  have k: "connState k = kConnected"
    using same_conn_fields(3) [OF Cons.prems(3)] Cons.prems(2) by simp
  obtain c1 where c1: "TcpConnection_send w d c = Inr c1" "conn_inv c1" "connState c1 = kConnected" "conn_cap c1 \<le> conn_cap c + length d"
    using send_ok [OF Cons.prems(1), of w d] x only_wouldblock_alive [OF x(3)] Cons.prems(2,5) by auto
  have c: "conn_ok c" "onLoopThread c" "conn_cap c + length d \<le> vec_max"
    using Cons.prems(1,5) x(1) by (simp_all add: conn_inv_def conn_ok_def)
  obtain c2 where c2: "MyTcpConnection_send w d k = Inr c2" "same_conn c1 c2"
    using sendInLoop_agrees [OF c(1) x(2,3) c(3) Cons.prems(3)] c1(1) k Cons.prems(2) c(2)
    by (auto simp: TcpConnection_send_def MyTcpConnection_send_def)
  have "conn_cap c1 + length (concat (map snd xs)) \<le> vec_max"
    using c1(4) Cons.prems(5) x(1) by simp
  then show ?case
    using Cons.IH [OF c1(2,3) c2(2)] Cons.prems(4) c1(1) c2(1) x(1) by auto
qed simp

text \<open>
  C16. How far the rewrite's connection works like the original's. On a socket whose only error is that it would block, any
  sequence of \<^verbatim>\<open>send\<close> in the loop's thread hands the same bytes to the kernel, buffers the same bytes, queues the
  same notifications and awaits the same events in both. At the first writable event they part: when the kernel takes only a part of
  the buffered bytes, the original keeps the rest and goes on, and the rewrite ends the process; when it takes them all, both have
  put the same bytes on the wire, but the original stops waiting for writability and the rewrite stops reading instead.
\<close>

theorem MyTcpConnection_agrees_until_writable:
  assumes "conn_inv c" "connState c = kConnected" "list_all (\<lambda>(w, d). write_contract w \<and> only_wouldblock w) xs"
    "conn_cap c + length (concat (map snd xs)) \<le> vec_max"
  shows "\<exists>c1 c2. run_out (map (\<lambda>(w, d). Send w d) xs) c = Inr c1 \<and> my_sends xs c = Inr c2 \<and>
    wireOut c2 = wireOut c1 \<and> outputBuffer c2 = outputBuffer c1 \<and> loopTasks c2 = loopTasks c1 \<and>
    events (chan c2) = events (chan c1) \<and> connState c2 = connState c1 \<and>
    (\<forall>wr n. write_contract wr \<and> wr (Buffer_content (outputBuffer c1)) = WOk n \<and> 0 < n \<longrightarrow>
      (\<exists>c3. TcpConnection_handleWrite wr c1 = Inr c3 \<and> conn_inv c3 \<and> conn_stream c3 = conn_stream c1 \<and>
        (if n < length (Buffer_content (outputBuffer c1)) then MyTcpConnection_handleWrite wr c2 = Inl Exited
         else \<not> Channel_isWriting (chan c3) \<and> Channel_isReading (chan c3) = Channel_isReading (chan c1) \<and>
           (\<exists>c4. MyTcpConnection_handleWrite wr c2 = Inr c4 \<and> wireOut c4 = wireOut c3 \<and>
             Channel_isWriting (chan c4) \<and> \<not> Channel_isReading (chan c4)))))"
proof -
  obtain c1 c2 where run: "run_out (map (\<lambda>(w, d). Send w d) xs) c = Inr c1" "my_sends xs c = Inr c2" "same_conn c1 c2" "conn_inv c1"
    using sends_agree [OF assms(1,2) same_conn_refl assms(3,4)] by blast
  let ?d = "Buffer_content (outputBuffer c1)"
  have c2: "conn_ok c2" "Buffer_content (outputBuffer c2) = ?d" "wireOut c2 = wireOut c1"
    using same_conn_flag(2) [OF run(3)] run(4) by (auto simp: conn_inv_def)
  have "\<exists>c3. TcpConnection_handleWrite wr c1 = Inr c3 \<and> conn_inv c3 \<and> conn_stream c3 = conn_stream c1 \<and>
        (if n < length ?d then MyTcpConnection_handleWrite wr c2 = Inl Exited
         else \<not> Channel_isWriting (chan c3) \<and> Channel_isReading (chan c3) = Channel_isReading (chan c1) \<and>
           (\<exists>c4. MyTcpConnection_handleWrite wr c2 = Inr c4 \<and> wireOut c4 = wireOut c3 \<and> Channel_isWriting (chan c4) \<and> \<not> Channel_isReading (chan c4)))"
    if w: "write_contract wr" "wr ?d = WOk n" "0 < n" for wr n
  proof -
    have n: "n \<le> length ?d"
      using w(1,2) by (simp add: write_contract_def)
    obtain c3 where c3: "TcpConnection_handleWrite wr c1 = Inr c3" "conn_inv c3" "conn_stream c3 = conn_stream c1"
        "Channel_isReading (chan c3) = Channel_isReading (chan c1)" "Buffer_content (outputBuffer c3) = (if ?d = [] then [] else drop (accepted wr ?d) ?d)"
      using handleWrite_ok [OF run(4) w(1), unfolded Let_def] by blast
    note mine = MyTcpConnection_handleWrite_faults [OF c2(1) refl, of wr n, unfolded c2(2,3), OF w(2,3) n]
    show ?thesis
    proof (cases "n < length ?d")
      case False
      then have gone: "Buffer_content (outputBuffer c3) = []"
        using c3(5) w(2) n by (simp add: accepted_def)
      then have "wireOut c3 = wireOut c1 @ ?d" "\<not> Channel_isWriting (chan c3)"
        using c3(2,3) by (simp_all add: conn_stream_def conn_inv_def conn_ok_def)
      then show ?thesis
        using False mine c3 by auto
    qed (use mine c3 in auto)
  qed
  then show ?thesis
    using run same_conn_fields [OF run(3)] by auto
qed

theorem MyTcpConnection_agrees_until_writable_witness:
  "\<exists>c c1 c2. fresh_connection = Inr c \<and> run_out [Send (write_room 2) ''abcd''] c = Inr c1 \<and>
     my_sends [(write_room 2, ''abcd'')] c = Inr c2 \<and> outputBuffer c2 = outputBuffer c1 \<and> Buffer_content (outputBuffer c1) = ''cd'' \<and>
     MyTcpConnection_handleWrite (write_room 1) c2 = Inl Exited"
proof -
  let ?xs = "[(write_room 2, ''abcd'')]"
  obtain c where c: "fresh_connection = Inr c" "conn_inv c" "conn_cap c = 1032" "connState c = kConnected" "wireOut c = []"
      "Buffer_content (outputBuffer c) = []"
    using fresh_connection_ok by blast
  then obtain c1 c2 where run: "run_out (map (\<lambda>(w, d). Send w d) ?xs) c = Inr c1" "my_sends ?xs c = Inr c2" "outputBuffer c2 = outputBuffer c1"
      "\<forall>wr n. write_contract wr \<and> wr (Buffer_content (outputBuffer c1)) = WOk n \<and> 0 < n \<longrightarrow>
        n < length (Buffer_content (outputBuffer c1)) \<longrightarrow> MyTcpConnection_handleWrite wr c2 = Inl Exited"
    using MyTcpConnection_agrees_until_writable [OF c(2,4), of ?xs] by (fastforce simp: vec_max_def)
  have ok: "conn_ok c" "onLoopThread c"
    using c(2) by (simp_all add: conn_inv_def conn_ok_def)
  have rest: "store_rest ''cd'' (c\<lparr>wireOut := ''ab''\<rparr>) = Inr c1"
    using run(1) sendInLoop_unfold [OF ok(1) write_room_contract(1), of "''abcd''" 2] c ok(2)
    by (auto simp: rbind_eq_Inr TcpConnection_send_def write_room_def vec_max_def)
  have "Buffer_content (outputBuffer c1) = ''cd''"
  proof -
    obtain b where "Buffer_append (outputBuffer c) ''cd'' = Inr b" "Buffer_content b = ''cd''"
      using Buffer_append_ok [of "outputBuffer c" "''cd''"] ok(1) c(3,6) by (auto simp: conn_ok_def conn_cap_def vec_max_def)
    then show ?thesis
      using rest by (auto simp: store_rest_def Let_def conn_simps split: if_splits)
  qed
  moreover from this have "MyTcpConnection_handleWrite (write_room 1) c2 = Inl Exited"
    using run(4) [rule_format, of "write_room 1" 1] by (simp add: write_room_def)
  moreover have "run_out [Send (write_room 2) ''abcd''] c = Inr c1"
    using run(1) by (simp del: run_out.simps)
  ultimately show ?thesis
    using run(2,3) c(1) by blast
qed

text \<open>
  A failed read: the rewrite keeps the result of \<^verbatim>\<open>readFd\<close> in a \<^verbatim>\<open>size_t\<close>, so \<^verbatim>\<open>-1\<close> counts as a
  positive number of bytes and the message callback runs without any new data; the original handles the
  error and calls nothing.
\<close>

theorem MyTcpConnection_read_error:
  assumes "readv (readFd_iov (inputBuffer c)) = IoErr e" "onLoopThread c"
  shows "MyTcpConnection_handleRead readv cbs t c = messageCallback cbs t c \<and> TcpConnection_handleRead readv cbs t c = Inr c"
proof -
  have "Buffer_readFd readv (inputBuffer c) = Inr (- 1, Some e, inputBuffer c)"
    using assms(1) by (simp add: Buffer_readFd_def Let_def)
  with MyBuffer_readFd_agrees [OF this] assms(2) show ?thesis
    by (simp add: MyTcpConnection_handleRead_def TcpConnection_handleRead_def TcpConnection_handleError_def Let_def size_of_int_def)
qed

theorem MyTcpConnection_read_error_witness:
  "\<exists>c. fresh_connection = Inr c \<and>
     MyTcpConnection_handleRead (\<lambda>_. IoErr ECONNRESET) idle_callbacks (Timestamp 5) c = messageCallback idle_callbacks (Timestamp 5) c"
proof -
  obtain c where c: "fresh_connection = Inr c" "conn_inv c"
    using fresh_connection_ok by blast
  then show ?thesis
    using MyTcpConnection_read_error [of "\<lambda>_. IoErr ECONNRESET" c ECONNRESET idle_callbacks "Timestamp 5"]
    by (intro exI [of _ c]) (simp add: conn_inv_def conn_ok_def)
qed

text \<open>The rewrite's \<^verbatim>\<open>connectDestroyed\<close> leaves a connection in the state of one that is still closing.\<close>

lemma MyTcpConnection_destroyed_state:
  assumes "connState c = kConnected" "MyTcpConnection_connectDestroyed idle_callbacks c = Inr c'"
  shows "connState c' = kDisconnecting"
  using assms by (auto simp: MyTcpConnection_connectDestroyed_def conn_simps on_chan_def [of MyChannel_remove] MyChannel_remove_def
      MyTcpConnection_setState_def idle_callbacks_def defaultConnectionCallback_def)

end
