(* ===== verification/Net_Sockets.thy ===== *)
theory Net_Sockets
  imports Text_Format Net_Channel
begin

text \<open>
  \<^verbatim>\<open>SocketsOps.cc\<close> as far as it decides something, and \<^verbatim>\<open>Acceptor\<close> of both libraries. System calls are
  arguments: either the result of one call, or, where several calls on one descriptor table follow
  each other, the functions of a record \<open>sock_kernel\<close> over an arbitrary state. The locale \<open>descriptor_table\<close>
  states what POSIX documents of \<^verbatim>\<open>accept\<close>, \<^verbatim>\<open>close\<close> and \<^verbatim>\<open>open\<close> under the per-process limit.
\<close>

section \<open>Addresses\<close>

datatype family = AF_INET | AF_INET6 | AF_OTHER

record sock_addr =
  sa_family :: family
  sin_port :: "16 word"
  sin_addr :: "char list"

definition isSelfConnect :: "sock_addr \<Rightarrow> sock_addr \<Rightarrow> bool" where
  "isSelfConnect localaddr peeraddr =
     (case sa_family localaddr of
        AF_INET \<Rightarrow> sin_port localaddr = sin_port peeraddr \<and> take 4 (sin_addr localaddr) = take 4 (sin_addr peeraddr)
      | AF_INET6 \<Rightarrow> sin_port localaddr = sin_port peeraddr \<and> take 16 (sin_addr localaddr) = take 16 (sin_addr peeraddr)
      | AF_OTHER \<Rightarrow> False)"

text \<open>The text \<^verbatim>\<open>inet_ntop\<close> writes is an argument; the port is printed from its host-order value, within
  the room left in the buffer.\<close>

definition toIp :: "(family \<Rightarrow> char list \<Rightarrow> string) \<Rightarrow> nat \<Rightarrow> string \<Rightarrow> sock_addr \<Rightarrow> string res" where
  "toIp ntop sz buf addr =
     (case sa_family addr of
        AF_INET \<Rightarrow> c_assert (16 \<le> sz) (Inr (ntop AF_INET (sin_addr addr)))
      | AF_INET6 \<Rightarrow> c_assert (46 \<le> sz) (Inr (ntop AF_INET6 (sin_addr addr)))
      | AF_OTHER \<Rightarrow> Inr buf)"

definition toIpPort :: "(16 word \<Rightarrow> 16 word) \<Rightarrow> (family \<Rightarrow> char list \<Rightarrow> string) \<Rightarrow> nat \<Rightarrow> string \<Rightarrow> sock_addr \<Rightarrow> string res" where
  "toIpPort ntoh ntop sz buf addr =
     rbind (toIp ntop sz buf addr) (\<lambda>b.
       c_assert (length b < sz)
         (Inr (b @ take (sz - length b - 1) ('':'' @ show_nat (unat (ntoh (sin_port addr)))))))"

section \<open>Calls that must not fail\<close>

definition createNonblockingOrDie :: "int \<Rightarrow> int res" where
  "createNonblockingOrDie sockfd = (if sockfd < 0 then Inl Exited else Inr sockfd)"

definition bindOrDie :: "int \<Rightarrow> unit res" where
  "bindOrDie ret = (if ret < 0 then Inl Exited else Inr ())"

definition listenOrDie :: "int \<Rightarrow> unit res" where
  "listenOrDie ret = (if ret < 0 then Inl Exited else Inr ())"

text \<open>\<^verbatim>\<open>EAGAIN\<close> and \<^verbatim>\<open>EWOULDBLOCK\<close> are one value.\<close>

definition accept_expected :: "errno \<Rightarrow> bool" where
  "accept_expected e \<longleftrightarrow> e \<in> {EWOULDBLOCK, ECONNABORTED, EINTR, EPROTO, EPERM, EMFILE}"

definition sockets_accept :: "errno + 'a \<Rightarrow> (errno + 'a) res" where
  "sockets_accept r =
     (case r of Inl e \<Rightarrow> if accept_expected e then Inr (Inl e) else Inl Exited | Inr x \<Rightarrow> Inr (Inr x))"

definition getSocketError :: "errno + errno \<Rightarrow> errno" where
  "getSocketError r = (case r of Inl e \<Rightarrow> e | Inr optval \<Rightarrow> optval)"

section \<open>Acceptor\<close>

record 'k sock_kernel =
  k_accept :: "'k \<Rightarrow> (errno + int \<times> sock_addr) \<times> 'k"
  k_close :: "int \<Rightarrow> 'k \<Rightarrow> 'k"
  k_open_null :: "'k \<Rightarrow> int \<times> 'k"

record acceptor =
  acceptChannel :: channel
  listenning :: bool
  idleFd :: int
  hasNewConnection :: bool

definition accept_chan ::
  "((unit reactor \<Rightarrow> nat \<Rightarrow> unit reactor res) \<Rightarrow> unit reactor \<Rightarrow> nat \<Rightarrow> unit reactor res) \<Rightarrow> acceptor \<Rightarrow> acceptor res" where
  "accept_chan method a =
     rbind (method (\<lambda>s k. Inr s) \<lparr>heap = (\<lambda>k. acceptChannel a), poller = ()\<rparr> 0) (\<lambda>s. Inr (a\<lparr>acceptChannel := heap s 0\<rparr>))"

definition Acceptor_new :: "int \<Rightarrow> int \<Rightarrow> int \<Rightarrow> acceptor res" where
  "Acceptor_new sockfd nullFd bindRet =
     rbind (createNonblockingOrDie sockfd) (\<lambda>fd.
       c_assert (0 \<le> nullFd)
         (rbind (bindOrDie bindRet) (\<lambda>_.
            Inr \<lparr>acceptChannel = Channel_setReadCallback (Channel_new fd), listenning = False, idleFd = nullFd,
                 hasNewConnection = False\<rparr>)))"

definition Acceptor_delete :: "'k sock_kernel \<Rightarrow> acceptor \<Rightarrow> 'k \<Rightarrow> (acceptor \<times> 'k) res" where
  "Acceptor_delete ker a k =
     rbind (accept_chan Channel_disableAll a) (\<lambda>a1.
     rbind (accept_chan Channel_remove a1) (\<lambda>a2. Inr (a2, k_close ker (idleFd a2) k)))"

definition Acceptor_setNewConnectionCallback :: "acceptor \<Rightarrow> acceptor" where
  "Acceptor_setNewConnectionCallback a = a\<lparr>hasNewConnection := True\<rparr>"

definition Acceptor_listen :: "bool \<Rightarrow> int \<Rightarrow> acceptor \<Rightarrow> acceptor res" where
  "Acceptor_listen inThread ret a =
     (if \<not> inThread then Inl Exited
      else rbind (listenOrDie ret) (\<lambda>_. accept_chan Channel_enableReading (a\<lparr>listenning := True\<rparr>)))"

text \<open>When no descriptor is left, the reserved one is given up to accept and close the pending connection.\<close>

definition Acceptor_handleRead ::
  "'k sock_kernel \<Rightarrow> (int \<Rightarrow> sock_addr \<Rightarrow> 's \<Rightarrow> 's res) \<Rightarrow> bool \<Rightarrow> acceptor \<Rightarrow> 'k \<Rightarrow> 's \<Rightarrow> (acceptor \<times> 'k \<times> 's) res" where
  "Acceptor_handleRead ker newConnection inThread a k s =
     (if \<not> inThread then Inl Exited
      else (let (r, k1) = k_accept ker k in
        rbind (sockets_accept r) (\<lambda>r. case r of
          Inr (connfd, peerAddr) \<Rightarrow>
            (if hasNewConnection a then rbind (newConnection connfd peerAddr s) (\<lambda>s'. Inr (a, k1, s'))
             else Inr (a, k_close ker connfd k1, s))
        | Inl e \<Rightarrow>
            (if e = EMFILE
             then (let k2 = k_close ker (idleFd a) k1;
                       (r2, k3) = k_accept ker k2;
                       fd2 = (case r2 of Inl e \<Rightarrow> - 1 | Inr (c, p) \<Rightarrow> c);
                       k4 = k_close ker fd2 k3;
                       (fd3, k5) = k_open_null ker k4
                   in Inr (a\<lparr>idleFd := fd3\<rparr>, k5, s))
             else Inr (a, k1, s)))))"

section \<open>myMuduo\<close>

text \<open>\<^verbatim>\<open>LOG_FATAL\<close> returns and \<^verbatim>\<open>LOG_ERROR\<close> exits: a socket that could not be created is used all the same,
  and any failed \<^verbatim>\<open>accept\<close> ends the server.\<close>

definition MyAcceptor_createNonBlocking :: "int \<Rightarrow> int" where
  "MyAcceptor_createNonBlocking sockfd = sockfd"

definition MyAcceptor_new :: "int \<Rightarrow> acceptor" where
  "MyAcceptor_new sockfd =
     \<lparr>acceptChannel = Channel_setReadCallback (Channel_new (MyAcceptor_createNonBlocking sockfd)), listenning = False,
      idleFd = - 1, hasNewConnection = False\<rparr>"

definition MyAcceptor_delete :: "acceptor \<Rightarrow> acceptor res" where
  "MyAcceptor_delete a = rbind (accept_chan MyChannel_disableAll a) (accept_chan MyChannel_remove)"

definition MyAcceptor_setNewConnectionCallback :: "acceptor \<Rightarrow> acceptor" where
  "MyAcceptor_setNewConnectionCallback a = a\<lparr>hasNewConnection := True\<rparr>"

definition MyAcceptor_listen :: "acceptor \<Rightarrow> acceptor res" where
  "MyAcceptor_listen a = accept_chan MyChannel_enableReading (a\<lparr>listenning := True\<rparr>)"

definition MyAcceptor_handleRead ::
  "'k sock_kernel \<Rightarrow> (int \<Rightarrow> sock_addr \<Rightarrow> 's \<Rightarrow> 's res) \<Rightarrow> acceptor \<Rightarrow> 'k \<Rightarrow> 's \<Rightarrow> (acceptor \<times> 'k \<times> 's) res" where
  "MyAcceptor_handleRead ker newConnection a k s =
     (case k_accept ker k of
        (Inr (connfd, peerAddr), k1) \<Rightarrow>
          (if hasNewConnection a then rbind (newConnection connfd peerAddr s) (\<lambda>s'. Inr (a, k1, s'))
           else Inr (a, k_close ker connfd k1, s))
      | (Inl e, k1) \<Rightarrow> Inl Exited)"

section \<open>The descriptor table\<close>

locale descriptor_table =
  fixes ker :: "'k sock_kernel"
    and used :: "'k \<Rightarrow> int set" and backlog :: "'k \<Rightarrow> nat" and limit :: nat
  assumes finite_used: "finite (used k)"
    and accept_empty: "backlog k = 0 \<Longrightarrow> k_accept ker k = (Inl EWOULDBLOCK, k)"
    and accept_full: "0 < backlog k \<Longrightarrow> limit \<le> card (used k) \<Longrightarrow> k_accept ker k = (Inl EMFILE, k)"
    and accept_ok: "0 < backlog k \<Longrightarrow> card (used k) < limit \<Longrightarrow>
      \<exists>fd a k'. k_accept ker k = (Inr (fd, a), k') \<and> 0 \<le> fd \<and> fd \<notin> used k \<and> used k' = insert fd (used k)
        \<and> backlog k' = backlog k - 1"
    and close_used: "used (k_close ker n k) = used k - {n}" "backlog (k_close ker n k) = backlog k"
    and open_ok: "card (used k) < limit \<Longrightarrow>
      \<exists>fd k'. k_open_null ker k = (fd, k') \<and> 0 \<le> fd \<and> fd \<notin> used k \<and> used k' = insert fd (used k) \<and> backlog k' = backlog k"
begin

lemma emfile_drains:
  assumes "limit = card (used k)" "0 < backlog k" "idleFd a \<in> used k"
  shows "\<exists>a' k'. Acceptor_handleRead ker newConnection True a k s = Inr (a', k', s) \<and> backlog k' = backlog k - 1 \<and>
    card (used k') = limit \<and> idleFd a' \<in> used k' \<and> 0 \<le> idleFd a' \<and> used k - {idleFd a} \<subseteq> used k'"
proof -
  define k2 where "k2 = k_close ker (idleFd a) k"
  have full: "k_accept ker k = (Inl EMFILE, k)"
    using accept_full assms by simp
  have pos: "0 < card (used k)"
    using assms(3) finite_used [of k] by (auto simp: card_gt_0_iff)
  have k2: "used k2 = used k - {idleFd a}" "backlog k2 = backlog k" "card (used k2) = card (used k) - 1"
    using close_used [of "idleFd a" k] assms(3) by (simp_all add: k2_def)
  obtain fd p k3 where k3: "k_accept ker k2 = (Inr (fd, p), k3)" "fd \<notin> used k2" "used k3 = insert fd (used k2)"
      "backlog k3 = backlog k2 - 1"
    using accept_ok [of k2] k2 assms(1,2) pos by auto
  define k4 where "k4 = k_close ker fd k3"
  have k4: "used k4 = used k2" "backlog k4 = backlog k - 1"
    using close_used [of fd k3] k3 k2 by (auto simp: k4_def)
  obtain fd3 k5 where k5: "k_open_null ker k4 = (fd3, k5)" "0 \<le> fd3" "fd3 \<notin> used k4" "used k5 = insert fd3 (used k4)"
      "backlog k5 = backlog k4"
    using open_ok [of k4] k4 k2 assms(1) pos by auto
  have "Acceptor_handleRead ker newConnection True a k s = Inr (a\<lparr>idleFd := fd3\<rparr>, k5, s)"
    using full k3(1) k5(1) by (simp add: Acceptor_handleRead_def sockets_accept_def accept_expected_def k2_def k4_def)
  moreover have "card (used k5) = limit"
    using k5 k4 k2 pos assms(1) finite_used [of k4] by simp
  ultimately show ?thesis
    using k5 k4 k2 by auto
qed

lemma room_delivers:
  assumes "0 < backlog k" "card (used k) < limit" "hasNewConnection a"
  shows "\<exists>fd p k'. Acceptor_handleRead ker newConnection True a k s = rbind (newConnection fd p s) (\<lambda>s'. Inr (a, k', s'))
    \<and> backlog k' = backlog k - 1 \<and> used k' = insert fd (used k) \<and> fd \<notin> used k"
proof -
  obtain fd p k' where "k_accept ker k = (Inr (fd, p), k')" "fd \<notin> used k" "used k' = insert fd (used k)"
      "backlog k' = backlog k - 1"
    using accept_ok [OF assms(1,2)] by blast
  then show ?thesis
    using assms(3) by (intro exI [of _ fd] exI [of _ p] exI [of _ k']) (simp add: Acceptor_handleRead_def sockets_accept_def)
qed

end

text \<open>A table that hands out the least unused number.\<close>

record fd_table =
  ft_used :: "int list"
  ft_backlog :: "sock_addr list"

fun least_unused :: "nat \<Rightarrow> int \<Rightarrow> int list \<Rightarrow> int" where
  "least_unused 0 i xs = i"
| "least_unused (Suc n) i xs = (if i \<in> set xs then least_unused n (i + 1) xs else i)"

definition fresh_fd :: "int list \<Rightarrow> int" where
  "fresh_fd xs = least_unused (length xs) 0 xs"

definition table_kernel :: "nat \<Rightarrow> fd_table sock_kernel" where
  "table_kernel limit = \<lparr>
     k_accept = (\<lambda>k. case ft_backlog k of
        [] \<Rightarrow> (Inl EWOULDBLOCK, k)
      | p # ps \<Rightarrow> if limit \<le> card (set (ft_used k)) then (Inl EMFILE, k)
          else (let fd = fresh_fd (ft_used k) in (Inr (fd, p), k\<lparr>ft_used := fd # ft_used k, ft_backlog := ps\<rparr>))),
     k_close = (\<lambda>fd k. k\<lparr>ft_used := removeAll fd (ft_used k)\<rparr>),
     k_open_null = (\<lambda>k. if limit \<le> card (set (ft_used k)) then (- 1, k)
        else (let fd = fresh_fd (ft_used k) in (fd, k\<lparr>ft_used := fd # ft_used k\<rparr>)))\<rparr>"

lemma least_unused_range: "i \<le> least_unused n i xs \<and> least_unused n i xs \<le> i + int n"
  by (induction n arbitrary: i) (auto, smt (verit), smt (verit))

lemma least_unused_skips: "i \<le> j \<Longrightarrow> j < least_unused n i xs \<Longrightarrow> j \<in> set xs"
proof (induction n arbitrary: i)
  case (Suc n)
  show ?case
    using Suc.IH [of "i + 1"] Suc.prems by (cases "j = i") (auto split: if_splits)
qed simp

lemma fresh_fd_unused: "fresh_fd xs \<notin> set xs"
proof
  assume hit: "fresh_fd xs \<in> set xs"
  have stop: "least_unused n i xs \<notin> set xs \<or> least_unused n i xs = i + int n" for n i
  proof (induction n arbitrary: i)
    case (Suc n)
    show ?case
      using Suc.IH [of "i + 1"] by (auto simp: algebra_simps)
  qed simp
  have eq: "fresh_fd xs = int (length xs)"
    using stop [of "length xs" 0] hit by (auto simp: fresh_fd_def)
  have "{0..int (length xs)} \<subseteq> set xs"
  proof
    fix j assume j: "j \<in> {0..int (length xs)}"
    then show "j \<in> set xs"
      using least_unused_skips [of 0 j "length xs" xs] hit eq by (cases "j = int (length xs)") (auto simp: fresh_fd_def)
  qed
  then have "card {0..int (length xs)} \<le> length xs"
    by (meson List.finite_set card_length card_mono le_trans)
  then show False
    by simp
qed

interpretation table: descriptor_table "table_kernel limit" "\<lambda>k. set (ft_used k)" "\<lambda>k. length (ft_backlog k)" limit for limit
proof unfold_locales
  fix k :: fd_table
  show "length (ft_backlog k) = 0 \<Longrightarrow> k_accept (table_kernel limit) k = (Inl EWOULDBLOCK, k)"
    by (simp add: table_kernel_def)
  show "0 < length (ft_backlog k) \<Longrightarrow> limit \<le> card (set (ft_used k)) \<Longrightarrow> k_accept (table_kernel limit) k = (Inl EMFILE, k)"
    by (cases "ft_backlog k") (simp_all add: table_kernel_def)
  have nonneg: "0 \<le> fresh_fd (ft_used k)"
    using least_unused_range [of 0 "length (ft_used k)" "ft_used k"] by (simp add: fresh_fd_def)
  show "0 < length (ft_backlog k) \<Longrightarrow> card (set (ft_used k)) < limit \<Longrightarrow>
      \<exists>fd a k'. k_accept (table_kernel limit) k = (Inr (fd, a), k') \<and> 0 \<le> fd \<and> fd \<notin> set (ft_used k) \<and>
        set (ft_used k') = insert fd (set (ft_used k)) \<and> length (ft_backlog k') = length (ft_backlog k) - 1"
    using nonneg fresh_fd_unused by (cases "ft_backlog k") (simp_all add: table_kernel_def Let_def)
  show "card (set (ft_used k)) < limit \<Longrightarrow>
      \<exists>fd k'. k_open_null (table_kernel limit) k = (fd, k') \<and> 0 \<le> fd \<and> fd \<notin> set (ft_used k) \<and>
        set (ft_used k') = insert fd (set (ft_used k)) \<and> length (ft_backlog k') = length (ft_backlog k)"
    using nonneg fresh_fd_unused by (simp add: table_kernel_def Let_def)
qed (auto simp: table_kernel_def)

end
