(* ===== verification/Net_TcpServer.thy ===== *)
theory Net_TcpServer
  imports My_TcpConnection Net_Pool Net_Sockets
begin

text \<open>
  \<^verbatim>\<open>TcpServer\<close> of both libraries. A \<^verbatim>\<open>TcpConnectionPtr\<close> is the number of the connection in the list \<open>conns\<close>
  of all connections ever created; \<^verbatim>\<open>connections_\<close> is the map from names to those numbers. Loops are
  numbers, and the first argument of an operation is the loop whose thread executes it; what is handed to
  another loop waits in \<open>taskQueue\<close>, first come first served for every loop. The theorem about the server is about every
  interleaving of accepted connections, closing connections and tasks of the loops.
\<close>

section \<open>State\<close>

record server_conn =
  connName :: string
  ioLoop :: nat
  tcp :: tcp_connection

datatype server_task = Establish nat | RemoveConn nat | DestroyConn nat

record tcp_server =
  ipPort :: string
  serverName :: string
  serverAcceptor :: acceptor
  threadPool :: "nat loop_pool"
  startedFlag :: int
  nextConnId :: int
  serverWriteComplete :: bool
  connections :: "string \<Rightarrow> nat option"
  conns :: "server_conn list"
  taskQueue :: "(nat \<times> server_task) list"

abbreviation server_loop :: "tcp_server \<Rightarrow> nat" where
  "server_loop s \<equiv> baseLoop (threadPool s)"

definition queue_in :: "nat \<Rightarrow> server_task \<Rightarrow> tcp_server \<Rightarrow> tcp_server" where
  "queue_in l t s = s\<lparr>taskQueue := taskQueue s @ [(l, t)]\<rparr>"

text \<open>A method of connection \<open>h\<close>, called in the thread of loop \<open>cur\<close>.\<close>

definition on_conn :: "nat \<Rightarrow> nat \<Rightarrow> (tcp_connection \<Rightarrow> tcp_connection res) \<Rightarrow> tcp_server \<Rightarrow> tcp_server res" where
  "on_conn cur h method s =
     (if h < length (conns s)
      then (let sc = conns s ! h in
        rbind (method ((tcp sc)\<lparr>onLoopThread := (cur = ioLoop sc)\<rparr>)) (\<lambda>c.
          Inr (s\<lparr>conns := (conns s)[h := sc\<lparr>tcp := c\<rparr>]\<rparr>)))
      else Inl NullDeref)"

section \<open>muduo\<close>

definition TcpServer_new :: "nat \<Rightarrow> string \<Rightarrow> string \<Rightarrow> acceptor \<Rightarrow> tcp_server" where
  "TcpServer_new loop ipPort' nameArg acc =
     \<lparr>ipPort = ipPort', serverName = nameArg, serverAcceptor = Acceptor_setNewConnectionCallback acc,
      threadPool = EventLoopThreadPool_new loop nameArg, startedFlag = 0, nextConnId = 1, serverWriteComplete = False,
      connections = Map.empty, conns = [], taskQueue = []\<rparr>"

definition TcpServer_setThreadNum :: "int \<Rightarrow> tcp_server \<Rightarrow> tcp_server res" where
  "TcpServer_setThreadNum n s =
     c_assert (0 \<le> n) (Inr (s\<lparr>threadPool := EventLoopThreadPool_setThreadNum n (threadPool s)\<rparr>))"

definition TcpServer_setWriteCompleteCallback :: "tcp_server \<Rightarrow> tcp_server" where
  "TcpServer_setWriteCompleteCallback s = s\<lparr>serverWriteComplete := True\<rparr>"

text \<open>The thread pool refuses to start outside the server's loop, so \<^verbatim>\<open>runInLoop\<close> runs \<^verbatim>\<open>listen\<close> at once.\<close>

definition TcpServer_start :: "nat \<Rightarrow> (nat \<Rightarrow> nat) \<Rightarrow> bool \<Rightarrow> int \<Rightarrow> tcp_server \<Rightarrow> tcp_server res" where
  "TcpServer_start cur startLoop hasCb listenRet s =
     (let s1 = s\<lparr>startedFlag := 1\<rparr> in
      if startedFlag s = 0
      then rbind (EventLoopThreadPool_start (cur = server_loop s) startLoop hasCb (threadPool s)) (\<lambda>(cb, p).
             c_assert (\<not> listenning (serverAcceptor s))
               (rbind (Acceptor_listen (cur = server_loop s) listenRet (serverAcceptor s)) (\<lambda>a.
                  Inr (s1\<lparr>threadPool := p, serverAcceptor := a\<rparr>))))
      else Inr s1)"

text \<open>The name, printed into a buffer of 64 bytes.\<close>

definition conn_name :: "string \<Rightarrow> string \<Rightarrow> int \<Rightarrow> string" where
  "conn_name server ip n = server @ take 63 (''-'' @ ip @ ''#'' @ show_int n)"

definition TcpServer_newConnection :: "conn_callbacks \<Rightarrow> nat \<Rightarrow> int \<Rightarrow> tcp_server \<Rightarrow> tcp_server res" where
  "TcpServer_newConnection cbs cur sockfd s =
     (if cur \<noteq> server_loop s then Inl Exited
      else rbind (EventLoopThreadPool_getNextLoop (cur = server_loop s) (threadPool s)) (\<lambda>(io, p).
        let name = conn_name (serverName s) (ipPort s) (nextConnId s) in
        rbind (TcpConnection_new sockfd (cur = io)) (\<lambda>c.
          let h = length (conns s);
              s1 = s\<lparr>threadPool := p, nextConnId := nextConnId s + 1, connections := (connections s)(name := Some h),
                     conns := conns s @ [\<lparr>connName = name, ioLoop = io, tcp = c\<lparr>hasWriteComplete := serverWriteComplete s\<rparr>\<rparr>]\<rparr>
          in if cur = io then on_conn cur h (TcpConnection_connectEstablished cbs) s1
             else Inr (queue_in io (Establish h) s1))))"

definition TcpServer_removeConnectionInLoop :: "nat \<Rightarrow> nat \<Rightarrow> tcp_server \<Rightarrow> tcp_server res" where
  "TcpServer_removeConnectionInLoop cur h s =
     (if cur \<noteq> server_loop s then Inl Exited
      else (let sc = conns s ! h; n = (if connections s (connName sc) = None then 0 else 1 :: nat);
                s1 = s\<lparr>connections := (connections s)(connName sc := None)\<rparr>
            in c_assert (n = 1) (Inr (queue_in (ioLoop sc) (DestroyConn h) s1))))"

definition TcpServer_removeConnection :: "nat \<Rightarrow> nat \<Rightarrow> tcp_server \<Rightarrow> tcp_server res" where
  "TcpServer_removeConnection cur h s =
     (if cur = server_loop s then TcpServer_removeConnectionInLoop cur h s
      else Inr (queue_in (server_loop s) (RemoveConn h) s))"

text \<open>\<open>order\<close> is the order in which the destructor's loop visits the map.\<close>

primrec destroy_all :: "conn_callbacks \<Rightarrow> nat \<Rightarrow> nat list \<Rightarrow> tcp_server \<Rightarrow> tcp_server res" where
  "destroy_all cbs cur [] s = Inr s"
| "destroy_all cbs cur (h # hs) s =
     rbind (if cur = ioLoop (conns s ! h) then on_conn cur h (TcpConnection_connectDestroyed cbs) s
            else Inr (queue_in (ioLoop (conns s ! h)) (DestroyConn h) s)) (destroy_all cbs cur hs)"

definition TcpServer_delete :: "conn_callbacks \<Rightarrow> nat \<Rightarrow> nat list \<Rightarrow> tcp_server \<Rightarrow> tcp_server res" where
  "TcpServer_delete cbs cur order s =
     (if cur \<noteq> server_loop s then Inl Exited else destroy_all cbs cur order s)"

section \<open>Tasks of the loops\<close>

fun pop_task :: "nat \<Rightarrow> (nat \<times> server_task) list \<Rightarrow> (server_task \<times> (nat \<times> server_task) list) option" where
  "pop_task l [] = None"
| "pop_task l ((k, t) # q) = (if k = l then Some (t, q) else map_option (\<lambda>(t', q'). (t', (k, t) # q')) (pop_task l q))"

primrec run_task :: "conn_callbacks \<Rightarrow> nat \<Rightarrow> server_task \<Rightarrow> tcp_server \<Rightarrow> tcp_server res" where
  "run_task cbs l (Establish h) s = on_conn l h (TcpConnection_connectEstablished cbs) s"
| "run_task cbs l (RemoveConn h) s = TcpServer_removeConnectionInLoop l h s"
| "run_task cbs l (DestroyConn h) s = on_conn l h (TcpConnection_connectDestroyed cbs) s"

text \<open>\<^verbatim>\<open>handleClose\<close> of a connection whose close callback is the server's \<^verbatim>\<open>removeConnection\<close>, the last thing the
  handler does.\<close>

definition close_conn :: "conn_callbacks \<Rightarrow> nat \<Rightarrow> tcp_server \<Rightarrow> tcp_server res" where
  "close_conn cbs h s =
     (let l = ioLoop (conns s ! h) in
      rbind (on_conn l h (TcpConnection_handleClose (cbs\<lparr>closeCallback := Inr\<rparr>)) s) (TcpServer_removeConnection l h))"

section \<open>myMuduo\<close>

definition MyTcpServer_new :: "nat \<Rightarrow> string \<Rightarrow> string \<Rightarrow> acceptor \<Rightarrow> tcp_server" where
  "MyTcpServer_new loop ipPort' nameArg acc =
     \<lparr>ipPort = ipPort', serverName = nameArg, serverAcceptor = MyAcceptor_setNewConnectionCallback acc,
      threadPool = EventLoopThreadPool_new loop nameArg, startedFlag = 0, nextConnId = 1, serverWriteComplete = False,
      connections = Map.empty, conns = [], taskQueue = []\<rparr>"

definition MyTcpServer_setThreadNum :: "int \<Rightarrow> tcp_server \<Rightarrow> tcp_server" where
  "MyTcpServer_setThreadNum n s = s\<lparr>threadPool := EventLoopThreadPool_setThreadNum n (threadPool s)\<rparr>"

text \<open>\<^verbatim>\<open>started_++\<close> counts; another thread's call leaves \<^verbatim>\<open>listen\<close> to the loop, which the answer says.\<close>

definition MyTcpServer_start :: "nat \<Rightarrow> (nat \<Rightarrow> nat) \<Rightarrow> bool \<Rightarrow> tcp_server \<Rightarrow> (bool \<times> tcp_server) res" where
  "MyTcpServer_start cur startLoop hasCb s =
     (let s1 = s\<lparr>startedFlag := startedFlag s + 1\<rparr> in
      if startedFlag s = 0
      then (let (cb, p) = MyEventLoopThreadPool_start startLoop hasCb (threadPool s); s2 = s1\<lparr>threadPool := p\<rparr> in
            if cur = server_loop s
            then rbind (MyAcceptor_listen (serverAcceptor s)) (\<lambda>a. Inr (False, s2\<lparr>serverAcceptor := a\<rparr>))
            else Inr (True, s2))
      else Inr (False, s1))"

text \<open>A failed \<^verbatim>\<open>getsockname\<close> ends the process.\<close>

definition MyTcpServer_newConnection :: "conn_callbacks \<Rightarrow> nat \<Rightarrow> int \<Rightarrow> int \<Rightarrow> tcp_server \<Rightarrow> tcp_server res" where
  "MyTcpServer_newConnection cbs cur sockfd getsocknameRet s =
     rbind (MyEventLoopThreadPool_getNextLoop (threadPool s)) (\<lambda>(io, p).
       let name = conn_name (serverName s) (ipPort s) (nextConnId s) in
       if getsocknameRet < 0 then Inl Exited
       else rbind (MyTcpConnection_new sockfd (cur = io)) (\<lambda>c.
         let h = length (conns s);
             s1 = s\<lparr>threadPool := p, nextConnId := nextConnId s + 1, connections := (connections s)(name := Some h),
                    conns := conns s @ [\<lparr>connName = name, ioLoop = io, tcp = c\<lparr>hasWriteComplete := serverWriteComplete s\<rparr>\<rparr>]\<rparr>
         in if cur = io then on_conn cur h (MyTcpConnection_connectEstablished cbs) s1
            else Inr (queue_in io (Establish h) s1)))"

definition MyTcpServer_removeConnectionInLoop :: "nat \<Rightarrow> tcp_server \<Rightarrow> tcp_server" where
  "MyTcpServer_removeConnectionInLoop h s =
     queue_in (ioLoop (conns s ! h)) (DestroyConn h) (s\<lparr>connections := (connections s)(connName (conns s ! h) := None)\<rparr>)"

definition MyTcpServer_removeConnection :: "nat \<Rightarrow> nat \<Rightarrow> tcp_server \<Rightarrow> tcp_server" where
  "MyTcpServer_removeConnection cur h s =
     (if cur = server_loop s then MyTcpServer_removeConnectionInLoop h s else queue_in (server_loop s) (RemoveConn h) s)"

primrec MyTcpServer_delete :: "conn_callbacks \<Rightarrow> nat \<Rightarrow> nat list \<Rightarrow> tcp_server \<Rightarrow> tcp_server res" where
  "MyTcpServer_delete cbs cur [] s = Inr s"
| "MyTcpServer_delete cbs cur (h # hs) s =
     rbind (if cur = ioLoop (conns s ! h) then on_conn cur h (MyTcpConnection_connectDestroyed cbs) s
            else Inr (queue_in (ioLoop (conns s ! h)) (DestroyConn h) s)) (MyTcpServer_delete cbs cur hs)"

end
