(* ===== verification/Server_Laws.thy ===== *)
theory Server_Laws
  imports Net_TcpServer
begin

text \<open>
  Every interleaving of a server's events. The invariant says of each connection which of its five phases it is
  in: waiting to be established in its loop, up, down and waiting to be removed from the map by the server's
  loop, removed and waiting to be destroyed in its own loop, destroyed. No step fails an assertion, and when the loops take turns all
  waiting tasks come to an end.
\<close>

section \<open>Runs\<close>

datatype server_act = Accept int | Closed nat | Use nat tcp_connection | RunTask nat

definition up_state :: "conn_state \<Rightarrow> bool" where
  "up_state st \<longleftrightarrow> st = kConnected \<or> st = kDisconnecting"

text \<open>\<open>Use\<close> is anything a connection that is up does while it stays up.\<close>

primrec server_act_step :: "conn_callbacks \<Rightarrow> server_act \<Rightarrow> tcp_server \<Rightarrow> tcp_server res" where
  "server_act_step cbs (Accept sockfd) s = TcpServer_newConnection cbs (server_loop s) sockfd s"
| "server_act_step cbs (Closed h) s =
     (if h < length (conns s) \<and> up_state (connState (tcp (conns s ! h))) then close_conn cbs h s else Inr s)"
| "server_act_step cbs (Use h c) s =
     (if h < length (conns s) \<and> up_state (connState (tcp (conns s ! h))) \<and> up_state (connState c)
      then Inr (s\<lparr>conns := (conns s)[h := (conns s ! h)\<lparr>tcp := c\<rparr>]\<rparr>) else Inr s)"
| "server_act_step cbs (RunTask l) s =
     (case pop_task l (taskQueue s) of None \<Rightarrow> Inr s | Some (t, q) \<Rightarrow> run_task cbs l t (s\<lparr>taskQueue := q\<rparr>))"

primrec run_server :: "conn_callbacks \<Rightarrow> server_act list \<Rightarrow> tcp_server \<Rightarrow> tcp_server res" where
  "run_server cbs [] s = Inr s"
| "run_server cbs (a # as) s = rbind (server_act_step cbs a s) (run_server cbs as)"

text \<open>User callbacks that neither fail nor take a connection down or up by themselves.\<close>

definition tame :: "conn_callbacks \<Rightarrow> bool" where
  "tame cbs \<longleftrightarrow> (\<forall>c. (up_state (connState c) \<longrightarrow> (\<exists>c'. connectionCallback cbs c = Inr c' \<and> up_state (connState c'))) \<and>
     (connState c = kDisconnected \<and> Channel_isNoneEvent (chan c) \<longrightarrow>
       (\<exists>c'. connectionCallback cbs c = Inr c' \<and> connState c' = kDisconnected \<and> Channel_isNoneEvent (chan c'))))"

section \<open>The invariant\<close>

primrec task_conn :: "server_task \<Rightarrow> nat" where
  "task_conn (Establish h) = h" | "task_conn (RemoveConn h) = h" | "task_conn (DestroyConn h) = h"

definition tasks_of :: "nat \<Rightarrow> (nat \<times> server_task) list \<Rightarrow> (nat \<times> server_task) list" where
  "tasks_of h q = filter (\<lambda>x. task_conn (snd x) = h) q"

definition phase_ok :: "nat \<Rightarrow> nat \<Rightarrow> (nat \<times> server_task) list \<Rightarrow> bool \<Rightarrow> server_conn \<Rightarrow> bool" where
  "phase_ok base h ts listed sc \<longleftrightarrow>
     (ts = [(ioLoop sc, Establish h)] \<and> connState (tcp sc) = kConnecting \<and> listed) \<or>
     (ts = [] \<and> up_state (connState (tcp sc)) \<and> listed) \<or>
     (ts = [(base, RemoveConn h)] \<and> connState (tcp sc) = kDisconnected \<and> Channel_isNoneEvent (chan (tcp sc)) \<and> listed) \<or>
     (ts = [(ioLoop sc, DestroyConn h)] \<and> connState (tcp sc) = kDisconnected \<and> Channel_isNoneEvent (chan (tcp sc)) \<and> \<not> listed) \<or>
     (ts = [] \<and> connState (tcp sc) = kDisconnected \<and> \<not> listed)"

definition conn_phase :: "tcp_server \<Rightarrow> nat \<Rightarrow> bool" where
  "conn_phase s h \<longleftrightarrow> phase_ok (server_loop s) h (tasks_of h (taskQueue s))
     (connections s (connName (conns s ! h)) = Some h) (conns s ! h)"

definition max_conns :: nat where
  "max_conns = 2 ^ 31 - 2"

definition server_ok :: "tcp_server \<Rightarrow> bool" where
  "server_ok s \<longleftrightarrow> started (threadPool s) \<and> (loops (threadPool s) = [] \<or> pool_ok (threadPool s)) \<and>
     length (ipPort s) \<le> 51 \<and> length (conns s) \<le> max_conns \<and> nextConnId s = int (length (conns s)) + 1 \<and>
     (\<forall>h < length (conns s). connName (conns s ! h) = conn_name (serverName s) (ipPort s) (int h + 1)) \<and>
     (\<forall>x \<in> set (taskQueue s). task_conn (snd x) < length (conns s)) \<and>
     (\<forall>n h. connections s n = Some h \<longrightarrow> h < length (conns s)) \<and>
     (\<forall>h < length (conns s). conn_phase s h)"

lemma conn_name_inj:
  assumes "length ip \<le> 51" "m \<le> max_conns + 1" "n \<le> max_conns + 1" "conn_name server ip (int m) = conn_name server ip (int n)"
  shows "m = n"
proof -
  have len: "length (show_nat k) \<le> 10" if "k \<le> max_conns + 1" for k
    using length_show_nat_le [of k 9] that by (simp add: max_conns_def)
  have "take 63 (''-'' @ ip @ ''#'' @ show_nat k) = ''-'' @ ip @ ''#'' @ show_nat k" if "k \<le> max_conns + 1" for k
    using len [OF that] assms(1) by (intro take_all) simp
  then have "show_nat m = show_nat n"
    using assms by (simp add: conn_name_def show_int_def)
  then show ?thesis
    by (simp add: show_nat_inj)
qed

lemma names_distinct:
  assumes "server_ok s" "i < length (conns s)" "h < length (conns s)" "connName (conns s ! i) = connName (conns s ! h)"
  shows "i = h"
proof -
  have "conn_name (serverName s) (ipPort s) (int (Suc i)) = conn_name (serverName s) (ipPort s) (int (Suc h))"
    using assms by (auto simp: server_ok_def add.commute)
  then show ?thesis
    using conn_name_inj [of "ipPort s" "Suc i" "Suc h"] assms(1-3) by (auto simp: server_ok_def)
qed

lemma tasks_of_append [simp]: "tasks_of h (q @ q') = tasks_of h q @ tasks_of h q'"
  by (simp add: tasks_of_def)

lemma tasks_of_simps [simp]:
  "tasks_of h [] = []" "tasks_of h ((l, t) # q) = (if task_conn t = h then (l, t) # tasks_of h q else tasks_of h q)"
  by (simp_all add: tasks_of_def)

lemma pop_task_tasks:
  "pop_task l q = Some (t, q') \<Longrightarrow> (l, t) \<in> set q \<and> set q' \<subseteq> set q \<and>
   (task_conn t \<noteq> h \<longrightarrow> tasks_of h q' = tasks_of h q) \<and>
   (task_conn t = h \<longrightarrow> (\<exists>a b. tasks_of h q = a @ (l, t) # b \<and> tasks_of h q' = a @ b))"
proof (induction l q arbitrary: q' rule: pop_task.induct)
  case (2 l k u q)
  show ?case
  proof (cases "k = l")
    case True
    then show ?thesis
      using "2.prems" by auto
  next
    case False
    then obtain r where r: "pop_task l q = Some (t, r)" "q' = (k, u) # r"
      using "2.prems" by auto
    have ih: "(l, t) \<in> set q \<and> set r \<subseteq> set q \<and>
       (task_conn t \<noteq> h \<longrightarrow> tasks_of h r = tasks_of h q) \<and>
       (task_conn t = h \<longrightarrow> (\<exists>a b. tasks_of h q = a @ (l, t) # b \<and> tasks_of h r = a @ b))"
      using "2.IH" [OF False r(1)] .
    then show ?thesis
      using r(2) by (auto, metis append_Cons)
  qed
qed simp

text \<open>What a step on connection \<open>h\<close> must show: the others keep their phase because their tasks, their
  listing and their record do.\<close>

lemma server_ok_update:
  assumes ok: "server_ok s" and h: "h < length (conns s)"
    and same: "threadPool s' = threadPool s" "ipPort s' = ipPort s" "serverName s' = serverName s" "nextConnId s' = nextConnId s"
    and conns: "conns s' = (conns s)[h := (conns s ! h)\<lparr>tcp := c\<rparr>]"
    and listing: "connections s' = connections s \<or> connections s' = (connections s)(connName (conns s ! h) := None)"
    and tasks: "\<And>i. i \<noteq> h \<Longrightarrow> tasks_of i (taskQueue s') = tasks_of i (taskQueue s)"
      "\<forall>x \<in> set (taskQueue s'). task_conn (snd x) < length (conns s)"
    and phase: "phase_ok (server_loop s) h (tasks_of h (taskQueue s')) (connections s' (connName (conns s ! h)) = Some h)
      ((conns s ! h)\<lparr>tcp := c\<rparr>)"
  shows "server_ok s'"
proof -
  have names: "connName (conns s' ! i) = connName (conns s ! i)" if "i < length (conns s)" for i
    using that h by (simp add: conns nth_list_update)
  have "conn_phase s' i" if i: "i < length (conns s)" for i
  proof (cases "i = h")
    case True
    then show ?thesis
      using phase h by (simp add: conn_phase_def conns same)
  next
    case False
    then have "connName (conns s ! i) \<noteq> connName (conns s ! h)"
      using names_distinct [OF ok i h] by auto
    then have "connections s' (connName (conns s ! i)) = connections s (connName (conns s ! i))"
      using listing by auto
    moreover have "conn_phase s i"
      using ok i by (simp add: server_ok_def)
    ultimately show ?thesis
      using False tasks(1) [OF False] by (simp add: conn_phase_def conns same)
  qed
  moreover have "\<forall>n i. connections s' n = Some i \<longrightarrow> i < length (conns s)"
    using ok listing by (auto simp: server_ok_def split: if_splits)
  ultimately show ?thesis
    using ok names tasks(2) by (simp add: server_ok_def same conns)
qed

section \<open>Steps\<close>

lemma established_up:
  assumes "tame cbs" "connState c = kConnecting" "onLoopThread c"
  shows "\<exists>c'. TcpConnection_connectEstablished cbs c = Inr c' \<and> up_state (connState c')"
proof -
  let ?c = "chan_events (events (chan c) OR kReadEvent) (c\<lparr>connState := kConnected, chan := Channel_tie (chan c)\<rparr>)"
  have "TcpConnection_connectEstablished cbs c = connectionCallback cbs ?c"
    using assms by (simp add: TcpConnection_connectEstablished_def TcpConnection_setState_def conn_simps Channel_tie_def)
  then show ?thesis
    using assms(1) by (simp add: tame_def up_state_def)
qed

lemma closed_down:
  assumes "tame cbs" "up_state (connState c)" "onLoopThread c"
  shows "\<exists>c'. TcpConnection_handleClose (cbs\<lparr>closeCallback := Inr\<rparr>) c = Inr c' \<and> connState c' = kDisconnected
    \<and> Channel_isNoneEvent (chan c')"
proof -
  let ?c = "chan_events kNoneEvent (TcpConnection_setState kDisconnected c)"
  obtain c' where "connectionCallback cbs ?c = Inr c'" "connState c' = kDisconnected" "Channel_isNoneEvent (chan c')"
    using assms(1) by (force simp: tame_def TcpConnection_setState_def Channel_isNoneEvent_def)
  moreover have "TcpConnection_handleClose (cbs\<lparr>closeCallback := Inr\<rparr>) c = rbind (connectionCallback cbs ?c) Inr"
    using assms(2,3) by (auto simp: TcpConnection_handleClose_def conn_simps up_state_def)
  ultimately show ?thesis
    by simp
qed

lemma destroyed_down:
  assumes "connState c = kDisconnected" "Channel_isNoneEvent (chan c)" "onLoopThread c"
  shows "\<exists>c'. TcpConnection_connectDestroyed cbs c = Inr c' \<and> connState c' = kDisconnected"
  using assms by (simp add: TcpConnection_connectDestroyed_def on_chan_def Channel_remove_def Channel_isNoneEvent_def)

lemma phase_tasks:
  assumes "server_ok s" "h < length (conns s)"
  shows "conn_phase s h"
  using assms by (simp add: server_ok_def)

lemma pop_only_task:
  assumes "server_ok s" "pop_task l (taskQueue s) = Some (t, q)"
  shows "task_conn t < length (conns s)" "tasks_of (task_conn t) (taskQueue s) = [(l, t)]" "tasks_of (task_conn t) q = []"
    "\<And>i. i \<noteq> task_conn t \<Longrightarrow> tasks_of i q = tasks_of i (taskQueue s)" "set q \<subseteq> set (taskQueue s)"
proof -
  let ?h = "task_conn t"
  note pop = pop_task_tasks [OF assms(2)]
  have h: "?h < length (conns s)"
    using pop [of ?h] assms(1) by (force simp: server_ok_def)
  obtain a b where ab: "tasks_of ?h (taskQueue s) = a @ (l, t) # b" "tasks_of ?h q = a @ b"
    using pop [of ?h] by blast
  have "length (tasks_of ?h (taskQueue s)) \<le> 1"
    using phase_tasks [OF assms(1) h] by (auto simp: conn_phase_def phase_ok_def)
  then have "a = [] \<and> b = []"
    using ab by simp
  then show "tasks_of ?h (taskQueue s) = [(l, t)]" "tasks_of ?h q = []"
    using ab by simp_all
  show "?h < length (conns s)" by (rule h)
  show "tasks_of i q = tasks_of i (taskQueue s)" if "i \<noteq> ?h" for i
    using pop [of i] that by auto
  show "set q \<subseteq> set (taskQueue s)"
    using pop [of ?h] by blast
qed

lemma on_conn_ok:
  assumes "h < length (conns s)" "method ((tcp (conns s ! h))\<lparr>onLoopThread := (cur = ioLoop (conns s ! h))\<rparr>) = Inr c"
  shows "on_conn cur h method s = Inr (s\<lparr>conns := (conns s)[h := (conns s ! h)\<lparr>tcp := c\<rparr>]\<rparr>)"
  using assms by (simp add: on_conn_def Let_def)

lemma task_step_ok:
  assumes "server_ok s" "tame cbs" "pop_task l (taskQueue s) = Some (t, q)"
  shows "\<exists>s'. run_task cbs l t (s\<lparr>taskQueue := q\<rparr>) = Inr s' \<and> server_ok s' \<and> length (conns s') = length (conns s)"
proof -
  note pop = pop_only_task [OF assms(1,3)]
  let ?h = "task_conn t" and ?s = "s\<lparr>taskQueue := q\<rparr>"
  let ?sc = "conns s ! ?h"
  let ?c = "(tcp ?sc)\<lparr>onLoopThread := (l = ioLoop ?sc)\<rparr>"
  have bound: "\<forall>x \<in> set q. task_conn (snd x) < length (conns s)"
    using pop(5) assms(1) by (auto simp: server_ok_def)
  have phase: "phase_ok (server_loop s) ?h [(l, t)] (connections s (connName ?sc) = Some ?h) ?sc"
    using phase_tasks [OF assms(1) pop(1)] pop(2) by (simp add: conn_phase_def)
  show ?thesis
  proof (cases t)
    case (Establish i)
    then have "l = ioLoop ?sc" "connState (tcp ?sc) = kConnecting" and listed: "connections s (connName ?sc) = Some ?h"
      using phase by (auto simp: phase_ok_def)
    then obtain c where c: "TcpConnection_connectEstablished cbs ?c = Inr c" "up_state (connState c)"
      using established_up [OF assms(2), of ?c] by auto
    have "server_ok (?s\<lparr>conns := (conns s)[?h := ?sc\<lparr>tcp := c\<rparr>]\<rparr>)"
      by (rule server_ok_update [OF assms(1) pop(1), where c = c]) (use pop c listed bound in \<open>auto simp: phase_ok_def\<close>)
    then show ?thesis
      using on_conn_ok [of ?h ?s _ l c] c pop(1) Establish by simp
  next
    case (RemoveConn i)
    then have base: "l = server_loop s" and st: "connState (tcp ?sc) = kDisconnected" "Channel_isNoneEvent (chan (tcp ?sc))"
      and listed: "connections s (connName ?sc) = Some ?h"
      using phase by (auto simp: phase_ok_def)
    have "server_ok (queue_in (ioLoop ?sc) (DestroyConn ?h) (?s\<lparr>connections := (connections s)(connName ?sc := None)\<rparr>))"
      by (rule server_ok_update [OF assms(1) pop(1), where c = "tcp ?sc"])
        (use pop st bound in \<open>auto simp: phase_ok_def queue_in_def\<close>)
    then show ?thesis
      using base listed RemoveConn by (simp add: TcpServer_removeConnectionInLoop_def Let_def queue_in_def)
  next
    case (DestroyConn i)
    then have "l = ioLoop ?sc" and st: "connState (tcp ?sc) = kDisconnected" "Channel_isNoneEvent (chan (tcp ?sc))"
      and unlisted: "connections s (connName ?sc) \<noteq> Some ?h"
      using phase by (auto simp: phase_ok_def)
    then obtain c where c: "TcpConnection_connectDestroyed cbs ?c = Inr c" "connState c = kDisconnected"
      using destroyed_down [of ?c cbs] by auto
    have "server_ok (?s\<lparr>conns := (conns s)[?h := ?sc\<lparr>tcp := c\<rparr>]\<rparr>)"
      by (rule server_ok_update [OF assms(1) pop(1), where c = c]) (use pop c unlisted bound in \<open>auto simp: phase_ok_def\<close>)
    then show ?thesis
      using on_conn_ok [of ?h ?s _ l c] c pop(1) DestroyConn by simp
  qed
qed

lemma up_phase:
  assumes "server_ok s" "h < length (conns s)" "up_state (connState (tcp (conns s ! h)))"
  shows "tasks_of h (taskQueue s) = []" "connections s (connName (conns s ! h)) = Some h"
  using phase_tasks [OF assms(1,2)] assms(3) by (auto simp: conn_phase_def phase_ok_def up_state_def)

lemma close_step_ok:
  assumes "server_ok s" "tame cbs" "h < length (conns s)" "up_state (connState (tcp (conns s ! h)))"
  shows "\<exists>s'. close_conn cbs h s = Inr s' \<and> server_ok s' \<and> length (conns s') = length (conns s)"
proof -
  note up = up_phase [OF assms(1,3,4)]
  have bound: "\<forall>x \<in> set (taskQueue s). task_conn (snd x) < length (conns s)"
    using assms(1) by (simp add: server_ok_def)
  let ?sc = "conns s ! h"
  obtain c where c: "TcpConnection_handleClose (cbs\<lparr>closeCallback := Inr\<rparr>) ((tcp ?sc)\<lparr>onLoopThread := True\<rparr>) = Inr c"
      "connState c = kDisconnected" "Channel_isNoneEvent (chan c)"
    using closed_down [OF assms(2), of "(tcp ?sc)\<lparr>onLoopThread := True\<rparr>"] assms(4) by auto
  let ?s1 = "s\<lparr>conns := (conns s)[h := ?sc\<lparr>tcp := c\<rparr>]\<rparr>"
  have s1: "on_conn (ioLoop ?sc) h (TcpConnection_handleClose (cbs\<lparr>closeCallback := Inr\<rparr>)) s = Inr ?s1"
    using on_conn_ok [of h s] c(1) assms(3) by simp
  show ?thesis
  proof (cases "ioLoop ?sc = server_loop s")
    case True
    have "server_ok (queue_in (ioLoop ?sc) (DestroyConn h) (?s1\<lparr>connections := (connections s)(connName ?sc := None)\<rparr>))"
      by (rule server_ok_update [OF assms(1,3), where c = c]) (use up c assms(3) bound in \<open>auto simp: phase_ok_def queue_in_def\<close>)
    then show ?thesis
      using s1 True up(2) assms(3)
      by (simp add: close_conn_def Let_def TcpServer_removeConnection_def TcpServer_removeConnectionInLoop_def queue_in_def)
  next
    case False
    have "server_ok (queue_in (server_loop s) (RemoveConn h) ?s1)"
      by (rule server_ok_update [OF assms(1,3), where c = c]) (use up c assms(3) bound in \<open>auto simp: phase_ok_def queue_in_def\<close>)
    then show ?thesis
      using s1 False by (simp add: close_conn_def Let_def TcpServer_removeConnection_def queue_in_def)
  qed
qed

lemma use_step_ok:
  assumes "server_ok s" "h < length (conns s)" "up_state (connState (tcp (conns s ! h)))" "up_state (connState c)"
  shows "server_ok (s\<lparr>conns := (conns s)[h := (conns s ! h)\<lparr>tcp := c\<rparr>]\<rparr>)"
proof -
  have "\<forall>x \<in> set (taskQueue s). task_conn (snd x) < length (conns s)"
    using assms(1) by (simp add: server_ok_def)
  then show ?thesis
    by (intro server_ok_update [OF assms(1,2), where c = c]) (use up_phase [OF assms(1-3)] assms(4) in \<open>auto simp: phase_ok_def\<close>)
qed

text \<open>A new connection: its name is new, so the map gains it and loses nothing.\<close>

lemma server_ok_add:
  assumes ok: "server_ok s" and room: "length (conns s) < max_conns"
    and p: "started p" "loops p = [] \<or> pool_ok p" "baseLoop p = server_loop s"
    and sc: "connName sc = conn_name (serverName s) (ipPort s) (nextConnId s)"
    and q: "taskQueue s' = taskQueue s @ ts" "\<forall>x \<in> set ts. task_conn (snd x) = length (conns s)"
    and s': "threadPool s' = p" "ipPort s' = ipPort s" "serverName s' = serverName s" "nextConnId s' = nextConnId s + 1"
      "connections s' = (connections s)(connName sc := Some (length (conns s)))" "conns s' = conns s @ [sc]"
    and phase: "phase_ok (server_loop s) (length (conns s)) ts True sc"
  shows "server_ok s'"
proof -
  let ?n = "length (conns s)"
  have name: "connName sc = conn_name (serverName s) (ipPort s) (int ?n + 1)"
    using ok sc by (simp add: server_ok_def)
  have others: "tasks_of i ts = []" if "i < ?n" for i
    using q(2) that by (auto simp: tasks_of_def filter_empty_conv)
  have none: "tasks_of ?n (taskQueue s) = []" "tasks_of ?n ts = ts"
    using ok q(2) by (fastforce simp: tasks_of_def filter_empty_conv server_ok_def, simp add: tasks_of_def)
  have "conn_phase s' i" if i: "i < length (conns s')" for i
  proof (cases "i = ?n")
    case True
    then show ?thesis
      using phase none by (simp add: conn_phase_def s' p q)
  next
    case False
    then have i': "i < ?n"
      using i s'(6) by simp
    have "connName (conns s ! i) \<noteq> connName sc"
    proof
      assume "connName (conns s ! i) = connName sc"
      then have "conn_name (serverName s) (ipPort s) (int (Suc i)) = conn_name (serverName s) (ipPort s) (int (Suc ?n))"
        using ok i' name by (simp add: server_ok_def add.commute)
      then show False
        using conn_name_inj [of "ipPort s" "Suc i" "Suc ?n"] ok i' room by (simp add: server_ok_def)
    qed
    then show ?thesis
      using phase_tasks [OF ok i'] i' others by (simp add: conn_phase_def s' p q nth_append)
  qed
  moreover have "\<forall>h < length (conns s'). connName (conns s' ! h) = conn_name (serverName s') (ipPort s') (int h + 1)"
    using ok name by (auto simp: s' server_ok_def nth_append less_Suc_eq)
  moreover have "\<forall>x \<in> set (taskQueue s'). task_conn (snd x) < length (conns s')"
    using ok q by (fastforce simp: s' server_ok_def)
  moreover have "\<forall>n h. connections s' n = Some h \<longrightarrow> h < length (conns s')"
    using ok by (auto simp: s' server_ok_def less_Suc_eq split: if_splits)
  ultimately show ?thesis
    using ok room p by (simp add: server_ok_def s')
qed

lemma getNextLoop_server:
  assumes "server_ok s"
  shows "\<exists>io p. EventLoopThreadPool_getNextLoop True (threadPool s) = Inr (io, p) \<and> started p \<and>
    (loops p = [] \<or> pool_ok p) \<and> baseLoop p = server_loop s \<and> loops p = loops (threadPool s)"
proof (cases "loops (threadPool s) = []")
  case True
  then show ?thesis
    using assms by (simp add: EventLoopThreadPool_getNextLoop_def server_ok_def)
next
  case False
  then have "pool_ok (threadPool s)"
    using assms by (simp add: server_ok_def)
  then show ?thesis
    using getNextLoop_eq(1) [of "threadPool s"] pool_ok_next [of "threadPool s"] assms by (auto simp: server_ok_def)
qed

lemma TcpConnection_new_ok: "\<exists>c. TcpConnection_new n b = Inr c \<and> connState c = kConnecting"
  using Buffer_new_ok [of kInitialSize] by (auto simp: TcpConnection_new_def kInitialSize_def kCheapPrepend_def vec_max_def)

lemma accept_step_ok:
  assumes "server_ok s" "tame cbs" "length (conns s) < max_conns"
  shows "\<exists>s'. TcpServer_newConnection cbs (server_loop s) n s = Inr s' \<and> server_ok s' \<and> length (conns s') = Suc (length (conns s))"
proof -
  obtain io p where p: "EventLoopThreadPool_getNextLoop True (threadPool s) = Inr (io, p)" "started p"
      "loops p = [] \<or> pool_ok p" "baseLoop p = server_loop s"
    using getNextLoop_server [OF assms(1)] by blast
  obtain c where c: "TcpConnection_new n (server_loop s = io) = Inr c" "connState c = kConnecting"
    using TcpConnection_new_ok by blast
  define h where "h = length (conns s)"
  define sc where "sc = \<lparr>connName = conn_name (serverName s) (ipPort s) (nextConnId s), ioLoop = io,
      tcp = c\<lparr>hasWriteComplete := serverWriteComplete s\<rparr>\<rparr>"
  define s1 where "s1 = s\<lparr>threadPool := p, nextConnId := nextConnId s + 1,
      connections := (connections s)(connName sc := Some h), conns := conns s @ [sc]\<rparr>"
  have new: "TcpServer_newConnection cbs (server_loop s) n s =
      (if server_loop s = io then on_conn io h (TcpConnection_connectEstablished cbs) s1
       else Inr (queue_in io (Establish h) s1))"
    using p(1) c(1) by (simp add: TcpServer_newConnection_def Let_def h_def sc_def s1_def)
  note add = server_ok_add [OF assms(1,3) p(2-4)]
  show ?thesis
  proof (cases "server_loop s = io")
    case True
    obtain c' where c': "TcpConnection_connectEstablished cbs ((tcp sc)\<lparr>onLoopThread := True\<rparr>) = Inr c'" "up_state (connState c')"
      using established_up [OF assms(2), of "(tcp sc)\<lparr>onLoopThread := True\<rparr>"] c(2) by (auto simp: sc_def)
    have at: "conns s1 ! h = sc" "ioLoop sc = io" "h < length (conns s1)"
      by (simp_all add: s1_def h_def sc_def)
    have "on_conn io h (TcpConnection_connectEstablished cbs) s1 = Inr (s1\<lparr>conns := conns s @ [sc\<lparr>tcp := c'\<rparr>]\<rparr>)"
      using on_conn_ok [of h s1 _ io c'] at c'(1) by (simp add: s1_def h_def)
    moreover have "server_ok (s1\<lparr>conns := conns s @ [sc\<lparr>tcp := c'\<rparr>]\<rparr>)"
      by (rule add [of "sc\<lparr>tcp := c'\<rparr>" _ "[]"]) (use c'(2) in \<open>simp_all add: s1_def h_def sc_def phase_ok_def\<close>)
    ultimately show ?thesis
      using new True by simp
  next
    case False
    have "server_ok (queue_in io (Establish h) s1)"
      by (rule add [of sc _ "[(io, Establish h)]"]) (use c(2) in \<open>simp_all add: s1_def h_def sc_def phase_ok_def queue_in_def\<close>)
    then show ?thesis
      using new False by (simp add: queue_in_def s1_def)
  qed
qed

definition is_accept :: "server_act \<Rightarrow> bool" where
  "is_accept a \<longleftrightarrow> (\<exists>n. a = Accept n)"

lemma act_step_ok:
  assumes "server_ok s" "tame cbs" "length (conns s) + (if is_accept a then 1 else 0) \<le> max_conns"
  shows "\<exists>s'. server_act_step cbs a s = Inr s' \<and> server_ok s' \<and>
    length (conns s') = length (conns s) + (if is_accept a then 1 else 0)"
proof (cases a)
  case (Accept n)
  then show ?thesis
    using accept_step_ok [OF assms(1,2), of n] assms(3) by (simp add: is_accept_def)
next
  case (Closed h)
  then show ?thesis
    using close_step_ok [OF assms(1,2), of h] assms(1) by (auto simp: is_accept_def)
next
  case (Use h c)
  then show ?thesis
    using use_step_ok [OF assms(1), of h c] assms(1) by (auto simp: is_accept_def)
next
  case (RunTask l)
  then show ?thesis
    using task_step_ok [OF assms(1,2), of l] assms(1) by (auto simp: is_accept_def split: option.split)
qed

lemma run_server_ok:
  "server_ok s \<Longrightarrow> tame cbs \<Longrightarrow> length (conns s) + length (filter is_accept as) \<le> max_conns \<Longrightarrow>
   \<exists>s'. run_server cbs as s = Inr s' \<and> server_ok s' \<and> length (conns s') = length (conns s) + length (filter is_accept as)"
proof (induction as arbitrary: s)
  case (Cons a as)
  then obtain s1 where s1: "server_act_step cbs a s = Inr s1" "server_ok s1"
      "length (conns s1) = length (conns s) + (if is_accept a then 1 else 0)"
    using act_step_ok [of s cbs a] by (auto split: if_splits)
  have "length (conns s1) + length (filter is_accept as) \<le> max_conns"
    using s1(3) Cons.prems(3) by (simp split: if_splits)
  from Cons.IH [OF s1(2) Cons.prems(2) this] show ?case
    using s1 by auto
qed simp

text \<open>The server's own loop never changes.\<close>

lemma on_conn_pool: "ensures (on_conn cur h m s) (\<lambda>s'. threadPool s' = threadPool s)"
  by (auto simp: on_conn_def Let_def intro: ensures_rbind_any)

lemma act_step_loop: "ensures (server_act_step cbs a s) (\<lambda>s'. server_loop s' = server_loop s)"
proof (cases a)
  case (Accept n)
  have "ensures (EventLoopThreadPool_getNextLoop True (threadPool s)) (\<lambda>(l, p). baseLoop p = server_loop s)"
    by (auto simp: EventLoopThreadPool_getNextLoop_def Let_def)
  moreover have "ensures (on_conn cur h m x) (\<lambda>s'. server_loop s' = server_loop x)" for cur h m x
    using on_conn_pool [of cur h m x] by (auto simp: ensures_def)
  ultimately show ?thesis
    using Accept by (auto simp: TcpServer_newConnection_def Let_def queue_in_def ensures_def rbind_eq_Inr)
next
  case (Closed h)
  then show ?thesis
    using on_conn_pool by (auto simp: close_conn_def Let_def TcpServer_removeConnection_def TcpServer_removeConnectionInLoop_def
        queue_in_def ensures_def rbind_eq_Inr c_assert_eq_Inr split: if_splits)
next
  case (RunTask l)
  have "ensures (run_task cbs l t x) (\<lambda>s'. server_loop s' = server_loop x)" for t x
    using on_conn_pool by (cases t) (auto simp: TcpServer_removeConnectionInLoop_def Let_def queue_in_def ensures_def c_assert_eq_Inr
        split: if_splits)
  from this [of _ "s\<lparr>taskQueue := q\<rparr>" for q] show ?thesis
    using RunTask by (auto split: option.split)
qed auto

lemma run_server_loop: "run_server cbs as s = Inr s' \<Longrightarrow> server_loop s' = server_loop s"
proof (induction as arbitrary: s)
  case (Cons a as)
  then show ?case
    using ensuresD [OF act_step_loop] by (force simp: rbind_eq_Inr)
qed simp

section \<open>A server from its constructor\<close>

definition started_server :: "nat \<Rightarrow> string \<Rightarrow> string \<Rightarrow> acceptor \<Rightarrow> int \<Rightarrow> (nat \<Rightarrow> nat) \<Rightarrow> tcp_server res" where
  "started_server loop ip name acc threads startLoop =
     rbind (TcpServer_setThreadNum threads (TcpServer_new loop ip name acc)) (TcpServer_start loop startLoop False 0)"

lemma started_server_ok:
  assumes "0 \<le> threads" "length ip \<le> 51" "\<not> listenning acc"
  shows "\<exists>s. started_server loop ip name acc threads startLoop = Inr s \<and> server_ok s \<and> conns s = [] \<and> taskQueue s = []
    \<and> server_loop s = loop \<and> loops (threadPool s) = map startLoop [0..<nat threads]"
proof -
  let ?a = "(Acceptor_setNewConnectionCallback acc)\<lparr>listenning := True\<rparr>"
  obtain a where "accept_chan Channel_enableReading ?a = Inr a"
    by (simp add: accept_chan_def Channel_enableReading_def Channel_update_def)
  then show ?thesis
    using assms
    by (auto simp: started_server_def TcpServer_setThreadNum_def TcpServer_new_def TcpServer_start_def Acceptor_listen_def listenOrDie_def
        EventLoopThreadPool_start_def EventLoopThreadPool_new_def EventLoopThreadPool_setThreadNum_def server_ok_def pool_ok_def
        Acceptor_setNewConnectionCallback_def max_conns_def Let_def)
qed

text \<open>
  C17. In every interleaving of accepted connections, connections that close and tasks of the loops, on a
  server with any number of loops, no assertion of the server or of a connection fails and no task runs in
  the wrong thread. Every connection has its own name and at most one task pending; it is in the map from its
  acceptance until the server's loop has removed it, and that removal happens once.
\<close>

theorem TcpServer_interleavings:
  assumes "started_server loop ip name acc threads startLoop = Inr s" "0 \<le> threads" "length ip \<le> 51" "\<not> listenning acc"
    "tame cbs" "length (filter is_accept as) \<le> max_conns"
  shows "\<exists>s'. run_server cbs as s = Inr s' \<and> length (conns s') = length (filter is_accept as) \<and>
    distinct (map connName (conns s')) \<and>
    (\<forall>h < length (conns s'). length (tasks_of h (taskQueue s')) \<le> 1 \<and>
      (connections s' (connName (conns s' ! h)) = Some h \<longleftrightarrow>
        connState (tcp (conns s' ! h)) \<noteq> kDisconnected \<or> (loop, RemoveConn h) \<in> set (taskQueue s')))"
proof -
  have s: "server_ok s" "conns s = []" "server_loop s = loop"
    using started_server_ok [OF assms(2-4), of loop name startLoop] assms(1) by auto
  obtain s' where s': "run_server cbs as s = Inr s'" "server_ok s'" "length (conns s') = length (filter is_accept as)"
    using run_server_ok [OF s(1) assms(5), of as] s(2) assms(6) by auto
  have base: "server_loop s' = loop"
    using run_server_loop [OF s'(1)] s(3) by simp
  have "distinct (map connName (conns s'))"
    using names_distinct [OF s'(2)] by (auto simp: distinct_conv_nth)
  moreover have "length (tasks_of h (taskQueue s')) \<le> 1 \<and>
      (connections s' (connName (conns s' ! h)) = Some h \<longleftrightarrow>
        connState (tcp (conns s' ! h)) \<noteq> kDisconnected \<or> (loop, RemoveConn h) \<in> set (taskQueue s'))"
    if h: "h < length (conns s')" for h
  proof -
    have "(loop, RemoveConn h) \<in> set (taskQueue s') \<longleftrightarrow> (loop, RemoveConn h) \<in> set (tasks_of h (taskQueue s'))"
      by (simp add: tasks_of_def)
    then show ?thesis
      using phase_tasks [OF s'(2) h] base by (auto simp: conn_phase_def phase_ok_def up_state_def)
  qed
  ultimately show ?thesis
    using s' by blast
qed

definition idle_acceptor :: acceptor where
  "idle_acceptor = \<lparr>acceptChannel = Channel_new 3, listenning = False, idleFd = 4, hasNewConnection = False\<rparr>"

lemma idle_callbacks_tame: "tame idle_callbacks"
  by (auto simp: tame_def idle_callbacks_def defaultConnectionCallback_def)

lemma sample_started:
  "\<exists>s. started_server 0 ''127.0.0.1:80'' ''srv'' idle_acceptor 2 Suc = Inr s"
  using started_server_ok [of 2 "''127.0.0.1:80''" idle_acceptor 0 "''srv''" Suc] by (auto simp: idle_acceptor_def)

theorem TcpServer_interleavings_witness:
  "\<exists>s s'. started_server 0 ''127.0.0.1:80'' ''srv'' idle_acceptor 2 Suc = Inr s \<and>
     run_server idle_callbacks [Accept 7, RunTask 1, Accept 8, Closed 0, RunTask 2, RunTask 0, RunTask 1] s = Inr s' \<and>
     length (conns s') = 2 \<and> distinct (map connName (conns s'))"
proof -
  let ?as = "[Accept 7, RunTask 1, Accept 8, Closed 0, RunTask 2, RunTask 0, RunTask 1]"
  obtain s where s: "started_server 0 ''127.0.0.1:80'' ''srv'' idle_acceptor 2 Suc = Inr s"
    using sample_started by blast
  have "filter is_accept ?as = [Accept 7, Accept 8]"
    by (simp add: is_accept_def)
  then show ?thesis
    using TcpServer_interleavings [OF s _ _ _ idle_callbacks_tame, of ?as] s by (fastforce simp: idle_acceptor_def max_conns_def)
qed

section \<open>Tasks come to an end\<close>

primrec task_weight :: "server_task \<Rightarrow> nat" where
  "task_weight (Establish h) = 1" | "task_weight (RemoveConn h) = 2" | "task_weight (DestroyConn h) = 1"

definition pending_weight :: "tcp_server \<Rightarrow> nat" where
  "pending_weight s = sum_list (map (task_weight \<circ> snd) (taskQueue s))"

lemma run_task_weight:
  assumes "run_task cbs l t s = Inr s'"
  shows "pending_weight s' < pending_weight s + task_weight t"
  using assms by (cases t) (auto simp: on_conn_def Let_def rbind_eq_Inr pending_weight_def TcpServer_removeConnectionInLoop_def
      queue_in_def c_assert_eq_Inr split: if_splits)

lemma pop_task_weight:
  "pop_task l q = Some (t, q') \<Longrightarrow> sum_list (map (task_weight \<circ> snd) q) = task_weight t + sum_list (map (task_weight \<circ> snd) q')"
  by (induction l q arbitrary: q' rule: pop_task.induct) (auto split: if_splits)

lemma pop_task_None: "pop_task l q = None \<longleftrightarrow> l \<notin> fst ` set q"
  by (induction l q rule: pop_task.induct) auto

text \<open>The loops that can have tasks: the server's and those of its connections.\<close>

definition server_loops :: "tcp_server \<Rightarrow> nat set" where
  "server_loops s = insert (server_loop s) (ioLoop ` set (conns s))"

lemma task_loops:
  assumes "server_ok s" "(l, t) \<in> set (taskQueue s)"
  shows "l \<in> server_loops s"
proof -
  let ?h = "task_conn t"
  have h: "?h < length (conns s)"
    using assms by (auto simp: server_ok_def)
  have "(l, t) \<in> set (tasks_of ?h (taskQueue s))"
    using assms(2) by (simp add: tasks_of_def)
  then have "l = server_loop s \<or> l = ioLoop (conns s ! ?h)"
    using phase_tasks [OF assms(1) h] by (auto simp: conn_phase_def phase_ok_def)
  then show ?thesis
    using h by (auto simp: server_loops_def)
qed

lemma run_task_loops:
  assumes "run_task cbs l t s = Inr s'"
  shows "server_loops s' = server_loops s"
proof -
  have "map ioLoop (conns s') = map ioLoop (conns s) \<and> server_loop s' = server_loop s"
    using assms by (cases t) (auto simp: on_conn_def TcpServer_removeConnectionInLoop_def queue_in_def Let_def rbind_eq_Inr c_assert_eq_Inr
        map_update list_update_same_conv split: if_splits)
  then have "set (map ioLoop (conns s')) = set (map ioLoop (conns s))" "server_loop s' = server_loop s"
    by simp_all
  then show ?thesis
    by (simp add: server_loops_def)
qed

text \<open>One turn of a loop: nothing waits for it, or the pending work shrinks.\<close>

lemma turn_ok:
  assumes "server_ok s" "tame cbs"
  shows "\<exists>s'. server_act_step cbs (RunTask l) s = Inr s' \<and> server_ok s' \<and> length (conns s') = length (conns s) \<and> server_loops s' = server_loops s \<and>
    (if l \<in> fst ` set (taskQueue s) then pending_weight s' < pending_weight s else s' = s)"
proof (cases "pop_task l (taskQueue s)")
  case None
  then show ?thesis
    using assms(1) pop_task_None [of l "taskQueue s"] by simp
next
  case (Some x)
  obtain t q where x: "x = (t, q)" by (cases x)
  have pop: "pop_task l (taskQueue s) = Some (t, q)"
    using Some x by simp
  obtain s' where s': "run_task cbs l t (s\<lparr>taskQueue := q\<rparr>) = Inr s'" "server_ok s'" "length (conns s') = length (conns s)"
    using task_step_ok [OF assms pop] by blast
  have "pending_weight s' < pending_weight s"
    using run_task_weight [OF s'(1)] pop_task_weight [OF pop] by (simp add: pending_weight_def)
  moreover have "server_loops s' = server_loops s"
    using run_task_loops [OF s'(1)] by (simp add: server_loops_def)
  moreover have "l \<in> fst ` set (taskQueue s)"
    using pop pop_task_None [of l "taskQueue s"] by auto
  ultimately show ?thesis
    using s' pop by simp
qed

lemma turns_ok:
  "server_ok s \<Longrightarrow> tame cbs \<Longrightarrow>
   \<exists>s'. run_server cbs (map RunTask ls) s = Inr s' \<and> server_ok s' \<and> length (conns s') = length (conns s) \<and> server_loops s' = server_loops s \<and>
     pending_weight s' \<le> pending_weight s \<and> (pending_weight s' = pending_weight s \<longrightarrow> set ls \<inter> fst ` set (taskQueue s) = {})"
proof (induction ls arbitrary: s)
  case (Cons l ls)
  obtain s1 where s1: "server_act_step cbs (RunTask l) s = Inr s1" "server_ok s1" "length (conns s1) = length (conns s)" "server_loops s1 = server_loops s"
      "if l \<in> fst ` set (taskQueue s) then pending_weight s1 < pending_weight s else s1 = s"
    using turn_ok [OF Cons.prems] by blast
  then show ?case
    using Cons.IH [OF s1(2) Cons.prems(2)] by (cases "l \<in> fst ` set (taskQueue s)") (auto simp del: server_act_step.simps)
qed simp

lemma run_server_append: "run_server cbs (as @ bs) s = rbind (run_server cbs as s) (run_server cbs bs)"
proof (induction as arbitrary: s)
  case (Cons a as)
  then show ?case
    by (cases "server_act_step cbs a s") simp_all
qed simp

lemma rounds_ok:
  "server_ok s \<Longrightarrow> tame cbs \<Longrightarrow> \<forall>r\<in>set rs. server_loops s \<subseteq> set r \<Longrightarrow>
   \<exists>s'. run_server cbs (map RunTask (concat rs)) s = Inr s' \<and> server_ok s' \<and> length (conns s') = length (conns s) \<and>
     pending_weight s' \<le> pending_weight s - length rs"
proof (induction rs arbitrary: s)
  case (Cons r rs)
  obtain s1 where s1: "run_server cbs (map RunTask r) s = Inr s1" "server_ok s1" "length (conns s1) = length (conns s)" "server_loops s1 = server_loops s"
      "pending_weight s1 \<le> pending_weight s" "pending_weight s1 = pending_weight s \<longrightarrow> set r \<inter> fst ` set (taskQueue s) = {}"
    using turns_ok [OF Cons.prems(1,2)] by blast
  have less: "pending_weight s1 \<le> pending_weight s - 1"
  proof (cases "pending_weight s1 = pending_weight s")
    case True
    then have none: "set r \<inter> fst ` set (taskQueue s) = {}"
      using s1(6) by blast
    have "fst ` set (taskQueue s) \<subseteq> set r"
      using task_loops [OF Cons.prems(1)] Cons.prems(3) by force
    then have "taskQueue s = []"
      using none by (cases "taskQueue s") auto
    then show ?thesis
      using True by (simp add: pending_weight_def)
  qed (use s1(5) in simp)
  have "\<forall>r\<in>set rs. server_loops s1 \<subseteq> set r"
    using Cons.prems(3) s1(4) by simp
  then obtain s' where "run_server cbs (map RunTask (concat rs)) s1 = Inr s'" "server_ok s'" "length (conns s') = length (conns s1)"
      "pending_weight s' \<le> pending_weight s1 - length rs"
    using Cons.IH [OF s1(2) Cons.prems(2)] by blast
  then show ?case
    using s1(1,3) less by (auto simp: run_server_append)
qed simp

lemma no_weight: "pending_weight s = 0 \<Longrightarrow> taskQueue s = []"
proof (cases "taskQueue s")
  case (Cons x q)
  moreover have "0 < task_weight (snd x)"
    by (cases "snd x") simp_all
  ultimately show "pending_weight s = 0 \<Longrightarrow> ?thesis"
    by (simp add: pending_weight_def)
qed

text \<open>
  C18. Whatever has happened to a server, it settles under every fair schedule: when the loops then take turns, in rounds in
  which each loop gets at least one turn and the turns come in any order, every turn succeeds, and after as many rounds
  as there is pending work, two for every connection that waits to be removed and one for every other waiting task, nothing waits any more
  and the map holds exactly the connections that are up: nothing that was closed stays, nothing that is up was dropped, and nothing
  is still to be established.
\<close>

theorem TcpServer_settles:
  assumes "started_server loop ip name acc threads startLoop = Inr s" "0 \<le> threads" "length ip \<le> 51" "\<not> listenning acc"
    "tame cbs" "length (filter is_accept as) \<le> max_conns" "run_server cbs as s = Inr s1"
    "\<forall>r\<in>set rs. insert (server_loop s1) (ioLoop ` set (conns s1)) \<subseteq> set r" "pending_weight s1 \<le> length rs"
  shows "\<exists>s'. run_server cbs (map RunTask (concat rs)) s1 = Inr s' \<and> taskQueue s' = [] \<and> length (conns s') = length (conns s1) \<and>
    (\<forall>h < length (conns s'). if connections s' (connName (conns s' ! h)) = Some h
       then up_state (connState (tcp (conns s' ! h))) else connState (tcp (conns s' ! h)) = kDisconnected)"
proof -
  have s: "server_ok s" "conns s = []"
    using started_server_ok [OF assms(2-4), of loop name startLoop] assms(1) by auto
  have ok: "server_ok s1"
    using run_server_ok [OF s(1) assms(5), of as] s(2) assms(6,7) by auto
  obtain s' where s': "run_server cbs (map RunTask (concat rs)) s1 = Inr s'" "server_ok s'" "length (conns s') = length (conns s1)"
      "pending_weight s' \<le> pending_weight s1 - length rs"
    using rounds_ok [OF ok assms(5)] assms(8) unfolding server_loops_def by blast
  have empty: "taskQueue s' = []"
    using s'(4) assms(9) by (intro no_weight) simp
  have "if connections s' (connName (conns s' ! h)) = Some h then up_state (connState (tcp (conns s' ! h)))
      else connState (tcp (conns s' ! h)) = kDisconnected" if "h < length (conns s')" for h
    using phase_tasks [OF s'(2) that] empty by (auto simp: conn_phase_def phase_ok_def)
  then show ?thesis
    using s' empty by blast
qed

text \<open>Two connections on the server's own loop, the first of which closes: after one round it is gone from the map and the other is there.\<close>

lemma sample_closed:
  "\<exists>s s1. started_server 0 ''127.0.0.1:80'' ''srv'' idle_acceptor 0 Suc = Inr s \<and>
     run_server idle_callbacks [Accept 7, Accept 8, Closed 0] s = Inr s1 \<and> taskQueue s1 = [(0, DestroyConn 0)] \<and>
     server_loop s1 = 0 \<and> map ioLoop (conns s1) = [0, 0] \<and> connState (tcp (conns s1 ! 1)) = kConnected"
proof -
  obtain b where b: "Buffer_new kInitialSize = Inr b"
    using Buffer_new_ok [of kInitialSize] by (auto simp: kInitialSize_def kCheapPrepend_def vec_max_def)
  have names: "conn_name ''srv'' ''127.0.0.1:80'' 1 \<noteq> conn_name ''srv'' ''127.0.0.1:80'' 2"
    by code_simp
  show ?thesis
    using names
    by (simp add: started_server_def TcpServer_setThreadNum_def TcpServer_new_def TcpServer_start_def Acceptor_listen_def listenOrDie_def
        EventLoopThreadPool_start_def EventLoopThreadPool_new_def EventLoopThreadPool_setThreadNum_def Acceptor_setNewConnectionCallback_def
        accept_chan_def Channel_enableReading_def Channel_update_def idle_acceptor_def Let_def
        TcpServer_newConnection_def EventLoopThreadPool_getNextLoop_def TcpConnection_new_def b on_conn_def TcpConnection_connectEstablished_def
        conn_simps TcpConnection_setState_def idle_callbacks_def defaultConnectionCallback_def up_state_def close_conn_def TcpConnection_handleClose_def
        TcpServer_removeConnection_def TcpServer_removeConnectionInLoop_def queue_in_def)
qed

theorem TcpServer_settles_witness:
  "\<exists>s s1 s'. started_server 0 ''127.0.0.1:80'' ''srv'' idle_acceptor 0 Suc = Inr s \<and>
     run_server idle_callbacks [Accept 7, Accept 8, Closed 0] s = Inr s1 \<and> taskQueue s1 = [(0, DestroyConn 0)] \<and>
     run_server idle_callbacks (map RunTask (concat [[0]])) s1 = Inr s' \<and> taskQueue s' = [] \<and>
     (\<forall>h < 2. if connections s' (connName (conns s' ! h)) = Some h
       then up_state (connState (tcp (conns s' ! h))) else connState (tcp (conns s' ! h)) = kDisconnected)"
proof -
  let ?as = "[Accept 7, Accept 8, Closed 0]"
  obtain s s1 where s1: "started_server 0 ''127.0.0.1:80'' ''srv'' idle_acceptor 0 Suc = Inr s" "run_server idle_callbacks ?as s = Inr s1"
      "taskQueue s1 = [(0, DestroyConn 0)]" "server_loop s1 = 0" "map ioLoop (conns s1) = [0, 0]"
    using sample_closed by (elim exE conjE) (rule that)
  have "ioLoop ` set (conns s1) = {0}" "length (conns s1) = 2"
    using s1(5) by (metis list.set_map list.simps(15) insert_absorb2 list.set(1), metis length_map length_Cons list.size(3) numeral_2_eq_2 One_nat_def)
  moreover have "pending_weight s1 \<le> length [[0 :: nat]]"
    by (simp add: pending_weight_def s1(3))
  moreover have "filter is_accept ?as = [Accept 7, Accept 8]"
    by (simp add: is_accept_def)
  ultimately show ?thesis
    using TcpServer_settles [OF s1(1) _ _ _ idle_callbacks_tame _ s1(2), of "[[0]]"] s1(1-4) by (fastforce simp: idle_acceptor_def max_conns_def)
qed

text \<open>
  C19. With the process at its limit of descriptors and connections waiting, the acceptor gives up its
  reserved descriptor, takes one waiting connection and closes it, and reserves a descriptor again: each readable event
  takes one connection off the queue, so a level-triggered poller does not spin, no descriptor leaks and no other
  descriptor is touched. The rewrite ends the process in the same situation.
\<close>

theorem Acceptor_emfile_drains:
  assumes "descriptor_table ker used backlog limit" "limit = card (used k)" "0 < backlog k" "idleFd a \<in> used k"
  shows "\<exists>a' k'. Acceptor_handleRead ker newConnection True a k s = Inr (a', k', s) \<and> backlog k' = backlog k - 1 \<and>
    card (used k') = limit \<and> idleFd a' \<in> used k' \<and> used k - {idleFd a} \<subseteq> used k' \<and>
    MyAcceptor_handleRead ker newConnection a k s = Inl Exited"
  using descriptor_table.emfile_drains [OF assms, of newConnection s] descriptor_table.accept_full [OF assms(1), of k] assms(2,3)
  by (auto simp: MyAcceptor_handleRead_def)

definition full_table :: fd_table where
  "full_table = \<lparr>ft_used = [3, 4, 5], ft_backlog = [\<lparr>sa_family = AF_INET, sin_port = 80, sin_addr = ''abcd''\<rparr>]\<rparr>"

theorem Acceptor_emfile_drains_witness:
  "\<exists>a' k'. Acceptor_handleRead (table_kernel 3) (\<lambda>_ _ s. Inr s) True idle_acceptor full_table () = Inr (a', k', ()) \<and>
     ft_backlog k' = []"
proof -
  have "descriptor_table (table_kernel 3) (\<lambda>k. set (ft_used k)) (\<lambda>k. length (ft_backlog k)) 3"
    by (rule table.descriptor_table_axioms)
  from Acceptor_emfile_drains [OF this, of full_table idle_acceptor "\<lambda>_ _ s. Inr s" "()"] show ?thesis
    by (auto simp: full_table_def idle_acceptor_def)
qed

text \<open>\<^verbatim>\<open>start()\<close> called from another thread ends the process, in \<^verbatim>\<open>EventLoopThreadPool::start\<close>.\<close>

lemma TcpServer_start_other_thread:
  assumes "cur \<noteq> server_loop s" "startedFlag s = 0" "\<not> started (threadPool s)"
  shows "TcpServer_start cur startLoop hasCb ret s = Inl Exited"
  using assms by (simp add: TcpServer_start_def EventLoopThreadPool_start_def)

end
