(* ===== verification/Net_Http.thy ===== *)
theory Net_Http
  imports Connection_Laws "HOL-Library.Char_ord" "HOL-Library.List_Lexorder"
begin

text \<open>
  The HTTP server of muduo (\<^verbatim>\<open>muduo/net/http\<close>): \<^verbatim>\<open>HttpRequest\<close>, \<^verbatim>\<open>HttpContext\<close> with its resumable parser,
  \<^verbatim>\<open>HttpResponse\<close> and the handlers of \<^verbatim>\<open>HttpServer\<close>. A pair of pointers into the input buffer is the string
  between them. The parser's loop may not return, so it is a partial function: \<open>None\<close> means that it runs
  forever. The connection's context object is the second component of the handlers' state.
\<close>

section \<open>HttpRequest\<close>

datatype http_method = kInvalid | kGet | kPost | kHead | kPut | kDelete
datatype http_version = kUnknown | kHttp10 | kHttp11

record http_request =
  req_method :: http_method
  req_version :: http_version
  req_path :: string
  req_query :: string
  req_receiveTime :: timestamp
  req_headers :: "string \<Rightarrow> string option"

definition HttpRequest_new :: http_request where
  "HttpRequest_new = \<lparr>req_method = kInvalid, req_version = kUnknown, req_path = '''', req_query = '''',
     req_receiveTime = Timestamp 0, req_headers = Map.empty\<rparr>"

definition HttpRequest_setVersion :: "http_version \<Rightarrow> http_request \<Rightarrow> http_request" where
  "HttpRequest_setVersion v r = r\<lparr>req_version := v\<rparr>"

definition HttpRequest_setMethod :: "string \<Rightarrow> http_request \<Rightarrow> (bool \<times> http_request) res" where
  "HttpRequest_setMethod m r =
     c_assert (req_method r = kInvalid)
       (let r1 = r\<lparr>req_method :=
          (if m = ''GET'' then kGet else if m = ''POST'' then kPost else if m = ''HEAD'' then kHead
           else if m = ''PUT'' then kPut else if m = ''DELETE'' then kDelete else kInvalid)\<rparr>
        in Inr (req_method r1 \<noteq> kInvalid, r1))"

definition HttpRequest_methodString :: "http_method \<Rightarrow> string" where
  "HttpRequest_methodString m =
     (case m of kGet \<Rightarrow> ''GET'' | kPost \<Rightarrow> ''POST'' | kHead \<Rightarrow> ''HEAD'' | kPut \<Rightarrow> ''PUT'' | kDelete \<Rightarrow> ''DELETE''
      | kInvalid \<Rightarrow> ''UNKNOWN'')"

definition HttpRequest_setPath :: "string \<Rightarrow> http_request \<Rightarrow> http_request" where
  "HttpRequest_setPath p r = r\<lparr>req_path := p\<rparr>"

definition HttpRequest_setQuery :: "string \<Rightarrow> http_request \<Rightarrow> http_request" where
  "HttpRequest_setQuery q r = r\<lparr>req_query := q\<rparr>"

definition HttpRequest_setReceiveTime :: "timestamp \<Rightarrow> http_request \<Rightarrow> http_request" where
  "HttpRequest_setReceiveTime t r = r\<lparr>req_receiveTime := t\<rparr>"

definition isspace :: "char \<Rightarrow> bool" where
  "isspace c \<longleftrightarrow> c \<in> {CHR 0x20, CHR 0x09, CHR 0x0A, CHR 0x0B, CHR 0x0C, CHR 0x0D}"

text \<open>\<open>line\<close> is the text between \<^verbatim>\<open>start\<close> and \<^verbatim>\<open>end\<close>, \<open>colon\<close> the distance of the colon.\<close>

definition HttpRequest_addHeader :: "string \<Rightarrow> nat \<Rightarrow> http_request \<Rightarrow> http_request" where
  "HttpRequest_addHeader line colon r =
     (let field = take colon line;
          value = dropWhile isspace (drop (Suc colon) line);
          value = rev (dropWhile isspace (rev value))
      in r\<lparr>req_headers := (req_headers r)(field := Some value)\<rparr>)"

definition HttpRequest_getHeader :: "string \<Rightarrow> http_request \<Rightarrow> string" where
  "HttpRequest_getHeader field r = (case req_headers r field of None \<Rightarrow> '''' | Some v \<Rightarrow> v)"

definition HttpRequest_swap :: "http_request \<Rightarrow> http_request \<Rightarrow> http_request \<times> http_request" where
  "HttpRequest_swap a b =
     (a\<lparr>req_method := req_method b, req_version := req_version b, req_path := req_path b, req_query := req_query b,
        req_receiveTime := req_receiveTime b, req_headers := req_headers b\<rparr>,
      b\<lparr>req_method := req_method a, req_version := req_version a, req_path := req_path a, req_query := req_query a,
        req_receiveTime := req_receiveTime a, req_headers := req_headers a\<rparr>)"

section \<open>HttpContext\<close>

datatype parse_state = kExpectRequestLine | kExpectHeaders | kExpectBody | kGotAll

record http_context =
  ctx_state :: parse_state
  ctx_request :: http_request

definition HttpContext_new :: http_context where
  "HttpContext_new = \<lparr>ctx_state = kExpectRequestLine, ctx_request = HttpRequest_new\<rparr>"

definition HttpContext_gotAll :: "http_context \<Rightarrow> bool" where
  "HttpContext_gotAll x \<longleftrightarrow> ctx_state x = kGotAll"

definition HttpContext_reset :: "http_context \<Rightarrow> http_context" where
  "HttpContext_reset x =
     x\<lparr>ctx_state := kExpectRequestLine, ctx_request := fst (HttpRequest_swap (ctx_request x) HttpRequest_new)\<rparr>"

definition HttpContext_processRequestLine :: "string \<Rightarrow> http_request \<Rightarrow> (bool \<times> http_request) res" where
  "HttpContext_processRequestLine line r =
     (case find_index (\<lambda>c. c = CHR '' '') line of
        None \<Rightarrow> Inr (False, r)
      | Some space \<Rightarrow>
          rbind (HttpRequest_setMethod (take space line) r) (\<lambda>(known, r1).
            if \<not> known then Inr (False, r1)
            else (let rest = drop (Suc space) line in
              case find_index (\<lambda>c. c = CHR '' '') rest of
                None \<Rightarrow> Inr (False, r1)
              | Some sp \<Rightarrow>
                  (let uri = take sp rest;
                       r2 = (case find_index (\<lambda>c. c = CHR ''?'') uri of
                               Some question \<Rightarrow> HttpRequest_setQuery (drop question uri)
                                 (HttpRequest_setPath (take question uri) r1)
                             | None \<Rightarrow> HttpRequest_setPath uri r1);
                       ver = drop (Suc sp) rest;
                       succeed = (length ver = 8 \<and> take 7 ver = ''HTTP/1.'')
                   in if \<not> succeed then Inr (False, r2)
                      else if ver ! 7 = CHR ''1'' then Inr (True, HttpRequest_setVersion kHttp11 r2)
                      else if ver ! 7 = CHR ''0'' then Inr (True, HttpRequest_setVersion kHttp10 r2)
                      else Inr (False, r2)))))"

text \<open>The loop of \<^verbatim>\<open>parseRequest\<close>; a state without a branch of its own goes round again.\<close>

partial_function (option) HttpContext_parseLoop ::
  "timestamp \<Rightarrow> http_context \<Rightarrow> net_buffer \<Rightarrow> (bool \<times> http_context \<times> net_buffer) res option" where
  "HttpContext_parseLoop t x buf =
     (if ctx_state x = kExpectRequestLine
      then (case Buffer_findCRLF buf of
              None \<Rightarrow> Some (Inr (True, x, buf))
            | Some crlf \<Rightarrow>
                (case HttpContext_processRequestLine (range_of buf (Buffer_peek buf) crlf) (ctx_request x) of
                   Inl e \<Rightarrow> Some (Inl e)
                 | Inr (succeed, r) \<Rightarrow>
                     if succeed
                     then (case Buffer_retrieveUntil buf (crlf + 2) of
                             Inl e \<Rightarrow> Some (Inl e)
                           | Inr buf' \<Rightarrow> HttpContext_parseLoop t
                               (x\<lparr>ctx_request := HttpRequest_setReceiveTime t r, ctx_state := kExpectHeaders\<rparr>) buf')
                     else Some (Inr (False, x\<lparr>ctx_request := r\<rparr>, buf))))
      else if ctx_state x = kExpectHeaders
      then (case Buffer_findCRLF buf of
              None \<Rightarrow> Some (Inr (True, x, buf))
            | Some crlf \<Rightarrow>
                (let line = range_of buf (Buffer_peek buf) crlf in
                 case find_index (\<lambda>c. c = CHR '':'') line of
                   Some colon \<Rightarrow>
                     (case Buffer_retrieveUntil buf (crlf + 2) of
                        Inl e \<Rightarrow> Some (Inl e)
                      | Inr buf' \<Rightarrow> HttpContext_parseLoop t
                          (x\<lparr>ctx_request := HttpRequest_addHeader line colon (ctx_request x)\<rparr>) buf')
                 | None \<Rightarrow>
                     (case Buffer_retrieveUntil buf (crlf + 2) of
                        Inl e \<Rightarrow> Some (Inl e)
                      | Inr buf' \<Rightarrow> Some (Inr (True, x\<lparr>ctx_state := kGotAll\<rparr>, buf')))))
      else HttpContext_parseLoop t x buf)"

definition HttpContext_parseRequest ::
  "net_buffer \<Rightarrow> timestamp \<Rightarrow> http_context \<Rightarrow> (bool \<times> http_context \<times> net_buffer) res option" where
  "HttpContext_parseRequest buf t x = HttpContext_parseLoop t x buf"

section \<open>HttpResponse\<close>

datatype http_status = kUnknownStatus | k200Ok | k301MovedPermanently | k400BadRequest | k404NotFound

fun status_number :: "http_status \<Rightarrow> int" where
  "status_number kUnknownStatus = 0" | "status_number k200Ok = 200" | "status_number k301MovedPermanently = 301"
| "status_number k400BadRequest = 400" | "status_number k404NotFound = 404"

text \<open>The header map is visited in the order of its keys, so it is an ordered association list.\<close>

record http_response =
  resp_headers :: "(string \<times> string) list"
  resp_status :: http_status
  resp_message :: string
  resp_close :: bool
  resp_body :: string

definition HttpResponse_new :: "bool \<Rightarrow> http_response" where
  "HttpResponse_new close = \<lparr>resp_headers = [], resp_status = kUnknownStatus, resp_message = '''', resp_close = close, resp_body = ''''\<rparr>"

definition HttpResponse_setStatusCode :: "http_status \<Rightarrow> http_response \<Rightarrow> http_response" where
  "HttpResponse_setStatusCode code r = r\<lparr>resp_status := code\<rparr>"

definition HttpResponse_setStatusMessage :: "string \<Rightarrow> http_response \<Rightarrow> http_response" where
  "HttpResponse_setStatusMessage m r = r\<lparr>resp_message := m\<rparr>"

definition HttpResponse_setCloseConnection :: "bool \<Rightarrow> http_response \<Rightarrow> http_response" where
  "HttpResponse_setCloseConnection on r = r\<lparr>resp_close := on\<rparr>"

fun map_put :: "string \<Rightarrow> string \<Rightarrow> (string \<times> string) list \<Rightarrow> (string \<times> string) list" where
  "map_put k v [] = [(k, v)]"
| "map_put k v ((k', v') # m) =
     (if k = k' then (k, v) # m else if k < k' then (k, v) # (k', v') # m else (k', v') # map_put k v m)"

definition HttpResponse_addHeader :: "string \<Rightarrow> string \<Rightarrow> http_response \<Rightarrow> http_response" where
  "HttpResponse_addHeader key value r = r\<lparr>resp_headers := map_put key value (resp_headers r)\<rparr>"

definition HttpResponse_setContentType :: "string \<Rightarrow> http_response \<Rightarrow> http_response" where
  "HttpResponse_setContentType ct r = HttpResponse_addHeader ''Content-Type'' ct r"

definition HttpResponse_setBody :: "string \<Rightarrow> http_response \<Rightarrow> http_response" where
  "HttpResponse_setBody body r = r\<lparr>resp_body := body\<rparr>"

primrec append_all :: "net_buffer \<Rightarrow> string list \<Rightarrow> net_buffer res" where
  "append_all b [] = Inr b"
| "append_all b (d # ds) = rbind (Buffer_append b d) (\<lambda>b'. append_all b' ds)"

definition crlf :: string where
  "crlf = [CHR 0x0D, CHR 0x0A]"

text \<open>The pieces the function appends, in order; \<^verbatim>\<open>snprintf\<close> writes at most 31 characters into \<^verbatim>\<open>buf\<close>.\<close>

definition response_pieces :: "http_response \<Rightarrow> string list" where
  "response_pieces r =
     [take 31 (''HTTP/1.1 '' @ show_int (status_number (resp_status r)) @ '' ''), resp_message r, crlf]
   @ (if resp_close r then [''Connection: close'' @ crlf]
      else [take 31 (''Content-Length: '' @ show_nat (length (resp_body r)) @ crlf), ''Connection: Keep-Alive'' @ crlf])
   @ concat (map (\<lambda>(k, v). [k, '': '', v, crlf]) (resp_headers r))
   @ [crlf, resp_body r]"

definition HttpResponse_appendToBuffer :: "net_buffer \<Rightarrow> http_response \<Rightarrow> net_buffer res" where
  "HttpResponse_appendToBuffer output r = append_all output (response_pieces r)"

section \<open>HttpServer\<close>

definition defaultHttpCallback :: "http_request \<Rightarrow> http_response \<Rightarrow> http_response" where
  "defaultHttpCallback req resp =
     HttpResponse_setCloseConnection True (HttpResponse_setStatusMessage ''Not Found''
       (HttpResponse_setStatusCode k404NotFound resp))"

definition HttpServer_onConnection :: "tcp_connection \<times> http_context \<Rightarrow> tcp_connection \<times> http_context" where
  "HttpServer_onConnection s = (if connState (fst s) = kConnected then (fst s, HttpContext_new) else s)"

definition HttpServer_onRequest ::
  "write_fn \<Rightarrow> (http_request \<Rightarrow> http_response \<Rightarrow> http_response) \<Rightarrow> http_request \<Rightarrow> tcp_connection \<Rightarrow> tcp_connection res" where
  "HttpServer_onRequest write httpCallback req conn =
     (let connection = HttpRequest_getHeader ''Connection'' req;
          close = (connection = ''close'' \<or> req_version req = kHttp10 \<and> connection \<noteq> ''Keep-Alive'');
          response = httpCallback req (HttpResponse_new close)
      in rbind (Buffer_new kInitialSize) (\<lambda>buf0.
         rbind (HttpResponse_appendToBuffer buf0 response) (\<lambda>buf.
         rbind (TcpConnection_sendBuffer write buf conn) (\<lambda>(buf', conn1).
           if resp_close response then TcpConnection_shutdown conn1 else Inr conn1))))"

definition bad_request :: string where
  "bad_request = ''HTTP/1.1 400 Bad Request'' @ crlf @ crlf"

definition HttpServer_onMessage ::
  "write_fn \<Rightarrow> (http_request \<Rightarrow> http_response \<Rightarrow> http_response) \<Rightarrow> timestamp \<Rightarrow> tcp_connection \<times> http_context
   \<Rightarrow> (tcp_connection \<times> http_context) res option" where
  "HttpServer_onMessage write httpCallback receiveTime s =
     map_option (\<lambda>r. rbind r (\<lambda>(succeed, ctx, buf).
       let conn = (fst s)\<lparr>inputBuffer := buf\<rparr> in
       rbind (if \<not> succeed
              then rbind (TcpConnection_send write bad_request conn) TcpConnection_shutdown else Inr conn) (\<lambda>conn1.
       if HttpContext_gotAll ctx
       then rbind (HttpServer_onRequest write httpCallback (ctx_request ctx) conn1) (\<lambda>conn2. Inr (conn2, HttpContext_reset ctx))
       else Inr (conn1, ctx))))
     (HttpContext_parseRequest (inputBuffer (fst s)) receiveTime (snd s))"

end
