(* ===== verification/Http_Laws.thy ===== *)
theory Http_Laws
  imports Net_Http
begin

text \<open>
  What the HTTP parser and server promise: the loop over the buffer computes a function of the readable
  bytes (\<open>parse_text\<close>), that function does not depend on how the bytes were cut into reads, it inverts the printing of
  a request, and a request that arrives in any pieces is answered once, in order, on the connection's stream.
\<close>

section \<open>The parser as a function of the bytes\<close>

function parse_text :: "timestamp \<Rightarrow> http_context \<Rightarrow> char list \<Rightarrow> (bool \<times> http_context \<times> char list) res" where
  "parse_text t x cs =
     (case search2 (CHR 0x0D) (CHR 0x0A) cs of
        None \<Rightarrow> Inr (True, x, cs)
      | Some i \<Rightarrow>
          (if ctx_state x = kExpectRequestLine
           then rbind (HttpContext_processRequestLine (take i cs) (ctx_request x)) (\<lambda>(succeed, r).
             if succeed
             then parse_text t (x\<lparr>ctx_request := HttpRequest_setReceiveTime t r, ctx_state := kExpectHeaders\<rparr>) (drop (i + 2) cs)
             else Inr (False, x\<lparr>ctx_request := r\<rparr>, cs))
           else (case find_index (\<lambda>c. c = CHR '':'') (take i cs) of
             Some colon \<Rightarrow> parse_text t (x\<lparr>ctx_request := HttpRequest_addHeader (take i cs) colon (ctx_request x)\<rparr>) (drop (i + 2) cs)
           | None \<Rightarrow> Inr (True, x\<lparr>ctx_state := kGotAll\<rparr>, drop (i + 2) cs))))"
  by pat_completeness auto
termination
  by (relation "measure (\<lambda>(t, x, cs). length cs)") (auto dest: search2_bound)

declare parse_text.simps [simp del]

lemma parse_line_range:
  assumes "Buffer_wf b" "search2 (CHR 0x0D) (CHR 0x0A) (Buffer_content b) = Some i"
  shows "range_of b (Buffer_peek b) (readerIndex b + i) = take i (Buffer_content b)"
    "\<exists>b'. Buffer_retrieveUntil b (Suc (Suc (readerIndex b + i))) = Inr b' \<and> Buffer_wf b' \<and>
      Buffer_content b' = drop (i + 2) (Buffer_content b) \<and> Buffer_cap b' = Buffer_cap b"
proof -
  have i: "i + 2 \<le> writerIndex b - readerIndex b"
    using search2_bound [OF assms(2)] length_Buffer_content [OF assms(1)] by simp
  then show "range_of b (Buffer_peek b) (readerIndex b + i) = take i (Buffer_content b)"
    by (simp add: range_of_def Buffer_peek_def Buffer_content_def min_def)
  show "\<exists>b'. Buffer_retrieveUntil b (Suc (Suc (readerIndex b + i))) = Inr b' \<and> Buffer_wf b' \<and>
      Buffer_content b' = drop (i + 2) (Buffer_content b) \<and> Buffer_cap b' = Buffer_cap b"
    using Buffer_retrieveUntil_ok [OF assms(1), of "readerIndex b + i + 2"] i by simp
qed

text \<open>On a well-formed buffer the loop returns, with what \<open>parse_text\<close> computes from the readable bytes.\<close>

definition parse_refines :: "(bool \<times> http_context \<times> net_buffer) res option \<Rightarrow> nat \<Rightarrow> (bool \<times> http_context \<times> char list) res \<Rightarrow> bool" where
  "parse_refines r cap spec \<longleftrightarrow>
     (case spec of
        Inl e \<Rightarrow> r = Some (Inl e)
      | Inr (succeed, x, cs) \<Rightarrow> \<exists>b. r = Some (Inr (succeed, x, b)) \<and> Buffer_wf b \<and> Buffer_content b = cs \<and> Buffer_cap b = cap)"

lemma parseLoop_refines:
  "Buffer_wf b \<Longrightarrow> ctx_state x \<in> {kExpectRequestLine, kExpectHeaders} \<Longrightarrow>
   parse_refines (HttpContext_parseLoop t x b) (Buffer_cap b) (parse_text t x (Buffer_content b))"
proof (induction "length (Buffer_content b)" arbitrary: b x rule: less_induct)
  case less
  show ?case
  proof (cases "search2 (CHR 0x0D) (CHR 0x0A) (Buffer_content b)")
    case None
    then show ?thesis
      using less.prems
      by (subst HttpContext_parseLoop.simps, subst parse_text.simps)
        (auto simp: parse_refines_def Buffer_findCRLF_content)
  next
    case (Some i)
    have found: "Buffer_findCRLF b = Some (readerIndex b + i)"
      using Some less.prems(1) by (simp add: Buffer_findCRLF_content)
    note line = parse_line_range(1) [OF less.prems(1) Some]
    obtain b' where b': "Buffer_retrieveUntil b (Suc (Suc (readerIndex b + i))) = Inr b'" "Buffer_wf b'"
        "Buffer_content b' = drop (i + 2) (Buffer_content b)" "Buffer_cap b' = Buffer_cap b"
      using parse_line_range(2) [OF less.prems(1) Some] by blast
    have "length (Buffer_content b') < length (Buffer_content b)"
      using search2_bound [OF Some] b'(3) by simp
    note ih = less.hyps [OF this b'(2), unfolded b'(3,4)]
    show ?thesis
    proof (cases "ctx_state x = kExpectRequestLine")
      case True
      then show ?thesis
        using found line b' Some ih
        by (subst HttpContext_parseLoop.simps, subst parse_text.simps)
          (auto simp: parse_refines_def [of "Some _"] less.prems(1)
            split: sum.split prod.split)
    next
      case False
      then have "ctx_state x = kExpectHeaders"
        using less.prems(2) by simp
      then show ?thesis
        using found line b' Some ih
        by (subst HttpContext_parseLoop.simps, subst parse_text.simps)
          (auto simp: parse_refines_def [of "Some _"] split: option.split)
    qed
  qed
qed

text \<open>The other two states have no branch: from them the loop never returns.\<close>

lemma parseLoop_diverges:
  assumes "ctx_state x \<in> {kExpectBody, kGotAll}"
  shows "HttpContext_parseLoop t x b = None"
proof -
  have "ctx_state x \<notin> {kExpectBody, kGotAll}" if "HttpContext_parseLoop t x b = Some r" for r
    using that
    apply (rule HttpContext_parseLoop.raw_induct [of "\<lambda>t x b r. ctx_state x \<notin> {kExpectBody, kGotAll}" "((t, x), b)", unfolded prod.case,
          rotated])
    subgoal for loop t x b r
      by (cases "ctx_state x") auto
    done
  then show ?thesis
    using assms by (cases "HttpContext_parseLoop t x b") blast+
qed

section \<open>Reads may cut the text anywhere\<close>

lemma search2_append: "search2 a b xs = Some i \<Longrightarrow> search2 a b (xs @ ys) = Some i"
  by (induction a b xs arbitrary: i rule: search2.induct) (auto split: if_splits)

lemma parse_text_append:
  "parse_text t x (cs @ ds) =
   (case parse_text t x cs of
      Inl e \<Rightarrow> Inl e
    | Inr (succeed, y, rest) \<Rightarrow>
        if succeed \<and> ctx_state y \<noteq> kGotAll then parse_text t y (rest @ ds) else Inr (succeed, y, rest @ ds))"
  if "ctx_state x \<in> {kExpectRequestLine, kExpectHeaders}"
  using that
proof (induction t x cs rule: parse_text.induct)
  case (1 t x cs)
  show ?case
  proof (cases "search2 (CHR 0x0D) (CHR 0x0A) cs")
    case None
    then have "parse_text t x cs = Inr (True, x, cs)"
      by (subst parse_text.simps) simp
    then show ?thesis
      using "1.prems" by auto
  next
    case (Some i)
    have i: "i + 2 \<le> length cs"
      using search2_bound [OF Some] .
    note whole = search2_append [OF Some, of ds]
    have cut: "i - length cs = 0" "Suc (Suc i) - length cs = 0" "Suc (Suc i) \<le> length cs"
      using i by simp_all
    show ?thesis
    proof (cases "ctx_state x = kExpectRequestLine")
      case True
      show ?thesis
      proof (cases "HttpContext_processRequestLine (take i cs) (ctx_request x)")
        case (Inl e)
        then show ?thesis
          using True Some whole cut by (simp add: parse_text.simps [of t x cs] parse_text.simps [of t x "cs @ ds"])
      next
        case (Inr r)
        obtain succeed q where r: "r = (succeed, q)"
          by (cases r)
        then show ?thesis
          using "1.IH"(1) [OF Some True TrueI, of q] True Some whole cut Inr
          by (simp add: parse_text.simps [of t x cs] parse_text.simps [of t x "cs @ ds"])
      qed
    next
      case False
      then show ?thesis
        using "1.IH"(2) [OF Some False] "1.prems" Some whole cut
        by (simp add: parse_text.simps [of t x cs] parse_text.simps [of t x "cs @ ds"] split: option.split)
    qed
  qed
qed

text \<open>Reads arriving one after the other, parsed as they come, until the request is complete or refused; the
  answer includes the reads not looked at.\<close>

primrec feed :: "timestamp \<Rightarrow> char list list \<Rightarrow> http_context \<Rightarrow> net_buffer \<Rightarrow> (bool \<times> http_context \<times> net_buffer \<times> char list list) res option" where
  "feed t [] x b = Some (Inr (True, x, b, []))"
| "feed t (d # ds) x b =
     (case Buffer_append b d of
        Inl e \<Rightarrow> Some (Inl e)
      | Inr b1 \<Rightarrow>
          (case HttpContext_parseRequest b1 t x of
             None \<Rightarrow> None
           | Some (Inl e) \<Rightarrow> Some (Inl e)
           | Some (Inr (succeed, y, b2)) \<Rightarrow>
               if succeed \<and> \<not> HttpContext_gotAll y then feed t ds y b2 else Some (Inr (succeed, y, b2, ds))))"

lemma parse_text_idle:
  assumes "parse_text t x cs = Inr (True, y, rest)" "ctx_state y \<noteq> kGotAll" "ctx_state x \<in> {kExpectRequestLine, kExpectHeaders}"
  shows "ctx_state y \<in> {kExpectRequestLine, kExpectHeaders}" "parse_text t y rest = Inr (True, y, rest)"
proof -
  have "ctx_state y \<in> {kExpectRequestLine, kExpectHeaders} \<and> search2 (CHR 0x0D) (CHR 0x0A) rest = None"
    using assms
  proof (induction t x cs rule: parse_text.induct)
    case (1 t x cs)
    show ?case
    proof (cases "search2 (CHR 0x0D) (CHR 0x0A) cs")
      case None
      then show ?thesis
        using "1.prems" by (simp add: parse_text.simps [of t x cs])
    next
      case (Some i)
      then show ?thesis
        using "1.IH" [OF Some] "1.prems"
        by (cases "ctx_state x = kExpectRequestLine")
          (auto simp: parse_text.simps [of t x cs] rbind_eq_Inr split: if_splits option.splits)
    qed
  qed
  then show "ctx_state y \<in> {kExpectRequestLine, kExpectHeaders}" "parse_text t y rest = Inr (True, y, rest)"
    by (auto simp: parse_text.simps [of t y rest])
qed

definition feed_refines ::
  "(bool \<times> http_context \<times> net_buffer \<times> char list list) res option \<Rightarrow> (bool \<times> http_context \<times> char list) res \<Rightarrow> bool" where
  "feed_refines r spec \<longleftrightarrow>
     (case spec of
        Inl e \<Rightarrow> r = Some (Inl e)
      | Inr (succeed, y, cs) \<Rightarrow> \<exists>b left. r = Some (Inr (succeed, y, b, left)) \<and> Buffer_content b @ concat left = cs)"

lemma feed_refines_text:
  "Buffer_wf b \<Longrightarrow> ctx_state x \<in> {kExpectRequestLine, kExpectHeaders} \<Longrightarrow>
   parse_text t x (Buffer_content b) = Inr (True, x, Buffer_content b) \<Longrightarrow>
   Buffer_cap b + length (concat ds) \<le> vec_max \<Longrightarrow>
   feed_refines (feed t ds x b) (parse_text t x (Buffer_content b @ concat ds))"
proof (induction ds arbitrary: x b)
  case Nil
  then show ?case
    by (simp add: feed_refines_def)
next
  case (Cons d ds)
  obtain b1 where b1: "Buffer_append b d = Inr b1" "Buffer_wf b1" "Buffer_content b1 = Buffer_content b @ d"
      "Buffer_cap b1 \<le> Buffer_cap b + length d"
    using Buffer_append_ok [OF Cons.prems(1), of d] Cons.prems(4) by auto
  note loop = parseLoop_refines [OF b1(2) Cons.prems(2), of t, unfolded b1(3)]
  have split: "parse_text t x (Buffer_content b @ concat (d # ds)) =
      (case parse_text t x (Buffer_content b @ d) of
         Inl e \<Rightarrow> Inl e
       | Inr (succeed, y, rest) \<Rightarrow>
           if succeed \<and> ctx_state y \<noteq> kGotAll then parse_text t y (rest @ concat ds) else Inr (succeed, y, rest @ concat ds))"
    using parse_text_append [OF Cons.prems(2), of t "Buffer_content b @ d" "concat ds"] by simp
  show ?case
  proof (cases "parse_text t x (Buffer_content b @ d)")
    case (Inl e)
    then show ?thesis
      using loop split b1(1) by (simp add: parse_refines_def feed_refines_def HttpContext_parseRequest_def)
  next
    case (Inr r)
    obtain succeed y rest where r: "r = (succeed, y, rest)"
      by (cases r)
    obtain b2 where b2: "HttpContext_parseLoop t x b1 = Some (Inr (succeed, y, b2))" "Buffer_wf b2" "Buffer_content b2 = rest"
        "Buffer_cap b2 = Buffer_cap b1"
      using loop Inr r by (auto simp: parse_refines_def)
    show ?thesis
    proof (cases "succeed \<and> ctx_state y \<noteq> kGotAll")
      case True
      then have idle: "ctx_state y \<in> {kExpectRequestLine, kExpectHeaders}" "parse_text t y rest = Inr (True, y, rest)"
        using parse_text_idle [of t x "Buffer_content b @ d" y rest] Inr r Cons.prems(2) by auto
      have "feed_refines (feed t ds y b2) (parse_text t y (rest @ concat ds))"
        using Cons.IH [OF b2(2) idle(1)] idle(2) b1(4) b2(3,4) Cons.prems(4) by simp
      then show ?thesis
        using split Inr r True b1(1) b2(1) by (simp add: HttpContext_parseRequest_def HttpContext_gotAll_def)
    next
      case False
      then show ?thesis
        using split Inr r b1(1) b2 by (auto simp: feed_refines_def HttpContext_parseRequest_def HttpContext_gotAll_def)
    qed
  qed
qed

text \<open>
  C20. The HTTP parser always returns, and it does not matter how the bytes of a request were cut into
  reads: parsing after every read, the context, the verdict and the bytes left over are those of one parse
  of all the bytes.
\<close>

theorem HttpContext_incremental:
  assumes "Buffer_wf b" "ctx_state x \<in> {kExpectRequestLine, kExpectHeaders}" "Buffer_findCRLF b = None"
    "Buffer_cap b + length (concat ds) \<le> vec_max" "Buffer_wf b0" "Buffer_content b0 = Buffer_content b @ concat ds"
  shows "(\<exists>e. HttpContext_parseRequest b0 t x = Some (Inl e) \<and> feed t ds x b = Some (Inl e)) \<or>
    (\<exists>succeed y b1 b2 left. HttpContext_parseRequest b0 t x = Some (Inr (succeed, y, b1)) \<and>
       feed t ds x b = Some (Inr (succeed, y, b2, left)) \<and> Buffer_content b1 = Buffer_content b2 @ concat left)"
proof -
  have "search2 (CHR 0x0D) (CHR 0x0A) (Buffer_content b) = None"
    using assms(1,3) by (simp add: Buffer_findCRLF_content)
  then have idle: "parse_text t x (Buffer_content b) = Inr (True, x, Buffer_content b)"
    by (simp add: parse_text.simps [of t x "Buffer_content b"])
  note whole = parseLoop_refines [OF assms(5,2), of t, unfolded assms(6)]
  note parts = feed_refines_text [OF assms(1,2) idle assms(4)]
  show ?thesis
    using whole parts
    by (cases "parse_text t x (Buffer_content b @ concat ds)")
      (auto simp: parse_refines_def feed_refines_def HttpContext_parseRequest_def)
qed

lemma buffer_of: "length d + 1032 \<le> vec_max \<Longrightarrow> \<exists>b. Buffer_wf b \<and> Buffer_content b = d \<and> Buffer_cap b \<le> 1032 + length d"
proof -
  assume len: "length d + 1032 \<le> vec_max"
  obtain b0 where b0: "Buffer_wf b0" "Buffer_content b0 = []" "Buffer_cap b0 = 1032"
    using Buffer_new_ok [of kInitialSize] by (auto simp: kInitialSize_def kCheapPrepend_def vec_max_def)
  then show ?thesis
    using Buffer_append_ok [OF b0(1), of d] len by auto
qed

theorem HttpContext_incremental_witness:
  "\<exists>b b0 ds. concat ds = ''GET /a HTTP/1.1'' @ crlf @ ''A: b'' @ crlf @ crlf @ ''xy'' \<and> length ds = 3 \<and>
     Buffer_content b0 = Buffer_content b @ concat ds \<and>
     ((\<exists>e. HttpContext_parseRequest b0 (Timestamp 1) HttpContext_new = Some (Inl e)) \<or>
      (\<exists>succeed y b1 b2 left. HttpContext_parseRequest b0 (Timestamp 1) HttpContext_new = Some (Inr (succeed, y, b1)) \<and>
         feed (Timestamp 1) ds HttpContext_new b = Some (Inr (succeed, y, b2, left))))"
proof -
  let ?ds = "[''GE'', ''T /a HTTP/1.1'' @ [CHR 0x0D], [CHR 0x0A] @ ''A: b'' @ crlf @ crlf @ ''xy'']"
  obtain b where b: "Buffer_wf b" "Buffer_content b = []" "Buffer_cap b \<le> 1032"
    using buffer_of [of "[]"] by (auto simp: vec_max_def)
  obtain b0 where b0: "Buffer_wf b0" "Buffer_content b0 = concat ?ds"
    using buffer_of [of "concat ?ds"] by (auto simp: vec_max_def crlf_def)
  have "Buffer_findCRLF b = None"
    using b by (simp add: Buffer_findCRLF_content)
  moreover have "Buffer_cap b + length (concat ?ds) \<le> vec_max"
    using b(3) by (simp add: vec_max_def crlf_def)
  ultimately have "(\<exists>e. HttpContext_parseRequest b0 (Timestamp 1) HttpContext_new = Some (Inl e) \<and>
        feed (Timestamp 1) ?ds HttpContext_new b = Some (Inl e)) \<or>
      (\<exists>succeed y b1 b2 left. HttpContext_parseRequest b0 (Timestamp 1) HttpContext_new = Some (Inr (succeed, y, b1)) \<and>
         feed (Timestamp 1) ?ds HttpContext_new b = Some (Inr (succeed, y, b2, left)) \<and> Buffer_content b1 = Buffer_content b2 @ concat left)"
    using HttpContext_incremental [of b HttpContext_new ?ds b0 "Timestamp 1"] b b0 by (simp add: HttpContext_new_def)
  then show ?thesis
    using b(2) b0(2) by (intro exI [of _ b] exI [of _ b0] exI [of _ ?ds]) (auto simp: crlf_def)
qed

section \<open>Printing and parsing\<close>

definition version_char :: "http_version \<Rightarrow> char" where
  "version_char v = (if v = kHttp11 then CHR ''1'' else CHR ''0'')"

definition header_text :: "(string \<times> string) list \<Rightarrow> string" where
  "header_text hs = concat (map (\<lambda>(k, v). k @ '': '' @ v @ crlf) hs)"

definition request_text :: "http_method \<Rightarrow> string \<Rightarrow> string \<Rightarrow> http_version \<Rightarrow> (string \<times> string) list \<Rightarrow> string" where
  "request_text m path query v hs =
     HttpRequest_methodString m @ '' '' @ path @ query @ '' HTTP/1.'' @ [version_char v] @ crlf @ header_text hs @ crlf"

definition trimmed :: "string \<Rightarrow> bool" where
  "trimmed v \<longleftrightarrow> v = [] \<or> \<not> isspace (hd v) \<and> \<not> isspace (last v)"

definition header_ok :: "string \<times> string \<Rightarrow> bool" where
  "header_ok h \<longleftrightarrow> CHR '':'' \<notin> set (fst h) \<and> CHR 0x0D \<notin> set (fst h) \<and> CHR 0x0D \<notin> set (snd h) \<and> trimmed (snd h)"

definition uri_ok :: "string \<Rightarrow> string \<Rightarrow> bool" where
  "uri_ok path query \<longleftrightarrow> (\<forall>c \<in> set path. c \<noteq> CHR '' '' \<and> c \<noteq> CHR ''?'' \<and> c \<noteq> CHR 0x0D) \<and>
     (\<forall>c \<in> set query. c \<noteq> CHR '' '' \<and> c \<noteq> CHR 0x0D) \<and> (query = [] \<or> hd query = CHR ''?'')"

lemma trim_value:
  assumes "trimmed v"
  shows "rev (dropWhile isspace (rev (dropWhile isspace (CHR '' '' # v)))) = v"
proof (cases "v = []")
  case False
  then obtain a w where "v = a # w"
    by (cases v) auto
  moreover have "rev v = last v # rev (butlast v)"
    using False by (metis append_butlast_last_id rev_eq_Cons_iff rev_rev_ident)
  ultimately show ?thesis
    using assms False by (auto simp: trimmed_def isspace_def [of "CHR '' ''"])
qed (simp add: isspace_def)

lemma addHeader_text:
  assumes "header_ok (k, v)"
  shows "find_index (\<lambda>c. c = CHR '':'') (k @ '': '' @ v) = Some (length k)"
    "HttpRequest_addHeader (k @ '': '' @ v) (length k) r = r\<lparr>req_headers := (req_headers r)(k := Some v)\<rparr>"
  using assms trim_value [of v] find_index_append [of k "\<lambda>c. c = CHR '':''" "CHR '':''" "'' '' @ v"]
  by (auto simp: header_ok_def HttpRequest_addHeader_def Let_def)

lemma parse_line:
  assumes "CHR 0x0D \<notin> set line"
  shows "search2 (CHR 0x0D) (CHR 0x0A) (line @ crlf @ rest) = Some (length line)"
    "take (length line) (line @ crlf @ rest) = line" "drop (length line + 2) (line @ crlf @ rest) = rest"
  using search2_first [OF assms, of "CHR 0x0A" rest] by (simp_all add: crlf_def)

lemma parse_header_step:
  assumes "CHR 0x0D \<notin> set line" "ctx_state x = kExpectHeaders" "find_index (\<lambda>c. c = CHR '':'') line = Some colon"
  shows "parse_text t x (line @ crlf @ rest) =
    parse_text t (x\<lparr>ctx_request := HttpRequest_addHeader line colon (ctx_request x)\<rparr>) rest"
  unfolding parse_text.simps [of t x "line @ crlf @ rest"] parse_line [OF assms(1)] using assms(2,3) parse_line(3) [OF assms(1)] by simp

lemma parse_request_step:
  assumes "CHR 0x0D \<notin> set line" "ctx_state x = kExpectRequestLine"
    "HttpContext_processRequestLine line (ctx_request x) = Inr (True, r)"
  shows "parse_text t x (line @ crlf @ rest) =
    parse_text t (x\<lparr>ctx_request := HttpRequest_setReceiveTime t r, ctx_state := kExpectHeaders\<rparr>) rest"
  unfolding parse_text.simps [of t x "line @ crlf @ rest"] parse_line [OF assms(1)] using assms(2,3) parse_line(3) [OF assms(1)] by simp

lemma parse_headers:
  "\<forall>h \<in> set hs. header_ok h \<Longrightarrow> ctx_state x = kExpectHeaders \<Longrightarrow>
   parse_text t x (header_text hs @ crlf @ rest) =
   Inr (True, x\<lparr>ctx_request := (ctx_request x)\<lparr>req_headers := req_headers (ctx_request x) ++ map_of (rev hs)\<rparr>, ctx_state := kGotAll\<rparr>, rest)"
proof (induction hs arbitrary: x)
  case Nil
  have "parse_text t x ([] @ crlf @ rest) = Inr (True, x\<lparr>ctx_state := kGotAll\<rparr>, rest)"
    using parse_line [of "[]" rest] Nil.prems(2) by (subst parse_text.simps) simp
  then show ?case
    by (simp add: header_text_def)
next
  case (Cons h hs)
  obtain k v where h: "h = (k, v)"
    by (cases h)
  let ?line = "k @ '': '' @ v" and ?rest = "header_text hs @ crlf @ rest"
  have shape: "header_text (h # hs) @ crlf @ rest = ?line @ crlf @ ?rest"
    by (simp add: header_text_def h)
  have cr: "CHR 0x0D \<notin> set ?line" and ok: "header_ok (k, v)"
    using Cons.prems(1) h by (auto simp: header_ok_def)
  let ?y = "x\<lparr>ctx_request := (ctx_request x)\<lparr>req_headers := (req_headers (ctx_request x))(k := Some v)\<rparr>\<rparr>"
  have "parse_text t x (?line @ crlf @ ?rest) = parse_text t ?y ?rest"
    using parse_header_step [OF cr Cons.prems(2) addHeader_text(1) [OF ok]] addHeader_text(2) [OF ok] by simp
  also have "\<dots> = Inr (True, ?y\<lparr>ctx_request := (ctx_request ?y)\<lparr>req_headers := req_headers (ctx_request ?y) ++ map_of (rev hs)\<rparr>,
      ctx_state := kGotAll\<rparr>, rest)"
    by (rule Cons.IH) (use Cons.prems in auto)
  finally show ?case
    unfolding shape by (simp add: h map_add_assoc [symmetric] map_of_append)
qed

lemma find_index_prefix: "\<forall>c \<in> set xs. c \<noteq> a \<Longrightarrow> find_index (\<lambda>c. c = a) (xs @ a # ys) = Some (length xs)"
  using find_index_append [of xs "\<lambda>c. c = a" a ys] by simp

lemma processRequestLine_text:
  assumes "uri_ok path query" "m \<noteq> kInvalid" "v \<noteq> kUnknown" "req_method r = kInvalid" "query = [] \<longrightarrow> req_query r = []"
  shows "HttpContext_processRequestLine (HttpRequest_methodString m @ '' '' @ path @ query @ '' HTTP/1.'' @ [version_char v]) r =
    Inr (True, r\<lparr>req_method := m, req_path := path, req_query := query, req_version := v\<rparr>)"
proof -
  let ?m = "HttpRequest_methodString m" and ?uri = "path @ query" and ?ver = "''HTTP/1.'' @ [version_char v]"
  have uri: "\<forall>c \<in> set ?uri. c \<noteq> CHR '' ''"
    using assms(1) by (auto simp: uri_ok_def)
  have "\<forall>c \<in> set ?m. c \<noteq> CHR '' ''"
    by (cases m) (simp_all add: HttpRequest_methodString_def)
  then have space1: "find_index (\<lambda>c. c = CHR '' '') (?m @ CHR '' '' # (?uri @ CHR '' '' # ?ver)) = Some (length ?m)"
    by (rule find_index_prefix)
  have space2: "find_index (\<lambda>c. c = CHR '' '') (?uri @ CHR '' '' # ?ver) = Some (length ?uri)"
    by (rule find_index_prefix [OF uri])
  have "find_index (\<lambda>c. c = CHR ''?'') ?uri = (if query = [] then None else Some (length path))"
  proof (cases "query = []")
    case True
    then show ?thesis
      using assms(1) by (auto simp: uri_ok_def find_index_None)
  next
    case False
    then have "query = CHR ''?'' # tl query"
      using assms(1) by (cases query) (auto simp: uri_ok_def)
    then show ?thesis
      using find_index_prefix [of path "CHR ''?''" "tl query"] assms(1) False by (auto simp: uri_ok_def)
  qed
  then have r2: "(case find_index (\<lambda>c. c = CHR ''?'') ?uri of
       Some question \<Rightarrow> HttpRequest_setQuery (drop question ?uri) (HttpRequest_setPath (take question ?uri) (r\<lparr>req_method := m\<rparr>))
     | None \<Rightarrow> HttpRequest_setPath ?uri (r\<lparr>req_method := m\<rparr>)) = r\<lparr>req_method := m, req_path := path, req_query := query\<rparr>"
    using assms(5) by (auto simp: HttpRequest_setQuery_def HttpRequest_setPath_def)
  have meth: "HttpRequest_setMethod ?m r = Inr (True, r\<lparr>req_method := m\<rparr>)"
    using assms(2,4) by (cases m) (simp_all add: HttpRequest_setMethod_def HttpRequest_methodString_def Let_def)
  have "HttpContext_processRequestLine (?m @ CHR '' '' # (?uri @ CHR '' '' # ?ver)) r =
      Inr (True, r\<lparr>req_method := m, req_path := path, req_query := query, req_version := v\<rparr>)"
    unfolding HttpContext_processRequestLine_def space1 option.case
    using space2 r2 meth assms(3) by (cases v) (simp_all add: Let_def version_char_def HttpRequest_setVersion_def)
  then show ?thesis
    by simp
qed

lemma parse_text_request:
  assumes "m \<noteq> kInvalid" "v \<noteq> kUnknown" "uri_ok path query" "\<forall>h \<in> set hs. header_ok h"
  shows "parse_text t HttpContext_new (request_text m path query v hs @ rest) = Inr (True, \<lparr>ctx_state = kGotAll, ctx_request =
    \<lparr>req_method = m, req_version = v, req_path = path, req_query = query, req_receiveTime = t, req_headers = map_of (rev hs)\<rparr>\<rparr>, rest)"
proof -
  let ?line = "HttpRequest_methodString m @ '' '' @ path @ query @ '' HTTP/1.'' @ [version_char v]"
  let ?r = "HttpRequest_new\<lparr>req_method := m, req_path := path, req_query := query, req_version := v\<rparr>"
  let ?x = "HttpContext_new\<lparr>ctx_request := HttpRequest_setReceiveTime t ?r, ctx_state := kExpectHeaders\<rparr>"
  have cr: "CHR 0x0D \<notin> set ?line"
    using assms(3) by (cases m) (auto simp: HttpRequest_methodString_def uri_ok_def version_char_def)
  have "HttpContext_processRequestLine ?line (ctx_request HttpContext_new) = Inr (True, ?r)"
    using processRequestLine_text [OF assms(3,1,2), of HttpRequest_new] by (simp add: HttpContext_new_def HttpRequest_new_def)
  then have "parse_text t HttpContext_new (?line @ crlf @ (header_text hs @ crlf @ rest)) =
      parse_text t ?x (header_text hs @ crlf @ rest)"
    by (intro parse_request_step [OF cr]) (simp_all add: HttpContext_new_def)
  also have "\<dots> = Inr (True, ?x\<lparr>ctx_request := (ctx_request ?x)\<lparr>req_headers := req_headers (ctx_request ?x) ++ map_of (rev hs)\<rparr>,
      ctx_state := kGotAll\<rparr>, rest)"
    by (rule parse_headers [OF assms(4)]) simp
  finally show ?thesis
    unfolding request_text_def by (simp add: HttpContext_new_def HttpRequest_new_def HttpRequest_setReceiveTime_def)
qed

lemma parseRequest_text:
  assumes "Buffer_wf b" "ctx_state x \<in> {kExpectRequestLine, kExpectHeaders}" "parse_text t x (Buffer_content b) = Inr (succeed, y, rest)"
  shows "\<exists>b'. HttpContext_parseRequest b t x = Some (Inr (succeed, y, b')) \<and> Buffer_wf b' \<and> Buffer_content b' = rest \<and> Buffer_cap b' = Buffer_cap b"
  using parseLoop_refines [OF assms(1,2), of t] assms(3) by (auto simp: parse_refines_def HttpContext_parseRequest_def)

text \<open>
  C21. The parser inverts the printing of a request: fed the text of any request with a known method,
  a target without blanks, and headers with trimmed values, it accepts it and delivers exactly that method, path, query,
  version and the headers, the last of equal names winning, stamped with the time of the read, and leaves the bytes
  that follow the request in the buffer.
\<close>

theorem HttpContext_roundtrip:
  assumes "Buffer_wf b" "Buffer_content b = request_text m path query v hs @ rest" "m \<noteq> kInvalid" "v \<noteq> kUnknown"
    "uri_ok path query" "\<forall>h \<in> set hs. header_ok h"
  shows "\<exists>b'. HttpContext_parseRequest b t HttpContext_new =
      Some (Inr (True, \<lparr>ctx_state = kGotAll, ctx_request = \<lparr>req_method = m, req_version = v, req_path = path, req_query = query,
        req_receiveTime = t, req_headers = map_of (rev hs)\<rparr>\<rparr>, b')) \<and>
    Buffer_wf b' \<and> Buffer_content b' = rest"
  using parseRequest_text [OF assms(1), of HttpContext_new t] parse_text_request [OF assms(3-6), of t rest] assms(2)
  by (auto simp: HttpContext_new_def)

theorem HttpContext_roundtrip_witness:
  "\<exists>b b'. Buffer_content b = ''GET /a?x=1 HTTP/1.0'' @ crlf @ ''Host: h'' @ crlf @ crlf @ ''more'' \<and>
     HttpContext_parseRequest b (Timestamp 9) HttpContext_new =
       Some (Inr (True, \<lparr>ctx_state = kGotAll, ctx_request = \<lparr>req_method = kGet, req_version = kHttp10, req_path = ''/a'',
         req_query = ''?x=1'', req_receiveTime = Timestamp 9, req_headers = map_of (rev [(''Host'', ''h'')])\<rparr>\<rparr>, b')) \<and>
     Buffer_content b' = ''more''"
proof -
  let ?req = "request_text kGet ''/a'' ''?x=1'' kHttp10 [(''Host'', ''h'')]"
  obtain b where b: "Buffer_wf b" "Buffer_content b = ?req @ ''more''"
    using buffer_of [of "?req @ ''more''"]
    by (auto simp: request_text_def HttpRequest_methodString_def header_text_def crlf_def vec_max_def)
  have "uri_ok ''/a'' ''?x=1''" "\<forall>h \<in> set [(''Host'', ''h'')]. header_ok h"
    by (simp_all add: uri_ok_def header_ok_def trimmed_def isspace_def)
  from HttpContext_roundtrip [OF b _ _ this, of "Timestamp 9"] show ?thesis
    using b(2) by (auto simp: request_text_def HttpRequest_methodString_def header_text_def version_char_def)
qed

section \<open>Answering\<close>

lemma append_all_ok:
  "Buffer_wf b \<Longrightarrow> Buffer_cap b + length (concat ds) \<le> vec_max \<Longrightarrow>
   \<exists>b'. append_all b ds = Inr b' \<and> Buffer_wf b' \<and> Buffer_content b' = Buffer_content b @ concat ds \<and>
     Buffer_cap b' \<le> Buffer_cap b + length (concat ds)"
proof (induction ds arbitrary: b)
  case (Cons d ds)
  obtain b1 where "Buffer_append b d = Inr b1" "Buffer_wf b1" "Buffer_content b1 = Buffer_content b @ d"
      "Buffer_cap b1 \<le> Buffer_cap b + length d"
    using Buffer_append_ok [OF Cons.prems(1), of d] Cons.prems(2) by auto
  then show ?case
    using Cons.IH [of b1] Cons.prems(2) by fastforce
qed simp

lemma sendBuffer_ok:
  assumes "conn_inv c" "connState c = kConnected" "write_contract w" "peer_alive w" "Buffer_wf buf"
    "conn_cap c + length (Buffer_content buf) \<le> vec_max"
  shows "\<exists>buf' c'. TcpConnection_sendBuffer w buf c = Inr (buf', c') \<and> conn_inv c' \<and> connState c' = kConnected \<and>
    conn_stream c' = conn_stream c @ Buffer_content buf \<and> inputBuffer c' = inputBuffer c \<and>
    conn_cap c' \<le> conn_cap c + length (Buffer_content buf)"
proof -
  have ok: "conn_ok c" "onLoopThread c" "\<not> writeShut c"
    using assms(1,2) by (auto simp: conn_inv_def conn_ok_def)
  obtain c' where c': "TcpConnection_sendInLoop w (Buffer_content buf) c = Inr c'" "conn_ok c'"
      "conn_stream c' = conn_stream c @ Buffer_content buf" "same_but_output c c'" "writeShut c' = writeShut c"
      "conn_cap c' \<le> conn_cap c + length (Buffer_content buf)"
    using sendInLoop_ok [OF ok(1) assms(3,4,6)] by blast
  then show ?thesis
    using ok assms(2,5) by (simp add: TcpConnection_sendBuffer_def buffer_simps readable_content same_but_output_def conn_inv_def)
qed

lemma shutdown_input: "TcpConnection_shutdown c = Inr c' \<Longrightarrow> inputBuffer c' = inputBuffer c"
  by (auto simp: TcpConnection_shutdown_def run_or_queue_def TcpConnection_setState_def TcpConnection_shutdownInLoop_def
      conn_assert_eq_Inr split: if_splits)

lemma reset_new: "HttpContext_reset x = HttpContext_new"
  by (simp add: HttpContext_reset_def HttpContext_new_def HttpRequest_swap_def HttpRequest_new_def)

definition wants_close :: "http_request \<Rightarrow> bool" where
  "wants_close req \<longleftrightarrow> HttpRequest_getHeader ''Connection'' req = ''close'' \<or>
     req_version req = kHttp10 \<and> HttpRequest_getHeader ''Connection'' req \<noteq> ''Keep-Alive''"

lemma onRequest_ok:
  assumes "conn_inv c" "connState c = kConnected" "write_contract w" "peer_alive w"
    "resp = cb req (HttpResponse_new (wants_close req))"
    "conn_cap c + length (concat (response_pieces resp)) \<le> vec_max" "1032 + length (concat (response_pieces resp)) \<le> vec_max"
  shows "\<exists>c'. HttpServer_onRequest w cb req c = Inr c' \<and> conn_inv c' \<and>
    conn_stream c' = conn_stream c @ concat (response_pieces resp) \<and> inputBuffer c' = inputBuffer c \<and>
    connState c' = (if resp_close resp then kDisconnecting else kConnected)"
proof -
  obtain b0 where b0: "Buffer_new kInitialSize = Inr b0" "Buffer_wf b0" "Buffer_content b0 = []" "Buffer_cap b0 = 1032"
    using Buffer_new_ok [of kInitialSize] by (auto simp: kInitialSize_def kCheapPrepend_def vec_max_def)
  obtain b where b: "HttpResponse_appendToBuffer b0 resp = Inr b" "Buffer_wf b" "Buffer_content b = concat (response_pieces resp)"
    using append_all_ok [OF b0(2), of "response_pieces resp"] b0(3,4) assms(7) by (auto simp: HttpResponse_appendToBuffer_def)
  obtain buf c1 where c1: "TcpConnection_sendBuffer w b c = Inr (buf, c1)" "conn_inv c1" "connState c1 = kConnected"
      "conn_stream c1 = conn_stream c @ concat (response_pieces resp)" "inputBuffer c1 = inputBuffer c"
    using sendBuffer_ok [OF assms(1-4) b(2)] b(3) assms(6) by auto
  obtain c2 where c2: "TcpConnection_shutdown c1 = Inr c2" "conn_inv c2" "conn_stream c2 = conn_stream c1" "connState c2 = kDisconnecting"
    using shutdown_ok [OF c1(2)] by blast
  have "HttpServer_onRequest w cb req c = (if resp_close resp then Inr c2 else Inr c1)"
    using b0(1) b(1) c1(1) c2(1) assms(5) by (auto simp: HttpServer_onRequest_def wants_close_def Let_def)
  then show ?thesis
    using c1 c2 shutdown_input [OF c2(1)] by auto
qed

text \<open>A message callback that completes a request answers it; one that does not leaves the connection alone.\<close>

lemma onMessage_completes:
  assumes "conn_inv c" "connState c = kConnected" "write_contract w" "peer_alive w" "ctx_state x \<in> {kExpectRequestLine, kExpectHeaders}"
    "parse_text t x (Buffer_content (inputBuffer c)) = Inr (True, \<lparr>ctx_state = kGotAll, ctx_request = req\<rparr>, rest)"
    "resp = cb req (HttpResponse_new (wants_close req))"
    "conn_cap c + length (concat (response_pieces resp)) \<le> vec_max" "1032 + length (concat (response_pieces resp)) \<le> vec_max"
  shows "\<exists>c'. HttpServer_onMessage w cb t (c, x) = Some (Inr (c', HttpContext_new)) \<and> conn_inv c' \<and>
    conn_stream c' = conn_stream c @ concat (response_pieces resp) \<and> Buffer_content (inputBuffer c') = rest \<and>
    connState c' = (if resp_close resp then kDisconnecting else kConnected)"
proof -
  have wf: "Buffer_wf (inputBuffer c)"
    using assms(1) by (simp add: conn_inv_def conn_ok_def)
  obtain b where b: "HttpContext_parseRequest (inputBuffer c) t x = Some (Inr (True, \<lparr>ctx_state = kGotAll, ctx_request = req\<rparr>, b))" "Buffer_wf b"
      "Buffer_content b = rest"
    using parseRequest_text [OF wf assms(5,6)] by blast
  let ?c = "c\<lparr>inputBuffer := b\<rparr>"
  have "conn_inv ?c" "connState ?c = kConnected" "conn_cap ?c = conn_cap c" "conn_stream ?c = conn_stream c"
    using assms(1,2) b(2) by (auto simp: conn_inv_def conn_ok_def conn_cap_def conn_stream_def)
  then obtain c' where "HttpServer_onRequest w cb req ?c = Inr c'" "conn_inv c'"
      "conn_stream c' = conn_stream c @ concat (response_pieces resp)" "inputBuffer c' = b"
      "connState c' = (if resp_close resp then kDisconnecting else kConnected)"
    using onRequest_ok [of ?c w resp cb req] assms(3,4,7-9) by auto
  then show ?thesis
    using b by (simp add: HttpServer_onMessage_def Let_def HttpContext_gotAll_def reset_new)
qed

lemma onMessage_waits:
  assumes "conn_inv c" "ctx_state x \<in> {kExpectRequestLine, kExpectHeaders}"
    "parse_text t x (Buffer_content (inputBuffer c)) = Inr (True, y, rest)" "ctx_state y \<noteq> kGotAll"
  shows "\<exists>b. HttpServer_onMessage w cb t (c, x) = Some (Inr (c\<lparr>inputBuffer := b\<rparr>, y)) \<and> Buffer_wf b \<and> Buffer_content b = rest \<and>
    Buffer_cap b = Buffer_cap (inputBuffer c)"
proof -
  have wf: "Buffer_wf (inputBuffer c)"
    using assms(1) by (simp add: conn_inv_def conn_ok_def)
  obtain b where "HttpContext_parseRequest (inputBuffer c) t x = Some (Inr (True, y, b))" "Buffer_wf b" "Buffer_content b = rest"
      "Buffer_cap b = Buffer_cap (inputBuffer c)"
    using parseRequest_text [OF wf assms(2,3)] by blast
  then show ?thesis
    using assms(4) by (intro exI [of _ b]) (simp add: HttpServer_onMessage_def Let_def HttpContext_gotAll_def)
qed

section \<open>Requests in pieces\<close>

text \<open>Reads of a connection, each with its time: the bytes are appended to the input buffer and the message callback runs.\<close>

fun http_reads ::
  "write_fn \<Rightarrow> (http_request \<Rightarrow> http_response \<Rightarrow> http_response) \<Rightarrow> (timestamp \<times> char list) list \<Rightarrow> tcp_connection \<times> http_context
   \<Rightarrow> (tcp_connection \<times> http_context) res option" where
  "http_reads write cb [] s = Some (Inr s)"
| "http_reads write cb ((t, d) # ds) s =
     (case Buffer_append (inputBuffer (fst s)) d of
        Inl e \<Rightarrow> Some (Inl e)
      | Inr b \<Rightarrow>
          (case HttpServer_onMessage write cb t ((fst s)\<lparr>inputBuffer := b\<rparr>, snd s) of
             None \<Rightarrow> None
           | Some (Inl e) \<Rightarrow> Some (Inl e)
           | Some (Inr s') \<Rightarrow> http_reads write cb ds s'))"

text \<open>After the request line the time of the read does not matter; before it nothing has been consumed.\<close>

lemma parse_text_time: "ctx_state x = kExpectHeaders \<Longrightarrow> parse_text t x cs = parse_text t' x cs"
proof (induction t x cs rule: parse_text.induct)
  case (1 t x cs)
  show ?case
  proof (cases "search2 (CHR 0x0D) (CHR 0x0A) cs")
    case None
    then show ?thesis
      by (simp add: parse_text.simps [of _ x cs])
  next
    case (Some i)
    have "ctx_state x \<noteq> kExpectRequestLine"
      using "1.prems" by simp
    then show ?thesis
      using "1.IH"(2) [OF Some] "1.prems" Some
      by (simp add: parse_text.simps [of t x cs] parse_text.simps [of t' x cs] split: option.split)
  qed
qed

lemma parse_text_headers: "parse_text t x cs = Inr (True, y, rest) \<Longrightarrow> ctx_state x = kExpectHeaders \<Longrightarrow> ctx_state y \<noteq> kExpectRequestLine"
proof (induction t x cs rule: parse_text.induct)
  case (1 t x cs)
  then show ?case
    by (auto simp: parse_text.simps [of t x cs] split: option.splits)
qed

lemma parse_text_line:
  assumes "parse_text t x cs = Inr (True, y, rest)" "ctx_state x = kExpectRequestLine" "ctx_state y = kExpectRequestLine"
  shows "y = x \<and> rest = cs"
proof (cases "search2 (CHR 0x0D) (CHR 0x0A) cs")
  case None
  then show ?thesis
    using assms(1) by (simp add: parse_text.simps [of t x cs])
next
  case (Some i)
  then obtain r where "parse_text t (x\<lparr>ctx_request := r, ctx_state := kExpectHeaders\<rparr>) (drop (i + 2) cs) = Inr (True, y, rest)"
    using assms(1,2) by (auto simp: parse_text.simps [of t x cs] rbind_eq_Inr split: if_splits)
  then show ?thesis
    using parse_text_headers [of t _ "drop (i + 2) cs"] assms(3) by force
qed

text \<open>The bytes \<open>cs\<close> are what the parser needs to deliver \<open>req\<close>, no more and no less, whenever they come.\<close>

definition completes :: "http_context \<Rightarrow> char list \<Rightarrow> http_request \<Rightarrow> bool" where
  "completes x cs req \<longleftrightarrow> ctx_state x \<in> {kExpectRequestLine, kExpectHeaders} \<and>
     (\<forall>t. \<exists>t'. parse_text t x cs = Inr (True, \<lparr>ctx_state = kGotAll, ctx_request = req\<lparr>req_receiveTime := t'\<rparr>\<rparr>, []))"

lemma completes_prefix:
  assumes "completes x (p @ q) req" "q \<noteq> []"
  shows "\<exists>y r. parse_text t x p = Inr (True, y, r) \<and> ctx_state y \<noteq> kGotAll \<and> completes y (r @ q) req"
proof -
  have st: "ctx_state x \<in> {kExpectRequestLine, kExpectHeaders}"
    using assms(1) by (simp add: completes_def)
  obtain t' where whole: "parse_text t x (p @ q) = Inr (True, \<lparr>ctx_state = kGotAll, ctx_request = req\<lparr>req_receiveTime := t'\<rparr>\<rparr>, [])"
    using assms(1) unfolding completes_def by blast
  obtain succeed y r where part: "parse_text t x p = Inr (succeed, y, r)"
    using whole parse_text_append [OF st, of t p q] by (cases "parse_text t x p") auto
  have y: "succeed" "ctx_state y \<noteq> kGotAll"
      "parse_text t y (r @ q) = Inr (True, \<lparr>ctx_state = kGotAll, ctx_request = req\<lparr>req_receiveTime := t'\<rparr>\<rparr>, [])"
    using whole parse_text_append [OF st, of t p q] part assms(2) by (auto split: if_splits)
  have idle: "ctx_state y \<in> {kExpectRequestLine, kExpectHeaders}"
    using parse_text_idle(1) [of t x p y r] part y(1,2) st by simp
  have "completes y (r @ q) req"
  proof (cases "ctx_state y = kExpectHeaders")
    case True
    then show ?thesis
      using y(3) parse_text_time [OF True, of _ "r @ q" t] unfolding completes_def by auto
  next
    case False
    then have "ctx_state y = kExpectRequestLine"
      using idle by simp
    moreover from this have "ctx_state x = kExpectRequestLine"
      using parse_text_headers [of t x p y r] part y(1) st by auto
    ultimately show ?thesis
      using parse_text_line [of t x p y r] part y(1) assms(1) by simp
  qed
  then show ?thesis
    using part y(1,2) by auto
qed

text \<open>
  A request that arrives on a connection in any pieces is answered once, when its last byte is there: the bytes of
  the callback's response, and nothing else, are appended to the connection's stream, after whatever was sent before;
  the context is ready for the next request, whose bytes are left in the input; and the connection is shut down after the
  response exactly when the response asks for it, which by default is what the \<^verbatim>\<open>Connection\<close> header
  and the version of the request say.
\<close>

lemma http_reads_answers:
  assumes "write_contract w" "peer_alive w" "\<And>t. cb (req\<lparr>req_receiveTime := t\<rparr>) = cb req" "resp = cb req (HttpResponse_new (wants_close req))"
    "1032 + length (concat (response_pieces resp)) \<le> vec_max" "q \<noteq> []"
  shows "conn_inv c \<Longrightarrow> connState c = kConnected \<Longrightarrow> completes x (Buffer_content (inputBuffer c) @ concat (map snd ds) @ q) req \<Longrightarrow>
    conn_cap c + length (concat (response_pieces resp)) \<le> vec_max \<Longrightarrow>
    Buffer_cap (inputBuffer c) + length (concat (map snd ds)) + length (q @ rest) \<le> vec_max \<Longrightarrow>
    \<exists>c'. http_reads w cb (ds @ [(t, q @ rest)]) (c, x) = Some (Inr (c', HttpContext_new)) \<and> conn_inv c' \<and>
      conn_stream c' = conn_stream c @ concat (response_pieces resp) \<and> Buffer_content (inputBuffer c') = rest \<and>
      connState c' = (if resp_close resp then kDisconnecting else kConnected)"
proof (induction ds arbitrary: c x)
  case Nil
  have wf: "Buffer_wf (inputBuffer c)"
    using Nil.prems(1) by (simp add: conn_inv_def conn_ok_def)
  obtain b where b: "Buffer_append (inputBuffer c) (q @ rest) = Inr b" "Buffer_wf b" "Buffer_content b = Buffer_content (inputBuffer c) @ q @ rest"
    using Buffer_append_ok [OF wf, of "q @ rest"] Nil.prems(5) by auto
  let ?c = "c\<lparr>inputBuffer := b\<rparr>"
  have c: "conn_inv ?c" "connState ?c = kConnected" "conn_cap ?c + length (concat (response_pieces resp)) \<le> vec_max" "conn_stream ?c = conn_stream c"
    using Nil.prems(1,2,4) b(2) by (auto simp: conn_inv_def conn_ok_def conn_cap_def conn_stream_def)
  have st: "ctx_state x \<in> {kExpectRequestLine, kExpectHeaders}"
    using Nil.prems(3) by (simp add: completes_def)
  obtain t' where "parse_text t x (Buffer_content (inputBuffer c) @ q) = Inr (True, \<lparr>ctx_state = kGotAll, ctx_request = req\<lparr>req_receiveTime := t'\<rparr>\<rparr>, [])"
    using Nil.prems(3) by (auto simp: completes_def)
  then have parsed: "parse_text t x (Buffer_content (inputBuffer ?c)) = Inr (True, \<lparr>ctx_state = kGotAll, ctx_request = req\<lparr>req_receiveTime := t'\<rparr>\<rparr>, rest)"
    using parse_text_append [OF st, of t "Buffer_content (inputBuffer c) @ q" rest] b(3) by simp
  have resp: "resp = cb (req\<lparr>req_receiveTime := t'\<rparr>) (HttpResponse_new (wants_close (req\<lparr>req_receiveTime := t'\<rparr>)))"
    using assms(3,4) by (simp add: wants_close_def HttpRequest_getHeader_def)
  show ?case
    using onMessage_completes [where cb = cb, OF c(1,2) assms(1,2) st parsed resp c(3) assms(5)] b(1) c(4) by auto
next
  case (Cons e ds)
  obtain t0 d where e: "e = (t0, d)"
    by (cases e)
  have wf: "Buffer_wf (inputBuffer c)"
    using Cons.prems(1) by (simp add: conn_inv_def conn_ok_def)
  obtain b where b: "Buffer_append (inputBuffer c) d = Inr b" "Buffer_wf b" "Buffer_content b = Buffer_content (inputBuffer c) @ d"
      "Buffer_cap b \<le> Buffer_cap (inputBuffer c) + length d"
    using Buffer_append_ok [OF wf, of d] Cons.prems(5) e by auto
  let ?c = "c\<lparr>inputBuffer := b\<rparr>"
  have inv: "conn_inv ?c"
    using Cons.prems(1) b(2) by (simp add: conn_inv_def conn_ok_def)
  have st: "ctx_state x \<in> {kExpectRequestLine, kExpectHeaders}"
    using Cons.prems(3) by (simp add: completes_def)
  obtain y r where y: "parse_text t0 x (Buffer_content (inputBuffer ?c)) = Inr (True, y, r)" "ctx_state y \<noteq> kGotAll"
      "completes y (r @ concat (map snd ds) @ q) req"
    using completes_prefix [of x "Buffer_content b" "concat (map snd ds) @ q" req t0] Cons.prems(3) assms(6) b(3) e by auto
  obtain b' where b': "HttpServer_onMessage w cb t0 (?c, x) = Some (Inr (?c\<lparr>inputBuffer := b'\<rparr>, y))" "Buffer_wf b'" "Buffer_content b' = r"
      "Buffer_cap b' = Buffer_cap b"
    using onMessage_waits [OF inv st y(1,2), of w cb] by auto
  let ?c' = "c\<lparr>inputBuffer := b'\<rparr>"
  have "conn_inv ?c'" "connState ?c' = kConnected" "conn_cap ?c' + length (concat (response_pieces resp)) \<le> vec_max" "conn_stream ?c' = conn_stream c"
    using Cons.prems(1,2,4) b'(2) by (auto simp: conn_inv_def conn_ok_def conn_cap_def conn_stream_def)
  then have "\<exists>c'. http_reads w cb (ds @ [(t, q @ rest)]) (?c', y) = Some (Inr (c', HttpContext_new)) \<and> conn_inv c' \<and>
      conn_stream c' = conn_stream c @ concat (response_pieces resp) \<and> Buffer_content (inputBuffer c') = rest \<and>
      connState c' = (if resp_close resp then kDisconnecting else kConnected)"
    using Cons.IH [of ?c' y] y(3) b' b(4) Cons.prems(5) e by simp
  then show ?case
    using b(1) b'(1) e by simp
qed

lemma completes_request:
  assumes "m \<noteq> kInvalid" "v \<noteq> kUnknown" "uri_ok path query" "\<forall>h \<in> set hs. header_ok h"
    "req = \<lparr>req_method = m, req_version = v, req_path = path, req_query = query, req_receiveTime = t, req_headers = map_of (rev hs)\<rparr>"
  shows "completes HttpContext_new (request_text m path query v hs) req"
  using parse_text_request [OF assms(1-4), of _ "[]"] unfolding completes_def assms(5)
  by (simp add: HttpContext_new_def)

text \<open>A fresh connection with some bytes in its input buffer.\<close>

lemma fresh_with_input:
  assumes "length d \<le> 1000"
  shows "\<exists>c. conn_inv c \<and> connState c = kConnected \<and> conn_stream c = [] \<and> Buffer_content (inputBuffer c) = d \<and> conn_cap c = 1032"
proof -
  obtain c where c: "conn_inv c" "wireOut c = []" "Buffer_content (outputBuffer c) = []" "connState c = kConnected" "conn_cap c = 1032"
    using fresh_connection_ok by blast
  obtain b where b: "Buffer_wf b" "Buffer_content b = d"
    using buffer_of [of d] assms by (auto simp: vec_max_def)
  show ?thesis
    using c b by (intro exI [of _ "c\<lparr>inputBuffer := b\<rparr>"]) (auto simp: conn_inv_def conn_ok_def conn_stream_def conn_cap_def)
qed

section \<open>A refused request\<close>

lemma processRequestLine_known:
  assumes "m \<noteq> kInvalid"
  shows "HttpContext_processRequestLine (HttpRequest_methodString m @ '' '' @ tail) r =
    (if req_method r = kInvalid then HttpContext_processRequestLine (HttpRequest_methodString m @ '' '' @ tail) r else Inl AssertFailed)"
    "ensures (HttpContext_processRequestLine (HttpRequest_methodString m @ '' '' @ tail) r) (\<lambda>(succeed, r'). req_method r' = m)"
proof -
  have "\<forall>c \<in> set (HttpRequest_methodString m). c \<noteq> CHR '' ''"
    by (cases m) (simp_all add: HttpRequest_methodString_def)
  then have space: "find_index (\<lambda>c. c = CHR '' '') (HttpRequest_methodString m @ '' '' @ tail) = Some (length (HttpRequest_methodString m))"
    using find_index_prefix [of "HttpRequest_methodString m" "CHR '' ''" tail] by simp
  have "HttpRequest_setMethod (HttpRequest_methodString m) r =
      (if req_method r = kInvalid then Inr (True, r\<lparr>req_method := m\<rparr>) else Inl AssertFailed)"
    using assms by (cases m) (simp_all add: HttpRequest_setMethod_def HttpRequest_methodString_def Let_def)
  then show "HttpContext_processRequestLine (HttpRequest_methodString m @ '' '' @ tail) r =
    (if req_method r = kInvalid then HttpContext_processRequestLine (HttpRequest_methodString m @ '' '' @ tail) r else Inl AssertFailed)"
    "ensures (HttpContext_processRequestLine (HttpRequest_methodString m @ '' '' @ tail) r) (\<lambda>(succeed, r'). req_method r' = m)"
    using space by (auto simp: HttpContext_processRequestLine_def Let_def HttpRequest_setQuery_def HttpRequest_setPath_def
        HttpRequest_setVersion_def split: option.split)
qed

text \<open>
  C22. A request line with a known method that is then refused, for instance for its version, is
  answered with status 400 and left in the buffer, and the method stays set in the context. When the peer sends
  anything more, the same line is parsed again and the assertion of \<^verbatim>\<open>setMethod\<close> that no method is set fails: a
  client can abort a server built with assertions.
\<close>

theorem HttpServer_aborts_after_bad_request:
  assumes "conn_inv c" "connState c = kConnected" "write_contract w" "peer_alive w" "m \<noteq> kInvalid"
    "Buffer_content (inputBuffer c) = HttpRequest_methodString m @ '' '' @ tail @ crlf @ rest" "CHR 0x0D \<notin> set tail"
    "HttpContext_processRequestLine (HttpRequest_methodString m @ '' '' @ tail) HttpRequest_new = Inr (False, r)"
    "conn_cap c + length bad_request \<le> vec_max" "Buffer_cap (inputBuffer c) + length d \<le> vec_max"
  shows "\<exists>c1 x1 b2. HttpServer_onMessage w cb t (c, HttpContext_new) = Some (Inr (c1, x1)) \<and>
    conn_stream c1 = conn_stream c @ bad_request \<and> connState c1 = kDisconnecting \<and>
    Buffer_append (inputBuffer c1) d = Inr b2 \<and>
    HttpServer_onMessage w cb t' (c1\<lparr>inputBuffer := b2\<rparr>, x1) = Some (Inl AssertFailed)"
proof -
  let ?line = "HttpRequest_methodString m @ '' '' @ tail" and ?x1 = "HttpContext_new\<lparr>ctx_request := r\<rparr>"
  have wf: "Buffer_wf (inputBuffer c)"
    using assms(1) by (simp add: conn_inv_def conn_ok_def)
  have cr: "CHR 0x0D \<notin> set ?line"
    using assms(7) by (cases m) (simp_all add: HttpRequest_methodString_def)
  have meth: "req_method r = m"
    using ensuresD [OF processRequestLine_known(2) [OF assms(5), of tail HttpRequest_new] assms(8)] by simp
  have content: "Buffer_content (inputBuffer c) = ?line @ crlf @ rest"
    using assms(6) by simp
  have "parse_text t HttpContext_new (?line @ crlf @ rest) = Inr (False, ?x1, ?line @ crlf @ rest)"
    unfolding parse_text.simps [of t HttpContext_new "?line @ crlf @ rest"] parse_line [OF cr]
    using assms(8) by (simp add: HttpContext_new_def)
  then obtain b where b: "HttpContext_parseRequest (inputBuffer c) t HttpContext_new = Some (Inr (False, ?x1, b))" "Buffer_wf b"
      "Buffer_content b = ?line @ crlf @ rest" "Buffer_cap b = Buffer_cap (inputBuffer c)"
    using parseLoop_refines [OF wf, of HttpContext_new t] content
    by (auto simp: parse_refines_def HttpContext_parseRequest_def HttpContext_new_def)
  let ?c = "c\<lparr>inputBuffer := b\<rparr>"
  have cinv: "conn_inv ?c" "connState ?c = kConnected" "conn_cap ?c = conn_cap c" "conn_stream ?c = conn_stream c"
    using assms(1,2) b(2) by (auto simp: conn_inv_def conn_ok_def conn_cap_def conn_stream_def)
  obtain c0 where c0: "TcpConnection_send w bad_request ?c = Inr c0" "conn_inv c0" "conn_stream c0 = conn_stream c @ bad_request"
      "inputBuffer c0 = b" "connState c0 = kConnected"
    using sendInLoop_ok [of ?c w bad_request] cinv assms(3,4,9)
    by (auto simp: TcpConnection_send_def conn_inv_def conn_ok_def same_but_output_def)
  obtain c1 where c1: "TcpConnection_shutdown c0 = Inr c1" "conn_stream c1 = conn_stream c0" "connState c1 = kDisconnecting"
    using shutdown_ok [OF c0(2)] by blast
  then have first: "HttpServer_onMessage w cb t (c, HttpContext_new) = Some (Inr (c1, ?x1))"
    using b(1) c0(1) by (simp add: HttpServer_onMessage_def Let_def HttpContext_gotAll_def HttpContext_new_def)
  have in1: "inputBuffer c1 = b"
    using shutdown_input [OF c1(1)] c0(4) by simp
  obtain b2 where b2: "Buffer_append b d = Inr b2" "Buffer_wf b2" "Buffer_content b2 = ?line @ crlf @ (rest @ d)"
    using Buffer_append_ok [OF b(2), of d] b(3,4) assms(10) by auto
  have "parse_text t' ?x1 (?line @ crlf @ (rest @ d)) = Inl AssertFailed"
    unfolding parse_text.simps [of t' ?x1 "?line @ crlf @ (rest @ d)"] parse_line [OF cr]
    using processRequestLine_known(1) [OF assms(5), of tail r] meth assms(5) by (simp add: HttpContext_new_def)
  then have "HttpContext_parseRequest b2 t' ?x1 = Some (Inl AssertFailed)"
    using parseLoop_refines [OF b2(2), of ?x1 t'] b2(3) by (simp add: parse_refines_def HttpContext_parseRequest_def HttpContext_new_def)
  then have "HttpServer_onMessage w cb t' (c1\<lparr>inputBuffer := b2\<rparr>, ?x1) = Some (Inl AssertFailed)"
    by (simp add: HttpServer_onMessage_def)
  then show ?thesis
    using first c1 c0(3) in1 b2(1) by auto
qed

theorem HttpServer_aborts_after_bad_request_witness:
  "\<exists>c c1 x1 b2. conn_inv c \<and> Buffer_content (inputBuffer c) = ''GET / HTTP/2.0'' @ crlf \<and>
     HttpServer_onMessage (write_room 9) defaultHttpCallback (Timestamp 1) (c, HttpContext_new) = Some (Inr (c1, x1)) \<and>
     Buffer_append (inputBuffer c1) ''x'' = Inr b2 \<and>
     HttpServer_onMessage (write_room 9) defaultHttpCallback (Timestamp 2) (c1\<lparr>inputBuffer := b2\<rparr>, x1) = Some (Inl AssertFailed)"
proof -
  let ?tail = "''/ HTTP/2.0''"
  obtain c0 where c0: "conn_inv c0" "connState c0 = kConnected" "conn_cap c0 = 1032"
    using fresh_with_input [of "[]"] by auto
  obtain b where b: "Buffer_wf b" "Buffer_content b = ''GET / HTTP/2.0'' @ crlf" "Buffer_cap b \<le> 1048"
    using buffer_of [of "''GET / HTTP/2.0'' @ crlf"] by (auto simp: crlf_def vec_max_def)
  let ?c = "c0\<lparr>inputBuffer := b\<rparr>"
  have c: "conn_inv ?c" "connState ?c = kConnected" "conn_cap ?c + length bad_request \<le> vec_max"
    using c0 b(1) by (auto simp: conn_inv_def conn_ok_def conn_cap_def bad_request_def crlf_def vec_max_def)
  have bad: "HttpContext_processRequestLine (HttpRequest_methodString kGet @ '' '' @ ?tail) HttpRequest_new =
      Inr (False, HttpRequest_new\<lparr>req_method := kGet, req_path := ''/''\<rparr>)"
    by (simp add: HttpContext_processRequestLine_def HttpRequest_methodString_def HttpRequest_setMethod_def HttpRequest_setPath_def
        Let_def HttpRequest_new_def)
  from HttpServer_aborts_after_bad_request [where cb = defaultHttpCallback and t = "Timestamp 1" and t' = "Timestamp 2" and d = "''x''"
      and rest = "[]", OF c(1,2) write_room_contract [of 9] _ _ _ bad c(3)] show ?thesis
    using b c(1) by (force simp: HttpRequest_methodString_def vec_max_def)
qed

end
