(* ===== verification/Net_Connector.thy ===== *)
theory Net_Connector
  imports Connection_Laws Net_Sockets
begin

text \<open>
  \<^verbatim>\<open>Connector\<close> and \<^verbatim>\<open>TcpClient\<close> of muduo (\<^verbatim>\<open>Connector.cc\<close>, \<^verbatim>\<open>TcpClient.cc\<close>). The connector's record has the
  fields of the class, the tasks and timers it leaves with its loop, and a trace of what it did with sockets: those it
  closed, those it handed to the new-connection callback, and the delays it asked for. The results of \<^verbatim>\<open>socket\<close>,
  \<^verbatim>\<open>connect\<close> and \<^verbatim>\<open>getsockopt\<close> are arguments.
\<close>

section \<open>Connector\<close>

datatype connector_state = CDisconnected | CConnecting | CConnected

datatype connector_task = StartInLoop | StopInLoop | ResetChannel

record connector =
  connectFlag :: bool
  cState :: connector_state
  cChannel :: "channel option"
  retryDelayMs :: int
  cTasks :: "connector_task list"
  retryTimers :: nat
  delays :: "int list"
  closedFds :: "int list"
  deliveredFds :: "int list"

definition kMaxRetryDelayMs :: int where
  "kMaxRetryDelayMs = 30 * 1000"

definition kInitRetryDelayMs :: int where
  "kInitRetryDelayMs = 500"

definition Connector_new :: connector where
  "Connector_new = \<lparr>connectFlag = False, cState = CDisconnected, cChannel = None, retryDelayMs = kInitRetryDelayMs, cTasks = [],
     retryTimers = 0, delays = [], closedFds = [], deliveredFds = []\<rparr>"

definition Connector_delete :: "connector \<Rightarrow> unit res" where
  "Connector_delete c = c_assert (cChannel c = None) (Inr ())"

definition solo_chan ::
  "((unit reactor \<Rightarrow> nat \<Rightarrow> unit reactor res) \<Rightarrow> unit reactor \<Rightarrow> nat \<Rightarrow> unit reactor res) \<Rightarrow> channel \<Rightarrow> channel res" where
  "solo_chan method ch = rbind (method (\<lambda>s k. Inr s) \<lparr>heap = (\<lambda>k. ch), poller = ()\<rparr> 0) (\<lambda>s. Inr (heap s 0))"

text \<open>\<^verbatim>\<open>sockets::close(sockfd)\<close>, then a timer when the connector is still wanted.\<close>

definition Connector_retry :: "int \<Rightarrow> connector \<Rightarrow> connector" where
  "Connector_retry sockfd c =
     (let c1 = c\<lparr>closedFds := closedFds c @ [sockfd], cState := CDisconnected\<rparr> in
      if connectFlag c1
      then c1\<lparr>retryTimers := retryTimers c1 + 1, delays := delays c1 @ [retryDelayMs c1],
              retryDelayMs := min (retryDelayMs c1 * 2) kMaxRetryDelayMs\<rparr>
      else c1)"

definition Connector_connecting :: "int \<Rightarrow> connector \<Rightarrow> connector res" where
  "Connector_connecting sockfd c =
     (let c1 = c\<lparr>cState := CConnecting\<rparr> in
      c_assert (cChannel c1 = None)
        (rbind (solo_chan Channel_enableWriting (Channel_setErrorCallback (Channel_setWriteCallback (Channel_new sockfd)))) (\<lambda>ch.
           Inr (c1\<lparr>cChannel := Some ch\<rparr>))))"

text \<open>\<open>NoError\<close> is a successful \<^verbatim>\<open>connect\<close>; \<^verbatim>\<open>EAGAIN\<close> is \<^verbatim>\<open>EWOULDBLOCK\<close>.\<close>

definition connect_proceeds :: "errno \<Rightarrow> bool" where
  "connect_proceeds e \<longleftrightarrow> e \<in> {NoError, EINPROGRESS, EINTR, EISCONN}"

definition connect_retries :: "errno \<Rightarrow> bool" where
  "connect_retries e \<longleftrightarrow> e \<in> {EWOULDBLOCK, EADDRINUSE, EADDRNOTAVAIL, ECONNREFUSED, ENETUNREACH}"

definition Connector_connect :: "int \<Rightarrow> errno \<Rightarrow> connector \<Rightarrow> connector res" where
  "Connector_connect sock savedErrno c =
     rbind (createNonblockingOrDie sock) (\<lambda>sockfd.
       if connect_proceeds savedErrno then Connector_connecting sockfd c
       else if connect_retries savedErrno then Inr (Connector_retry sockfd c)
       else Inr (c\<lparr>closedFds := closedFds c @ [sockfd]\<rparr>))"

definition Connector_startInLoop :: "bool \<Rightarrow> int \<Rightarrow> errno \<Rightarrow> connector \<Rightarrow> connector res" where
  "Connector_startInLoop inThread sock e c =
     (if \<not> inThread then Inl Exited
      else c_assert (cState c = CDisconnected) (if connectFlag c then Connector_connect sock e c else Inr c))"

definition Connector_start :: "bool \<Rightarrow> int \<Rightarrow> errno \<Rightarrow> connector \<Rightarrow> connector res" where
  "Connector_start inThread sock e c =
     (let c1 = c\<lparr>connectFlag := True\<rparr> in
      if inThread then Connector_startInLoop inThread sock e c1 else Inr (c1\<lparr>cTasks := cTasks c1 @ [StartInLoop]\<rparr>))"

definition Connector_removeAndResetChannel :: "connector \<Rightarrow> (int \<times> connector) res" where
  "Connector_removeAndResetChannel c =
     (case cChannel c of
        None \<Rightarrow> Inl NullDeref
      | Some ch \<Rightarrow>
          rbind (solo_chan Channel_disableAll ch) (\<lambda>ch1.
          rbind (solo_chan Channel_remove ch1) (\<lambda>ch2.
            Inr (fd ch2, c\<lparr>cChannel := Some ch2, cTasks := cTasks c @ [ResetChannel]\<rparr>))))"

text \<open>\<^verbatim>\<open>channel_.reset()\<close> runs the channel's destructor with its assertions.\<close>

definition Connector_resetChannel :: "connector \<Rightarrow> connector res" where
  "Connector_resetChannel c =
     (case cChannel c of
        None \<Rightarrow> Inr c
      | Some ch \<Rightarrow> rbind (Channel_delete True False ch) (\<lambda>_. Inr (c\<lparr>cChannel := None\<rparr>)))"

definition Connector_stop :: "connector \<Rightarrow> connector" where
  "Connector_stop c = c\<lparr>connectFlag := False, cTasks := cTasks c @ [StopInLoop]\<rparr>"

definition Connector_stopInLoop :: "bool \<Rightarrow> connector \<Rightarrow> connector res" where
  "Connector_stopInLoop inThread c =
     (if \<not> inThread then Inl Exited
      else if cState c = CConnecting
      then rbind (Connector_removeAndResetChannel (c\<lparr>cState := CDisconnected\<rparr>)) (\<lambda>(sockfd, c1). Inr (Connector_retry sockfd c1))
      else Inr c)"

definition Connector_restart :: "bool \<Rightarrow> int \<Rightarrow> errno \<Rightarrow> connector \<Rightarrow> connector res" where
  "Connector_restart inThread sock e c =
     (if \<not> inThread then Inl Exited
      else Connector_startInLoop inThread sock e (c\<lparr>cState := CDisconnected, retryDelayMs := kInitRetryDelayMs, connectFlag := True\<rparr>))"

text \<open>\<open>err\<close> is the socket's pending error, \<open>selfConnect\<close> whether both ends have one address.\<close>

definition Connector_handleWrite :: "errno \<Rightarrow> bool \<Rightarrow> connector \<Rightarrow> connector res" where
  "Connector_handleWrite err selfConnect c =
     (if cState c = CConnecting
      then rbind (Connector_removeAndResetChannel c) (\<lambda>(sockfd, c1).
        if err \<noteq> NoError then Inr (Connector_retry sockfd c1)
        else if selfConnect then Inr (Connector_retry sockfd c1)
        else (let c2 = c1\<lparr>cState := CConnected\<rparr> in
              if connectFlag c2 then Inr (c2\<lparr>deliveredFds := deliveredFds c2 @ [sockfd]\<rparr>)
              else Inr (c2\<lparr>closedFds := closedFds c2 @ [sockfd]\<rparr>)))
      else c_assert (cState c = CDisconnected) (Inr c))"

definition Connector_handleError :: "connector \<Rightarrow> connector res" where
  "Connector_handleError c =
     (if cState c = CConnecting
      then rbind (Connector_removeAndResetChannel c) (\<lambda>(sockfd, c1). Inr (Connector_retry sockfd c1))
      else Inr c)"

section \<open>TcpClient\<close>

record tcp_client =
  connector :: connector
  clientName :: string
  retryFlag :: bool
  clientConnect :: bool
  clientNextId :: int
  connection :: "tcp_connection option"
  clientWriteComplete :: bool
  clientTasks :: nat

text \<open>\<open>clientTasks\<close> counts the \<^verbatim>\<open>connectDestroyed\<close> tasks handed to the loop.\<close>

definition TcpClient_new :: "string \<Rightarrow> tcp_client" where
  "TcpClient_new nameArg = \<lparr>connector = Connector_new, clientName = nameArg, retryFlag = False, clientConnect = True,
     clientNextId = 1, connection = None, clientWriteComplete = False, clientTasks = 0\<rparr>"

definition TcpClient_enableRetry :: "tcp_client \<Rightarrow> tcp_client" where
  "TcpClient_enableRetry k = k\<lparr>retryFlag := True\<rparr>"

definition TcpClient_connect :: "bool \<Rightarrow> int \<Rightarrow> errno \<Rightarrow> tcp_client \<Rightarrow> tcp_client res" where
  "TcpClient_connect inThread sock e k =
     rbind (Connector_start inThread sock e (connector k)) (\<lambda>c. Inr (k\<lparr>clientConnect := True, connector := c\<rparr>))"

definition TcpClient_disconnect :: "tcp_client \<Rightarrow> tcp_client res" where
  "TcpClient_disconnect k =
     (let k1 = k\<lparr>clientConnect := False\<rparr> in
      case connection k1 of
        None \<Rightarrow> Inr k1
      | Some conn \<Rightarrow> rbind (TcpConnection_shutdown conn) (\<lambda>conn'. Inr (k1\<lparr>connection := Some conn'\<rparr>)))"

definition TcpClient_stop :: "tcp_client \<Rightarrow> tcp_client" where
  "TcpClient_stop k = k\<lparr>clientConnect := False, connector := Connector_stop (connector k)\<rparr>"

text \<open>The name is printed into 32 bytes; it is the second component of the answer.\<close>

definition TcpClient_newConnection :: "conn_callbacks \<Rightarrow> bool \<Rightarrow> int \<Rightarrow> string \<Rightarrow> tcp_client \<Rightarrow> (tcp_client \<times> string) res" where
  "TcpClient_newConnection cbs inThread sockfd peer k =
     (if \<not> inThread then Inl Exited
      else (let connName = clientName k @ take 31 ('':'' @ peer @ ''#'' @ show_int (clientNextId k)) in
        rbind (TcpConnection_new sockfd inThread) (\<lambda>conn.
        rbind (TcpConnection_connectEstablished cbs (conn\<lparr>hasWriteComplete := clientWriteComplete k\<rparr>)) (\<lambda>conn'.
          Inr (k\<lparr>clientNextId := clientNextId k + 1, connection := Some conn'\<rparr>, connName)))))"

definition TcpClient_removeConnection :: "bool \<Rightarrow> int \<Rightarrow> errno \<Rightarrow> tcp_client \<Rightarrow> tcp_client res" where
  "TcpClient_removeConnection inThread sock e k =
     (if \<not> inThread then Inl Exited
      else c_assert (connection k \<noteq> None)
        (let k1 = k\<lparr>connection := None, clientTasks := clientTasks k + 1\<rparr> in
         if retryFlag k1 \<and> clientConnect k1
         then rbind (Connector_restart inThread sock e (connector k1)) (\<lambda>c. Inr (k1\<lparr>connector := c\<rparr>))
         else Inr k1))"

text \<open>The destructor; \<open>unique\<close> says whether the client holds the last reference to its connection.\<close>

definition TcpClient_delete :: "bool \<Rightarrow> tcp_client \<Rightarrow> tcp_client" where
  "TcpClient_delete unique k =
     (case connection k of
        Some conn \<Rightarrow> if unique then k\<lparr>connection := Some (TcpConnection_forceClose conn)\<rparr> else k
      | None \<Rightarrow> k\<lparr>connector := Connector_stop (connector k)\<rparr>)"

section \<open>Iterations of the loop\<close>

primrec run_connector_task :: "int \<Rightarrow> errno \<Rightarrow> connector_task \<Rightarrow> connector \<Rightarrow> connector res" where
  "run_connector_task sock e StartInLoop c = Connector_startInLoop True sock e c"
| "run_connector_task sock e StopInLoop c = Connector_stopInLoop True c"
| "run_connector_task sock e ResetChannel c = Connector_resetChannel c"

primrec run_connector_tasks :: "int \<Rightarrow> errno \<Rightarrow> connector_task list \<Rightarrow> connector \<Rightarrow> connector res" where
  "run_connector_tasks sock e [] c = Inr c"
| "run_connector_tasks sock e (t # ts) c = rbind (run_connector_task sock e t c) (run_connector_tasks sock e ts)"

text \<open>The functors queued so far run at the end of the iteration in which they were queued.\<close>

definition connector_pass :: "int \<Rightarrow> errno \<Rightarrow> connector \<Rightarrow> connector res" where
  "connector_pass sock e c = run_connector_tasks sock e (cTasks c) (c\<lparr>cTasks := []\<rparr>)"

end
