(* ===== verification/Connector_Laws.thy ===== *)
theory Connector_Laws
  imports Net_Connector "HOL-Library.Multiset"
begin

text \<open>
  What the connector promises over any sequence of events: expired timers, events of its channel, calls of its methods, and the passes
  in which the loop runs the functors queued so far. No assertion fails, the channel is deleted only when it is off the
  poller, every socket that was created is closed once or handed over once, and the delays between attempts double up to
  their limit.
\<close>

section \<open>Runs\<close>

text \<open>
  \<open>EvStop\<close> is a call of \<^verbatim>\<open>stop()\<close> from any thread: in one step it clears the flag and queues \<^verbatim>\<open>stopInLoop\<close>, which runs in the next pass
  (\<open>EvPass\<close>), with any events in between. \<open>EvStart\<close> and \<open>EvRestart\<close> are the calls, in the loop's thread, of a client that respects
  the connector: one starts an idle connector, the other restarts one that has connected, in either case with no
  functor pending. A retry timer, which waits at least 500 ms, does not expire in the iteration that set it, so not before the pass that
  deletes the old channel.
\<close>

datatype connector_event = EvTimer int errno | EvWrite errno bool | EvError | EvErrorWrite errno bool | EvStop
  | EvStart int errno | EvRestart int errno | EvPass

definition connector_live :: "connector \<Rightarrow> bool" where
  "connector_live c \<longleftrightarrow> (case cChannel c of None \<Rightarrow> False | Some ch \<Rightarrow> Channel_isWriting ch)"

definition connector_idle :: "connector \<Rightarrow> bool" where
  "connector_idle c \<longleftrightarrow> cState c = CDisconnected \<and> retryTimers c = 0 \<and> cChannel c = None \<and> cTasks c = []"

definition timer_due :: "connector \<Rightarrow> bool" where
  "timer_due c \<longleftrightarrow> retryTimers c \<noteq> 0 \<and> ResetChannel \<notin> set (cTasks c)"

definition restartable :: "connector \<Rightarrow> bool" where
  "restartable c \<longleftrightarrow> cState c = CConnected \<and> cTasks c = []"

primrec connector_event_step :: "connector_event \<Rightarrow> connector \<Rightarrow> connector res" where
  "connector_event_step (EvTimer sock e) c =
     (if timer_due c then Connector_startInLoop True sock e (c\<lparr>retryTimers := retryTimers c - 1\<rparr>) else Inr c)"
| "connector_event_step (EvWrite err self) c = (if connector_live c then Connector_handleWrite err self c else Inr c)"
| "connector_event_step EvError c = (if connector_live c then Connector_handleError c else Inr c)"
| "connector_event_step (EvErrorWrite err self) c =
     (if connector_live c then rbind (Connector_handleError c) (Connector_handleWrite err self) else Inr c)"
| "connector_event_step EvStop c = Inr (Connector_stop c)"
| "connector_event_step (EvStart sock e) c = (if connector_idle c then Connector_start True sock e c else Inr c)"
| "connector_event_step (EvRestart sock e) c = (if restartable c then Connector_restart True sock e c else Inr c)"
| "connector_event_step EvPass c = connector_pass 0 NoError c"

text \<open>The sockets an event creates.\<close>

primrec opens :: "connector_event \<Rightarrow> connector \<Rightarrow> int list" where
  "opens (EvTimer sock e) c = (if timer_due c \<and> connectFlag c then [sock] else [])"
| "opens (EvWrite err self) c = []"
| "opens EvError c = []"
| "opens (EvErrorWrite err self) c = []"
| "opens EvStop c = []"
| "opens (EvStart sock e) c = (if connector_idle c then [sock] else [])"
| "opens (EvRestart sock e) c = (if restartable c then [sock] else [])"
| "opens EvPass c = []"

text \<open>An event that is alone in its iteration.\<close>

definition connector_iteration :: "connector_event \<Rightarrow> connector \<Rightarrow> connector res" where
  "connector_iteration ev c = rbind (connector_event_step ev c) (connector_pass 0 NoError)"

primrec run_connector :: "connector_event list \<Rightarrow> connector \<Rightarrow> (int list \<times> connector) res" where
  "run_connector [] c = Inr ([], c)"
| "run_connector (ev # evs) c =
     rbind (connector_event_step ev c) (\<lambda>c1. rbind (run_connector evs c1) (\<lambda>(os, c2). Inr (opens ev c @ os, c2)))"

section \<open>The invariant\<close>

definition chan_live :: "channel \<Rightarrow> bool" where
  "chan_live ch \<longleftrightarrow> \<not> eventHandling ch \<and> Channel_isWriting ch"

definition chan_dead :: "channel \<Rightarrow> bool" where
  "chan_dead ch \<longleftrightarrow> \<not> eventHandling ch \<and> \<not> addedToLoop ch \<and> \<not> Channel_isWriting ch"

text \<open>
  A live channel belongs to an attempt; a dead one has one functor coming that deletes it, and no other has. A pending \<^verbatim>\<open>stopInLoop\<close>
  means that the connector is not wanted.
\<close>

definition connector_ok :: "connector \<Rightarrow> bool" where
  "connector_ok c \<longleftrightarrow>
     set (cTasks c) \<subseteq> {StopInLoop, ResetChannel} \<and> (StopInLoop \<in> set (cTasks c) \<longrightarrow> \<not> connectFlag c) \<and> retryTimers c \<le> 1 \<and>
     (cState c \<noteq> CDisconnected \<longrightarrow> retryTimers c = 0) \<and>
     (if cState c = CConnecting
      then (\<exists>ch. cChannel c = Some ch \<and> chan_live ch) \<and> ResetChannel \<notin> set (cTasks c)
      else (case cChannel c of
              None \<Rightarrow> ResetChannel \<notin> set (cTasks c)
            | Some ch \<Rightarrow> chan_dead ch \<and> count_list (cTasks c) ResetChannel = 1))"

definition active_fds :: "connector \<Rightarrow> int list" where
  "active_fds c = (case (cState c, cChannel c) of (CConnecting, Some ch) \<Rightarrow> [fd ch] | _ \<Rightarrow> [])"

definition all_fds :: "connector \<Rightarrow> int list" where
  "all_fds c = closedFds c @ deliveredFds c @ active_fds c"

definition backoff :: "nat \<Rightarrow> int" where
  "backoff k = min (500 * 2 ^ k) 30000"

definition backoff_ok :: "connector \<Rightarrow> bool" where
  "backoff_ok c \<longleftrightarrow> delays c = map backoff [0..<length (delays c)] \<and> retryDelayMs c = backoff (length (delays c))"

lemma solo_chan_eqs [conn_simps]:
  "solo_chan Channel_enableWriting ch = Inr (ch\<lparr>events := events ch OR kWriteEvent, addedToLoop := True\<rparr>)"
  "solo_chan Channel_disableAll ch = Inr (ch\<lparr>events := kNoneEvent, addedToLoop := True\<rparr>)"
  "solo_chan Channel_remove (ch\<lparr>events := kNoneEvent, addedToLoop := True\<rparr>) = Inr (ch\<lparr>events := kNoneEvent, addedToLoop := False\<rparr>)"
  by (simp_all add: solo_chan_def Channel_enableWriting_def Channel_disableAll_def Channel_remove_def Channel_update_def set_events_def
      Channel_isNoneEvent_def)

lemma backoff_Suc: "min (backoff k * 2) kMaxRetryDelayMs = backoff (Suc k)"
  by (simp add: backoff_def kMaxRetryDelayMs_def)

lemma retry_eq:
  "Connector_retry n c = c\<lparr>closedFds := closedFds c @ [n], cState := CDisconnected,
     retryTimers := retryTimers c + (if connectFlag c then 1 else 0),
     delays := delays c @ (if connectFlag c then [retryDelayMs c] else []),
     retryDelayMs := (if connectFlag c then min (retryDelayMs c * 2) kMaxRetryDelayMs else retryDelayMs c)\<rparr>"
  by (simp add: Connector_retry_def Let_def)

lemma removeAndReset_eq:
  assumes "cChannel c = Some ch"
  shows "Connector_removeAndResetChannel c = Inr (fd ch,
    c\<lparr>cChannel := Some (ch\<lparr>events := kNoneEvent, addedToLoop := False\<rparr>), cTasks := cTasks c @ [ResetChannel]\<rparr>)"
  using assms by (simp add: Connector_removeAndResetChannel_def conn_simps)

lemma chan_dead_removed: "\<not> eventHandling ch \<Longrightarrow> chan_dead (ch\<lparr>events := kNoneEvent, addedToLoop := False\<rparr>)"
  by (simp add: chan_dead_def)

lemma resetChannel_eq:
  assumes "cChannel c = Some ch" "chan_dead ch"
  shows "Connector_resetChannel c = Inr (c\<lparr>cChannel := None\<rparr>)"
  using assms by (simp add: Connector_resetChannel_def Channel_delete_def chan_dead_def)

definition new_chan :: "int \<Rightarrow> channel" where
  "new_chan n = (Channel_setErrorCallback (Channel_setWriteCallback (Channel_new n)))\<lparr>events := kWriteEvent, addedToLoop := True\<rparr>"

lemma new_chan_live [simp]: "chan_live (new_chan n)" "fd (new_chan n) = n"
  by (simp_all add: new_chan_def chan_live_def Channel_isWriting_def kEvent_bits Channel_setErrorCallback_def
      Channel_setWriteCallback_def Channel_new_def)

lemma connecting_eq:
  assumes "cChannel c = None"
  shows "Connector_connecting n c = Inr (c\<lparr>cState := CConnecting, cChannel := Some (new_chan n)\<rparr>)"
  using assms by (simp add: Connector_connecting_def Let_def conn_simps new_chan_def Channel_setErrorCallback_def
      Channel_setWriteCallback_def Channel_new_def)

section \<open>Every event keeps it\<close>

lemma backoff_retry:
  "backoff_ok c \<Longrightarrow> backoff_ok (Connector_retry n c)"
  by (simp add: backoff_ok_def retry_eq backoff_Suc)

lemma backoff_other:
  "delays c' = delays c \<Longrightarrow> retryDelayMs c' = retryDelayMs c \<Longrightarrow> backoff_ok c' = backoff_ok c"
  by (simp add: backoff_ok_def)

lemma attempt_ok:
  assumes "cState c = CDisconnected" "cChannel c = None" "set (cTasks c) \<subseteq> {StopInLoop}" "StopInLoop \<in> set (cTasks c) \<longrightarrow> \<not> connectFlag c"
    "retryTimers c = 0" "0 \<le> sock"
  shows "\<exists>c'. Connector_startInLoop True sock e c = Inr c' \<and> connector_ok c' \<and>
    mset (all_fds c') = mset (all_fds c) + (if connectFlag c then {#sock#} else {#}) \<and> (backoff_ok c \<longrightarrow> backoff_ok c')"
proof -
  have active: "active_fds c = []"
    using assms(1) by (simp add: active_fds_def)
  have tasks: "ResetChannel \<notin> set (cTasks c)" "set (cTasks c) \<subseteq> {StopInLoop, ResetChannel}"
    using assms(3) by auto
  consider "\<not> connectFlag c" | "connectFlag c" "connect_proceeds e" | "connectFlag c" "\<not> connect_proceeds e" "connect_retries e"
    | "connectFlag c" "\<not> connect_proceeds e" "\<not> connect_retries e"
    by blast
  then show ?thesis
  proof cases
    case 1
    then show ?thesis
      using assms tasks by (simp add: Connector_startInLoop_def connector_ok_def)
  next
    case 2
    then have "Connector_startInLoop True sock e c = Inr (c\<lparr>cState := CConnecting, cChannel := Some (new_chan sock)\<rparr>)"
      using assms by (simp add: Connector_startInLoop_def Connector_connect_def createNonblockingOrDie_def connecting_eq)
    then show ?thesis
      using assms tasks 2 active by (simp add: connector_ok_def all_fds_def active_fds_def backoff_ok_def)
  next
    case 3
    then have "Connector_startInLoop True sock e c = Inr (Connector_retry sock c)"
      using assms by (simp add: Connector_startInLoop_def Connector_connect_def createNonblockingOrDie_def)
    then show ?thesis
      using assms tasks 3 active backoff_retry [of c sock] by (simp add: connector_ok_def all_fds_def active_fds_def retry_eq)
  next
    case 4
    then have "Connector_startInLoop True sock e c = Inr (c\<lparr>closedFds := closedFds c @ [sock]\<rparr>)"
      using assms by (simp add: Connector_startInLoop_def Connector_connect_def createNonblockingOrDie_def)
    then show ?thesis
      using assms tasks 4 active by (simp add: connector_ok_def all_fds_def active_fds_def backoff_ok_def)
  qed
qed

text \<open>What an event leaves: no failure, every socket accounted for, the delays in order.\<close>

definition keeps :: "connector \<Rightarrow> int multiset \<Rightarrow> connector res \<Rightarrow> bool" where
  "keeps c new r \<longleftrightarrow> (\<exists>c'. r = Inr c' \<and> connector_ok c' \<and> mset (all_fds c') = mset (all_fds c) + new \<and> (backoff_ok c \<longrightarrow> backoff_ok c'))"

lemma keeps_refl: "connector_ok c \<Longrightarrow> keeps c {#} (Inr c)"
  by (simp add: keeps_def)

lemma connecting_live:
  assumes "connector_ok c" "connector_live c"
  obtains ch where "cState c = CConnecting" "cChannel c = Some ch" "chan_live ch" "ResetChannel \<notin> set (cTasks c)" "retryTimers c = 0"
  using assms by (auto simp: connector_ok_def connector_live_def chan_dead_def split: if_splits option.splits)

lemma count_none: "x \<notin> set xs \<Longrightarrow> count_list xs x = 0"
  by (simp add: count_list_0_iff)

text \<open>The attempt of a connecting connector ends: its socket is closed, with or without a retry, or handed over.\<close>

lemma gone_ok:
  assumes "connector_ok c" "cState c = CConnecting" "cChannel c = Some ch"
    "c1 = c\<lparr>cChannel := Some (ch\<lparr>events := kNoneEvent, addedToLoop := False\<rparr>), cTasks := cTasks c @ [ResetChannel]\<rparr>"
    "c2 = Connector_retry (fd ch) c1 \<or> c2 = c1\<lparr>cState := CConnected, deliveredFds := deliveredFds c @ [fd ch]\<rparr> \<or>
      c2 = c1\<lparr>cState := CConnected, closedFds := closedFds c @ [fd ch]\<rparr>"
  shows "keeps c {#} (Inr c2)"
proof -
  have live: "chan_live ch" "ResetChannel \<notin> set (cTasks c)" "retryTimers c = 0" "set (cTasks c) \<subseteq> {StopInLoop, ResetChannel}"
      "StopInLoop \<in> set (cTasks c) \<longrightarrow> \<not> connectFlag c"
    using assms(1-3) by (auto simp: connector_ok_def)
  have dead: "chan_dead (ch\<lparr>events := kNoneEvent, addedToLoop := False\<rparr>)"
    using live(1) by (simp add: chan_dead_removed chan_live_def)
  have fds: "all_fds c = closedFds c @ deliveredFds c @ [fd ch]"
    using assms(2,3) by (simp add: all_fds_def active_fds_def)
  have "backoff_ok c2" if "backoff_ok c"
    using that assms(4,5) backoff_retry [of c1 "fd ch"] by (auto simp: backoff_ok_def)
  moreover have "mset (all_fds c2) = mset (all_fds c)"
    unfolding fds using assms(4,5) by (auto simp: all_fds_def active_fds_def retry_eq)
  moreover have "connector_ok c2"
    using assms(4,5) live dead count_none [OF live(2)] by (auto simp: connector_ok_def retry_eq)
  ultimately show ?thesis
    by (simp add: keeps_def)
qed

lemma live_event_ok:
  assumes ok: "connector_ok c" and ev: "ev = EvWrite err self \<or> ev = EvError \<or> ev = EvErrorWrite err self"
  shows "keeps c {#} (connector_event_step ev c)"
proof (cases "connector_live c")
  case True
  obtain ch where ch: "cState c = CConnecting" "cChannel c = Some ch"
    using connecting_live [OF ok True] by blast
  define c1 where "c1 = c\<lparr>cChannel := Some (ch\<lparr>events := kNoneEvent, addedToLoop := False\<rparr>), cTasks := cTasks c @ [ResetChannel]\<rparr>"
  have rem: "Connector_removeAndResetChannel c = Inr (fd ch, c1)"
    using removeAndReset_eq [OF ch(2)] by (simp add: c1_def)
  have same: "deliveredFds c1 = deliveredFds c" "closedFds c1 = closedFds c"
    by (simp_all add: c1_def)
  have error: "Connector_handleError c = Inr (Connector_retry (fd ch) c1)"
    using ch(1) by (simp add: Connector_handleError_def rem)
  have again: "Connector_handleWrite err self (Connector_retry (fd ch) c1) = Inr (Connector_retry (fd ch) c1)"
    by (simp add: Connector_handleWrite_def retry_eq)
  have written: "Connector_handleWrite err self c = Inr (if err \<noteq> NoError \<or> self then Connector_retry (fd ch) c1
      else if connectFlag c1 then c1\<lparr>cState := CConnected, deliveredFds := deliveredFds c @ [fd ch]\<rparr>
      else c1\<lparr>cState := CConnected, closedFds := closedFds c @ [fd ch]\<rparr>)"
    using ch(1) by (simp add: Connector_handleWrite_def rem same Let_def)
  note gone = gone_ok [OF ok ch c1_def]
  have done_write: "keeps c {#} (Connector_handleWrite err self c)"
    unfolding written by (rule gone) simp
  have done_error: "keeps c {#} (Connector_handleError c)"
    unfolding error by (rule gone) simp
  show ?thesis
    using ev True done_write done_error by (auto simp: error again)
next
  case False
  then show ?thesis
    using ev keeps_refl [OF ok] by auto
qed

lemma stop_ok:
  assumes "connector_ok c"
  shows "keeps c {#} (Inr (Connector_stop c))"
  using assms by (auto simp: keeps_def Connector_stop_def connector_ok_def all_fds_def active_fds_def backoff_ok_def split: option.split)

text \<open>The functors of a pass, one after the other, while those that are left and those queued meanwhile wait.\<close>

lemma task_ok:
  assumes "connector_ok (c\<lparr>cTasks := (t # ts) @ cTasks c\<rparr>)"
  shows "\<exists>c'. run_connector_task 0 NoError t c = Inr c' \<and> connector_ok (c'\<lparr>cTasks := ts @ cTasks c'\<rparr>) \<and> mset (all_fds c') = mset (all_fds c) \<and>
    (backoff_ok c \<longrightarrow> backoff_ok c')"
proof (cases t)
  case StartInLoop
  then show ?thesis
    using assms by (simp add: connector_ok_def)
next
  case StopInLoop
  show ?thesis
  proof (cases "cState c = CConnecting")
    case True
    then obtain ch where ch: "cChannel c = Some ch" "chan_live ch" "ResetChannel \<notin> set (ts @ cTasks c)" "retryTimers c = 0" "\<not> connectFlag c"
      using assms StopInLoop by (auto simp: connector_ok_def)
    let ?c = "Connector_retry (fd ch) (c\<lparr>cState := CDisconnected, cChannel := Some (ch\<lparr>events := kNoneEvent, addedToLoop := False\<rparr>),
        cTasks := cTasks c @ [ResetChannel]\<rparr>)"
    have "run_connector_task 0 NoError t c = Inr ?c"
      using StopInLoop True ch(1) by (simp add: Connector_stopInLoop_def removeAndReset_eq)
    moreover have "connector_ok (?c\<lparr>cTasks := ts @ cTasks ?c\<rparr>)"
      using assms StopInLoop ch chan_dead_removed [of ch] count_none [of ResetChannel]
      by (auto simp: connector_ok_def retry_eq chan_live_def)
    moreover have "mset (all_fds ?c) = mset (all_fds c)" "backoff_ok c \<longrightarrow> backoff_ok ?c"
      using True ch by (simp_all add: all_fds_def active_fds_def retry_eq backoff_ok_def)
    ultimately show ?thesis
      by blast
  next
    case False
    then show ?thesis
      using StopInLoop assms by (auto simp: Connector_stopInLoop_def connector_ok_def split: option.splits)
  qed
next
  case ResetChannel
  then have "cState c \<noteq> CConnecting"
    using assms by (auto simp: connector_ok_def)
  then obtain ch where ch: "cChannel c = Some ch" "chan_dead ch" "ResetChannel \<notin> set (ts @ cTasks c)"
    using assms ResetChannel by (auto simp: connector_ok_def count_list_0_iff split: option.splits)
  have "run_connector_task 0 NoError t c = Inr (c\<lparr>cChannel := None\<rparr>)"
    using ResetChannel resetChannel_eq [OF ch(1,2)] by simp
  moreover have "all_fds (c\<lparr>cChannel := None\<rparr>) = all_fds c"
    using \<open>cState c \<noteq> CConnecting\<close> by (cases "cState c") (simp_all add: all_fds_def active_fds_def)
  ultimately show ?thesis
    using assms ResetChannel ch \<open>cState c \<noteq> CConnecting\<close> by (auto simp: connector_ok_def backoff_ok_def)
qed

lemma tasks_ok:
  "connector_ok (c\<lparr>cTasks := ts @ cTasks c\<rparr>) \<Longrightarrow>
   \<exists>c'. run_connector_tasks 0 NoError ts c = Inr c' \<and> connector_ok c' \<and> mset (all_fds c') = mset (all_fds c) \<and> (backoff_ok c \<longrightarrow> backoff_ok c')"
proof (induction ts arbitrary: c)
  case (Cons t ts)
  obtain c1 where c1: "run_connector_task 0 NoError t c = Inr c1" "connector_ok (c1\<lparr>cTasks := ts @ cTasks c1\<rparr>)" "mset (all_fds c1) = mset (all_fds c)"
      "backoff_ok c \<longrightarrow> backoff_ok c1"
    using task_ok [OF Cons.prems] by blast
  then show ?case
    using Cons.IH [OF c1(2)] by auto
qed simp

lemma pass_ok:
  assumes "connector_ok c"
  shows "keeps c {#} (connector_pass 0 NoError c)"
  using tasks_ok [of "cTasks c" "c\<lparr>cTasks := []\<rparr>"] assms
  by (auto simp: keeps_def connector_pass_def all_fds_def active_fds_def backoff_ok_def)

lemma timer_ok:
  assumes "connector_ok c" "0 \<le> sock"
  shows "keeps c (mset (opens (EvTimer sock e) c)) (connector_event_step (EvTimer sock e) c)"
proof (cases "timer_due c")
  case True
  let ?c = "c\<lparr>retryTimers := 0\<rparr>"
  have c: "cState ?c = CDisconnected" "cChannel ?c = None" "set (cTasks ?c) \<subseteq> {StopInLoop}" "StopInLoop \<in> set (cTasks ?c) \<longrightarrow> \<not> connectFlag ?c"
      "retryTimers ?c = 0" and one: "retryTimers c = 1"
    using assms(1) True by (auto simp: connector_ok_def timer_due_def split: if_splits option.splits)
  have "all_fds ?c = all_fds c" "backoff_ok ?c = backoff_ok c"
    by (simp_all add: all_fds_def active_fds_def backoff_ok_def)
  then show ?thesis
    using attempt_ok [OF c assms(2), of e] True one by (auto simp: keeps_def)
qed (use keeps_refl [OF assms(1)] in simp)

lemma start_ok:
  assumes "connector_ok c" "0 \<le> sock"
  shows "keeps c (mset (opens (EvStart sock e) c)) (connector_event_step (EvStart sock e) c)"
proof (cases "connector_idle c")
  case True
  let ?c = "c\<lparr>connectFlag := True\<rparr>"
  have c: "cState ?c = CDisconnected" "cChannel ?c = None" "set (cTasks ?c) \<subseteq> {StopInLoop}" "StopInLoop \<in> set (cTasks ?c) \<longrightarrow> \<not> connectFlag ?c"
      "retryTimers ?c = 0"
    using True by (simp_all add: connector_idle_def)
  have "all_fds ?c = all_fds c" "backoff_ok ?c = backoff_ok c"
    by (simp_all add: all_fds_def active_fds_def backoff_ok_def)
  then show ?thesis
    using attempt_ok [OF c assms(2), of e] True by (auto simp: keeps_def Connector_start_def)
qed (use keeps_refl [OF assms(1)] in simp)

lemma restart_ok:
  assumes "connector_ok c" "0 \<le> sock"
  shows "\<exists>c'. connector_event_step (EvRestart sock e) c = Inr c' \<and> connector_ok c' \<and>
    mset (all_fds c') = mset (all_fds c) + mset (opens (EvRestart sock e) c)"
proof (cases "restartable c")
  case True
  let ?c = "c\<lparr>cState := CDisconnected, retryDelayMs := kInitRetryDelayMs, connectFlag := True\<rparr>"
  have st: "cState c = CConnected"
    using True by (simp add: restartable_def)
  have c: "cState ?c = CDisconnected" "cChannel ?c = None" "set (cTasks ?c) \<subseteq> {StopInLoop}" "StopInLoop \<in> set (cTasks ?c) \<longrightarrow> \<not> connectFlag ?c"
      "retryTimers ?c = 0"
    using True assms(1) by (auto simp: restartable_def connector_ok_def split: option.splits)
  have "all_fds ?c = all_fds c"
    using st by (simp add: all_fds_def active_fds_def)
  then show ?thesis
    using attempt_ok [OF c assms(2), of e] True by (auto simp: Connector_restart_def)
qed (use assms(1) in simp)

primrec sock_ok :: "connector_event \<Rightarrow> bool" where
  "sock_ok (EvTimer sock e) \<longleftrightarrow> 0 \<le> sock" | "sock_ok (EvWrite err self) \<longleftrightarrow> True" | "sock_ok EvError \<longleftrightarrow> True"
| "sock_ok (EvErrorWrite err self) \<longleftrightarrow> True" | "sock_ok EvStop \<longleftrightarrow> True" | "sock_ok (EvStart sock e) \<longleftrightarrow> 0 \<le> sock"
| "sock_ok (EvRestart sock e) \<longleftrightarrow> 0 \<le> sock" | "sock_ok EvPass \<longleftrightarrow> True"

definition is_restart :: "connector_event \<Rightarrow> bool" where
  "is_restart ev \<longleftrightarrow> (\<exists>sock e. ev = EvRestart sock e)"

lemma event_ok:
  assumes "connector_ok c" "sock_ok ev"
  shows "\<exists>c'. connector_event_step ev c = Inr c' \<and> connector_ok c' \<and> mset (all_fds c') = mset (all_fds c) + mset (opens ev c) \<and>
    (backoff_ok c \<and> \<not> is_restart ev \<longrightarrow> backoff_ok c')"
proof -
  have kept: ?thesis if "keeps c (mset (opens ev c)) (connector_event_step ev c)"
    using that by (auto simp: keeps_def)
  show ?thesis
  proof (cases ev)
    case (EvTimer sock e)
    then show ?thesis
      using timer_ok [OF assms(1), of sock e] assms(2) by (intro kept) simp
  next
    case EvStop
    then show ?thesis
      using stop_ok [OF assms(1)] by (intro kept) simp
  next
    case (EvStart sock e)
    then show ?thesis
      using start_ok [OF assms(1), of sock e] assms(2) by (intro kept) simp
  next
    case (EvRestart sock e)
    then show ?thesis
      using restart_ok [OF assms(1), of sock e] assms(2) by (auto simp: is_restart_def)
  next
    case EvPass
    then show ?thesis
      using pass_ok [OF assms(1)] by (intro kept) simp
  next
    case (EvWrite err self)
    then show ?thesis
      using live_event_ok [OF assms(1), of ev err self] by (intro kept) simp
  next
    case EvError
    then show ?thesis
      using live_event_ok [OF assms(1), of ev] by (intro kept) simp
  next
    case (EvErrorWrite err self)
    then show ?thesis
      using live_event_ok [OF assms(1), of ev err self] by (intro kept) simp
  qed
qed

lemma run_connector_ok:
  "connector_ok c \<Longrightarrow> list_all sock_ok evs \<Longrightarrow>
   \<exists>os c'. run_connector evs c = Inr (os, c') \<and> connector_ok c' \<and> mset (all_fds c') = mset (all_fds c) + mset os \<and>
     (backoff_ok c \<and> \<not> list_ex is_restart evs \<longrightarrow> backoff_ok c')"
proof (induction evs arbitrary: c)
  case (Cons ev evs)
  obtain c1 where c1: "connector_event_step ev c = Inr c1" "connector_ok c1" "mset (all_fds c1) = mset (all_fds c) + mset (opens ev c)"
      "backoff_ok c \<and> \<not> is_restart ev \<longrightarrow> backoff_ok c1"
    using event_ok [OF Cons.prems(1)] Cons.prems(2) by auto
  obtain os c2 where "run_connector evs c1 = Inr (os, c2)" "connector_ok c2" "mset (all_fds c2) = mset (all_fds c1) + mset os"
      "backoff_ok c1 \<and> \<not> list_ex is_restart evs \<longrightarrow> backoff_ok c2"
    using Cons.IH [OF c1(2)] Cons.prems(2) by auto
  then show ?case
    using c1 by auto
qed simp

lemma connector_new_ok: "connector_ok Connector_new" "backoff_ok Connector_new" "all_fds Connector_new = []"
  by (simp_all add: connector_ok_def Connector_new_def backoff_ok_def backoff_def kInitRetryDelayMs_def all_fds_def active_fds_def)

text \<open>
  C23. Over any sequence of expired timers, errors and writable events, with any outcomes of \<^verbatim>\<open>connect\<close>, of calls of \<^verbatim>\<open>stop()\<close> at any
  moment and from any thread, of passes over the queued functors, and of calls of \<^verbatim>\<open>start()\<close> on an idle connector and of
  \<^verbatim>\<open>restart()\<close> on a connected one, no assertion fails; every socket that was created is closed once, or handed over once, or is the one being
  connected, also when the connection succeeds between \<^verbatim>\<open>stop()\<close> and the functor it queued; and as long as the connector is not
  restarted the delays between attempts are 500 ms, doubled each time up to 30 s.
\<close>

theorem Connector_runs:
  assumes "list_all sock_ok evs"
  shows "\<exists>os c. run_connector evs Connector_new = Inr (os, c) \<and>
    mset os = mset (closedFds c) + mset (deliveredFds c) + mset (active_fds c) \<and> length (active_fds c) \<le> 1 \<and>
    (\<not> list_ex is_restart evs \<longrightarrow> delays c = map (\<lambda>k. min (500 * 2 ^ k) 30000) [0..<length (delays c)])"
proof -
  obtain os c where "run_connector evs Connector_new = Inr (os, c)" "mset (all_fds c) = mset os"
      "\<not> list_ex is_restart evs \<longrightarrow> backoff_ok c"
    using run_connector_ok [OF connector_new_ok(1) assms] connector_new_ok by auto
  moreover have "(\<lambda>k. min (500 * 2 ^ k) 30000) = backoff"
    by (simp add: backoff_def fun_eq_iff)
  moreover have "length (active_fds c) \<le> 1"
    by (simp add: active_fds_def split: connector_state.split option.split)
  ultimately show ?thesis
    by (intro exI [of _ os] exI [of _ c]) (auto simp: all_fds_def backoff_ok_def add.assoc)
qed

theorem Connector_runs_witness:
  "\<exists>os c. run_connector [EvStart 5 ECONNREFUSED, EvTimer 6 EINPROGRESS, EvErrorWrite ECONNREFUSED False, EvPass, EvTimer 7 NoError,
       EvStop, EvWrite NoError False, EvPass] Connector_new = Inr (os, c) \<and>
     mset os = mset (closedFds c) + mset (deliveredFds c) + mset (active_fds c) \<and>
     delays c = map (\<lambda>k. min (500 * 2 ^ k) 30000) [0..<length (delays c)]"
  using Connector_runs [of "[EvStart 5 ECONNREFUSED, EvTimer 6 EINPROGRESS, EvErrorWrite ECONNREFUSED False, EvPass, EvTimer 7 NoError,
       EvStop, EvWrite NoError False, EvPass]"] by (simp add: is_restart_def del: run_connector.simps) blast

text \<open>
  C24. Calling \<^verbatim>\<open>start()\<close> again while a retry is pending, which \<^verbatim>\<open>TcpClient::connect()\<close> does without
  a check, begins a second attempt; since the pending timer is not cancelled, its expiry then fails the assertion of
  \<^verbatim>\<open>startInLoop\<close> that the connector is disconnected. A \<^verbatim>\<open>stop()\<close> in between does not help.
\<close>

theorem Connector_start_while_retrying:
  assumes "cState c = CDisconnected" "cChannel c = None" "cTasks c = []" "retryTimers c = 1" "0 \<le> sock" "connect_proceeds e"
    "c0 = c \<or> connector_iteration EvStop c = Inr c0"
  shows "\<exists>c1. Connector_start True sock e c0 = Inr c1 \<and> connector_iteration (EvTimer sock' e') c1 = Inl AssertFailed"
proof -
  have c0: "cState c0 = CDisconnected" "cChannel c0 = None" "retryTimers c0 = 1" "cTasks c0 = []"
    using assms by (auto simp: connector_iteration_def Connector_stop_def connector_pass_def Connector_stopInLoop_def)
  then have "Connector_start True sock e c0 = Inr (c0\<lparr>connectFlag := True, cState := CConnecting, cChannel := Some (new_chan sock)\<rparr>)"
    using assms(5,6) by (simp add: Connector_start_def Connector_startInLoop_def Connector_connect_def createNonblockingOrDie_def connecting_eq)
  then show ?thesis
    using c0 by (simp add: connector_iteration_def Connector_startInLoop_def timer_due_def)
qed

theorem Connector_start_while_retrying_witness:
  "\<exists>c c1. run_connector [EvStart 5 ECONNREFUSED] Connector_new = Inr ([5], c) \<and> Connector_start True 6 EINPROGRESS c = Inr c1 \<and>
     connector_iteration (EvTimer 7 NoError) c1 = Inl AssertFailed"
proof -
  define c where "c = Connector_retry 5 (Connector_new\<lparr>connectFlag := True\<rparr>)"
  have run: "run_connector [EvStart 5 ECONNREFUSED] Connector_new = Inr ([5], c)"
    by (simp add: connector_iteration_def connector_idle_def Connector_start_def Connector_startInLoop_def Connector_connect_def
        createNonblockingOrDie_def connect_proceeds_def connect_retries_def Connector_new_def c_def retry_eq)
  have "cState c = CDisconnected" "cChannel c = None" "cTasks c = []" "retryTimers c = 1"
    by (simp_all add: c_def retry_eq Connector_new_def)
  then show ?thesis
    using Connector_start_while_retrying [of c 6 EINPROGRESS c 7 NoError] run by (auto simp: connect_proceeds_def)
qed

text \<open>The client reconnects after a lost connection exactly when it may, and starts from the first delay again.\<close>

lemma TcpClient_removeConnection_restarts:
  assumes "connection k = Some conn" "connector_ok (connector k)" "cState (connector k) = CConnected" "cTasks (connector k) = []" "0 \<le> sock"
  shows "\<exists>k'. TcpClient_removeConnection True sock e k = Inr k' \<and> connection k' = None \<and> clientTasks k' = clientTasks k + 1 \<and>
    connector_ok (connector k') \<and> (connector k' \<noteq> connector k \<longrightarrow> retryFlag k \<and> clientConnect k)"
proof -
  let ?c = "(connector k)\<lparr>cState := CDisconnected, retryDelayMs := kInitRetryDelayMs, connectFlag := True\<rparr>"
  have "cChannel ?c = None" "cTasks ?c = []" "retryTimers ?c = 0" "cState ?c = CDisconnected"
    using assms(2-4) by (auto simp: connector_ok_def split: option.splits)
  then obtain c' where "Connector_startInLoop True sock e ?c = Inr c'" "connector_ok c'"
    using attempt_ok [of ?c sock e] assms(5) by auto
  then show ?thesis
    using assms by (auto simp: TcpClient_removeConnection_def Connector_restart_def Let_def)
qed

end
