(* ===== verification/Net_Codec.thy ===== *)
theory Net_Codec
  imports Connection_Laws
begin

text \<open>
  \<^verbatim>\<open>ProtobufCodecLite\<close> (\<^verbatim>\<open>muduo/net/protobuf\<close>): length-prefixed, tagged and checksummed frames on a connection. The
  protobuf library and zlib are not part of the repository: serialising, parsing and \<^verbatim>\<open>adler32\<close> are fields of the
  codec's record. The loop over the input buffer answers what it handed to the callbacks, in order.
\<close>

section \<open>The codec\<close>

datatype codec_error = kNoError | kInvalidLength | kCheckSumError | kInvalidNameLen | kUnknownMessageType | kParseError

datatype 'm codec_event = Delivered 'm | RawHandled "char list" | Failed codec_error

record 'm codec =
  codecTag :: string
  serialize :: "'m \<Rightarrow> char list"
  deserialize :: "char list \<Rightarrow> 'm option"
  adler32 :: "char list \<Rightarrow> 32 word"
  rawCallback :: "(char list \<Rightarrow> bool) option"

definition kHeaderLen :: int where
  "kHeaderLen = 4"

definition kChecksumLen :: int where
  "kChecksumLen = 4"

definition kMaxMessageLen :: int where
  "kMaxMessageLen = 64 * 1024 * 1024"

definition kMinMessageLen :: "'m codec \<Rightarrow> int" where
  "kMinMessageLen cd = int (length (codecTag cd)) + kChecksumLen"

definition ProtobufCodecLite_errorCodeToString :: "codec_error \<Rightarrow> string" where
  "ProtobufCodecLite_errorCodeToString e =
     (case e of kNoError \<Rightarrow> ''NoError'' | kInvalidLength \<Rightarrow> ''InvalidLength'' | kCheckSumError \<Rightarrow> ''CheckSumError''
      | kInvalidNameLen \<Rightarrow> ''InvalidNameLen'' | kUnknownMessageType \<Rightarrow> ''UnknownMessageType'' | kParseError \<Rightarrow> ''ParseError'')"

definition ProtobufCodecLite_asInt32 :: "char list \<Rightarrow> 32 word" where
  "ProtobufCodecLite_asInt32 buf = networkToHost32 (image_word (take 4 buf))"

definition ProtobufCodecLite_checksum :: "'m codec \<Rightarrow> char list \<Rightarrow> 32 word" where
  "ProtobufCodecLite_checksum cd buf = adler32 cd buf"

definition ProtobufCodecLite_validateChecksum :: "'m codec \<Rightarrow> char list \<Rightarrow> bool" where
  "ProtobufCodecLite_validateChecksum cd buf =
     (let expectedCheckSum = ProtobufCodecLite_asInt32 (drop (length buf - 4) buf);
          checkSum = ProtobufCodecLite_checksum cd (take (length buf - 4) buf)
      in checkSum = expectedCheckSum)"

definition ProtobufCodecLite_parse :: "'m codec \<Rightarrow> char list \<Rightarrow> codec_error + 'm" where
  "ProtobufCodecLite_parse cd buf =
     (if ProtobufCodecLite_validateChecksum cd buf
      then (if take (length (codecTag cd)) buf = codecTag cd
            then (let data = take (length buf - 4 - length (codecTag cd)) (drop (length (codecTag cd)) buf) in
                  case deserialize cd data of Some m \<Rightarrow> Inr m | None \<Rightarrow> Inl kParseError)
            else Inl kUnknownMessageType)
      else Inl kCheckSumError)"

text \<open>The answer is the number of bytes written.\<close>

definition ProtobufCodecLite_serializeToBuffer :: "'m codec \<Rightarrow> 'm \<Rightarrow> net_buffer \<Rightarrow> (nat \<times> net_buffer) res" where
  "ProtobufCodecLite_serializeToBuffer cd m buf =
     (let byte_size = length (serialize cd m) in
      rbind (Buffer_ensureWritableBytes buf (byte_size + 4)) (\<lambda>b1.
      rbind (mem_write (buffer b1) (Buffer_beginWrite b1) (serialize cd m)) (\<lambda>st.
      rbind (Buffer_hasWritten (b1\<lparr>buffer := st\<rparr>) byte_size) (\<lambda>b2. Inr (byte_size, b2)))))"

definition ProtobufCodecLite_fillEmptyBuffer :: "'m codec \<Rightarrow> net_buffer \<Rightarrow> 'm \<Rightarrow> net_buffer res" where
  "ProtobufCodecLite_fillEmptyBuffer cd buf m =
     c_assert (Buffer_readableBytes buf = 0)
       (rbind (Buffer_append buf (codecTag cd)) (\<lambda>b1.
        rbind (ProtobufCodecLite_serializeToBuffer cd m b1) (\<lambda>(byte_size, b2).
        rbind (mem_read (buffer b2) (Buffer_peek b2) (Buffer_readableBytes b2)) (\<lambda>d.
        rbind (Buffer_appendInt32 b2 (ProtobufCodecLite_checksum cd d)) (\<lambda>b3.
        c_assert (Buffer_readableBytes b3 = length (codecTag cd) + byte_size + 4)
          (Buffer_prepend b3 (word_image 4 (hostToNetwork32 (of_nat (Buffer_readableBytes b3))))))))))"

definition ProtobufCodecLite_send :: "write_fn \<Rightarrow> 'm codec \<Rightarrow> 'm \<Rightarrow> tcp_connection \<Rightarrow> tcp_connection res" where
  "ProtobufCodecLite_send write cd m conn =
     rbind (Buffer_new kInitialSize) (\<lambda>buf0.
     rbind (ProtobufCodecLite_fillEmptyBuffer cd buf0 m) (\<lambda>buf.
     rbind (TcpConnection_sendBuffer write buf conn) (\<lambda>(buf', conn'). Inr conn')))"

text \<open>The default error callback shuts a connected connection down.\<close>

definition ProtobufCodecLite_defaultErrorCallback :: "tcp_connection \<Rightarrow> tcp_connection res" where
  "ProtobufCodecLite_defaultErrorCallback conn =
     (if connState conn = kConnected then TcpConnection_shutdown conn else Inr conn)"

partial_function (option) ProtobufCodecLite_onMessage ::
  "'m codec \<Rightarrow> 'm codec_event list \<Rightarrow> net_buffer \<Rightarrow> ('m codec_event list \<times> net_buffer) res option" where
  "ProtobufCodecLite_onMessage cd done buf =
     (if Buffer_readableBytes buf < nat (kMinMessageLen cd + kHeaderLen) then Some (Inr (done, buf))
      else (case Buffer_peekInt32 buf of
        Inl e \<Rightarrow> Some (Inl e)
      | Inr w \<Rightarrow>
          (let len = sint w in
           if kMaxMessageLen < len \<or> len < kMinMessageLen cd then Some (Inr (done @ [Failed kInvalidLength], buf))
           else if nat (kHeaderLen + len) \<le> Buffer_readableBytes buf
           then (case mem_read (buffer buf) (Buffer_peek buf) (nat (kHeaderLen + len)) of
                   Inl e \<Rightarrow> Some (Inl e)
                 | Inr frame \<Rightarrow>
                     (if (case rawCallback cd of None \<Rightarrow> False | Some cb \<Rightarrow> \<not> cb frame)
                      then (case Buffer_retrieve buf (nat (kHeaderLen + len)) of
                              Inl e \<Rightarrow> Some (Inl e)
                            | Inr buf' \<Rightarrow> ProtobufCodecLite_onMessage cd (done @ [RawHandled frame]) buf')
                      else (case ProtobufCodecLite_parse cd (drop 4 frame) of
                              Inl err \<Rightarrow> Some (Inr (done @ [Failed err], buf))
                            | Inr m \<Rightarrow>
                                (case Buffer_retrieve buf (nat (kHeaderLen + len)) of
                                   Inl e \<Rightarrow> Some (Inl e)
                                 | Inr buf' \<Rightarrow> ProtobufCodecLite_onMessage cd (done @ [Delivered m]) buf'))))
           else Some (Inr (done, buf)))))"

end
