(* ===== verification/Frame_Decoder.thy ===== *)
theory Frame_Decoder
  imports Http_Laws
begin

text \<open>
  The interface of a message decoder on a byte stream: a function of the unread bytes that answers the messages it
  found, whether it may go on, and the bytes it left. Its law is that it may be given the stream in any pieces. The
  codecs of the library and of the examples are interpretations of these locales.
\<close>

section \<open>Receiving in pieces\<close>

primrec feed :: "(char list \<Rightarrow> 'e list \<times> bool \<times> char list) \<Rightarrow> char list \<Rightarrow> char list list \<Rightarrow> 'e list \<times> char list" where
  "feed dec rest [] = ([], rest)"
| "feed dec rest (d # ds) =
     (case dec (rest @ d) of (ev, fine, r) \<Rightarrow> (case feed dec r ds of (ev', r') \<Rightarrow> (ev @ ev', r')))"

text \<open>The same on a connection's input buffer: every read appends and then runs the message callback.\<close>

primrec receive :: "(net_buffer \<Rightarrow> ('e list \<times> net_buffer) res option) \<Rightarrow> char list list \<Rightarrow> net_buffer \<Rightarrow> ('e list \<times> net_buffer) res option" where
  "receive on [] b = Some (Inr ([], b))"
| "receive on (d # ds) b =
     (case Buffer_append b d of
        Inl e \<Rightarrow> Some (Inl e)
      | Inr b1 \<Rightarrow> (case on b1 of
          None \<Rightarrow> None
        | Some (Inl e) \<Rightarrow> Some (Inl e)
        | Some (Inr (ev, b2)) \<Rightarrow> (case receive on ds b2 of
            None \<Rightarrow> None
          | Some (Inl e) \<Rightarrow> Some (Inl e)
          | Some (Inr (ev', b3)) \<Rightarrow> Some (Inr (ev @ ev', b3)))))"

section \<open>The interfaces\<close>

locale stream_decoder =
  fixes dec :: "char list \<Rightarrow> 'e list \<times> bool \<times> char list"
  assumes dec_append: "dec (cs @ ds) =
    (case dec cs of (ev, fine, rest) \<Rightarrow>
       if fine then (case dec (rest @ ds) of (ev', fine', r) \<Rightarrow> (ev @ ev', fine', r)) else (ev, False, rest @ ds))"
begin

lemma dec_rest: "dec cs = (ev, True, rest) \<Longrightarrow> dec rest = ([], True, rest)"
  using dec_append [of cs "[]"] by (simp split: prod.splits)

lemma feed_whole: "dec rest = ([], True, rest) \<Longrightarrow> dec (rest @ concat ds) = (ev, True, r) \<Longrightarrow> feed dec rest ds = (ev, r)"
proof (induction ds arbitrary: rest ev)
  case Nil
  then show ?case by simp
next
  case (Cons d ds)
  obtain ev1 fine1 r1 where first: "dec (rest @ d) = (ev1, fine1, r1)"
    by (cases "dec (rest @ d)") auto
  have fine1: "fine1"
    using dec_append [of "rest @ d" "concat ds"] Cons.prems(2) first by (auto split: if_splits)
  then obtain ev2 where ev2: "dec (r1 @ concat ds) = (ev2, True, r)" "ev = ev1 @ ev2"
    using dec_append [of "rest @ d" "concat ds"] Cons.prems(2) first by (auto split: prod.splits)
  have "feed dec r1 ds = (ev2, r)"
    using Cons.IH [of r1 ev2] ev2(1) dec_rest [of "rest @ d" ev1 r1] first fine1 by simp
  then show ?case
    using first ev2(2) by simp
qed

end

text \<open>A decoder that reads back the frames an encoder writes.\<close>

locale frame_decoder = stream_decoder dec
  for dec :: "char list \<Rightarrow> 'e list \<times> bool \<times> char list" +
  fixes frame :: "'m \<Rightarrow> char list" and out :: "'m \<Rightarrow> 'e" and sendable :: "'m \<Rightarrow> bool"
  assumes dec_nil: "dec [] = ([], True, [])"
    and dec_frame: "sendable m \<Longrightarrow> dec (frame m) = ([out m], True, [])"
begin

lemma dec_frames: "list_all sendable ms \<Longrightarrow> dec (concat (map frame ms)) = (map out ms, True, [])"
proof (induction ms)
  case Nil
  then show ?case by (simp add: dec_nil)
next
  case (Cons m ms)
  then show ?case
    using dec_append [of "frame m" "concat (map frame ms)"] dec_frame [of m] by simp
qed

lemma feed_frames:
  "list_all sendable ms \<Longrightarrow> concat ds = concat (map frame ms) \<Longrightarrow> feed dec [] ds = (map out ms, [])"
  using feed_whole [of "[]" ds "map out ms" "[]"] by (simp add: dec_nil dec_frames)

end

text \<open>A message callback that computes such a decoder on a well-formed buffer.\<close>

definition decodes :: "(net_buffer \<Rightarrow> ('e list \<times> net_buffer) res option) \<Rightarrow> (char list \<Rightarrow> 'e list \<times> bool \<times> char list) \<Rightarrow> bool" where
  "decodes on dec \<longleftrightarrow> (\<forall>b. Buffer_wf b \<longrightarrow>
     (\<exists>b'. on b = Some (Inr (fst (dec (Buffer_content b)), b')) \<and> Buffer_wf b' \<and>
        Buffer_content b' = snd (snd (dec (Buffer_content b))) \<and> Buffer_cap b' = Buffer_cap b))"

lemma decodesE:
  assumes "decodes on dec" "Buffer_wf b"
  obtains b' where "on b = Some (Inr (fst (dec (Buffer_content b)), b'))" "Buffer_wf b'"
    "Buffer_content b' = snd (snd (dec (Buffer_content b)))" "Buffer_cap b' = Buffer_cap b"
  using assms unfolding decodes_def by blast

lemma receive_feed:
  assumes "decodes on dec" "Buffer_wf b" "Buffer_cap b + length (concat ds) \<le> vec_max"
  shows "\<exists>b'. receive on ds b = Some (Inr (fst (feed dec (Buffer_content b) ds), b')) \<and> Buffer_wf b' \<and>
    Buffer_content b' = snd (feed dec (Buffer_content b) ds)"
  using assms(2,3)
proof (induction ds arbitrary: b)
  case Nil
  then show ?case by simp
next
  case (Cons d ds)
  obtain b1 where b1: "Buffer_append b d = Inr b1" "Buffer_wf b1" "Buffer_content b1 = Buffer_content b @ d"
      "Buffer_cap b1 \<le> Buffer_cap b + length d"
    using Buffer_append_ok [of b d] Cons.prems by auto
  obtain b2 where b2: "on b1 = Some (Inr (fst (dec (Buffer_content b1)), b2))" "Buffer_wf b2"
      "Buffer_content b2 = snd (snd (dec (Buffer_content b1)))" "Buffer_cap b2 = Buffer_cap b1"
    by (rule decodesE [OF assms(1) b1(2)])
  have "Buffer_cap b2 + length (concat ds) \<le> vec_max"
    using b2(4) b1(4) Cons.prems(2) by simp
  from Cons.IH [OF b2(2) this] show ?case
    using b1(1,3) b2(1,3) by (auto simp: split_beta)
qed

locale buffer_decoder = frame_decoder dec frame out sendable
  for dec :: "char list \<Rightarrow> 'e list \<times> bool \<times> char list" and frame :: "'m \<Rightarrow> char list" and out sendable +
  fixes on :: "net_buffer \<Rightarrow> ('e list \<times> net_buffer) res option"
  assumes on_decodes: "decodes on dec"
begin

lemma receive_frames:
  assumes "list_all sendable ms" "concat ds = concat (map frame ms)" "Buffer_wf b" "Buffer_content b = []"
    "Buffer_cap b + length (concat ds) \<le> vec_max"
  shows "\<exists>b'. receive on ds b = Some (Inr (map out ms, b')) \<and> Buffer_wf b' \<and> Buffer_content b' = []"
  using receive_feed [OF on_decodes assms(3,5)] feed_frames [OF assms(1,2)] assms(4) by simp

end

section \<open>Building a frame in a buffer\<close>

text \<open>The prefix that \<^verbatim>\<open>prepend\<close> needs stays free while a buffer is filled.\<close>

lemma ensureWritable_prefix:
  "Buffer_ensureWritableBytes b n = Inr b' \<Longrightarrow> kCheapPrepend \<le> readerIndex b \<Longrightarrow> kCheapPrepend \<le> readerIndex b'"
  by (auto simp: Buffer_ensureWritableBytes_def Buffer_makeSpace_def Let_def rbind_eq_Inr c_assert_eq_Inr split: if_splits)

lemma append_prefix: "Buffer_append b d = Inr b' \<Longrightarrow> kCheapPrepend \<le> readerIndex b \<Longrightarrow> kCheapPrepend \<le> readerIndex b'"
  by (auto simp: Buffer_append_def Buffer_hasWritten_def rbind_eq_Inr c_assert_eq_Inr dest!: ensureWritable_prefix)

text \<open>Room for more than is then written.\<close>

lemma write_in_place:
  assumes "Buffer_wf b" "Buffer_cap b + n \<le> vec_max" "length d \<le> n"
  shows "\<exists>b1 st b2. Buffer_ensureWritableBytes b n = Inr b1 \<and> mem_write (buffer b1) (Buffer_beginWrite b1) d = Inr st \<and>
    Buffer_hasWritten (b1\<lparr>buffer := st\<rparr>) (length d) = Inr b2 \<and> Buffer_wf b2 \<and> Buffer_content b2 = Buffer_content b @ d \<and>
    Buffer_cap b2 \<le> Buffer_cap b + n \<and> (kCheapPrepend \<le> readerIndex b \<longrightarrow> kCheapPrepend \<le> readerIndex b2)"
proof -
  obtain b1 where b1: "Buffer_ensureWritableBytes b n = Inr b1" "Buffer_wf b1" "Buffer_content b1 = Buffer_content b"
      "n \<le> Buffer_writableBytes b1" "Buffer_cap b1 \<le> Buffer_cap b + n"
    using Buffer_ensureWritableBytes_ok [OF assms(1,2)] by blast
  have "length d \<le> length (buffer b1) - writerIndex b1"
    using b1(4) assms(3) by (simp add: Buffer_wf_sizes [OF b1(2)])
  then obtain st where st: "mem_write (buffer b1) (writerIndex b1) d = Inr st" "length st = length (buffer b1)"
      "Buffer_wf (b1\<lparr>buffer := st, writerIndex := writerIndex b1 + length d\<rparr>)"
      "Buffer_content (b1\<lparr>buffer := st, writerIndex := writerIndex b1 + length d\<rparr>) = Buffer_content b1 @ d"
    using Buffer_put_ok [OF b1(2)] by blast
  have "writerIndex b1 + length d \<le> vec_max" "length d \<le> Buffer_writableBytes (b1\<lparr>buffer := st\<rparr>)"
    using st b1 assms(3) by (auto simp: Buffer_wf_def Buffer_writableBytes_def)
  then have "Buffer_hasWritten (b1\<lparr>buffer := st\<rparr>) (length d) = Inr (b1\<lparr>buffer := st, writerIndex := writerIndex b1 + length d\<rparr>)"
    by (simp add: Buffer_hasWritten_def)
  then show ?thesis
    using b1 st ensureWritable_prefix [OF b1(1)] by (auto simp: Buffer_beginWrite_def Buffer_cap_def)
qed

end
