(* ===== verification/Codec_Laws.thy ===== *)
theory Codec_Laws
  imports Net_Codec Frame_Decoder
begin

text \<open>
  Frames out and back: the bytes \<^verbatim>\<open>send\<close> appends to a connection's stream are the frame of the message, and a
  receiver that runs \<^verbatim>\<open>onMessage\<close> after every read gets the messages back in order however the stream was cut. What the
  codec needs of protobuf is in \<open>codec_carries\<close>.
\<close>

section \<open>The loop as a function of the bytes\<close>

lemma sint_small: "n < 2 ^ 31 \<Longrightarrow> sint (of_nat n :: 32 word) = int n"
  by (simp add: signed_of_nat signed_take_bit_int_eq_self)

definition frame_len :: "char list \<Rightarrow> int" where
  "frame_len cs = sint (of_nat (be_val (take 4 cs)) :: 32 word)"

function decode :: "'m codec \<Rightarrow> char list \<Rightarrow> 'm codec_event list \<times> bool \<times> char list" where
  "decode cd cs =
     (if length cs < nat (kMinMessageLen cd + kHeaderLen) then ([], True, cs)
      else (let len = frame_len cs in
        if kMaxMessageLen < len \<or> len < kMinMessageLen cd then ([Failed kInvalidLength], False, cs)
        else if nat (kHeaderLen + len) \<le> length cs
        then (let frame = take (nat (kHeaderLen + len)) cs; rest = drop (nat (kHeaderLen + len)) cs in
              if (case rawCallback cd of None \<Rightarrow> False | Some cb \<Rightarrow> \<not> cb frame)
              then (case decode cd rest of (ev, fine, r) \<Rightarrow> (RawHandled frame # ev, fine, r))
              else (case ProtobufCodecLite_parse cd (drop 4 frame) of
                      Inl err \<Rightarrow> ([Failed err], False, cs)
                    | Inr m \<Rightarrow> (case decode cd rest of (ev, fine, r) \<Rightarrow> (Delivered m # ev, fine, r))))
        else ([], True, cs)))"
  by pat_completeness auto
termination
  by (relation "measure (\<lambda>(cd, cs). length cs)")
    (auto simp: kMinMessageLen_def kChecksumLen_def kHeaderLen_def)

declare decode.simps [simp del]

lemma min_len_pos: "4 \<le> kMinMessageLen cd" "8 \<le> nat (kMinMessageLen cd + kHeaderLen)"
  by (simp_all add: kMinMessageLen_def kChecksumLen_def kHeaderLen_def)

lemma onMessage_decode:
  "Buffer_wf b \<Longrightarrow> \<exists>b'. ProtobufCodecLite_onMessage cd acc b = Some (Inr (acc @ fst (decode cd (Buffer_content b)), b')) \<and>
     Buffer_wf b' \<and> Buffer_content b' = snd (snd (decode cd (Buffer_content b))) \<and> Buffer_cap b' = Buffer_cap b"
proof (induction "length (Buffer_content b)" arbitrary: b acc rule: less_induct)
  case less
  note wf = less.prems
  let ?cs = "Buffer_content b" and ?len = "frame_len (Buffer_content b)"
  let ?n = "nat (kHeaderLen + ?len)"
  have readable: "Buffer_readableBytes b = length ?cs"
    by (rule readable_content [OF wf])
  show ?case
  proof (cases "length ?cs < nat (kMinMessageLen cd + kHeaderLen)")
    case True
    then show ?thesis
      using wf readable by (simp add: ProtobufCodecLite_onMessage.simps [of cd acc b] decode.simps [of cd ?cs])
  next
    case False
    then have "4 \<le> length ?cs"
      using min_len_pos(2) [of cd] by simp
    then have peek: "Buffer_peekInt32 b = Inr (of_nat (be_val (take 4 ?cs)))"
      by (rule Buffer_peekInt_be(2) [OF wf])
    note unfold = ProtobufCodecLite_onMessage.simps [of cd acc b] decode.simps [of cd ?cs] peek
    consider "kMaxMessageLen < ?len \<or> ?len < kMinMessageLen cd" | "\<not> (kMaxMessageLen < ?len \<or> ?len < kMinMessageLen cd)" "length ?cs < ?n"
      | "\<not> (kMaxMessageLen < ?len \<or> ?len < kMinMessageLen cd)" "?n \<le> length ?cs"
      by linarith
    then show ?thesis
    proof cases
      case 1
      then show ?thesis
        using False wf readable by (simp add: unfold Let_def frame_len_def)
    next
      case 2
      then show ?thesis
        using False wf readable by (simp add: unfold Let_def frame_len_def)
    next
      case 3
      obtain b' where b': "Buffer_retrieve b ?n = Inr b'" "Buffer_wf b'" "Buffer_content b' = drop ?n ?cs" "Buffer_cap b' = Buffer_cap b"
        using Buffer_retrieve_ok [OF wf 3(2)] by blast
      have frame: "mem_read (buffer b) (Buffer_peek b) ?n = Inr (take ?n ?cs)"
        by (rule Buffer_mem_read [OF wf 3(2)])
      have "0 < ?n"
        using 3(1) min_len_pos(1) [of cd] by (simp add: kHeaderLen_def)
      then have "length (Buffer_content b') < length ?cs"
        using b'(3) \<open>4 \<le> length ?cs\<close> by simp
      note ih = less.hyps [OF this b'(2), unfolded b'(3,4)]
      obtain ev fine r where rest: "decode cd (drop ?n ?cs) = (ev, fine, r)"
        by (cases "decode cd (drop ?n ?cs)") auto
      have step: "\<exists>b2. ProtobufCodecLite_onMessage cd (acc @ [x]) b' = Some (Inr (acc @ x # ev, b2)) \<and> Buffer_wf b2 \<and>
          Buffer_content b2 = r \<and> Buffer_cap b2 = Buffer_cap b" for x
        using ih [of "acc @ [x]"] rest by simp
      define raw where "raw = (case rawCallback cd of None \<Rightarrow> False | Some cb \<Rightarrow> \<not> cb (take ?n ?cs))"
      have code: "ProtobufCodecLite_onMessage cd acc b =
          (if raw then ProtobufCodecLite_onMessage cd (acc @ [RawHandled (take ?n ?cs)]) b'
           else (case ProtobufCodecLite_parse cd (drop 4 (take ?n ?cs)) of
                   Inl err \<Rightarrow> Some (Inr (acc @ [Failed err], b))
                 | Inr m \<Rightarrow> ProtobufCodecLite_onMessage cd (acc @ [Delivered m]) b'))"
        unfolding unfold(1) using False 3 readable peek frame b'(1)
        by (simp add: Let_def raw_def flip: frame_len_def split: sum.split)
      have spec: "decode cd ?cs =
          (if raw then (RawHandled (take ?n ?cs) # ev, fine, r)
           else (case ProtobufCodecLite_parse cd (drop 4 (take ?n ?cs)) of
                   Inl err \<Rightarrow> ([Failed err], False, ?cs)
                 | Inr m \<Rightarrow> (Delivered m # ev, fine, r)))"
        unfolding unfold(2) using False 3 rest by (simp add: Let_def raw_def split: sum.split)
      show ?thesis
        unfolding code spec using step wf by (auto split: sum.split)
    qed
  qed
qed

section \<open>Reads may cut the stream anywhere\<close>

lemma frame_len_append: "4 \<le> length cs \<Longrightarrow> frame_len (cs @ ds) = frame_len cs"
  by (simp add: frame_len_def)

lemma decode_append:
  "decode cd (cs @ ds) =
   (case decode cd cs of (ev, fine, rest) \<Rightarrow>
      if fine then (case decode cd (rest @ ds) of (ev', fine', r) \<Rightarrow> (ev @ ev', fine', r)) else (ev, False, rest @ ds))"
proof (induction cd cs rule: decode.induct)
  case (1 cd cs)
  let ?len = "frame_len cs"
  let ?n = "nat (kHeaderLen + ?len)"
  show ?case
  proof (cases "length cs < nat (kMinMessageLen cd + kHeaderLen) \<or>
      \<not> (kMaxMessageLen < ?len \<or> ?len < kMinMessageLen cd) \<and> length cs < ?n")
    case True
    then have "decode cd cs = ([], True, cs)"
      by (auto simp: decode.simps [of cd cs] Let_def)
    then show ?thesis
      by (simp split: prod.split)
  next
    case False
    then have long: "nat (kMinMessageLen cd + kHeaderLen) \<le> length cs" "4 \<le> length cs"
      using min_len_pos(2) [of cd] by auto
    then have len: "frame_len (cs @ ds) = ?len"
      by (simp add: frame_len_append)
    show ?thesis
    proof (cases "kMaxMessageLen < ?len \<or> ?len < kMinMessageLen cd")
      case True
      then show ?thesis
        using long len by (simp add: decode.simps [of cd cs] decode.simps [of cd "cs @ ds"] Let_def)
    next
      case bounds: False
      then have n: "?n \<le> length cs"
        using False by auto
      have cut: "take ?n (cs @ ds) = take ?n cs" "drop ?n (cs @ ds) = drop ?n cs @ ds" "?n \<le> length (cs @ ds)"
          "\<not> length (cs @ ds) < nat (kMinMessageLen cd + kHeaderLen)" "\<not> length cs < nat (kMinMessageLen cd + kHeaderLen)"
        using n long by simp_all
      define raw where "raw = (case rawCallback cd of None \<Rightarrow> False | Some cb \<Rightarrow> \<not> cb (take ?n cs))"
      have part: "decode cd cs = (if raw then (case decode cd (drop ?n cs) of (ev, fine, r) \<Rightarrow> (RawHandled (take ?n cs) # ev, fine, r))
          else (case ProtobufCodecLite_parse cd (drop 4 (take ?n cs)) of
                  Inl err \<Rightarrow> ([Failed err], False, cs)
                | Inr m \<Rightarrow> (case decode cd (drop ?n cs) of (ev, fine, r) \<Rightarrow> (Delivered m # ev, fine, r))))"
        using bounds n cut by (subst decode.simps) (simp add: Let_def raw_def)
      have whole: "decode cd (cs @ ds) = (if raw then (case decode cd (drop ?n cs @ ds) of (ev, fine, r) \<Rightarrow> (RawHandled (take ?n cs) # ev, fine, r))
          else (case ProtobufCodecLite_parse cd (drop 4 (take ?n cs)) of
                  Inl err \<Rightarrow> ([Failed err], False, cs @ ds)
                | Inr m \<Rightarrow> (case decode cd (drop ?n cs @ ds) of (ev, fine, r) \<Rightarrow> (Delivered m # ev, fine, r))))"
        unfolding decode.simps [of cd "cs @ ds"] Let_def len raw_def if_not_P [OF bounds] if_P [OF cut(3)] if_not_P [OF cut(4)] cut(1,2) ..
      show ?thesis
      proof (cases raw)
        case True
        then have "case rawCallback cd of None \<Rightarrow> False | Some cb \<Rightarrow> \<not> cb (take ?n cs)"
          by (simp add: raw_def)
        then have "decode cd (drop ?n cs @ ds) = (case decode cd (drop ?n cs) of (ev, fine, rest) \<Rightarrow>
            if fine then (case decode cd (rest @ ds) of (ev', fine', r) \<Rightarrow> (ev @ ev', fine', r)) else (ev, False, rest @ ds))"
          using "1.IH"(1) cut(5) bounds n by blast
        then show ?thesis
          using True part whole by (auto split: prod.splits)
      next
        case False
        then have notraw: "\<not> (case rawCallback cd of None \<Rightarrow> False | Some cb \<Rightarrow> \<not> cb (take ?n cs))"
          by (simp add: raw_def)
        show ?thesis
        proof (cases "ProtobufCodecLite_parse cd (drop 4 (take ?n cs))")
          case (Inl err)
          then show ?thesis
            using False part whole by simp
        next
          case (Inr m)
          then have "decode cd (drop ?n cs @ ds) = (case decode cd (drop ?n cs) of (ev, fine, rest) \<Rightarrow>
              if fine then (case decode cd (rest @ ds) of (ev', fine', r) \<Rightarrow> (ev @ ev', fine', r)) else (ev, False, rest @ ds))"
            using "1.IH"(2) cut(5) bounds n notraw by blast
          then show ?thesis
            using False Inr part whole by (auto split: prod.splits)
        qed
      qed
    qed
  qed
qed

section \<open>Frames\<close>

definition frame_body :: "'m codec \<Rightarrow> 'm \<Rightarrow> char list" where
  "frame_body cd m = codecTag cd @ serialize cd m"

definition frame_text :: "'m codec \<Rightarrow> 'm \<Rightarrow> char list" where
  "frame_text cd m = be_bytes 4 (length (frame_body cd m) + 4) @ frame_body cd m @ be_bytes 4 (unat (adler32 cd (frame_body cd m)))"

text \<open>What the codec needs of the message: protobuf parses what it serialised, the frame is within the limit and the
  raw callback, when there is one, lets it through.\<close>

definition codec_carries :: "'m codec \<Rightarrow> 'm \<Rightarrow> bool" where
  "codec_carries cd m \<longleftrightarrow> deserialize cd (serialize cd m) = Some m \<and> int (length (frame_body cd m)) + 4 \<le> kMaxMessageLen \<and>
     (case rawCallback cd of None \<Rightarrow> True | Some cb \<Rightarrow> cb (frame_text cd m))"

lemma length_frame_text: "length (frame_text cd m) = length (frame_body cd m) + 8"
  by (simp add: frame_text_def)

lemma parse_frame:
  assumes "deserialize cd (serialize cd m) = Some m"
  shows "ProtobufCodecLite_parse cd (drop 4 (frame_text cd m)) = Inr m"
proof -
  let ?sum = "be_bytes 4 (unat (adler32 cd (frame_body cd m)))"
  have "ProtobufCodecLite_validateChecksum cd (frame_body cd m @ ?sum)"
    by (simp add: ProtobufCodecLite_validateChecksum_def ProtobufCodecLite_asInt32_def ProtobufCodecLite_checksum_def
        networkToHost_image)
  then show ?thesis
    using assms by (simp add: ProtobufCodecLite_parse_def frame_text_def frame_body_def)
qed

lemma decode_nil: "decode cd [] = ([], True, [])"
proof -
  have "length [] < nat (kMinMessageLen cd + kHeaderLen)"
    by (simp add: kMinMessageLen_def kChecksumLen_def kHeaderLen_def)
  then show ?thesis
    unfolding decode.simps [of cd "[]"] by (rule if_P)
qed

lemma decode_frame:
  assumes "codec_carries cd m"
  shows "decode cd (frame_text cd m) = ([Delivered m], True, [])"
proof -
  let ?n = "length (frame_body cd m) + 4"
  have n: "?n < 2 ^ 31" "int ?n \<le> kMaxMessageLen"
    using assms by (auto simp: codec_carries_def kMaxMessageLen_def)
  have "be_val (be_bytes 4 ?n) = ?n"
    using n(1) by (intro be_val_bytes) simp
  then have len: "frame_len (frame_text cd m) = int ?n"
    using sint_small [OF n(1)] by (simp add: frame_len_def frame_text_def)
  have bounds: "\<not> (kMaxMessageLen < int ?n \<or> int ?n < kMinMessageLen cd)" "\<not> length (frame_text cd m) < nat (kMinMessageLen cd + kHeaderLen)"
      "nat (kHeaderLen + int ?n) = length (frame_text cd m)"
    using n(2) by (auto simp: kMinMessageLen_def kChecksumLen_def kHeaderLen_def frame_body_def length_frame_text)
  have raw: "\<not> (case rawCallback cd of None \<Rightarrow> False | Some cb \<Rightarrow> \<not> cb (frame_text cd m))"
    using assms by (auto simp: codec_carries_def split: option.splits)
  have "ProtobufCodecLite_parse cd (drop 4 (frame_text cd m)) = Inr m"
    using assms parse_frame [of cd m] unfolding codec_carries_def by blast
  then show ?thesis
    unfolding decode.simps [of cd "frame_text cd m"] Let_def len if_not_P [OF bounds(1)] if_not_P [OF bounds(2)] bounds(3)
      take_all [OF order_refl] drop_all [OF order_refl]
    using raw by (simp add: decode_nil)
qed

interpretation lite: buffer_decoder "decode cd" "frame_text cd" Delivered "codec_carries cd" "ProtobufCodecLite_onMessage cd []" for cd
proof unfold_locales
  show "decode cd (cs @ ds) = (case decode cd cs of (ev, fine, rest) \<Rightarrow>
      if fine then (case decode cd (rest @ ds) of (ev', fine', r) \<Rightarrow> (ev @ ev', fine', r)) else (ev, False, rest @ ds))" for cs ds
    by (rule decode_append)
  show "decode cd [] = ([], True, [])"
    by (rule decode_nil)
  show "codec_carries cd m \<Longrightarrow> decode cd (frame_text cd m) = ([Delivered m], True, [])" for m
    by (rule decode_frame)
  show "decodes (ProtobufCodecLite_onMessage cd []) (decode cd)"
    unfolding decodes_def using onMessage_decode [of _ cd "[]"] by simp
qed

text \<open>
  C25. A receiver that appends each read to its buffer and runs \<^verbatim>\<open>onMessage\<close> after it hands over exactly
  the messages whose frames make up the stream, each once and in order, whatever pieces the reads cut the stream into;
  the loop returns every time, no assertion fails, and nothing is left in the buffer.
\<close>

theorem ProtobufCodecLite_receives:
  assumes "list_all (codec_carries cd) ms" "concat reads = concat (map (frame_text cd) ms)" "Buffer_wf b" "Buffer_content b = []"
    "Buffer_cap b + length (concat reads) \<le> vec_max"
  shows "\<exists>b'. receive (ProtobufCodecLite_onMessage cd []) reads b = Some (Inr (map Delivered ms, b')) \<and> Buffer_wf b' \<and> Buffer_content b' = []"
  using assms by (rule lite.receive_frames)

section \<open>Sending\<close>

lemma fillEmptyBuffer_frame:
  assumes "Buffer_wf b" "Buffer_content b = []" "kCheapPrepend \<le> readerIndex b" "Buffer_cap b + length (frame_text cd m) \<le> vec_max"
    "length (frame_body cd m) + 4 < 2 ^ 32"
  shows "\<exists>b'. ProtobufCodecLite_fillEmptyBuffer cd b m = Inr b' \<and> Buffer_wf b' \<and> Buffer_content b' = frame_text cd m"
proof -
  let ?s = "serialize cd m" and ?t = "codecTag cd"
  let ?sum = "ProtobufCodecLite_checksum cd (frame_body cd m)"
  have cap: "Buffer_cap b + length ?t + length ?s + 8 \<le> vec_max"
    using assms(4) by (simp add: length_frame_text frame_body_def)
  obtain b1 where b1: "Buffer_append b ?t = Inr b1" "Buffer_wf b1" "Buffer_content b1 = ?t" "Buffer_cap b1 \<le> Buffer_cap b + length ?t"
    using Buffer_append_ok [OF assms(1), of ?t] assms(2) cap by auto
  have pre1: "kCheapPrepend \<le> readerIndex b1"
    using append_prefix [OF b1(1) assms(3)] .
  have cap1: "Buffer_cap b1 + (length ?s + 4) \<le> vec_max"
    using b1(4) cap by simp
  obtain b2 where b2: "ProtobufCodecLite_serializeToBuffer cd m b1 = Inr (length ?s, b2)" "Buffer_wf b2" "Buffer_content b2 = frame_body cd m"
      "Buffer_cap b2 \<le> Buffer_cap b1 + (length ?s + 4)" "kCheapPrepend \<le> readerIndex b2"
    using write_in_place [OF b1(2) cap1, of ?s] b1(3) pre1
    by (auto simp: ProtobufCodecLite_serializeToBuffer_def frame_body_def)
  have read: "mem_read (buffer b2) (Buffer_peek b2) (Buffer_readableBytes b2) = Inr (frame_body cd m)"
    using Buffer_mem_read [OF b2(2), of "length (Buffer_content b2)"] by (simp add: readable_content [OF b2(2)] b2(3))
  have "Buffer_cap b2 + length (be_bytes 4 (unat ?sum)) \<le> vec_max"
    using b2(4) b1(4) cap by simp
  then obtain b3 where b3: "Buffer_appendInt32 b2 ?sum = Inr b3" "Buffer_wf b3" "Buffer_content b3 = frame_body cd m @ be_bytes 4 (unat ?sum)"
    using Buffer_append_ok [OF b2(2)] by (fastforce simp: Buffer_appendInt32_def hostToNetwork_image b2(3))
  have pre3: "kCheapPrepend \<le> readerIndex b3"
    using append_prefix b3(1) b2(5) unfolding Buffer_appendInt32_def by blast
  have n3: "Buffer_readableBytes b3 = length (frame_body cd m) + 4"
    by (simp add: readable_content [OF b3(2)] b3(3))
  have "unat (of_nat (length (frame_body cd m) + 4) :: 32 word) = length (frame_body cd m) + 4"
    using assms(5) by (simp only: unat_of_nat) (simp add: take_bit_nat_eq_self)
  then have len: "word_image 4 (hostToNetwork32 (of_nat (Buffer_readableBytes b3))) = be_bytes 4 (length (frame_body cd m) + 4)"
    by (simp add: hostToNetwork_image n3)
  obtain b' where b': "Buffer_prepend b3 (be_bytes 4 (length (frame_body cd m) + 4)) = Inr b'" "Buffer_wf b'"
      "Buffer_content b' = frame_text cd m"
    using Buffer_prepend_ok [OF b3(2), of "be_bytes 4 (length (frame_body cd m) + 4)"] pre3 b3(3)
    by (auto simp: kCheapPrepend_def frame_text_def ProtobufCodecLite_checksum_def)
  have "Buffer_readableBytes b3 = length ?t + length ?s + 4"
    by (simp add: n3 frame_body_def)
  then show ?thesis
    using assms(2) readable_content [OF assms(1)] b1(1) b2(1) read b3(1) b' len
    by (simp add: ProtobufCodecLite_fillEmptyBuffer_def)
qed

lemma codec_send_ok:
  assumes "conn_inv c" "connState c = kConnected" "write_contract w" "peer_alive w" "length (frame_body cd m) + 4 < 2 ^ 32"
    "conn_cap c + length (frame_text cd m) \<le> vec_max"
  shows "\<exists>c'. ProtobufCodecLite_send w cd m c = Inr c' \<and> conn_inv c' \<and> connState c' = kConnected \<and>
    conn_stream c' = conn_stream c @ frame_text cd m \<and> inputBuffer c' = inputBuffer c \<and> conn_cap c' \<le> conn_cap c + length (frame_text cd m)"
proof -
  obtain b0 where b0: "Buffer_new kInitialSize = Inr b0" "Buffer_wf b0" "Buffer_content b0 = []" "Buffer_cap b0 = 1032"
      "readerIndex b0 = kCheapPrepend"
    using Buffer_new_ok [of kInitialSize] by (auto simp: kInitialSize_def kCheapPrepend_def vec_max_def)
  have "Buffer_cap b0 + length (frame_text cd m) \<le> vec_max"
    using assms(5) b0(4) by (simp add: length_frame_text vec_max_def)
  then obtain b where b: "ProtobufCodecLite_fillEmptyBuffer cd b0 m = Inr b" "Buffer_wf b" "Buffer_content b = frame_text cd m"
    using fillEmptyBuffer_frame [OF b0(2,3)] b0(5) assms(5) by fastforce
  show ?thesis
    using sendBuffer_ok [OF assms(1-4) b(2)] assms(6) b0(1) b(1,3) by (auto simp: ProtobufCodecLite_send_def)
qed

text \<open>
  Sending a message appends exactly its frame to the connection's stream, after whatever was sent before:
  the length in network order, the tag, the serialised message and the checksum. The length is put in front of the
  finished body in the reserved prefix of the buffer, whatever the size of the message.
\<close>

theorem ProtobufCodecLite_sends:
  assumes "conn_inv c" "connState c = kConnected" "write_contract w" "peer_alive w" "length (frame_body cd m) + 4 < 2 ^ 32"
    "conn_cap c + length (frame_text cd m) \<le> vec_max"
  shows "\<exists>c'. ProtobufCodecLite_send w cd m c = Inr c' \<and> conn_inv c' \<and> connState c' = kConnected \<and>
    conn_stream c' = conn_stream c @ be_bytes 4 (length (codecTag cd) + length (serialize cd m) + 4) @
      codecTag cd @ serialize cd m @ be_bytes 4 (unat (adler32 cd (codecTag cd @ serialize cd m)))"
  using codec_send_ok [OF assms] by (auto simp: frame_text_def frame_body_def)

text \<open>A codec that carries strings, with the sum of the bytes as its checksum.\<close>

definition string_codec :: "char list codec" where
  "string_codec = \<lparr>codecTag = ''RPC0'', serialize = id, deserialize = Some,
     adler32 = (\<lambda>cs. of_nat (sum_list (map of_char cs))), rawCallback = None\<rparr>"

lemma string_codec_carries: "length m \<le> 1000 \<Longrightarrow> codec_carries string_codec m"
  by (simp add: codec_carries_def string_codec_def frame_body_def kMaxMessageLen_def)

theorem ProtobufCodecLite_sends_witness:
  "\<exists>c c'. fresh_connection = Inr c \<and> ProtobufCodecLite_send (write_room 3) string_codec ''hi'' c = Inr c' \<and>
     conn_stream c' = be_bytes 4 10 @ ''RPC0hi'' @ be_bytes 4 486"
proof -
  obtain c where c: "fresh_connection = Inr c" "conn_inv c" "connState c = kConnected" "conn_stream c = []" "conn_cap c = 1032"
    using fresh_connection_ok by (auto simp: conn_stream_def)
  have "unat (adler32 string_codec ''RPC0hi'') = 486"
    by (simp add: string_codec_def)
  then show ?thesis
    using ProtobufCodecLite_sends [OF c(2,3) write_room_contract, of string_codec "''hi''" 3] c
    by (auto simp: frame_body_def string_codec_def length_frame_text vec_max_def)
qed

theorem ProtobufCodecLite_receives_witness:
  "\<exists>b b'. Buffer_new kInitialSize = Inr b \<and>
     receive (ProtobufCodecLite_onMessage string_codec [])
       [take 3 (frame_text string_codec ''hi''), drop 3 (frame_text string_codec ''hi'') @ frame_text string_codec []] b =
       Some (Inr ([Delivered ''hi'', Delivered []], b')) \<and> Buffer_content b' = []"
proof -
  obtain b where b: "Buffer_new kInitialSize = Inr b" "Buffer_wf b" "Buffer_content b = []" "Buffer_cap b = 1032"
    using Buffer_new_ok [of kInitialSize] by (auto simp: kInitialSize_def kCheapPrepend_def vec_max_def)
  have "list_all (codec_carries string_codec) [''hi'', []]"
    by (simp add: string_codec_carries)
  from ProtobufCodecLite_receives [OF this _ b(2,3), of "[take 3 (frame_text string_codec ''hi''),
      drop 3 (frame_text string_codec ''hi'') @ frame_text string_codec []]"] show ?thesis
    using b by (auto simp: length_frame_text frame_body_def string_codec_def vec_max_def)
qed

end
