(* ===== verification/Net_Rpc.thy ===== *)
theory Net_Rpc
  imports Codec_Laws
begin

text \<open>
  \<^verbatim>\<open>muduo/net/protorpc\<close>: remote calls over the codec. Protobuf's services are generated code: a service is the set of its
  methods, each with the test whether a request parses, and answers when it likes, so the channel keeps the requests
  it has handed over (\<open>ch_pending\<close>) until \<^verbatim>\<open>doneCallback\<close>. Closures are numbers; \<open>ch_done\<close> records the ones that ran, with what
  was parsed into the response object.
\<close>

section \<open>Messages and channels\<close>

datatype rpc_type = REQUEST | RESPONSE | ERROR

datatype rpc_error = NO_ERROR | WRONG_PROTO | NO_SERVICE | NO_METHOD | INVALID_REQUEST | INVALID_RESPONSE | TIMEOUT

record rpc_message =
  rm_type :: rpc_type
  rm_id :: "64 word"
  rm_service :: string
  rm_method :: string
  rm_request :: "char list"
  rm_response :: "char list option"
  rm_error :: "rpc_error option"

definition rpc_empty :: rpc_message where
  "rpc_empty = \<lparr>rm_type = REQUEST, rm_id = 0, rm_service = [], rm_method = [], rm_request = [], rm_response = None, rm_error = None\<rparr>"

record outstanding_call =
  oc_response :: "nat option"
  oc_done :: "nat option"

type_synonym rpc_service = "string \<Rightarrow> (char list \<Rightarrow> bool) option"

record rpc_channel =
  ch_conn :: tcp_connection
  ch_id :: "64 word"
  outstandings :: "64 word \<Rightarrow> outstanding_call option"
  ch_services :: "(string \<Rightarrow> rpc_service option) option"
  ch_done :: "(nat \<times> char list option) list"
  ch_pending :: "(64 word \<times> string \<times> string \<times> char list) list"

definition RpcChannel_new :: "tcp_connection \<Rightarrow> rpc_channel" where
  "RpcChannel_new conn = \<lparr>ch_conn = conn, ch_id = 0, outstandings = Map.empty, ch_services = None, ch_done = [], ch_pending = []\<rparr>"

definition RpcChannel_setServices :: "(string \<Rightarrow> rpc_service option) \<Rightarrow> rpc_channel \<Rightarrow> rpc_channel" where
  "RpcChannel_setServices services ch = ch\<lparr>ch_services := Some services\<rparr>"

definition rpc_send :: "write_fn \<Rightarrow> rpc_message codec \<Rightarrow> rpc_message \<Rightarrow> rpc_channel \<Rightarrow> rpc_channel res" where
  "rpc_send write cd m ch = rbind (ProtobufCodecLite_send write cd m (ch_conn ch)) (\<lambda>c. Inr (ch\<lparr>ch_conn := c\<rparr>))"

definition RpcChannel_CallMethod ::
  "write_fn \<Rightarrow> rpc_message codec \<Rightarrow> string \<Rightarrow> string \<Rightarrow> char list \<Rightarrow> outstanding_call \<Rightarrow> rpc_channel \<Rightarrow> rpc_channel res" where
  "RpcChannel_CallMethod write cd service method request out ch =
     (let i = ch_id ch + 1;
          message = rpc_empty\<lparr>rm_type := REQUEST, rm_id := i, rm_service := service, rm_method := method, rm_request := request\<rparr>
      in rpc_send write cd message (ch\<lparr>ch_id := i, outstandings := (outstandings ch)(i \<mapsto> out)\<rparr>))"

definition RpcChannel_doneCallback :: "write_fn \<Rightarrow> rpc_message codec \<Rightarrow> char list \<Rightarrow> 64 word \<Rightarrow> rpc_channel \<Rightarrow> rpc_channel res" where
  "RpcChannel_doneCallback write cd response i ch =
     rpc_send write cd (rpc_empty\<lparr>rm_type := RESPONSE, rm_id := i, rm_response := Some response\<rparr>) ch"

text \<open>The outcome of a request: an error code, or the request handed to the service.\<close>

definition rpc_dispatch :: "rpc_message \<Rightarrow> rpc_channel \<Rightarrow> rpc_error \<times> rpc_channel" where
  "rpc_dispatch message ch =
     (case ch_services ch of
        None \<Rightarrow> (NO_SERVICE, ch)
      | Some services \<Rightarrow>
          (case services (rm_service message) of
             None \<Rightarrow> (NO_SERVICE, ch)
           | Some service \<Rightarrow>
               (case service (rm_method message) of
                  None \<Rightarrow> (NO_METHOD, ch)
                | Some parses \<Rightarrow>
                    (if parses (rm_request message)
                     then (NO_ERROR, ch\<lparr>ch_pending := ch_pending ch @ [(rm_id message, rm_service message, rm_method message, rm_request message)]\<rparr>)
                     else (INVALID_REQUEST, ch)))))"

definition RpcChannel_onRpcMessage :: "write_fn \<Rightarrow> rpc_message codec \<Rightarrow> rpc_message \<Rightarrow> rpc_channel \<Rightarrow> rpc_channel res" where
  "RpcChannel_onRpcMessage write cd message ch =
     (case rm_type message of
        RESPONSE \<Rightarrow>
          c_assert (rm_response message \<noteq> None \<or> rm_error message \<noteq> None)
            (case outstandings ch (rm_id message) of
               None \<Rightarrow> Inr ch
             | Some out \<Rightarrow>
                 (let ch1 = ch\<lparr>outstandings := (outstandings ch)(rm_id message := None)\<rparr> in
                  case oc_response out of
                    None \<Rightarrow> Inr ch1
                  | Some _ \<Rightarrow> Inr (case oc_done out of
                      None \<Rightarrow> ch1
                    | Some d \<Rightarrow> ch1\<lparr>ch_done := ch_done ch1 @ [(d, rm_response message)]\<rparr>)))
      | REQUEST \<Rightarrow>
          (case rpc_dispatch message ch of (error, ch1) \<Rightarrow>
             if error \<noteq> NO_ERROR
             then rpc_send write cd (rpc_empty\<lparr>rm_type := RESPONSE, rm_id := rm_id message, rm_error := Some error\<rparr>) ch1
             else Inr ch1)
      | ERROR \<Rightarrow> Inr ch)"

primrec rpc_events :: "write_fn \<Rightarrow> rpc_message codec \<Rightarrow> rpc_message codec_event list \<Rightarrow> rpc_channel \<Rightarrow> rpc_channel res" where
  "rpc_events write cd [] ch = Inr ch"
| "rpc_events write cd (e # es) ch =
     rbind (case e of
              Delivered m \<Rightarrow> RpcChannel_onRpcMessage write cd m ch
            | RawHandled f \<Rightarrow> Inr ch
            | Failed err \<Rightarrow> rbind (ProtobufCodecLite_defaultErrorCallback (ch_conn ch)) (\<lambda>c. Inr (ch\<lparr>ch_conn := c\<rparr>)))
       (rpc_events write cd es)"

text \<open>The callbacks of the codec's loop do not touch the input buffer: they may run after it.\<close>

definition RpcChannel_onMessage :: "write_fn \<Rightarrow> rpc_message codec \<Rightarrow> rpc_channel \<Rightarrow> rpc_channel res option" where
  "RpcChannel_onMessage write cd ch =
     (case ProtobufCodecLite_onMessage cd [] (inputBuffer (ch_conn ch)) of
        None \<Rightarrow> None
      | Some (Inl e) \<Rightarrow> Some (Inl e)
      | Some (Inr (es, b)) \<Rightarrow> Some (rpc_events write cd es (ch\<lparr>ch_conn := (ch_conn ch)\<lparr>inputBuffer := b\<rparr>\<rparr>)))"

text \<open>\<^verbatim>\<open>RpcServer::onConnection\<close> gives a connection that is up its channel, and takes it away from one that is down.\<close>

definition RpcServer_registerService :: "string \<Rightarrow> rpc_service \<Rightarrow> (string \<Rightarrow> rpc_service option) \<Rightarrow> (string \<Rightarrow> rpc_service option)" where
  "RpcServer_registerService full_name service services = services(full_name \<mapsto> service)"

definition RpcServer_onConnection :: "(string \<Rightarrow> rpc_service option) \<Rightarrow> tcp_connection \<Rightarrow> rpc_channel option" where
  "RpcServer_onConnection services conn =
     (if connState conn = kConnected then Some (RpcChannel_setServices services (RpcChannel_new conn)) else None)"

section \<open>Traffic\<close>

text \<open>Bytes that arrive are appended to the input buffer, and the message callback runs.\<close>

primrec rpc_receive :: "write_fn \<Rightarrow> rpc_message codec \<Rightarrow> char list list \<Rightarrow> rpc_channel \<Rightarrow> rpc_channel res option" where
  "rpc_receive write cd [] ch = Some (Inr ch)"
| "rpc_receive write cd (d # ds) ch =
     (case Buffer_append (inputBuffer (ch_conn ch)) d of
        Inl e \<Rightarrow> Some (Inl e)
      | Inr b \<Rightarrow> (case RpcChannel_onMessage write cd (ch\<lparr>ch_conn := (ch_conn ch)\<lparr>inputBuffer := b\<rparr>\<rparr>) of
          None \<Rightarrow> None
        | Some (Inl e) \<Rightarrow> Some (Inl e)
        | Some (Inr ch') \<Rightarrow> rpc_receive write cd ds ch'))"

record rpc_call =
  rc_service :: string
  rc_method :: string
  rc_request :: "char list"
  rc_done :: nat

primrec rpc_calls :: "write_fn \<Rightarrow> rpc_message codec \<Rightarrow> rpc_call list \<Rightarrow> rpc_channel \<Rightarrow> rpc_channel res" where
  "rpc_calls write cd [] ch = Inr ch"
| "rpc_calls write cd (c # cs) ch =
     rbind (RpcChannel_CallMethod write cd (rc_service c) (rc_method c) (rc_request c) \<lparr>oc_response = Some (rc_done c), oc_done = Some (rc_done c)\<rparr> ch)
       (rpc_calls write cd cs)"

text \<open>
  A service answers a request it was handed by running the closure it was given, which is bound to the request's id; it may do so at any
  time and in any order, and once. What happens at a server is a sequence of arriving pieces and of answers.
\<close>

definition rpc_answer :: "write_fn \<Rightarrow> rpc_message codec \<Rightarrow> (string \<Rightarrow> string \<Rightarrow> char list \<Rightarrow> char list) \<Rightarrow> 64 word \<Rightarrow> rpc_channel \<Rightarrow> rpc_channel res" where
  "rpc_answer write cd f i ch =
     (case find (\<lambda>p. fst p = i) (ch_pending ch) of
        None \<Rightarrow> Inr ch
      | Some (j, s, m, q) \<Rightarrow>
          rbind (RpcChannel_doneCallback write cd (f s m q) j ch) (\<lambda>ch'. Inr (ch'\<lparr>ch_pending := remove1 (j, s, m, q) (ch_pending ch')\<rparr>)))"

datatype rpc_work = Arrive "char list" | Answer "64 word"

primrec rpc_serve :: "write_fn \<Rightarrow> rpc_message codec \<Rightarrow> (string \<Rightarrow> string \<Rightarrow> char list \<Rightarrow> char list) \<Rightarrow> rpc_work list \<Rightarrow> rpc_channel \<Rightarrow>
    rpc_channel res option" where
  "rpc_serve write cd f [] ch = Some (Inr ch)"
| "rpc_serve write cd f (e # es) ch =
     (case (case e of Arrive d \<Rightarrow> rpc_receive write cd [d] ch | Answer i \<Rightarrow> Some (rpc_answer write cd f i ch)) of
        None \<Rightarrow> None
      | Some (Inl err) \<Rightarrow> Some (Inl err)
      | Some (Inr ch') \<Rightarrow> rpc_serve write cd f es ch')"

primrec arrivals :: "rpc_work list \<Rightarrow> char list list" where
  "arrivals [] = []"
| "arrivals (e # es) = (case e of Arrive d \<Rightarrow> d # arrivals es | Answer i \<Rightarrow> arrivals es)"

primrec answer_ids :: "rpc_work list \<Rightarrow> 64 word list" where
  "answer_ids [] = []"
| "answer_ids (e # es) = (case e of Arrive d \<Rightarrow> answer_ids es | Answer i \<Rightarrow> i # answer_ids es)"

end
