(* ===== verification/Rpc_Laws.thy ===== *)
theory Rpc_Laws
  imports Net_Rpc "HOL-Library.Multiset" "HOL-Library.Sublist"
begin

text \<open>
  Calls and answers: what a channel sends, how the messages of a byte stream reach the handler, and that every call that is answered is
  completed once with the answer to its own request, in whatever order the services answer, end to end over two connections.
\<close>

section \<open>Sending\<close>

definition rpc_up :: "rpc_channel \<Rightarrow> bool" where
  "rpc_up ch \<longleftrightarrow> conn_inv (ch_conn ch) \<and> connState (ch_conn ch) = kConnected"

abbreviation rpc_stream :: "rpc_channel \<Rightarrow> char list" where
  "rpc_stream ch \<equiv> conn_stream (ch_conn ch)"

definition frames :: "'m codec \<Rightarrow> 'm list \<Rightarrow> char list" where
  "frames cd ms = concat (map (frame_text cd) ms)"

lemma frames_simps [simp]: "frames cd [] = []" "frames cd (m # ms) = frame_text cd m @ frames cd ms"
  by (simp_all add: frames_def)

lemma rpc_send_ok:
  assumes "rpc_up ch" "write_contract w" "peer_alive w" "codec_carries cd m" "conn_cap (ch_conn ch) + length (frame_text cd m) \<le> vec_max"
  shows "\<exists>c. rpc_send w cd m ch = Inr (ch\<lparr>ch_conn := c\<rparr>) \<and> rpc_up (ch\<lparr>ch_conn := c\<rparr>) \<and> conn_stream c = rpc_stream ch @ frame_text cd m \<and>
    inputBuffer c = inputBuffer (ch_conn ch) \<and> conn_cap c \<le> conn_cap (ch_conn ch) + length (frame_text cd m)"
proof -
  have "length (frame_body cd m) + 4 < 2 ^ 32"
    using assms(4) by (auto simp: codec_carries_def kMaxMessageLen_def)
  then show ?thesis
    using codec_send_ok [OF _ _ assms(2,3) _ assms(5)] assms(1) by (auto simp: rpc_up_def rpc_send_def)
qed

section \<open>Calls\<close>

definition call_ids :: "64 word \<Rightarrow> nat \<Rightarrow> 64 word list" where
  "call_ids k n = map (\<lambda>j. k + of_nat (Suc j)) [0..<n]"

definition numbered :: "64 word \<Rightarrow> rpc_call list \<Rightarrow> (64 word \<times> rpc_call) list" where
  "numbered k cs = zip (call_ids k (length cs)) cs"

definition request_of :: "64 word \<times> rpc_call \<Rightarrow> rpc_message" where
  "request_of x = rpc_empty\<lparr>rm_type := REQUEST, rm_id := fst x, rm_service := rc_service (snd x), rm_method := rc_method (snd x),
     rm_request := rc_request (snd x)\<rparr>"

definition answer_of :: "(string \<Rightarrow> string \<Rightarrow> char list \<Rightarrow> char list) \<Rightarrow> rpc_call \<Rightarrow> char list" where
  "answer_of f c = f (rc_service c) (rc_method c) (rc_request c)"

definition response_of :: "(string \<Rightarrow> string \<Rightarrow> char list \<Rightarrow> char list) \<Rightarrow> 64 word \<times> rpc_call \<Rightarrow> rpc_message" where
  "response_of f x = rpc_empty\<lparr>rm_type := RESPONSE, rm_id := fst x, rm_response := Some (answer_of f (snd x))\<rparr>"

definition waiting_call :: "rpc_call \<Rightarrow> outstanding_call" where
  "waiting_call c = \<lparr>oc_response = Some (rc_done c), oc_done = Some (rc_done c)\<rparr>"

definition waiting_map :: "(64 word \<times> rpc_call) list \<Rightarrow> 64 word \<Rightarrow> outstanding_call option" where
  "waiting_map xs = map_of (map (\<lambda>(i, c). (i, waiting_call c)) xs)"

lemma waiting_map_simps: "waiting_map [] = Map.empty" "waiting_map (x # xs) = (waiting_map xs)(fst x \<mapsto> waiting_call (snd x))"
  by (auto simp: waiting_map_def split: prod.split)

lemma dom_waiting_map: "dom (waiting_map xs) = fst ` set xs"
  by (force simp: waiting_map_def dom_map_of_conv_image_fst)

lemma call_ids_Suc: "call_ids k (Suc n) = (k + 1) # call_ids (k + 1) n"
  unfolding call_ids_def by (simp add: upt_conv_Cons map_Suc_upt [symmetric] del: upt_Suc)

lemma numbered_Cons: "numbered k (c # cs) = (k + 1, c) # numbered (k + 1) cs"
  by (simp add: numbered_def call_ids_Suc)

lemma distinct_call_ids: "n < 2 ^ 64 \<Longrightarrow> distinct (call_ids k n)"
proof -
  assume n: "n < 2 ^ 64"
  have "inj_on (\<lambda>j. k + of_nat (Suc j) :: 64 word) (set [0..<n])"
  proof (rule inj_onI)
    fix i j
    assume ij: "i \<in> set [0..<n]" "j \<in> set [0..<n]" and "k + of_nat (Suc i) = (k + of_nat (Suc j) :: 64 word)"
    then have "(of_nat i :: 64 word) = of_nat j"
      by simp
    then have "take_bit 64 i = take_bit 64 j"
      by (simp add: word_of_nat_eq_iff)
    then show "i = j"
      using ij n by (simp add: take_bit_nat_eq_self)
  qed
  then show ?thesis
    by (simp add: call_ids_def distinct_map)
qed

lemma distinct_numbered: "length cs < 2 ^ 64 \<Longrightarrow> distinct (map fst (numbered k cs))"
  using distinct_call_ids [of "length cs" k] by (simp add: numbered_def call_ids_def)

lemma calls_ok:
  assumes "write_contract w" "peer_alive w"
  shows "rpc_up ch \<Longrightarrow> list_all (codec_carries cd \<circ> request_of) (numbered (ch_id ch) cs) \<Longrightarrow> length cs < 2 ^ 64 \<Longrightarrow>
    conn_cap (ch_conn ch) + length (frames cd (map request_of (numbered (ch_id ch) cs))) \<le> vec_max \<Longrightarrow>
    \<exists>ch'. rpc_calls w cd cs ch = Inr ch' \<and> rpc_up ch' \<and> rpc_stream ch' = rpc_stream ch @ frames cd (map request_of (numbered (ch_id ch) cs)) \<and>
      outstandings ch' = outstandings ch ++ waiting_map (numbered (ch_id ch) cs) \<and> inputBuffer (ch_conn ch') = inputBuffer (ch_conn ch) \<and>
      ch_done ch' = ch_done ch \<and> ch_pending ch' = ch_pending ch"
proof (induction cs arbitrary: ch)
  case Nil
  then show ?case
    by (simp add: numbered_def call_ids_def waiting_map_simps)
next
  case (Cons c cs)
  let ?i = "ch_id ch + 1" and ?out = "waiting_call c"
  let ?m = "request_of (?i, c)" and ?ch = "ch\<lparr>ch_id := ?i, outstandings := (outstandings ch)(?i \<mapsto> ?out)\<rparr>"
  have carries: "codec_carries cd ?m" "list_all (codec_carries cd \<circ> request_of) (numbered ?i cs)"
    using Cons.prems(2) by (simp_all add: numbered_Cons comp_def)
  have cap: "conn_cap (ch_conn ch) + length (frame_text cd ?m) + length (frames cd (map request_of (numbered ?i cs))) \<le> vec_max"
    using Cons.prems(4) by (simp add: numbered_Cons)
  have "rpc_up ?ch" "conn_cap (ch_conn ?ch) + length (frame_text cd ?m) \<le> vec_max"
    using Cons.prems(1) cap by (simp_all add: rpc_up_def)
  then obtain k where k: "rpc_send w cd ?m ?ch = Inr (?ch\<lparr>ch_conn := k\<rparr>)" "rpc_up (?ch\<lparr>ch_conn := k\<rparr>)"
      "conn_stream k = rpc_stream ch @ frame_text cd ?m" "inputBuffer k = inputBuffer (ch_conn ch)"
      "conn_cap k \<le> conn_cap (ch_conn ch) + length (frame_text cd ?m)"
    using rpc_send_ok [OF _ assms carries(1), of ?ch] by auto
  let ?ch1 = "?ch\<lparr>ch_conn := k\<rparr>"
  have call: "RpcChannel_CallMethod w cd (rc_service c) (rc_method c) (rc_request c) \<lparr>oc_response = Some (rc_done c), oc_done = Some (rc_done c)\<rparr> ch = Inr ?ch1"
    using k(1) by (simp add: RpcChannel_CallMethod_def request_of_def waiting_call_def Let_def)
  have "?i \<notin> dom (waiting_map (numbered ?i cs))"
    using distinct_numbered [OF Cons.prems(3), of "ch_id ch"] by (simp add: numbered_Cons dom_waiting_map)
  then have outs: "outstandings ?ch1 ++ waiting_map (numbered ?i cs) = outstandings ch ++ waiting_map (numbered (ch_id ch) (c # cs))"
    by (simp add: numbered_Cons waiting_map_simps map_add_upd_left)
  have prems: "list_all (codec_carries cd \<circ> request_of) (numbered (ch_id ?ch1) cs)" "length cs < 2 ^ 64"
      "conn_cap (ch_conn ?ch1) + length (frames cd (map request_of (numbered (ch_id ?ch1) cs))) \<le> vec_max"
    using k(5) cap carries(2) Cons.prems(3) by simp_all
  obtain ch' where ch': "rpc_calls w cd cs ?ch1 = Inr ch'" "rpc_up ch'"
      "rpc_stream ch' = rpc_stream ?ch1 @ frames cd (map request_of (numbered (ch_id ?ch1) cs))"
      "outstandings ch' = outstandings ?ch1 ++ waiting_map (numbered (ch_id ?ch1) cs)"
      "inputBuffer (ch_conn ch') = inputBuffer (ch_conn ?ch1)" "ch_done ch' = ch_done ?ch1" "ch_pending ch' = ch_pending ?ch1"
    using Cons.IH [OF k(2) prems] by blast
  have "outstandings ch' = outstandings ch ++ waiting_map (numbered (ch_id ch) (c # cs))"
    using ch'(4) outs by simp
  then show ?case
    using call ch' k(3,4) by (intro exI [of _ ch']) (simp add: numbered_Cons)
qed

section \<open>Receiving\<close>

text \<open>
  A handler that is ready for the messages of a stream gets them all. \<open>ready ms ch\<close>: the channel is ready for the
  messages \<open>ms\<close>; one message leads to the readiness for the others, and the input buffer does not matter.
\<close>

lemma events_ready:
  assumes handled: "\<And>m ms ch. ready (m # ms) ch \<Longrightarrow> \<exists>ch'. RpcChannel_onRpcMessage w cd m ch = Inr ch' \<and> ready ms ch' \<and>
      inputBuffer (ch_conn ch') = inputBuffer (ch_conn ch)"
  shows "ready (ms1 @ ms2) k \<Longrightarrow> \<exists>k'. rpc_events w cd (map Delivered ms1) k = Inr k' \<and> ready ms2 k' \<and>
    inputBuffer (ch_conn k') = inputBuffer (ch_conn k)"
proof (induction ms1 arbitrary: k)
  case Nil
  then show ?case by simp
next
  case (Cons m ms1)
  obtain k1 where k1: "RpcChannel_onRpcMessage w cd m k = Inr k1" "ready (ms1 @ ms2) k1" "inputBuffer (ch_conn k1) = inputBuffer (ch_conn k)"
    using handled [of m "ms1 @ ms2" k] Cons.prems by auto
  then show ?case
    using Cons.IH [OF k1(2)] by auto
qed

text \<open>One piece, with the pieces \<open>ds\<close> still to come.\<close>

lemma piece_ready:
  assumes handled: "\<And>m ms ch. ready (m # ms) ch \<Longrightarrow> \<exists>ch'. RpcChannel_onRpcMessage w cd m ch = Inr ch' \<and> ready ms ch' \<and>
      inputBuffer (ch_conn ch') = inputBuffer (ch_conn ch)"
    and input: "\<And>ms ch b. ready ms ch \<Longrightarrow> Buffer_wf b \<Longrightarrow> ready ms (ch\<lparr>ch_conn := (ch_conn ch)\<lparr>inputBuffer := b\<rparr>\<rparr>)"
    and prems: "ready (ms @ ms') ch" "Buffer_wf (inputBuffer (ch_conn ch))"
      "feed (decode cd) (Buffer_content (inputBuffer (ch_conn ch))) (d # ds) = (map Delivered ms, rest)"
      "Buffer_cap (inputBuffer (ch_conn ch)) + length (concat (d # ds)) \<le> vec_max"
  shows "\<exists>ch1 ms2. rpc_receive w cd [d] ch = Some (Inr ch1) \<and> ready (ms2 @ ms') ch1 \<and> Buffer_wf (inputBuffer (ch_conn ch1)) \<and>
    feed (decode cd) (Buffer_content (inputBuffer (ch_conn ch1))) ds = (map Delivered ms2, rest) \<and>
    Buffer_cap (inputBuffer (ch_conn ch1)) + length (concat ds) \<le> vec_max"
proof -
  let ?b0 = "inputBuffer (ch_conn ch)"
  obtain b where b: "Buffer_append ?b0 d = Inr b" "Buffer_wf b" "Buffer_content b = Buffer_content ?b0 @ d" "Buffer_cap b \<le> Buffer_cap ?b0 + length d"
    using Buffer_append_ok [OF prems(2), of d] prems(4) by auto
  obtain ev fine r where dec: "decode cd (Buffer_content ?b0 @ d) = (ev, fine, r)"
    by (cases "decode cd (Buffer_content ?b0 @ d)") auto
  obtain ev2 where "map Delivered ms = ev @ ev2" "feed (decode cd) r ds = (ev2, rest)"
    using prems(3) dec by (auto split: prod.splits)
  then obtain ms1 ms2 where ms: "ms = ms1 @ ms2" "ev = map Delivered ms1" "feed (decode cd) r ds = (map Delivered ms2, rest)"
    by (auto simp: map_eq_append_conv)
  obtain b' where b': "ProtobufCodecLite_onMessage cd [] b = Some (Inr (ev, b'))" "Buffer_wf b'" "Buffer_content b' = r" "Buffer_cap b' = Buffer_cap b"
    using onMessage_decode [OF b(2), of cd "[]"] b(3) dec by auto
  let ?ch = "ch\<lparr>ch_conn := (ch_conn ch)\<lparr>inputBuffer := b'\<rparr>\<rparr>"
  have "ready (ms1 @ (ms2 @ ms')) ?ch"
    using input [OF prems(1) b'(2)] ms(1) by simp
  then obtain ch1 where ch1: "rpc_events w cd ev ?ch = Inr ch1" "ready (ms2 @ ms') ch1" "inputBuffer (ch_conn ch1) = b'"
    using events_ready [of ready w cd ms1 "ms2 @ ms'" ?ch, OF handled] ms(2) by auto
  have "rpc_receive w cd [d] ch = Some (Inr ch1)"
    using b(1) b'(1) ch1(1) by (simp add: RpcChannel_onMessage_def)
  then show ?thesis
    using ch1 b' ms(3) b(4) prems(4) by (intro exI [of _ ch1] exI [of _ ms2]) simp
qed

lemma rpc_receive_Cons:
  "rpc_receive w cd [d] ch = Some (Inr ch1) \<Longrightarrow> rpc_receive w cd (d # ds) ch = rpc_receive w cd ds ch1"
  by (auto split: sum.splits option.splits)

lemma receive_ready:
  assumes handled: "\<And>m ms ch. ready (m # ms) ch \<Longrightarrow> \<exists>ch'. RpcChannel_onRpcMessage w cd m ch = Inr ch' \<and> ready ms ch' \<and>
      inputBuffer (ch_conn ch') = inputBuffer (ch_conn ch)"
    and input: "\<And>ms ch b. ready ms ch \<Longrightarrow> Buffer_wf b \<Longrightarrow> ready ms (ch\<lparr>ch_conn := (ch_conn ch)\<lparr>inputBuffer := b\<rparr>\<rparr>)"
  shows "ready (ms @ ms') ch \<Longrightarrow> Buffer_wf (inputBuffer (ch_conn ch)) \<Longrightarrow>
    feed (decode cd) (Buffer_content (inputBuffer (ch_conn ch))) ds = (map Delivered ms, rest) \<Longrightarrow>
    Buffer_cap (inputBuffer (ch_conn ch)) + length (concat ds) \<le> vec_max \<Longrightarrow>
    \<exists>ch'. rpc_receive w cd ds ch = Some (Inr ch') \<and> ready ms' ch'"
proof (induction ds arbitrary: ms ch)
  case Nil
  then show ?case by simp
next
  case (Cons d ds)
  obtain ch1 ms2 where ch1: "rpc_receive w cd [d] ch = Some (Inr ch1)" "ready (ms2 @ ms') ch1" "Buffer_wf (inputBuffer (ch_conn ch1))"
      "feed (decode cd) (Buffer_content (inputBuffer (ch_conn ch1))) ds = (map Delivered ms2, rest)"
      "Buffer_cap (inputBuffer (ch_conn ch1)) + length (concat ds) \<le> vec_max"
    using piece_ready [where ready = ready and w = w and cd = cd and ms = ms and ms' = ms' and ch = ch and d = d and ds = ds, OF handled input Cons.prems]
    by blast
  show ?case
    unfolding rpc_receive_Cons [OF ch1(1)] by (rule Cons.IH [OF ch1(2-5)])
qed

lemma receive_frames_ready:
  assumes "\<And>m ms ch. ready (m # ms) ch \<Longrightarrow> \<exists>ch'. RpcChannel_onRpcMessage w cd m ch = Inr ch' \<and> ready ms ch' \<and>
      inputBuffer (ch_conn ch') = inputBuffer (ch_conn ch)"
    and "\<And>ms ch b. ready ms ch \<Longrightarrow> Buffer_wf b \<Longrightarrow> ready ms (ch\<lparr>ch_conn := (ch_conn ch)\<lparr>inputBuffer := b\<rparr>\<rparr>)"
    and "ready ms ch" "Buffer_wf (inputBuffer (ch_conn ch))" "Buffer_content (inputBuffer (ch_conn ch)) = []"
    "list_all (codec_carries cd) ms" "concat ds = frames cd ms" "Buffer_cap (inputBuffer (ch_conn ch)) + length (concat ds) \<le> vec_max"
  shows "\<exists>ch'. rpc_receive w cd ds ch = Some (Inr ch') \<and> ready [] ch'"
  using receive_ready [where ready = ready and ms = ms and ms' = "[]" and w = w and ch = ch and ds = ds and rest = "[]" and cd = cd, OF assms(1,2)]
    lite.feed_frames [OF assms(6), of ds] assms(3-8) by (simp add: frames_def)

lemma rpc_up_input: "rpc_up ch \<Longrightarrow> Buffer_wf b \<Longrightarrow> rpc_up (ch\<lparr>ch_conn := (ch_conn ch)\<lparr>inputBuffer := b\<rparr>\<rparr>)"
  by (simp add: rpc_up_def conn_inv_def conn_ok_def)

lemma rpc_up_wf: "rpc_up ch \<Longrightarrow> Buffer_wf (inputBuffer (ch_conn ch))"
  by (simp add: rpc_up_def conn_inv_def conn_ok_def)

lemma conn_input [simp]: "conn_stream (c\<lparr>inputBuffer := b\<rparr>) = conn_stream c" "conn_cap (c\<lparr>inputBuffer := b\<rparr>) = conn_cap c"
  by (simp_all add: conn_stream_def conn_cap_def)

definition accepts :: "(string \<Rightarrow> rpc_service option) \<Rightarrow> rpc_call \<Rightarrow> bool" where
  "accepts services c =
     (case services (rc_service c) of None \<Rightarrow> False
      | Some service \<Rightarrow> (case service (rc_method c) of None \<Rightarrow> False | Some parses \<Rightarrow> parses (rc_request c)))"

definition pending_of :: "64 word \<times> rpc_call \<Rightarrow> 64 word \<times> string \<times> string \<times> char list" where
  "pending_of x = (fst x, rc_service (snd x), rc_method (snd x), rc_request (snd x))"

definition done_of :: "(string \<Rightarrow> string \<Rightarrow> char list \<Rightarrow> char list) \<Rightarrow> rpc_call \<Rightarrow> nat \<times> char list option" where
  "done_of f c = (rc_done c, Some (answer_of f c))"

lemma frames_append [simp]: "frames cd (ms @ ms') = frames cd ms @ frames cd ms'"
  by (simp add: frames_def)

lemma frames_within:
  assumes "mset xs \<subseteq># mset ys"
  shows "length (frames cd (map g xs)) \<le> length (frames cd (map g ys))"
proof -
  have len: "length (frames cd (map g zs)) = (\<Sum>z\<in>#mset zs. length (frame_text cd (g z)))" for zs
    by (induction zs) simp_all
  obtain rest where "mset ys = mset xs + rest"
    using assms by (auto simp: mset_subset_eq_exists_conv)
  then show ?thesis
    unfolding len by simp
qed

text \<open>
  A server in the middle of its work: of the requests \<open>xs\<close> of the stream the first ones have been handed to the services, each of these is
  answered or waits, the answers are on the server's stream in the order in which they were given, and \<open>ms\<close> are to come.
\<close>

definition serving :: "(string \<Rightarrow> rpc_service option) \<Rightarrow> rpc_message codec \<Rightarrow> (string \<Rightarrow> string \<Rightarrow> char list \<Rightarrow> char list) \<Rightarrow> tcp_connection \<Rightarrow>
    (64 word \<times> rpc_call) list \<Rightarrow> 64 word list \<Rightarrow> rpc_message list \<Rightarrow> rpc_channel \<Rightarrow> bool" where
  "serving services cd f peer xs is ms k \<longleftrightarrow> (\<exists>zs us xs'. mset xs = mset zs + mset us + mset xs' \<and> list_all (accepts services \<circ> snd) xs' \<and>
     ms = map request_of xs' \<and> ch_pending k = map pending_of us \<and> subseq (map fst zs) is \<and> rpc_up k \<and> ch_services k = Some services \<and>
     rpc_stream k = conn_stream peer @ frames cd (map (response_of f) zs) \<and>
     conn_cap (ch_conn k) \<le> conn_cap peer + length (frames cd (map (response_of f) zs)))"

lemma serving_request:
  assumes "serving services cd f peer xs is (m # ms) k"
  shows "\<exists>k'. RpcChannel_onRpcMessage w cd m k = Inr k' \<and> serving services cd f peer xs is ms k' \<and> inputBuffer (ch_conn k') = inputBuffer (ch_conn k)"
proof -
  obtain zs us x xs' where k: "mset xs = mset zs + mset us + mset (x # xs')" "list_all (accepts services \<circ> snd) (x # xs')" "m = request_of x"
      "ms = map request_of xs'" "ch_pending k = map pending_of us" "subseq (map fst zs) is" "rpc_up k" "ch_services k = Some services"
      "rpc_stream k = conn_stream peer @ frames cd (map (response_of f) zs)"
      "conn_cap (ch_conn k) \<le> conn_cap peer + length (frames cd (map (response_of f) zs))"
    using assms unfolding serving_def by (auto simp: Cons_eq_map_conv)
  let ?k = "k\<lparr>ch_pending := map pending_of (us @ [x])\<rparr>"
  have "RpcChannel_onRpcMessage w cd m k = Inr ?k"
    using k(2,3,5,8)
    by (auto simp: RpcChannel_onRpcMessage_def rpc_dispatch_def request_of_def accepts_def pending_of_def split: option.splits)
  moreover have "serving services cd f peer xs is ms ?k"
    unfolding serving_def using k by (intro exI [of _ zs] exI [of _ "us @ [x]"] exI [of _ xs']) (simp add: rpc_up_def)
  ultimately show ?thesis
    by simp
qed

lemma serving_input:
  assumes "serving services cd f peer xs is ms k" "Buffer_wf b"
  shows "serving services cd f peer xs is ms (k\<lparr>ch_conn := (ch_conn k)\<lparr>inputBuffer := b\<rparr>\<rparr>)"
  using assms rpc_up_input [OF _ assms(2), of k] unfolding serving_def by auto

lemma find_split: "find P xs = Some x \<Longrightarrow> \<exists>us vs. xs = us @ x # vs \<and> P x \<and> x \<notin> set us"
proof (induction xs)
  case (Cons y ys)
  show ?case
  proof (cases "P y")
    case True
    then show ?thesis
      using Cons.prems by (intro exI [of _ "[]"] exI [of _ ys]) simp
  next
    case False
    then obtain us vs where "ys = us @ x # vs" "P x" "x \<notin> set us"
      using Cons by auto
    then show ?thesis
      using False by (intro exI [of _ "y # us"] exI [of _ vs]) auto
  qed
qed simp

lemma subseq_snoc: "subseq xs ys \<Longrightarrow> subseq xs (ys @ [y])"
  by (rule list_emb_prefix)

lemma serving_answer:
  assumes "write_contract w" "peer_alive w" "list_all (codec_carries cd \<circ> response_of f) xs"
    "conn_cap peer + length (frames cd (map (response_of f) xs)) \<le> vec_max" "serving services cd f peer xs is ms k"
  shows "\<exists>k'. rpc_answer w cd f i k = Inr k' \<and> serving services cd f peer xs (is @ [i]) ms k' \<and> inputBuffer (ch_conn k') = inputBuffer (ch_conn k)"
proof (cases "find (\<lambda>p. fst p = i) (ch_pending k)")
  case None
  have "serving services cd f peer xs (is @ [i]) ms k"
    using assms(5) subseq_snoc unfolding serving_def by blast
  then show ?thesis
    using None by (simp add: rpc_answer_def)
next
  case (Some p)
  obtain zs us xs' where k: "mset xs = mset zs + mset us + mset xs'" "list_all (accepts services \<circ> snd) xs'"
      "ms = map request_of xs'" "ch_pending k = map pending_of us" "subseq (map fst zs) is" "rpc_up k" "ch_services k = Some services"
      "rpc_stream k = conn_stream peer @ frames cd (map (response_of f) zs)"
      "conn_cap (ch_conn k) \<le> conn_cap peer + length (frames cd (map (response_of f) zs))"
    using assms(5) unfolding serving_def by blast
  obtain ps ps' where "map pending_of us = ps @ p # ps'" "fst p = i" "p \<notin> set ps"
    using find_split [OF Some] k(4) by auto
  then obtain us1 x us2 where us: "us = us1 @ x # us2" "p = pending_of x" "pending_of x \<notin> set (map pending_of us1)" "fst x = i"
    by (auto simp: map_eq_append_conv map_eq_Cons_conv pending_of_def)
  have zx: "mset (zs @ [x]) \<subseteq># mset xs"
    unfolding k(1) us(1) by simp
  then have "x \<in> set xs"
    using mset_subset_eqD [OF zx, of x] by simp
  then have carries: "codec_carries cd (response_of f x)"
    using assms(3) by (auto simp: list_all_iff)
  have cap: "conn_cap (ch_conn k) + length (frame_text cd (response_of f x)) \<le> vec_max"
    using frames_within [OF zx, of cd "response_of f"] k(9) assms(4) by simp
  obtain c where c: "rpc_send w cd (response_of f x) k = Inr (k\<lparr>ch_conn := c\<rparr>)" "rpc_up (k\<lparr>ch_conn := c\<rparr>)"
      "conn_stream c = rpc_stream k @ frame_text cd (response_of f x)" "inputBuffer c = inputBuffer (ch_conn k)"
      "conn_cap c \<le> conn_cap (ch_conn k) + length (frame_text cd (response_of f x))"
    using rpc_send_ok [OF k(6) assms(1,2) carries cap] by auto
  let ?k = "k\<lparr>ch_conn := c, ch_pending := map pending_of (us1 @ us2)\<rparr>"
  have "rpc_answer w cd f i k = Inr ?k"
    using Some k(4) us c(1)
    by (simp add: rpc_answer_def RpcChannel_doneCallback_def pending_of_def [of x] response_of_def answer_of_def remove1_append)
  moreover have "serving services cd f peer xs (is @ [i]) ms ?k"
    unfolding serving_def using k us c
    by (intro exI [of _ "zs @ [x]"] exI [of _ "us1 @ us2"] exI [of _ xs']) (simp add: rpc_up_def list_emb_append_mono)
  ultimately show ?thesis
    using c(4) by simp
qed

text \<open>Whatever the pieces and the answers, and however they are mixed, every request is handed over and nothing fails.\<close>

lemma serve_ok:
  assumes "write_contract w" "peer_alive w" "list_all (codec_carries cd \<circ> response_of f) xs"
    "conn_cap peer + length (frames cd (map (response_of f) xs)) \<le> vec_max"
  shows "serving services cd f peer xs is ms k \<Longrightarrow> Buffer_wf (inputBuffer (ch_conn k)) \<Longrightarrow>
    feed (decode cd) (Buffer_content (inputBuffer (ch_conn k))) (arrivals evs) = (map Delivered ms, rest) \<Longrightarrow>
    Buffer_cap (inputBuffer (ch_conn k)) + length (concat (arrivals evs)) \<le> vec_max \<Longrightarrow>
    \<exists>k'. rpc_serve w cd f evs k = Some (Inr k') \<and> serving services cd f peer xs (is @ answer_ids evs) [] k'"
proof (induction evs arbitrary: k "is" ms)
  case (Cons e evs)
  show ?case
  proof (cases e)
    case (Arrive d)
    let ?ready = "serving services cd f peer xs is"
    have "?ready (ms @ []) k" "feed (decode cd) (Buffer_content (inputBuffer (ch_conn k))) (d # arrivals evs) = (map Delivered ms, rest)"
        "Buffer_cap (inputBuffer (ch_conn k)) + length (concat (d # arrivals evs)) \<le> vec_max"
      using Cons.prems Arrive by simp_all
    then obtain k1 ms2 where k1: "rpc_receive w cd [d] k = Some (Inr k1)" "?ready (ms2 @ []) k1" "Buffer_wf (inputBuffer (ch_conn k1))"
        "feed (decode cd) (Buffer_content (inputBuffer (ch_conn k1))) (arrivals evs) = (map Delivered ms2, rest)"
        "Buffer_cap (inputBuffer (ch_conn k1)) + length (concat (arrivals evs)) \<le> vec_max"
      using piece_ready [where ready = ?ready and w = w and cd = cd and ms = ms and ms' = "[]" and ch = k and d = d and ds = "arrivals evs",
          OF serving_request serving_input _ Cons.prems(2)] by blast
    show ?thesis
      using Cons.IH [OF k1(2) [unfolded append_Nil2] k1(3-5)] k1(1) Arrive by (simp del: rpc_receive.simps)
  next
    case (Answer i)
    obtain k1 where k1: "rpc_answer w cd f i k = Inr k1" "serving services cd f peer xs (is @ [i]) ms k1" "inputBuffer (ch_conn k1) = inputBuffer (ch_conn k)"
      using serving_answer [OF assms Cons.prems(1), of i] by blast
    show ?thesis
      using Cons.IH [OF k1(2)] Cons.prems(2-4) k1 Answer by simp
  qed
qed simp

lemma server_serves:
  assumes "write_contract w" "peer_alive w" "conn_inv peer" "connState peer = kConnected" "Buffer_content (inputBuffer peer) = []"
    "list_all (accepts services \<circ> snd) xs" "list_all (codec_carries cd \<circ> request_of) xs" "list_all (codec_carries cd \<circ> response_of f) xs"
    "concat (arrivals evs) = frames cd (map request_of xs)" "Buffer_cap (inputBuffer peer) + length (frames cd (map request_of xs)) \<le> vec_max"
    "conn_cap peer + length (frames cd (map (response_of f) xs)) \<le> vec_max"
  shows "\<exists>s zs us. rpc_serve w cd f evs (RpcChannel_setServices services (RpcChannel_new peer)) = Some (Inr s) \<and>
    mset xs = mset zs + mset us \<and> ch_pending s = map pending_of us \<and> subseq (map fst zs) (answer_ids evs) \<and>
    rpc_stream s = conn_stream peer @ frames cd (map (response_of f) zs)"
proof -
  let ?s = "RpcChannel_setServices services (RpcChannel_new peer)"
  have s: "ch_conn ?s = peer" "rpc_up ?s" "ch_pending ?s = []" "ch_services ?s = Some services"
    using assms(3,4) by (simp_all add: rpc_up_def RpcChannel_setServices_def RpcChannel_new_def)
  have "serving services cd f peer xs [] (map request_of xs) ?s"
    unfolding serving_def using assms(6) s by (intro exI [of _ "[]"] exI [of _ xs]) simp
  moreover have "feed (decode cd) [] (arrivals evs) = (map Delivered (map request_of xs), [])"
    using lite.feed_frames [of cd "map request_of xs" "arrivals evs"] assms(7,9) by (simp add: frames_def list.pred_map)
  ultimately obtain k where "rpc_serve w cd f evs ?s = Some (Inr k)" "serving services cd f peer xs ([] @ answer_ids evs) [] k"
    using serve_ok [OF assms(1,2,8,11), of services "[]" "map request_of xs" ?s evs "[]"] rpc_up_wf [OF s(2)] assms(5,9,10) s(1) by auto
  then show ?thesis
    unfolding serving_def by auto
qed

text \<open>A client completes its calls in the order of the responses; those without a response stay outstanding.\<close>

lemma client_receives:
  assumes "rpc_up ch" "outstandings ch = waiting_map (xs @ us)" "ch_done ch = []" "distinct (map fst (xs @ us))"
    "list_all (codec_carries cd \<circ> response_of f) xs" "Buffer_content (inputBuffer (ch_conn ch)) = []"
    "concat ds = frames cd (map (response_of f) xs)" "Buffer_cap (inputBuffer (ch_conn ch)) + length (concat ds) \<le> vec_max"
  shows "\<exists>ch'. rpc_receive w cd ds ch = Some (Inr ch') \<and> outstandings ch' = waiting_map us \<and> ch_done ch' = map (done_of f \<circ> snd) xs"
proof -
  define ready where "ready ms k \<longleftrightarrow> (\<exists>ys zs. xs = ys @ zs \<and> ms = map (response_of f) zs \<and> ch_done k = map (done_of f \<circ> snd) ys \<and>
    outstandings k = waiting_map (zs @ us))" for ms and k :: rpc_channel
  have "\<exists>k'. RpcChannel_onRpcMessage w cd m k = Inr k' \<and> ready ms k' \<and> inputBuffer (ch_conn k') = inputBuffer (ch_conn k)"
    if rdy: "ready (m # ms) k" for m ms k
  proof -
    obtain ys z zs where k: "xs = ys @ z # zs" "m = response_of f z" "ms = map (response_of f) zs" "ch_done k = map (done_of f \<circ> snd) ys"
        "outstandings k = waiting_map (z # zs @ us)"
      using rdy unfolding ready_def by (auto simp: Cons_eq_map_conv)
    have "fst z \<notin> dom (waiting_map (zs @ us))"
      using assms(4) k(1) by (auto simp: dom_waiting_map)
    then have erase: "(outstandings k)(fst z := None) = waiting_map (zs @ us)" "outstandings k (fst z) = Some (waiting_call (snd z))"
      using k(5) by (auto simp: waiting_map_simps fun_upd_idem domIff)
    let ?k = "k\<lparr>outstandings := waiting_map (zs @ us), ch_done := map (done_of f \<circ> snd) (ys @ [z])\<rparr>"
    have "RpcChannel_onRpcMessage w cd m k = Inr ?k"
      using k(2,4) erase by (simp add: RpcChannel_onRpcMessage_def response_of_def waiting_call_def done_of_def c_assert_def)
    moreover have "ready ms ?k"
      unfolding ready_def using k by (intro exI [of _ "ys @ [z]"] exI [of _ zs]) simp
    ultimately show ?thesis
      by simp
  qed
  moreover have "ready ms (k\<lparr>ch_conn := (ch_conn k)\<lparr>inputBuffer := b\<rparr>\<rparr>)" if "ready ms k" "Buffer_wf b" for ms k b
    using that unfolding ready_def by simp
  moreover have "ready (map (response_of f) xs) ch"
    unfolding ready_def using assms(2,3) by (intro exI [of _ "[]"] exI [of _ xs]) simp
  moreover have "Buffer_wf (inputBuffer (ch_conn ch))" "list_all (codec_carries cd) (map (response_of f) xs)"
    using assms(1,5) by (simp_all add: rpc_up_wf list.pred_map)
  ultimately have "\<exists>ch'. rpc_receive w cd ds ch = Some (Inr ch') \<and> ready [] ch'"
    using assms(6-8) by (intro receive_frames_ready [where ms = "map (response_of f) xs"]) assumption+
  then show ?thesis
    unfolding ready_def by auto
qed

lemma waiting_map_perm:
  assumes "mset xs = mset ys" "distinct (map fst xs)"
  shows "waiting_map xs = waiting_map ys"
proof -
  have "mset (map fst xs) = mset (map fst ys)"
    using assms(1) by simp
  then have "distinct (map fst ys)"
    using assms(2) mset_eq_imp_distinct_iff by blast
  moreover have "fst \<circ> (\<lambda>(i, c). (i, waiting_call c)) = (fst :: 64 word \<times> rpc_call \<Rightarrow> 64 word)"
    by auto
  ultimately show ?thesis
    unfolding waiting_map_def using assms mset_eq_setD [OF assms(1)] by (subst map_of_inject_set) simp_all
qed

section \<open>End to end\<close>

lemma list_all_numbered: "list_all P cs \<Longrightarrow> list_all (P \<circ> snd) (numbered k cs)"
  by (simp add: numbered_def call_ids_def list_all_length)

definition requests :: "rpc_message codec \<Rightarrow> rpc_call list \<Rightarrow> char list" where
  "requests cd cs = frames cd (map request_of (numbered 0 cs))"

definition responses :: "rpc_message codec \<Rightarrow> (string \<Rightarrow> string \<Rightarrow> char list \<Rightarrow> char list) \<Rightarrow> (64 word \<times> rpc_call) list \<Rightarrow> char list" where
  "responses cd f xs = frames cd (map (response_of f) xs)"

text \<open>
  C34. A client channel and the channel a server makes for its connection, both new. Calls made at the client, before it gets the first
  answer, are numbered 1, 2, ... and written to its stream as requests. The server's services know the methods and parse the requests;
  that stream reaches the server in any pieces, and between the pieces and after them the services answer requests they
  were handed, in any order, each once. Then every request is handed over exactly once, so that it is answered (\<open>zs\<close>) or still waits (\<open>us\<close>), and the answers are on the
  server's stream in the order in which they were given. The client, given that stream in any pieces, runs for every answer the
  closure of the call it answers, with the answer to that call's request, in the order of the answers and not of the calls;
  exactly the calls that were not answered stay outstanding. Nothing fails on the way.
\<close>

theorem RpcChannel_end_to_end:
  assumes "conn_inv conn" "connState conn = kConnected" "conn_inv peer" "connState peer = kConnected"
    "write_contract w" "peer_alive w" "write_contract w'" "peer_alive w'"
    "Buffer_content (inputBuffer conn) = []" "Buffer_content (inputBuffer peer) = []"
    "length cs < 2 ^ 64" "list_all (accepts services) cs"
    "list_all (codec_carries cd \<circ> request_of) (numbered 0 cs)" "list_all (codec_carries cd \<circ> response_of f) (numbered 0 cs)"
    "concat (arrivals work) = requests cd cs"
    "conn_cap conn + length (requests cd cs) \<le> vec_max" "Buffer_cap (inputBuffer peer) + length (requests cd cs) \<le> vec_max"
    "conn_cap peer + length (responses cd f (numbered 0 cs)) \<le> vec_max"
    "Buffer_cap (inputBuffer conn) + length (responses cd f (numbered 0 cs)) \<le> vec_max"
  shows "\<exists>c1 s0 s1 zs us. rpc_calls w cd cs (RpcChannel_new conn) = Inr c1 \<and> rpc_stream c1 = conn_stream conn @ requests cd cs \<and>
    RpcServer_onConnection services peer = Some s0 \<and> rpc_serve w' cd f work s0 = Some (Inr s1) \<and>
    mset (numbered 0 cs) = mset zs + mset us \<and> ch_pending s1 = map pending_of us \<and> subseq (map fst zs) (answer_ids work) \<and>
    rpc_stream s1 = conn_stream peer @ responses cd f zs \<and>
    (\<forall>reads. concat reads = responses cd f zs \<longrightarrow>
       (\<exists>c2. rpc_receive w cd reads c1 = Some (Inr c2) \<and> dom (outstandings c2) = fst ` set (ch_pending s1) \<and>
         ch_done c2 = map (\<lambda>(i, c). (rc_done c, Some (f (rc_service c) (rc_method c) (rc_request c)))) zs))"
proof -
  let ?xs = "numbered 0 cs" and ?c0 = "RpcChannel_new conn" and ?s0 = "RpcChannel_setServices services (RpcChannel_new peer)"
  have c0: "rpc_up ?c0" "ch_conn ?c0 = conn" "ch_id ?c0 = 0" "outstandings ?c0 = Map.empty" "ch_done ?c0 = []"
    using assms(1,2) by (simp_all add: rpc_up_def RpcChannel_new_def)
  have s0: "RpcServer_onConnection services peer = Some ?s0"
    using assms(4) by (simp add: RpcServer_onConnection_def)
  obtain c1 where c1: "rpc_calls w cd cs ?c0 = Inr c1" "rpc_up c1" "rpc_stream c1 = conn_stream conn @ requests cd cs"
      "outstandings c1 = waiting_map ?xs" "inputBuffer (ch_conn c1) = inputBuffer conn" "ch_done c1 = []"
    using calls_ok [OF assms(5,6) c0(1), of cd cs] assms(11,13,16) c0(2-5) by (auto simp: requests_def)
  obtain s1 zs us where s1: "rpc_serve w' cd f work ?s0 = Some (Inr s1)" "mset ?xs = mset zs + mset us" "ch_pending s1 = map pending_of us"
      "subseq (map fst zs) (answer_ids work)" "rpc_stream s1 = conn_stream peer @ responses cd f zs"
    using server_serves [OF assms(7,8,3,4,10) list_all_numbered [OF assms(12)] assms(13,14), of work] assms(15,17,18)
    by (auto simp: requests_def responses_def)
  have perm: "mset ?xs = mset (zs @ us)"
    using s1(2) by simp
  have distinct: "distinct (map fst (zs @ us))"
    using distinct_numbered [OF assms(11)] mset_eq_imp_distinct_iff [of "map fst ?xs" "map fst (zs @ us)"] perm by (metis mset_map)
  have waiting: "outstandings c1 = waiting_map (zs @ us)"
    using c1(4) waiting_map_perm [OF perm distinct_numbered [OF assms(11)]] by simp
  have "set zs \<subseteq> set ?xs"
    using mset_eq_setD [OF perm] by simp
  then have carries: "list_all (codec_carries cd \<circ> response_of f) zs"
    using assms(14) by (auto simp: list_all_iff)
  have cap: "Buffer_cap (inputBuffer (ch_conn c1)) + length (responses cd f zs) \<le> vec_max"
    using frames_within [of zs ?xs cd "response_of f"] assms(19) s1(2) c1(5) by (simp add: responses_def)
  have pending: "fst ` set (ch_pending s1) = dom (waiting_map us)"
    by (force simp: s1(3) dom_waiting_map pending_of_def)
  have "\<exists>c2. rpc_receive w cd reads c1 = Some (Inr c2) \<and> dom (outstandings c2) = fst ` set (ch_pending s1) \<and>
      ch_done c2 = map (\<lambda>(i, c). (rc_done c, Some (f (rc_service c) (rc_method c) (rc_request c)))) zs"
    if "concat reads = responses cd f zs" for reads
    using client_receives [OF c1(2) waiting c1(6) distinct carries, of reads w] assms(9) c1(5) cap that pending
    by (auto simp: responses_def done_of_def answer_of_def)
  then show ?thesis
    using c1(1,3) s0 s1 by blast
qed

text \<open>A server that reverses what it is sent, over a small serialisation of the messages.\<close>

definition sample_call :: "char list \<Rightarrow> nat \<Rightarrow> rpc_call" where
  "sample_call q n = \<lparr>rc_service = ''Echo'', rc_method = ''Rev'', rc_request = q, rc_done = n\<rparr>"

definition sample_codec :: "rpc_message codec" where
  "sample_codec = \<lparr>codecTag = ''RPC0'',
     serialize = (\<lambda>m. (if rm_type m = REQUEST then CHR ''q'' else CHR ''r'') # char_of (unat (rm_id m)) #
       (case rm_response m of None \<Rightarrow> rm_request m | Some r \<Rightarrow> r)),
     deserialize = (\<lambda>cs. case cs of
         t # i # body \<Rightarrow> Some (if t = CHR ''q'' then request_of (of_nat (of_char i), sample_call body 0)
           else response_of (\<lambda>_ _ q. q) (of_nat (of_char i), sample_call body 0))
       | _ \<Rightarrow> None),
     adler32 = (\<lambda>cs. of_nat (sum_list (map of_char cs))), rawCallback = None\<rparr>"

definition sample_services :: "string \<Rightarrow> rpc_service option" where
  "sample_services = RpcServer_registerService ''Echo'' [''Rev'' \<mapsto> \<lambda>q. True] Map.empty"

lemma sample_carries:
  assumes "unat (fst x) < 256" "length (rc_request (snd x)) \<le> 100" "rc_service (snd x) = ''Echo''" "rc_method (snd x) = ''Rev''"
  shows "codec_carries sample_codec (request_of x) \<and> codec_carries sample_codec (response_of (\<lambda>_ _. rev) x)"
proof -
  have "of_nat (of_char (char_of (unat (fst x)) :: char)) = fst x"
    using assms(1) by (simp add: take_bit_nat_eq_self)
  then show ?thesis
    using assms by (simp add: codec_carries_def sample_codec_def frame_body_def kMaxMessageLen_def request_of_def response_of_def
        answer_of_def sample_call_def rpc_empty_def)
qed

lemma sample_numbered: "numbered 0 [sample_call ''ab'' 7, sample_call ''xyz'' 8] = [(1, sample_call ''ab'' 7), (2, sample_call ''xyz'' 8)]"
  by (simp add: numbered_Cons) (simp add: numbered_def call_ids_def)

text \<open>An answer to a waiting request takes it off the list.\<close>

lemma rpc_answer_pending:
  assumes "rpc_answer w cd f i k = Inr k'" "distinct (map fst (ch_pending k))"
  shows "ch_pending k' = filter (\<lambda>p. fst p \<noteq> i) (ch_pending k)"
proof (cases "find (\<lambda>p. fst p = i) (ch_pending k)")
  case None
  have "filter (\<lambda>p. fst p \<noteq> i) (ch_pending k) = ch_pending k"
    using None by (auto simp: find_None_iff intro!: filter_True)
  then show ?thesis
    using assms(1) None by (simp add: rpc_answer_def)
next
  case (Some p)
  obtain us vs where p: "ch_pending k = us @ p # vs" "fst p = i" "p \<notin> set us"
    using find_split [OF Some] by blast
  obtain c where "k' = k\<lparr>ch_conn := c, ch_pending := remove1 p (ch_pending k)\<rparr>"
    using assms(1) Some by (cases p) (auto simp: rpc_answer_def RpcChannel_doneCallback_def rpc_send_def rbind_eq_Inr)
  then have "ch_pending k' = us @ vs"
    using p by (simp add: remove1_append)
  moreover have "i \<notin> fst ` set us" "i \<notin> fst ` set vs"
    using assms(2) p(1,2) by auto
  then have "filter (\<lambda>p. fst p \<noteq> i) us = us" "filter (\<lambda>p. fst p \<noteq> i) vs = vs"
    by (metis (mono_tags, lifting) filter_True image_eqI)+
  ultimately show ?thesis
    using p by simp
qed

lemma rpc_serve_append:
  "rpc_serve w cd f (es @ es') k = (case rpc_serve w cd f es k of
     None \<Rightarrow> None | Some (Inl e) \<Rightarrow> Some (Inl e) | Some (Inr k') \<Rightarrow> rpc_serve w cd f es' k')"
  by (induction es arbitrary: k) (auto split: option.splits sum.splits simp del: rpc_receive.simps)

abbreviation sample_calls :: "rpc_call list" where
  "sample_calls \<equiv> [sample_call ''ab'' 7, sample_call ''xyz'' 8]"

abbreviation sample_requests :: "char list" where
  "sample_requests \<equiv> requests sample_codec sample_calls"

lemma sample_lengths: "length sample_requests = 33" "length (responses sample_codec (\<lambda>_ _. rev) (numbered 0 sample_calls)) = 33"
  unfolding requests_def responses_def sample_numbered
  by (simp_all add: length_frame_text frame_body_def sample_codec_def request_of_def response_of_def answer_of_def sample_call_def rpc_empty_def)

lemma sample_ok:
  "list_all (accepts sample_services) sample_calls"
  "list_all (codec_carries sample_codec \<circ> request_of) (numbered 0 sample_calls)"
  "list_all (codec_carries sample_codec \<circ> response_of (\<lambda>_ _. rev)) (numbered 0 sample_calls)"
  using sample_carries [of "(1, sample_call ''ab'' 7)"] sample_carries [of "(2, sample_call ''xyz'' 8)"]
  by (simp_all add: sample_numbered)
    (simp_all add: sample_call_def accepts_def sample_services_def RpcServer_registerService_def)

lemma sample_caps:
  assumes "conn_cap conn = 1032" "Buffer_cap (inputBuffer conn) = 1032"
  shows "conn_cap conn + length sample_requests \<le> vec_max" "Buffer_cap (inputBuffer conn) + length sample_requests \<le> vec_max"
    "conn_cap conn + length (responses sample_codec (\<lambda>_ _. rev) (numbered 0 sample_calls)) \<le> vec_max"
    "Buffer_cap (inputBuffer conn) + length (responses sample_codec (\<lambda>_ _. rev) (numbered 0 sample_calls)) \<le> vec_max"
  unfolding sample_lengths assms by (simp_all add: vec_max_def)

text \<open>Once both requests have arrived, both can be answered.\<close>

lemma sample_all_answered:
  assumes "conn_inv conn" "connState conn = kConnected" "Buffer_content (inputBuffer conn) = []" "conn_cap conn = 1032"
    "Buffer_cap (inputBuffer conn) = 1032" "concat ds = sample_requests"
    "rpc_serve (write_room 9) sample_codec (\<lambda>_ _. rev) (map Arrive ds @ [Answer 2, Answer 1])
      (RpcChannel_setServices sample_services (RpcChannel_new conn)) = Some (Inr s)"
  shows "ch_pending s = []"
proof -
  let ?xs = "[(1, sample_call ''ab'' 7), (2, sample_call ''xyz'' 8)] :: (64 word \<times> rpc_call) list" and ?f = "\<lambda>_ _. rev"
  have arrive: "arrivals (map Arrive es) = es" "answer_ids (map Arrive es) = []" for es
    by (induction es) simp_all
  obtain k zs us where k: "rpc_serve (write_room 9) sample_codec ?f (map Arrive ds) (RpcChannel_setServices sample_services (RpcChannel_new conn)) = Some (Inr k)"
      "mset ?xs = mset zs + mset us" "ch_pending k = map pending_of us" "subseq (map fst zs) []"
    using server_serves [OF write_room_contract [of 9] assms(1-3) list_all_numbered [OF sample_ok(1)] sample_ok(2,3), of "map Arrive ds"]
      assms(6) sample_caps(2,3) [OF assms(4,5)]
    unfolding requests_def responses_def sample_numbered arrive by auto
  have "mset us = mset ?xs"
    using k(2) list_emb_length [OF k(4)] by simp
  then have "mset (map fst us) = mset (map fst ?xs)"
    by (simp only: mset_map)
  moreover have "map fst (map pending_of ys) = map fst ys" for ys
    by (induction ys) (simp_all add: pending_of_def)
  ultimately have ids: "distinct (map fst (ch_pending k))" "set (map fst (ch_pending k)) = {1, 2}"
    using mset_eq_imp_distinct_iff [of "map fst us" "map fst ?xs"] mset_eq_setD [of "map fst us" "map fst ?xs"]
    by (simp_all only: k(3)) simp_all
  obtain k1 where k1: "rpc_answer (write_room 9) sample_codec ?f 2 k = Inr k1" "rpc_answer (write_room 9) sample_codec ?f 1 k1 = Inr s"
    using assms(7) k(1) unfolding rpc_serve_append by (auto split: sum.splits)
  have "ch_pending s = filter (\<lambda>p. fst p \<noteq> 1) (filter (\<lambda>p. fst p \<noteq> 2) (ch_pending k))"
    using rpc_answer_pending [OF k1(1) ids(1)] rpc_answer_pending [OF k1(2)] ids(1) by (simp add: distinct_map_filter)
  then show ?thesis
    using ids(2) by (auto simp: filter_empty_conv)
qed

lemma sample_order:
  assumes "mset zs = mset [(1, u), (2, v)]" "subseq (map fst zs) [2, 1 :: 64 word]"
  shows "zs = [(2, v), (1, u)]"
proof -
  have "length (map fst zs) = length [2, 1 :: 64 word]"
    using mset_eq_length [OF assms(1)] by simp
  then have "map fst zs = [2, 1]"
    by (rule subseq_same_length [OF assms(2)])
  then obtain x y where zs: "zs = [(2, x), (1, y)]"
    by auto
  have "(2, x) \<in> set [(1 :: 64 word, u), (2, v)]" "(1, y) \<in> set [(1 :: 64 word, u), (2, v)]"
    using mset_eq_setD [OF assms(1)] zs by (metis list.set_intros)+
  then show ?thesis
    using zs by simp
qed

text \<open>The second call is answered first.\<close>

theorem RpcChannel_end_to_end_witness:
  "\<exists>conn c1 s0 s1 c2. fresh_connection = Inr conn \<and>
     rpc_calls (write_room 3) sample_codec [sample_call ''ab'' 7, sample_call ''xyz'' 8] (RpcChannel_new conn) = Inr c1 \<and>
     RpcServer_onConnection sample_services conn = Some s0 \<and>
     rpc_serve (write_room 9) sample_codec (\<lambda>_ _. rev) [Arrive (take 5 (rpc_stream c1)), Arrive (drop 5 (rpc_stream c1)), Answer 2, Answer 1] s0 =
       Some (Inr s1) \<and>
     rpc_receive (write_room 3) sample_codec [rpc_stream s1] c1 = Some (Inr c2) \<and>
     outstandings c2 = Map.empty \<and> ch_done c2 = [(8, Some ''zyx''), (7, Some ''ba'')]"
proof -
  obtain conn where conn: "fresh_connection = Inr conn" "conn_inv conn" "connState conn = kConnected" "conn_stream conn = []"
      "conn_cap conn = 1032" "Buffer_content (inputBuffer conn) = []" "Buffer_cap (inputBuffer conn) = 1032"
    using fresh_connection_ok by (auto simp: conn_stream_def)
  let ?ds = "[take 5 sample_requests, drop 5 sample_requests]"
  let ?s0 = "RpcChannel_setServices sample_services (RpcChannel_new conn)"
  have cut: "concat (arrivals (map Arrive ?ds @ [Answer 2, Answer 1])) = sample_requests" and few: "length sample_calls < 2 ^ 64"
    by simp_all
  obtain c1 s1 zs us where run: "rpc_calls (write_room 3) sample_codec sample_calls (RpcChannel_new conn) = Inr c1" "rpc_stream c1 = sample_requests"
      "RpcServer_onConnection sample_services conn = Some ?s0"
      "rpc_serve (write_room 9) sample_codec (\<lambda>_ _. rev) (map Arrive ?ds @ [Answer 2, Answer 1]) ?s0 = Some (Inr s1)"
      "mset [(1, sample_call ''ab'' 7), (2, sample_call ''xyz'' 8)] = mset zs + mset us" "ch_pending s1 = map pending_of us"
      "subseq (map fst zs) [2, 1]" "rpc_stream s1 = responses sample_codec (\<lambda>_ _. rev) zs"
    and client: "\<And>reads. concat reads = responses sample_codec (\<lambda>_ _. rev) zs \<Longrightarrow>
       \<exists>c2. rpc_receive (write_room 3) sample_codec reads c1 = Some (Inr c2) \<and> dom (outstandings c2) = fst ` set (ch_pending s1) \<and>
         ch_done c2 = map (\<lambda>(i, c). (rc_done c, Some (rev (rc_request c)))) zs"
    using RpcChannel_end_to_end [OF conn(2,3) conn(2,3) write_room_contract [of 3] write_room_contract [of 9] conn(6) conn(6)
      few sample_ok cut sample_caps [OF conn(5,7)], unfolded sample_numbered conn(4) append_Nil]
    by (auto simp: RpcServer_onConnection_def conn(3))
  have none_left: "ch_pending s1 = []"
    by (rule sample_all_answered [OF conn(2,3,6,5,7) _ run(4)]) simp
  then have "zs = [(2, sample_call ''xyz'' 8), (1, sample_call ''ab'' 7)]"
    using sample_order [OF _ run(7)] run(5,6) by simp
  moreover obtain c2 where c2: "rpc_receive (write_room 3) sample_codec [rpc_stream s1] c1 = Some (Inr c2)"
      "dom (outstandings c2) = fst ` set (ch_pending s1)" "ch_done c2 = map (\<lambda>(i, c). (rc_done c, Some (rev (rc_request c)))) zs"
    using client [of "[rpc_stream s1]"] run(8) by (auto simp del: rpc_receive.simps)
  ultimately have "outstandings c2 = Map.empty" "ch_done c2 = [(8, Some ''zyx''), (7, Some ''ba'')]"
    by (simp_all add: none_left sample_call_def)
  then show ?thesis
    using conn(1) run(1-4) c2(1) unfolding list.map append_Cons append_Nil by metis
qed

end
