(* ===== verification/Base_LogStream.thy ===== *)
theory Base_LogStream
  imports Text_Format "HOL-Library.Sublist"
begin

text \<open>
  \<^verbatim>\<open>FixedBuffer\<close>, the integer conversions and the operators of \<^verbatim>\<open>LogStream\<close> (\<^verbatim>\<open>muduo/base/LogStream.{h,cc}\<close>). The buffer
  is its array and the index of \<^verbatim>\<open>cur_\<close>; every store is checked against the array. A \<^verbatim>\<open>double\<close> is given by the
  text \<^verbatim>\<open>snprintf\<close> makes of it. The cookies, marks for finding buffers in a core file, are left out.
\<close>

section \<open>The fixed buffer\<close>

record fixed_buffer =
  fb_data :: "char list"
  fb_cur :: nat

definition kSmallBuffer :: nat where
  "kSmallBuffer = 4000"

definition kLargeBuffer :: nat where
  "kLargeBuffer = 4000 * 1000"

definition FixedBuffer_new :: "nat \<Rightarrow> fixed_buffer" where
  "FixedBuffer_new SIZE = \<lparr>fb_data = replicate SIZE (CHR 0x00), fb_cur = 0\<rparr>"

definition FixedBuffer_length :: "fixed_buffer \<Rightarrow> nat" where
  "FixedBuffer_length b = fb_cur b"

definition FixedBuffer_avail :: "fixed_buffer \<Rightarrow> int" where
  "FixedBuffer_avail b = int (length (fb_data b)) - int (fb_cur b)"

definition FixedBuffer_append :: "char list \<Rightarrow> fixed_buffer \<Rightarrow> fixed_buffer res" where
  "FixedBuffer_append buf b =
     (if length buf < nat (FixedBuffer_avail b mod 2 ^ 64)
      then rbind (mem_write (fb_data b) (fb_cur b) buf) (\<lambda>d. Inr (b\<lparr>fb_data := d, fb_cur := fb_cur b + length buf\<rparr>))
      else Inr b)"

definition FixedBuffer_add :: "nat \<Rightarrow> fixed_buffer \<Rightarrow> fixed_buffer" where
  "FixedBuffer_add n b = b\<lparr>fb_cur := fb_cur b + n\<rparr>"

definition FixedBuffer_reset :: "fixed_buffer \<Rightarrow> fixed_buffer" where
  "FixedBuffer_reset b = b\<lparr>fb_cur := 0\<rparr>"

definition FixedBuffer_bzero :: "fixed_buffer \<Rightarrow> fixed_buffer" where
  "FixedBuffer_bzero b = b\<lparr>fb_data := replicate (length (fb_data b)) (CHR 0x00)\<rparr>"

definition FixedBuffer_toString :: "fixed_buffer \<Rightarrow> string" where
  "FixedBuffer_toString b = take (fb_cur b) (fb_data b)"

definition FixedBuffer_debugString :: "fixed_buffer \<Rightarrow> (string \<times> fixed_buffer) res" where
  "FixedBuffer_debugString b =
     rbind (mem_write (fb_data b) (fb_cur b) [CHR 0x00]) (\<lambda>d. Inr (d, b\<lparr>fb_data := d\<rparr>))"

section \<open>Integers to text\<close>

definition digits :: string where
  "digits = ''9876543210123456789''"

definition zero_pos :: nat where
  "zero_pos = 9"

definition digitsHex :: string where
  "digitsHex = ''0123456789ABCDEF''"

definition reverse_range :: "nat \<Rightarrow> nat \<Rightarrow> char list \<Rightarrow> char list" where
  "reverse_range a b m = take a m @ rev (take (b - a) (drop a m)) @ drop b m"

lemma sdiv_smaller: "i sdiv k \<noteq> 0 \<Longrightarrow> 1 < k \<Longrightarrow> nat \<bar>i sdiv k\<bar> < nat \<bar>i\<bar>" for i k :: int
proof -
  assume k: "i sdiv k \<noteq> 0" "1 < k"
  then have i: "i \<noteq> 0" by auto
  have "\<bar>i\<bar> div k < \<bar>i\<bar>"
    using i k(2) by (simp add: int_div_less_self)
  moreover have "\<bar>i sdiv k\<bar> = \<bar>i\<bar> div k"
    using i k(2) by (simp add: signed_divide_int_def abs_mult abs_sgn_eq pos_imp_zdiv_nonneg_iff)
  ultimately show ?thesis by simp
qed

text \<open>The \<^verbatim>\<open>do\<close> loop: one digit per round, least significant first, with the remainder of a negative number indexing the
  left half of \<open>digits\<close>.\<close>

function convert_digits :: "char list \<Rightarrow> nat \<Rightarrow> int \<Rightarrow> (char list \<times> nat) res" where
  "convert_digits mem p i =
     (let lsd = i smod 10; i' = i sdiv 10 in
      rbind (mem_write mem p [digits ! nat (int zero_pos + lsd)]) (\<lambda>mem'.
        if i' \<noteq> 0 then convert_digits mem' (p + 1) i' else Inr (mem', p + 1)))"
  by pat_completeness auto
termination
proof (relation "measure (\<lambda>(mem, p, i). nat \<bar>i\<bar>)")
  show "((mem', p + 1, i'), mem, p, i) \<in> measure (\<lambda>(mem, p, i). nat \<bar>i\<bar>)" if "lsd = i smod 10" "i' = i sdiv 10" "i' \<noteq> 0"
    for mem mem' :: "char list" and p lsd i i'
    using that sdiv_smaller [of i 10] by simp
qed simp

declare convert_digits.simps [simp del]

definition convert :: "char list \<Rightarrow> nat \<Rightarrow> int \<Rightarrow> (char list \<times> nat) res" where
  "convert mem buf value =
     rbind (convert_digits mem buf value) (\<lambda>(m1, p1).
     rbind (if value < 0 then rbind (mem_write m1 p1 ''-'') (\<lambda>m. Inr (m, p1 + 1)) else Inr (m1, p1)) (\<lambda>(m2, p2).
     rbind (mem_write m2 p2 [CHR 0x00]) (\<lambda>m3. Inr (reverse_range buf p2 m3, p2 - buf))))"

function convertHex_digits :: "char list \<Rightarrow> nat \<Rightarrow> nat \<Rightarrow> (char list \<times> nat) res" where
  "convertHex_digits mem p i =
     (let lsd = i mod 16; i' = i div 16 in
      rbind (mem_write mem p [digitsHex ! lsd]) (\<lambda>mem'.
        if i' \<noteq> 0 then convertHex_digits mem' (p + 1) i' else Inr (mem', p + 1)))"
  by pat_completeness auto
termination
  by (relation "measure (\<lambda>(mem, p, i). i)") auto

declare convertHex_digits.simps [simp del]

definition convertHex :: "char list \<Rightarrow> nat \<Rightarrow> 64 word \<Rightarrow> (char list \<times> nat) res" where
  "convertHex mem buf value =
     rbind (convertHex_digits mem buf (unat value)) (\<lambda>(m1, p1).
     rbind (mem_write m1 p1 [CHR 0x00]) (\<lambda>m2. Inr (reverse_range buf p1 m2, p1 - buf)))"

section \<open>The operators\<close>

definition kMaxNumericSize :: int where
  "kMaxNumericSize = 32"

definition LogStream_formatInteger :: "int \<Rightarrow> fixed_buffer \<Rightarrow> fixed_buffer res" where
  "LogStream_formatInteger v s =
     (if kMaxNumericSize \<le> FixedBuffer_avail s
      then rbind (convert (fb_data s) (fb_cur s) v) (\<lambda>(d, len). Inr (FixedBuffer_add len (s\<lparr>fb_data := d\<rparr>)))
      else Inr s)"

definition LogStream_bool :: "bool \<Rightarrow> fixed_buffer \<Rightarrow> fixed_buffer res" where
  "LogStream_bool v s = FixedBuffer_append (if v then ''1'' else ''0'') s"

definition LogStream_int :: "32 word \<Rightarrow> fixed_buffer \<Rightarrow> fixed_buffer res" where
  "LogStream_int v s = LogStream_formatInteger (sint v) s"

definition LogStream_uint :: "32 word \<Rightarrow> fixed_buffer \<Rightarrow> fixed_buffer res" where
  "LogStream_uint v s = LogStream_formatInteger (uint v) s"

definition LogStream_short :: "16 word \<Rightarrow> fixed_buffer \<Rightarrow> fixed_buffer res" where
  "LogStream_short v s = LogStream_int (scast v) s"

definition LogStream_ushort :: "16 word \<Rightarrow> fixed_buffer \<Rightarrow> fixed_buffer res" where
  "LogStream_ushort v s = LogStream_uint (ucast v) s"

definition LogStream_long :: "64 word \<Rightarrow> fixed_buffer \<Rightarrow> fixed_buffer res" where
  "LogStream_long v s = LogStream_formatInteger (sint v) s"

definition LogStream_ulong :: "64 word \<Rightarrow> fixed_buffer \<Rightarrow> fixed_buffer res" where
  "LogStream_ulong v s = LogStream_formatInteger (uint v) s"

definition LogStream_longlong :: "64 word \<Rightarrow> fixed_buffer \<Rightarrow> fixed_buffer res" where
  "LogStream_longlong v s = LogStream_formatInteger (sint v) s"

definition LogStream_ulonglong :: "64 word \<Rightarrow> fixed_buffer \<Rightarrow> fixed_buffer res" where
  "LogStream_ulonglong v s = LogStream_formatInteger (uint v) s"

definition LogStream_pointer :: "64 word \<Rightarrow> fixed_buffer \<Rightarrow> fixed_buffer res" where
  "LogStream_pointer p s =
     (if kMaxNumericSize \<le> FixedBuffer_avail s
      then rbind (mem_write (fb_data s) (fb_cur s) ''0'') (\<lambda>d0.
           rbind (mem_write d0 (fb_cur s + 1) ''x'') (\<lambda>d1.
           rbind (convertHex d1 (fb_cur s + 2) p) (\<lambda>(d, len). Inr (FixedBuffer_add (len + 2) (s\<lparr>fb_data := d\<rparr>)))))
      else Inr s)"

text \<open>\<^verbatim>\<open>snprintf\<close> stores at most \<open>len - 1\<close> characters and a terminator, and answers the length of the whole text.\<close>

definition snprintf :: "char list \<Rightarrow> nat \<Rightarrow> nat \<Rightarrow> string \<Rightarrow> (char list \<times> nat) res" where
  "snprintf mem pos len txt = rbind (mem_write mem pos (take (len - 1) txt @ [CHR 0x00])) (\<lambda>m. Inr (m, length txt))"

definition LogStream_double :: "string \<Rightarrow> fixed_buffer \<Rightarrow> fixed_buffer res" where
  "LogStream_double txt s =
     (if kMaxNumericSize \<le> FixedBuffer_avail s
      then rbind (snprintf (fb_data s) (fb_cur s) (nat kMaxNumericSize) txt) (\<lambda>(d, len). Inr (FixedBuffer_add len (s\<lparr>fb_data := d\<rparr>)))
      else Inr s)"

definition LogStream_float :: "string \<Rightarrow> fixed_buffer \<Rightarrow> fixed_buffer res" where
  "LogStream_float txt s = LogStream_double txt s"

definition LogStream_char :: "char \<Rightarrow> fixed_buffer \<Rightarrow> fixed_buffer res" where
  "LogStream_char v s = FixedBuffer_append [v] s"

definition c_string :: "char list \<Rightarrow> string" where
  "c_string cs = takeWhile (\<lambda>c. c \<noteq> CHR 0x00) cs"

definition LogStream_cstring :: "char list option \<Rightarrow> fixed_buffer \<Rightarrow> fixed_buffer res" where
  "LogStream_cstring str s =
     (case str of Some cs \<Rightarrow> FixedBuffer_append (c_string cs) s | None \<Rightarrow> FixedBuffer_append ''(null)'' s)"

definition LogStream_string :: "string \<Rightarrow> fixed_buffer \<Rightarrow> fixed_buffer res" where
  "LogStream_string v s = FixedBuffer_append v s"

definition LogStream_piece :: "string \<Rightarrow> fixed_buffer \<Rightarrow> fixed_buffer res" where
  "LogStream_piece v s = FixedBuffer_append v s"

definition LogStream_buffer :: "fixed_buffer \<Rightarrow> fixed_buffer \<Rightarrow> fixed_buffer res" where
  "LogStream_buffer v s = LogStream_piece (FixedBuffer_toString v) s"

definition LogStream_append :: "char list \<Rightarrow> fixed_buffer \<Rightarrow> fixed_buffer res" where
  "LogStream_append data s = FixedBuffer_append data s"

definition LogStream_resetBuffer :: "fixed_buffer \<Rightarrow> fixed_buffer" where
  "LogStream_resetBuffer s = FixedBuffer_reset s"

text \<open>\<^verbatim>\<open>Fmt\<close>: a number formatted with a caller's format into 32 bytes; the argument is the formatted text.\<close>

definition Fmt_new :: "string \<Rightarrow> string res" where
  "Fmt_new txt = c_assert (length txt < 32) (Inr txt)"

definition LogStream_fmt :: "string \<Rightarrow> fixed_buffer \<Rightarrow> fixed_buffer res" where
  "LogStream_fmt fmt s = LogStream_append fmt s"

section \<open>What the conversions write\<close>

lemma mem_write_in [simp]: "pos + length ys \<le> length xs \<Longrightarrow> mem_write xs pos ys = Inr (take pos xs @ ys @ drop (pos + length ys) xs)"
  by (simp add: mem_write_def)

lemma digit_at: "n < 10 \<Longrightarrow> digits ! nat (int zero_pos + int n) = digit_char n" "n < 10 \<Longrightarrow> digits ! nat (int zero_pos - int n) = digit_char n"
proof -
  have "list_all (\<lambda>n. digits ! nat (int zero_pos + int n) = digit_char n \<and> digits ! nat (int zero_pos - int n) = digit_char n) [0..<10]"
    by code_simp
  then show "n < 10 \<Longrightarrow> digits ! nat (int zero_pos + int n) = digit_char n" "n < 10 \<Longrightarrow> digits ! nat (int zero_pos - int n) = digit_char n"
    by (simp_all add: list_all_iff)
qed

lemma digit_of_rem: "digits ! nat (int zero_pos + i smod 10) = digit_char (nat \<bar>i\<bar> mod 10)"
proof (cases "0 \<le> i")
  case True
  then have "i smod 10 = int (nat \<bar>i\<bar> mod 10)"
    by (simp add: zmod_int)
  then show ?thesis
    using digit_at(1) [of "nat \<bar>i\<bar> mod 10"] by simp
next
  case False
  then have "i smod 10 = - int (nat \<bar>i\<bar> mod 10)"
    by (simp add: signed_modulo_int_def signed_divide_int_def zmod_int minus_div_mult_eq_mod [symmetric])
  then show ?thesis
    using digit_at(2) [of "nat \<bar>i\<bar> mod 10"] by simp
qed

lemma abs_sdiv_10: "nat \<bar>i sdiv 10\<bar> = nat \<bar>i\<bar> div 10" for i :: int
proof -
  have "\<bar>i sdiv 10\<bar> = \<bar>i\<bar> div 10"
    by (cases "i = 0") (simp_all add: signed_divide_int_def abs_mult abs_sgn_eq pos_imp_zdiv_nonneg_iff)
  then show ?thesis by (simp add: nat_div_distrib)
qed

lemma put_after:
  "p + Suc k \<le> length m \<Longrightarrow>
   take (p + 1) (take p m @ [x] @ drop (p + 1) m) @ ys @ drop (p + 1 + k) (take p m @ [x] @ drop (p + 1) m) = take p m @ (x # ys) @ drop (p + Suc k) m"
  by (simp add: min_def add.commute)

lemma convert_digits_text:
  "p + length (show_nat (nat \<bar>i\<bar>)) \<le> length m \<Longrightarrow>
   convert_digits m p i = Inr (take p m @ rev (show_nat (nat \<bar>i\<bar>)) @ drop (p + length (show_nat (nat \<bar>i\<bar>))) m, p + length (show_nat (nat \<bar>i\<bar>)))"
proof (induction m p i rule: convert_digits.induct)
  case (1 m p i)
  let ?n = "nat \<bar>i\<bar>"
  have room: "p + length [digits ! nat (int zero_pos + i smod 10)] \<le> length m"
    using "1.prems" length_show_nat_pos [of ?n] unfolding list.size by linarith
  have zero_iff: "i sdiv 10 = 0 \<longleftrightarrow> ?n < 10"
    using abs_sdiv_10 [of i] by auto
  show ?case
  proof (cases "?n < 10")
    case True
    then show ?thesis
      using room zero_iff by (subst convert_digits.simps) (simp add: Let_def digit_of_rem show_nat.simps [of ?n])
  next
    case False
    have shown: "show_nat ?n = show_nat (?n div 10) @ [digit_char (?n mod 10)]"
      using False by (subst show_nat.simps) simp
    let ?m = "take p m @ [digit_char (?n mod 10)] @ drop (p + 1) m"
    have m: "mem_write m p [digits ! nat (int zero_pos + i smod 10)] = Inr ?m"
      using room by (simp add: digit_of_rem)
    have "p + 1 + length (show_nat (nat \<bar>i sdiv 10\<bar>)) \<le> length ?m"
      using "1.prems" shown by (simp add: abs_sdiv_10)
    from "1.IH" [OF refl refl _ this] have "convert_digits ?m (p + 1) (i sdiv 10) =
        Inr (take (p + 1) ?m @ rev (show_nat (?n div 10)) @ drop (p + 1 + length (show_nat (?n div 10))) ?m, p + 1 + length (show_nat (?n div 10)))"
      using False zero_iff unfolding abs_sdiv_10 by blast
    moreover have "convert_digits m p i = convert_digits ?m (p + 1) (i sdiv 10)"
      using False zero_iff m by (simp add: convert_digits.simps [of m p i] Let_def)
    ultimately show ?thesis
      using "1.prems" shown by (simp only: put_after shown) (simp add: shown add.commute)
  qed
qed

lemma reverse_written: "p \<le> length m \<Longrightarrow> reverse_range p (p + length s) (take p m @ rev s @ t) = take p m @ s @ t"
  by (simp add: reverse_range_def)

lemma convert_text:
  assumes "p + length (show_int v) + 1 \<le> length m"
  shows "convert m p v = Inr (take p m @ show_int v @ CHR 0x00 # drop (p + length (show_int v) + 1) m, length (show_int v))"
proof -
  let ?s = "show_nat (nat \<bar>v\<bar>)"
  have room: "p + length ?s \<le> length m"
    using assms by (auto simp: show_int_def split: if_splits)
  have whole: "take p m @ rev ?s @ (if v < 0 then ''-'' else []) @ r = take p m @ rev (show_int v) @ r" for r
    by (auto simp: show_int_def)
  have written: "rbind (if v < 0 then rbind (mem_write (take p m @ rev ?s @ drop (p + length ?s) m) (p + length ?s) ''-'')
         (\<lambda>m. Inr (m, p + length ?s + 1)) else Inr (take p m @ rev ?s @ drop (p + length ?s) m, p + length ?s))
       (\<lambda>(m2, p2). rbind (mem_write m2 p2 [CHR 0x00]) (\<lambda>m3. Inr (reverse_range p p2 m3, p2 - p))) =
     Inr (reverse_range p (p + length (show_int v)) (take p m @ rev (show_int v) @ CHR 0x00 # drop (p + length (show_int v) + 1) m),
       length (show_int v))"
    using assms by (auto simp: show_int_def min_def)
  have "p \<le> length m"
    using assms by simp
  then show ?thesis
    unfolding convert_def convert_digits_text [OF room] rbind_simps prod.case written by (simp add: reverse_written)
qed

lemma length_show_int: "- (2 ^ 63) \<le> v \<Longrightarrow> v < 2 ^ 64 \<Longrightarrow> length (show_int v) \<le> 20"
proof -
  assume v: "- (2 ^ 63) \<le> v" "v < 2 ^ 64"
  show ?thesis
  proof (cases "v < 0")
    case True
    then have "length (show_nat (nat (- v))) \<le> Suc 18"
      using v by (intro length_show_nat_le) (simp add: nat_less_iff)
    then show ?thesis
      using True by (simp add: show_int_def)
  next
    case False
    then have "length (show_nat (nat v)) \<le> Suc 19"
      using v by (intro length_show_nat_le) (simp add: nat_less_iff)
    then show ?thesis
      using False by (simp add: show_int_def)
  qed
qed

text \<open>Hexadecimal text.\<close>

fun show_hex :: "nat \<Rightarrow> string" where
  "show_hex n = (if n < 16 then [digitsHex ! n] else show_hex (n div 16) @ [digitsHex ! (n mod 16)])"

declare show_hex.simps [simp del]

lemma length_show_hex_pos: "0 < length (show_hex n)"
  by (subst show_hex.simps) simp

lemma length_show_hex: "n < 16 ^ Suc k \<Longrightarrow> length (show_hex n) \<le> Suc k"
proof (induction k arbitrary: n)
  case 0
  then show ?case by (subst show_hex.simps) simp
next
  case (Suc k)
  show ?case
  proof (cases "n < 16")
    case True
    then show ?thesis by (subst show_hex.simps) simp
  next
    case False
    have "n div 16 < 16 ^ Suc k" using Suc.prems by (simp add: less_mult_imp_div_less)
    then show ?thesis using Suc.IH [of "n div 16"] False by (subst show_hex.simps) simp
  qed
qed

lemma convertHex_digits_text:
  "p + length (show_hex n) \<le> length m \<Longrightarrow>
   convertHex_digits m p n = Inr (take p m @ rev (show_hex n) @ drop (p + length (show_hex n)) m, p + length (show_hex n))"
proof (induction m p n rule: convertHex_digits.induct)
  case (1 m p n)
  have room: "p + length [digitsHex ! (n mod 16)] \<le> length m"
    using "1.prems" length_show_hex_pos [of n] unfolding list.size by linarith
  show ?case
  proof (cases "n < 16")
    case True
    then show ?thesis
      using room by (subst convertHex_digits.simps) (simp add: Let_def show_hex.simps [of n])
  next
    case False
    have shown: "show_hex n = show_hex (n div 16) @ [digitsHex ! (n mod 16)]"
      using False by (subst show_hex.simps) simp
    let ?m = "take p m @ [digitsHex ! (n mod 16)] @ drop (p + 1) m"
    have "p + 1 + length (show_hex (n div 16)) \<le> length ?m"
      using "1.prems" shown by simp
    from "1.IH" [OF refl refl _ this] have "convertHex_digits ?m (p + 1) (n div 16) =
        Inr (take (p + 1) ?m @ rev (show_hex (n div 16)) @ drop (p + 1 + length (show_hex (n div 16))) ?m, p + 1 + length (show_hex (n div 16)))"
      using False by force
    moreover have "convertHex_digits m p n = convertHex_digits ?m (p + 1) (n div 16)"
      using False room dvd_imp_le [of 16 n] by (simp add: convertHex_digits.simps [of m p n] Let_def div_eq_0_iff)
    ultimately show ?thesis
      using "1.prems" shown by (simp only: put_after shown) (simp add: shown add.commute)
  qed
qed

lemma convertHex_text:
  assumes "p + length (show_hex (unat v)) + 1 \<le> length m"
  shows "convertHex m p v = Inr (take p m @ show_hex (unat v) @ CHR 0x00 # drop (p + length (show_hex (unat v)) + 1) m, length (show_hex (unat v)))"
proof -
  let ?s = "show_hex (unat v)"
  have room: "p + length ?s \<le> length m" "p \<le> length m"
    using assms by simp_all
  have "rbind (mem_write (take p m @ rev ?s @ drop (p + length ?s) m) (p + length ?s) [CHR 0x00])
      (\<lambda>m2. Inr (reverse_range p (p + length ?s) m2, p + length ?s - p)) =
      Inr (reverse_range p (p + length ?s) (take p m @ rev ?s @ CHR 0x00 # drop (p + length ?s + 1) m), length ?s)"
    using assms by (simp add: min_def)
  then show ?thesis
    unfolding convertHex_def convertHex_digits_text [OF room(1)] rbind_simps prod.case reverse_written [OF room(2)] by simp
qed

section \<open>Statements\<close>

definition FixedBuffer_ok :: "nat \<Rightarrow> fixed_buffer \<Rightarrow> bool" where
  "FixedBuffer_ok n b \<longleftrightarrow> length (fb_data b) = n \<and> fb_cur b < n \<and> n < 2 ^ 31"

lemma FixedBuffer_new_ok: "0 < n \<Longrightarrow> n < 2 ^ 31 \<Longrightarrow> FixedBuffer_ok n (FixedBuffer_new n) \<and> FixedBuffer_toString (FixedBuffer_new n) = []"
  by (simp add: FixedBuffer_ok_def FixedBuffer_new_def FixedBuffer_toString_def)

lemma length_toString: "FixedBuffer_ok n b \<Longrightarrow> length (FixedBuffer_toString b) = fb_cur b"
  by (simp add: FixedBuffer_ok_def FixedBuffer_toString_def)

lemma avail_ok: "FixedBuffer_ok n b \<Longrightarrow> nat (FixedBuffer_avail b mod 2 ^ 64) = n - fb_cur b"
  by (simp add: FixedBuffer_ok_def FixedBuffer_avail_def)

text \<open>An operation either appends its whole text or leaves the buffer alone, the first whenever there is room for the
  text and for a number of the largest size.\<close>

definition appends :: "nat \<Rightarrow> string \<Rightarrow> fixed_buffer \<Rightarrow> fixed_buffer res \<Rightarrow> bool" where
  "appends n txt b r \<longleftrightarrow> (\<exists>b'. r = Inr b' \<and> FixedBuffer_ok n b' \<and>
     (FixedBuffer_toString b' = FixedBuffer_toString b @ txt \<or> b' = b \<and> n < fb_cur b + length txt + 32))"

lemma FixedBuffer_append_exact:
  assumes "FixedBuffer_ok n b"
  shows "length d < n - fb_cur b \<Longrightarrow> \<exists>b'. FixedBuffer_append d b = Inr b' \<and> FixedBuffer_ok n b' \<and>
      FixedBuffer_toString b' = FixedBuffer_toString b @ d"
    and "\<not> length d < n - fb_cur b \<Longrightarrow> FixedBuffer_append d b = Inr b"
  using assms unfolding FixedBuffer_append_def avail_ok [OF assms]
  by (auto simp: FixedBuffer_ok_def FixedBuffer_toString_def)

lemma FixedBuffer_append_appends: "FixedBuffer_ok n b \<Longrightarrow> appends n d b (FixedBuffer_append d b)"
  using FixedBuffer_append_exact [of n b d] unfolding appends_def by (cases "length d < n - fb_cur b") auto

text \<open>What the three numeric operators share: a text of fewer than 32 characters is stored with its terminator.\<close>

lemma stored_number:
  assumes "FixedBuffer_ok n b" "length txt < 32" "kMaxNumericSize \<le> FixedBuffer_avail b"
  shows "appends n txt b (Inr (FixedBuffer_add (length txt) (b\<lparr>fb_data := take (fb_cur b) (fb_data b) @ txt @
    CHR 0x00 # drop (fb_cur b + length txt + 1) (fb_data b)\<rparr>)))"
  using assms by (auto simp: appends_def FixedBuffer_ok_def FixedBuffer_avail_def kMaxNumericSize_def FixedBuffer_add_def FixedBuffer_toString_def)

lemma no_room: "FixedBuffer_ok n b \<Longrightarrow> \<not> kMaxNumericSize \<le> FixedBuffer_avail b \<Longrightarrow> appends n txt b (Inr b)"
  by (auto simp: appends_def FixedBuffer_ok_def FixedBuffer_avail_def kMaxNumericSize_def)

lemma avail_room: "kMaxNumericSize \<le> FixedBuffer_avail b \<Longrightarrow> length txt < 32 \<Longrightarrow> fb_cur b + length txt + 1 \<le> length (fb_data b)"
  by (simp add: FixedBuffer_avail_def kMaxNumericSize_def)

lemma formatInteger_appends:
  assumes "FixedBuffer_ok n b" "- (2 ^ 63) \<le> v" "v < 2 ^ 64"
  shows "appends n (show_int v) b (LogStream_formatInteger v b)"
proof (cases "kMaxNumericSize \<le> FixedBuffer_avail b")
  case True
  have len: "length (show_int v) < 32"
    using length_show_int [OF assms(2,3)] by simp
  show ?thesis
    unfolding LogStream_formatInteger_def convert_text [OF avail_room [OF True len]]
    using True stored_number [OF assms(1) len True] by simp
next
  case False
  then show ?thesis
    using no_room [OF assms(1)] by (simp add: LogStream_formatInteger_def)
qed

lemma pointer_appends:
  assumes "FixedBuffer_ok n b"
  shows "appends n (''0x'' @ show_hex (unat v)) b (LogStream_pointer v b)"
proof (cases "kMaxNumericSize \<le> FixedBuffer_avail b")
  case True
  let ?h = "show_hex (unat v)" and ?p = "fb_cur b"
  have "unat v < 16 ^ Suc 15"
    using unsigned_less [of v, where ?'a = nat] by simp
  then have len: "length ?h \<le> 16"
    using length_show_hex [of "unat v" 15] by simp
  have room: "?p + 2 + length ?h + 1 \<le> length (fb_data b)"
    using avail_room [OF True, of "''0x'' @ ?h"] len by simp
  let ?d = "take ?p (fb_data b) @ ''0x'' @ drop (?p + 2) (fb_data b)"
  have "convertHex ?d (?p + 2) v = Inr (take ?p (fb_data b) @ (''0x'' @ ?h) @ CHR 0x00 # drop (?p + 2 + length ?h + 1) (fb_data b), length ?h)"
    using convertHex_text [of "?p + 2" v ?d] room by (simp add: min_def numeral_3_eq_3 add.commute)
  then have "LogStream_pointer v b = Inr (FixedBuffer_add (length (''0x'' @ ?h)) (b\<lparr>fb_data := take ?p (fb_data b) @ (''0x'' @ ?h) @
      CHR 0x00 # drop (?p + length (''0x'' @ ?h) + 1) (fb_data b)\<rparr>))"
    using True room by (simp add: LogStream_pointer_def min_def)
  then show ?thesis
    using stored_number [OF assms, of "''0x'' @ ?h"] len True by simp
next
  case False
  then show ?thesis
    using no_room [OF assms] by (simp add: LogStream_pointer_def)
qed

lemma double_appends:
  assumes "FixedBuffer_ok n b" "length txt < 32"
  shows "appends n txt b (LogStream_double txt b)"
proof (cases "kMaxNumericSize \<le> FixedBuffer_avail b")
  case True
  then show ?thesis
    using stored_number [OF assms True] avail_room [OF True assms(2)] assms(2)
    by (simp add: LogStream_double_def snprintf_def kMaxNumericSize_def)
next
  case False
  then show ?thesis
    using no_room [OF assms(1)] by (simp add: LogStream_double_def)
qed

text \<open>A log statement inserts operands of the types the class has operators for.\<close>

datatype operand = OBool bool | OShort "16 word" | OUShort "16 word" | OInt "32 word" | OUInt "32 word" | OLong "64 word" | OULong "64 word"
  | OLongLong "64 word" | OULongLong "64 word" | OPointer "64 word" | OFloat string | ODouble string | OChr char | OCString "char list option"
  | OStr string | OPiece string | OFBuffer fixed_buffer | OFmt string

primrec LogStream_put :: "operand \<Rightarrow> fixed_buffer \<Rightarrow> fixed_buffer res" where
  "LogStream_put (OBool v) = LogStream_bool v"
| "LogStream_put (OShort v) = LogStream_short v"
| "LogStream_put (OUShort v) = LogStream_ushort v"
| "LogStream_put (OInt v) = LogStream_int v"
| "LogStream_put (OUInt v) = LogStream_uint v"
| "LogStream_put (OLong v) = LogStream_long v"
| "LogStream_put (OULong v) = LogStream_ulong v"
| "LogStream_put (OLongLong v) = LogStream_longlong v"
| "LogStream_put (OULongLong v) = LogStream_ulonglong v"
| "LogStream_put (OPointer v) = LogStream_pointer v"
| "LogStream_put (OFloat t) = LogStream_float t"
| "LogStream_put (ODouble t) = LogStream_double t"
| "LogStream_put (OChr c) = LogStream_char c"
| "LogStream_put (OCString s) = LogStream_cstring s"
| "LogStream_put (OStr s) = LogStream_string s"
| "LogStream_put (OPiece s) = LogStream_piece s"
| "LogStream_put (OFBuffer b) = LogStream_buffer b"
| "LogStream_put (OFmt s) = LogStream_fmt s"

primrec operand_text :: "operand \<Rightarrow> string" where
  "operand_text (OBool v) = (if v then ''1'' else ''0'')"
| "operand_text (OShort v) = show_int (sint v)"
| "operand_text (OUShort v) = show_int (uint v)"
| "operand_text (OInt v) = show_int (sint v)"
| "operand_text (OUInt v) = show_int (uint v)"
| "operand_text (OLong v) = show_int (sint v)"
| "operand_text (OULong v) = show_int (uint v)"
| "operand_text (OLongLong v) = show_int (sint v)"
| "operand_text (OULongLong v) = show_int (uint v)"
| "operand_text (OPointer v) = ''0x'' @ show_hex (unat v)"
| "operand_text (OFloat t) = t"
| "operand_text (ODouble t) = t"
| "operand_text (OChr c) = [c]"
| "operand_text (OCString s) = (case s of None \<Rightarrow> ''(null)'' | Some cs \<Rightarrow> c_string cs)"
| "operand_text (OStr s) = s"
| "operand_text (OPiece s) = s"
| "operand_text (OFBuffer b) = FixedBuffer_toString b"
| "operand_text (OFmt s) = s"

text \<open>\<^verbatim>\<open>%.12g\<close> makes fewer than 32 characters.\<close>

primrec operand_ok :: "operand \<Rightarrow> bool" where
  "operand_ok (OBool v) = True"
| "operand_ok (OShort v) = True"
| "operand_ok (OUShort v) = True"
| "operand_ok (OInt v) = True"
| "operand_ok (OUInt v) = True"
| "operand_ok (OLong v) = True"
| "operand_ok (OULong v) = True"
| "operand_ok (OLongLong v) = True"
| "operand_ok (OULongLong v) = True"
| "operand_ok (OPointer v) = True"
| "operand_ok (OFloat t) = (length t < 32)"
| "operand_ok (ODouble t) = (length t < 32)"
| "operand_ok (OChr c) = True"
| "operand_ok (OCString s) = True"
| "operand_ok (OStr s) = True"
| "operand_ok (OPiece s) = True"
| "operand_ok (OFBuffer b) = True"
| "operand_ok (OFmt s) = True"

primrec LogStream_statement :: "operand list \<Rightarrow> fixed_buffer \<Rightarrow> fixed_buffer res" where
  "LogStream_statement [] s = Inr s"
| "LogStream_statement (x # xs) s = rbind (LogStream_put x s) (LogStream_statement xs)"

lemma word_appends:
  assumes "FixedBuffer_ok n s"
  shows "appends n (show_int (sint (v32 :: 32 word))) s (LogStream_formatInteger (sint v32) s)"
    and "appends n (show_int (uint v32)) s (LogStream_formatInteger (uint v32) s)"
    and "appends n (show_int (sint (v64 :: 64 word))) s (LogStream_formatInteger (sint v64) s)"
    and "appends n (show_int (uint v64)) s (LogStream_formatInteger (uint v64) s)"
  using sint_ge [of v32] sint_lt [of v32] sint_ge [of v64] sint_lt [of v64] uint_lt2p [of v32] uint_lt2p [of v64]
  by (auto intro!: formatInteger_appends [OF assms] order_trans [OF _ uint_ge_0])

lemma word16_appends:
  assumes "FixedBuffer_ok n s"
  shows "appends n (show_int (sint (v16 :: 16 word))) s (LogStream_formatInteger (sint v16) s)"
    and "appends n (show_int (uint v16)) s (LogStream_formatInteger (uint v16) s)"
  using sint_ge [of v16] sint_lt [of v16] uint_lt2p [of v16]
  by (auto intro!: formatInteger_appends [OF assms] order_trans [OF _ uint_ge_0])

lemma wider_values: "sint (scast v :: 32 word) = sint (v :: 16 word)" "uint (ucast v :: 32 word) = uint (v :: 16 word)"
proof -
  have "- (2 ^ 31) \<le> sint v" "sint v < 2 ^ 31" "uint v < 2 ^ 32"
    using sint_ge [of v] sint_lt [of v] uint_lt2p [of v] by simp_all
  then show "sint (scast v :: 32 word) = sint (v :: 16 word)" "uint (ucast v :: 32 word) = uint (v :: 16 word)"
    by (simp_all add: signed_scast_eq unsigned_ucast_eq signed_take_bit_int_eq_self take_bit_int_eq_self)
qed

lemmas put_defs = LogStream_bool_def LogStream_short_def LogStream_ushort_def LogStream_int_def LogStream_uint_def LogStream_long_def
  LogStream_ulong_def LogStream_longlong_def LogStream_ulonglong_def LogStream_float_def LogStream_char_def LogStream_cstring_def
  LogStream_string_def LogStream_piece_def LogStream_buffer_def LogStream_fmt_def LogStream_append_def

lemma put_appends: "FixedBuffer_ok n s \<Longrightarrow> operand_ok x \<Longrightarrow> appends n (operand_text x) s (LogStream_put x s)"
  using pointer_appends [of n s]
  by (cases x) (auto simp: put_defs word_appends word16_appends FixedBuffer_append_appends double_appends wider_values split: option.split)

text \<open>
  C36. A log statement over any operands stays within its buffer: every operator either appends the
  whole text of its operand (integers of every width and sign in decimal, pointers in hexadecimal) or, when the
  text and a number of the largest size no longer fit, nothing. When the whole statement fits, its text is the
  concatenation of the texts.
\<close>

theorem LogStream_statement_text:
  assumes "FixedBuffer_ok n s" "list_all operand_ok xs"
  shows "\<exists>s' kept. LogStream_statement xs s = Inr s' \<and> FixedBuffer_ok n s' \<and> subseq kept xs \<and>
    FixedBuffer_toString s' = FixedBuffer_toString s @ concat (map operand_text kept) \<and>
    (length (FixedBuffer_toString s) + length (concat (map operand_text xs)) + 32 \<le> n \<longrightarrow> kept = xs)"
  using assms
proof (induction xs arbitrary: s)
  case Nil
  then show ?case by (intro exI [of _ s] exI [of _ "[]"]) simp
next
  case (Cons x xs)
  from put_appends [of n s x] Cons.prems obtain s1 where s1: "LogStream_put x s = Inr s1" "FixedBuffer_ok n s1"
      "FixedBuffer_toString s1 = FixedBuffer_toString s @ operand_text x \<or> s1 = s \<and> n < fb_cur s + length (operand_text x) + 32"
    unfolding appends_def by auto
  obtain s' kept where s': "LogStream_statement xs s1 = Inr s'" "FixedBuffer_ok n s'" "subseq kept xs"
      "FixedBuffer_toString s' = FixedBuffer_toString s1 @ concat (map operand_text kept)"
      "length (FixedBuffer_toString s1) + length (concat (map operand_text xs)) + 32 \<le> n \<longrightarrow> kept = xs"
    using Cons.IH [OF s1(2)] Cons.prems(2) by auto
  show ?case
  proof (cases "FixedBuffer_toString s1 = FixedBuffer_toString s @ operand_text x")
    case True
    with s1 s' show ?thesis
      by (intro exI [of _ s'] exI [of _ "x # kept"]) simp
  next
    case False
    with s1 s' length_toString [OF Cons.prems(1)] show ?thesis
      by (intro exI [of _ s'] exI [of _ kept]) (auto intro: subseq_Cons')
  qed
qed

theorem LogStream_statement_text_witness:
  "\<exists>s'. LogStream_statement [OInt (- 2147483648), OChr (CHR '' ''), OULong 18446744073709551615, OPointer 255] (FixedBuffer_new kSmallBuffer) = Inr s' \<and>
     FixedBuffer_toString s' = ''-2147483648 184467440737095516150xFF''"
proof -
  have "show_int (- 2147483648) = ''-2147483648''" "show_int 18446744073709551615 = ''18446744073709551615''" "show_hex 255 = ''FF''"
    by (simp_all add: show_int_def show_nat.simps show_hex.simps digit_char_def digitsHex_def char_of_def bit_Suc_0_iff)
  note shown = this
  have "FixedBuffer_ok kSmallBuffer (FixedBuffer_new kSmallBuffer)" "FixedBuffer_toString (FixedBuffer_new kSmallBuffer) = []"
    using FixedBuffer_new_ok [of kSmallBuffer] by (simp_all add: kSmallBuffer_def)
  moreover have "concat (map operand_text [OInt (- 2147483648), OChr (CHR '' ''), OULong 18446744073709551615, OPointer 255]) =
      ''-2147483648 184467440737095516150xFF''"
    using shown by simp
  moreover define xs where "xs = [OInt (- 2147483648), OChr (CHR '' ''), OULong 18446744073709551615, OPointer 255]"
  moreover have "list_all operand_ok xs"
    by (simp add: xs_def)
  ultimately show ?thesis
    using LogStream_statement_text [of kSmallBuffer "FixedBuffer_new kSmallBuffer" xs] unfolding xs_def [symmetric]
    by (auto simp: kSmallBuffer_def)
qed

end
