(* ===== verification/Base_TimeZone.thy ===== *)
theory Base_TimeZone
  imports Base_Time Base_LogStream Byte_Order
begin

text \<open>
  \<^verbatim>\<open>muduo/base/TimeZone.cc\<close>: broken-down UTC time and back, the reader of compiled zone files, and conversion between UTC
  and the local time of a zone. A file is its bytes. The C library's \<^verbatim>\<open>gmtime_r\<close> and \<^verbatim>\<open>timegm\<close> are the two conversions
  the header of the class names as their equals. \<^verbatim>\<open>std::lower_bound\<close> answers the first element that is not
  smaller, which it does on the sorted transitions of a zone file.
\<close>

section \<open>UTC\<close>

record zoned_tm = tm +
  tm_wday :: int
  tm_yday :: int
  tm_isdst :: bool
  tm_gmtoff :: int
  tm_zone :: string

definition kSecondsPerDay :: int where
  "kSecondsPerDay = 24 * 60 * 60"

definition int32 :: "int \<Rightarrow> int" where
  "int32 x = signed_take_bit 31 x"

definition fillHMS :: "int \<Rightarrow> zoned_tm \<Rightarrow> zoned_tm" where
  "fillHMS seconds utc =
     (let minutes = seconds div 60 in
      utc\<lparr>tm_sec := seconds mod 60, tm_min := minutes mod 60, tm_hour := minutes div 60\<rparr>)"

definition zero_tm :: zoned_tm where
  "zero_tm = \<lparr>tm_year = 0, tm_mon = 0, tm_mday = 0, tm_hour = 0, tm_min = 0, tm_sec = 0, tm_wday = 0, tm_yday = 0,
     tm_isdst = False, tm_gmtoff = 0, tm_zone = []\<rparr>"

definition TimeZone_toUtcTime :: "int \<Rightarrow> bool \<Rightarrow> zoned_tm" where
  "TimeZone_toUtcTime secondsSinceEpoch yday =
     (let utc0 = zero_tm\<lparr>tm_zone := ''GMT''\<rparr>;
          seconds0 = int32 (secondsSinceEpoch smod kSecondsPerDay);
          days0 = int32 (secondsSinceEpoch sdiv kSecondsPerDay);
          (seconds, days) = (if seconds0 < 0 then (seconds0 + kSecondsPerDay, days0 - 1) else (seconds0, days0));
          utc1 = fillHMS seconds utc0;
          dt = Date (days + kJulianDayOf1970_01_01);
          ymd = Date_yearMonthDay dt;
          utc2 = utc1\<lparr>tm_year := year ymd - 1900, tm_mon := month ymd - 1, tm_mday := day ymd, tm_wday := Date_weekDay dt\<rparr>
      in if yday
         then (let startOfYear = Date_ymd (year ymd) 1 1 in
               utc2\<lparr>tm_yday := julianDayNumber dt - julianDayNumber startOfYear\<rparr>)
         else utc2)"

definition TimeZone_fromUtcYmd :: "int \<Rightarrow> int \<Rightarrow> int \<Rightarrow> int \<Rightarrow> int \<Rightarrow> int \<Rightarrow> int" where
  "TimeZone_fromUtcYmd yr mon dy hour minute seconds =
     (let dt = Date_ymd yr mon dy;
          secondsInDay = hour * 3600 + minute * 60 + seconds;
          days = julianDayNumber dt - kJulianDayOf1970_01_01
      in days * kSecondsPerDay + secondsInDay)"

definition TimeZone_fromUtcTime :: "zoned_tm \<Rightarrow> int" where
  "TimeZone_fromUtcTime utc =
     TimeZone_fromUtcYmd (tm_year utc + 1900) (tm_mon utc + 1) (tm_mday utc) (tm_hour utc) (tm_min utc) (tm_sec utc)"

definition gmtime_r :: "int \<Rightarrow> zoned_tm" where
  "gmtime_r t = TimeZone_toUtcTime t True"

definition timegm :: "zoned_tm \<Rightarrow> int" where
  "timegm t = TimeZone_fromUtcTime t"

section \<open>Zone data\<close>

record transition =
  gmttime :: int
  localtime :: int
  localtimeIdx :: nat

record local_type =
  gmtOffset :: int
  isDst :: bool
  arrbIdx :: nat

record tz_data =
  transitions :: "transition list"
  localtimes :: "local_type list"
  zone_names :: "string list"
  tz_abbreviation :: string

definition tz_data_new :: tz_data where
  "tz_data_new = \<lparr>transitions = [], localtimes = [], zone_names = [], tz_abbreviation = []\<rparr>"

type_synonym time_zone = "tz_data option"

definition Comp_less :: "bool \<Rightarrow> transition \<Rightarrow> transition \<Rightarrow> bool" where
  "Comp_less compareGmt lhs rhs = (if compareGmt then gmttime lhs < gmttime rhs else localtime lhs < localtime rhs)"

definition Comp_equal :: "bool \<Rightarrow> transition \<Rightarrow> transition \<Rightarrow> bool" where
  "Comp_equal compareGmt lhs rhs = (if compareGmt then gmttime lhs = gmttime rhs else localtime lhs = localtime rhs)"

definition vec_at :: "'a list \<Rightarrow> nat \<Rightarrow> 'a res" where
  "vec_at xs i = (if i < length xs then Inr (xs ! i) else Inl OutOfRange)"

definition findLocaltime :: "tz_data \<Rightarrow> transition \<Rightarrow> bool \<Rightarrow> local_type res" where
  "findLocaltime data sentry cmp =
     (if transitions data = [] \<or> Comp_less cmp sentry (hd (transitions data))
      then vec_at (localtimes data) 0
      else (case find_index (\<lambda>x. \<not> Comp_less cmp x sentry) (transitions data) of
              Some i \<Rightarrow>
                (if \<not> Comp_equal cmp sentry (transitions data ! i)
                 then c_assert (i \<noteq> 0) (vec_at (localtimes data) (localtimeIdx (transitions data ! (i - 1))))
                 else vec_at (localtimes data) (localtimeIdx (transitions data ! i)))
            | None \<Rightarrow> vec_at (localtimes data) (localtimeIdx (last (transitions data)))))"

section \<open>Zone files\<close>

text \<open>
  A reader works on the rest of the file and on the data filled so far. A \<^verbatim>\<open>logic_error\<close> ends the reading and
  keeps the data.
\<close>

datatype 'a read_result = Thrown string tz_data | Value 'a "char list" tz_data

type_synonym 'a reader = "char list \<Rightarrow> tz_data \<Rightarrow> 'a read_result res"

definition read_bind :: "'a reader \<Rightarrow> ('a \<Rightarrow> 'b reader) \<Rightarrow> 'b reader" where
  "read_bind m k f d =
     rbind (m f d) (\<lambda>r. case r of Thrown e d' \<Rightarrow> Inr (Thrown e d') | Value x f' d' \<Rightarrow> k x f' d')"

definition read_return :: "'a \<Rightarrow> 'a reader" where
  "read_return x f d = Inr (Value x f d)"

definition read_throw :: "string \<Rightarrow> 'a reader" where
  "read_throw e f d = Inr (Thrown e d)"

definition read_data :: "(tz_data \<Rightarrow> tz_data res) \<Rightarrow> unit reader" where
  "read_data g f d = rbind (g d) (\<lambda>d'. Inr (Value () f d'))"

text \<open>\<^verbatim>\<open>char buf[n]\<close> with a negative \<open>n\<close> has no meaning.\<close>

definition File_readBytes :: "int \<Rightarrow> string reader" where
  "File_readBytes n f d =
     (if n < 0 then Inl OutOfRange
      else if length f < nat n then Inr (Thrown ''no enough data'' d)
      else Inr (Value (take (nat n) f) (drop (nat n) f) d))"

definition File_readInt32 :: "int reader" where
  "File_readInt32 f d =
     (if length f < 4 then Inr (Thrown ''bad int32_t data'' d)
      else Inr (Value (sint (networkToHost32 (image_word (take 4 f)))) (drop 4 f) d))"

definition File_readUInt8 :: "nat reader" where
  "File_readUInt8 f d =
     (case f of [] \<Rightarrow> Inr (Thrown ''bad uint8_t data'' d) | c # f' \<Rightarrow> Inr (Value (of_char c) f' d))"

primrec read_times :: "nat \<Rightarrow> 'a reader \<Rightarrow> 'a list reader" where
  "read_times 0 m = read_return []"
| "read_times (Suc n) m = read_bind m (\<lambda>x. read_bind (read_times n m) (\<lambda>xs. read_return (x # xs)))"

definition read_localtime :: "unit reader" where
  "read_localtime =
     read_bind File_readInt32 (\<lambda>gmtoff. read_bind File_readUInt8 (\<lambda>isdst. read_bind File_readUInt8 (\<lambda>abbrind.
       read_data (\<lambda>d. Inr (d\<lparr>localtimes := localtimes d @ [\<lparr>gmtOffset = gmtoff, isDst = (isdst \<noteq> 0), arrbIdx = abbrind\<rparr>]\<rparr>)))))"

primrec add_transitions :: "(int \<times> nat) list \<Rightarrow> tz_data \<Rightarrow> tz_data res" where
  "add_transitions [] d = Inr d"
| "add_transitions (x # xs) d =
     rbind (vec_at (localtimes d) (snd x)) (\<lambda>l.
       add_transitions xs (d\<lparr>transitions := transitions d @
         [\<lparr>gmttime = fst x, localtime = fst x + gmtOffset l, localtimeIdx = snd x\<rparr>]\<rparr>))"

text \<open>\<^verbatim>\<open>trans.reserve\<close> of a negative count throws \<^verbatim>\<open>std::length_error\<close>, which is a \<^verbatim>\<open>logic_error\<close>.\<close>

definition read_zone :: "unit reader" where
  "read_zone =
     read_bind (File_readBytes 4) (\<lambda>head.
     if head \<noteq> ''TZif'' then read_throw ''bad head'' else
     read_bind (File_readBytes 1) (\<lambda>version. read_bind (File_readBytes 15) (\<lambda>_.
     read_bind File_readInt32 (\<lambda>isgmtcnt. read_bind File_readInt32 (\<lambda>isstdcnt. read_bind File_readInt32 (\<lambda>leapcnt.
     read_bind File_readInt32 (\<lambda>timecnt. read_bind File_readInt32 (\<lambda>typecnt. read_bind File_readInt32 (\<lambda>charcnt.
     if timecnt < 0 then read_throw ''vector::reserve'' else
     read_bind (read_times (nat timecnt) File_readInt32) (\<lambda>trans.
     read_bind (read_times (nat timecnt) File_readUInt8) (\<lambda>locals.
     read_bind (read_times (nat typecnt) read_localtime) (\<lambda>_.
     read_bind (read_data (add_transitions (zip trans locals))) (\<lambda>_.
     read_bind (File_readBytes charcnt) (\<lambda>abbrev.
       read_data (\<lambda>d. Inr (d\<lparr>tz_abbreviation := abbrev\<rparr>))))))))))))))))"

definition readTimeZoneFile :: "char list option \<Rightarrow> tz_data \<Rightarrow> (bool \<times> tz_data) res" where
  "readTimeZoneFile zonefile d =
     (case zonefile of
        None \<Rightarrow> Inr (True, d)
      | Some f \<Rightarrow> rbind (read_zone f d) (\<lambda>r. case r of Thrown e d' \<Rightarrow> Inr (True, d') | Value _ _ d' \<Rightarrow> Inr (True, d')))"

definition TimeZone_file :: "char list option \<Rightarrow> time_zone res" where
  "TimeZone_file zonefile =
     rbind (readTimeZoneFile zonefile tz_data_new) (\<lambda>(ok, d). Inr (if \<not> ok then None else Some d))"

definition TimeZone_fixed :: "int \<Rightarrow> string \<Rightarrow> time_zone" where
  "TimeZone_fixed eastOfUtc nm =
     Some (tz_data_new\<lparr>localtimes := [\<lparr>gmtOffset = eastOfUtc, isDst = False, arrbIdx = 0\<rparr>], tz_abbreviation := nm\<rparr>)"

definition TimeZone_valid :: "time_zone \<Rightarrow> bool" where
  "TimeZone_valid tz \<longleftrightarrow> tz \<noteq> None"

section \<open>Local time\<close>

definition TimeZone_toLocalTime :: "int \<Rightarrow> time_zone \<Rightarrow> zoned_tm res" where
  "TimeZone_toLocalTime seconds tz =
     (case tz of
        None \<Rightarrow> Inl AssertFailed
      | Some data \<Rightarrow>
          rbind (findLocaltime data \<lparr>gmttime = seconds, localtime = 0, localtimeIdx = 0\<rparr> True) (\<lambda>local.
            if length (tz_abbreviation data) < arrbIdx local then Inl OutOfRange
            else Inr ((gmtime_r (seconds + gmtOffset local))\<lparr>tm_isdst := isDst local, tm_gmtoff := gmtOffset local,
                   tm_zone := c_string (drop (arrbIdx local) (tz_abbreviation data))\<rparr>)))"

definition TimeZone_fromLocalTime :: "zoned_tm \<Rightarrow> time_zone \<Rightarrow> int res" where
  "TimeZone_fromLocalTime localTm tz =
     (case tz of
        None \<Rightarrow> Inl AssertFailed
      | Some data \<Rightarrow>
          (let seconds = timegm localTm in
           rbind (findLocaltime data \<lparr>gmttime = 0, localtime = seconds, localtimeIdx = 0\<rparr> False) (\<lambda>local.
           rbind (if tm_isdst localTm
                  then rbind (TimeZone_toLocalTime (seconds - gmtOffset local) tz) (\<lambda>tryTm.
                    Inr (if \<not> tm_isdst tryTm \<and> tm_hour tryTm = tm_hour localTm \<and> tm_min tryTm = tm_min localTm
                         then seconds - 3600 else seconds))
                  else Inr seconds) (\<lambda>seconds'.
             Inr (seconds' - gmtOffset local)))))"

section \<open>Every day is a day of the calendar\<close>

definition next_date :: "int \<Rightarrow> int \<Rightarrow> int \<Rightarrow> int \<times> int \<times> int" where
  "next_date y m d = (if d < month_days y m then (y, m, d + 1) else if m < 12 then (y, m + 1, 1) else (y + 1, 1, 1))"

lemma div_step: "0 < k \<Longrightarrow> (Y + 1) div k = Y div k + (if k dvd Y + 1 then 1 else 0)" for Y k :: int
proof -
  assume k: "0 < k"
  define q r where "q = Y div k" and "r = Y mod k"
  have Y: "Y = q * k + r" "0 \<le> r" "r < k"
    using k by (simp_all add: q_def r_def)
  have dvd: "k dvd Y + 1 \<longleftrightarrow> r + 1 = k"
  proof -
    have "k dvd Y + 1 \<longleftrightarrow> k dvd r + 1"
      unfolding r_def by (simp add: dvd_eq_mod_eq_0 mod_add_left_eq)
    also have "\<dots> \<longleftrightarrow> r + 1 = k"
      using Y zdvd_imp_le [of k "r + 1"] by auto
    finally show ?thesis .
  qed
  have e: "(q + 1) * k = q * k + k"
    by (simp add: distrib_right)
  have "(Y + 1) div k = (if r + 1 = k then q + 1 else q)"
  proof (cases "r + 1 = k")
    case True
    have "(Y + 1) div k = q + 1"
      by (rule div_eqI) (use Y e True in linarith)+
    then show ?thesis
      using True by simp
  next
    case False
    have "(Y + 1) div k = q"
      by (rule div_eqI) (use Y False in linarith)+
    then show ?thesis
      using False by simp
  qed
  then show ?thesis
    unfolding dvd q_def by simp
qed

definition jdn :: "int \<Rightarrow> int \<Rightarrow> int \<Rightarrow> int" where
  "jdn Y M d = d + (153 * M + 2) div 5 + Y * 365 + Y div 4 - Y div 100 + Y div 400 - 32045"

lemma julian_jdn:
  "- 4800 < y \<Longrightarrow> 1 \<le> m \<Longrightarrow> m \<le> 2 \<Longrightarrow> getJulianDayNumber y m d = jdn (y + 4799) (m + 9) d"
  "- 4800 < y \<Longrightarrow> 3 \<le> m \<Longrightarrow> m \<le> 12 \<Longrightarrow> getJulianDayNumber y m d = jdn (y + 4800) (m - 3) d"
proof -
  assume "- 4800 < y" "1 \<le> m" "m \<le> 2"
  moreover from this have "(14 - m) div 12 = 1"
    by (intro div_eqI) auto
  ultimately show "getJulianDayNumber y m d = jdn (y + 4799) (m + 9) d"
    by (simp add: getJulianDayNumber_def Let_def jdn_def algebra_simps)
next
  assume "- 4800 < y" "3 \<le> m" "m \<le> 12"
  moreover from this have "(14 - m) div 12 = 0"
    by (intro div_eqI) auto
  ultimately show "getJulianDayNumber y m d = jdn (y + 4800) (m - 3) d"
    by (simp add: getJulianDayNumber_def Let_def jdn_def algebra_simps)
qed

lemma jdn_year: "jdn (Y + 1) M d = jdn Y M d + (if leap (Y - 4799) then 366 else 365)"
proof -
  define a b c where "a \<longleftrightarrow> 4 dvd Y - 4799" and "b \<longleftrightarrow> 100 dvd Y - 4799" and "c \<longleftrightarrow> 400 dvd Y - 4799"
  have dvd: "4 dvd Y + 1 \<longleftrightarrow> a" "100 dvd Y + 1 \<longleftrightarrow> b" "400 dvd Y + 1 \<longleftrightarrow> c"
    unfolding a_def b_def c_def by presburger+
  have imp: "c \<Longrightarrow> b" "b \<Longrightarrow> a"
    unfolding a_def b_def c_def using dvd_trans [of 100 400 "Y - 4799"] dvd_trans [of 4 100 "Y - 4799"] by simp_all
  have steps: "(Y + 1) div 4 = Y div 4 + (if a then 1 else 0)" "(Y + 1) div 100 = Y div 100 + (if b then 1 else 0)"
      "(Y + 1) div 400 = Y div 400 + (if c then 1 else 0)"
    using div_step [of 4 Y] div_step [of 100 Y] div_step [of 400 Y] unfolding dvd by simp_all
  have "leap (Y - 4799) \<longleftrightarrow> a \<and> (b \<longrightarrow> c)"
    by (simp only: leap_def a_def b_def c_def)
  then show ?thesis
    unfolding jdn_def steps using imp by (auto split: if_splits)
qed

lemma next_date_real: "real_date y m d \<Longrightarrow> next_date y m d = (y', m', d') \<Longrightarrow> real_date y' m' d'"
  by (auto simp: real_date_def next_date_def month_days_def split: if_splits)

lemma julian_next:
  assumes "real_date y m d" "next_date y m d = (y', m', d')"
  shows "getJulianDayNumber y' m' d' = getJulianDayNumber y m d + 1"
proof -
  have rd: "- 4800 < y" "1 \<le> m" "m \<le> 12" "1 \<le> d" "d \<le> month_days y m"
    using assms(1) by (simp_all add: real_date_def)
  from rd(2,3) have "m = 1 \<or> m = 2 \<or> m = 3 \<or> m = 4 \<or> m = 5 \<or> m = 6 \<or> m = 7 \<or> m = 8 \<or> m = 9 \<or> m = 10 \<or> m = 11 \<or> m = 12"
    by presburger
  then consider "m = 1" | "m = 2" | "m = 3" | "m = 4" | "m = 5" | "m = 6" | "m = 7" | "m = 8" | "m = 9" | "m = 10" | "m = 11" | "m = 12"
    by blast
  then show ?thesis
  proof cases
    case 2
    then show ?thesis
      using assms(2) rd jdn_year [of "y + 4799" 0 1]
      by (auto simp: next_date_def month_days_def julian_jdn add.commute split: if_splits) (auto simp: jdn_def add.commute)
  qed (use assms(2) rd in \<open>auto simp: next_date_def month_days_def julian_jdn split: if_splits\<close>, (auto simp: jdn_def add.commute)?)
qed

lemma julian_surj:
  assumes "0 \<le> j"
  shows "\<exists>y m d. real_date y m d \<and> getJulianDayNumber y m d = j"
proof -
  have "\<exists>y m d. real_date y m d \<and> getJulianDayNumber y m d = getJulianDayNumber (- 4799) 1 1 + int n" for n
  proof (induction n)
    case 0
    have "real_date (- 4799) 1 1"
      by (simp add: real_date_def month_days_def)
    then show ?case by force
  next
    case (Suc n)
    then obtain y m d where "real_date y m d" "getJulianDayNumber y m d = getJulianDayNumber (- 4799) 1 1 + int n"
      by blast
    moreover obtain y' m' d' where "next_date y m d = (y', m', d')"
      by (cases "next_date y m d") auto
    ultimately show ?case
      using next_date_real [of y m d] julian_next [of y m d] by fastforce
  qed
  moreover have "getJulianDayNumber (- 4799) 1 1 \<le> 0"
    by (simp add: getJulianDayNumber_def)
  ultimately show ?thesis
    using assms by (metis add.commute diff_add_cancel nat_0_le diff_ge_0_iff_ge order_trans)
qed

lemma julian_of_ymd: "0 \<le> j \<Longrightarrow> ymd = getYearMonthDay j \<Longrightarrow> getJulianDayNumber (year ymd) (month ymd) (day ymd) = j"
  using julian_surj [of j] Date_decode by fastforce

section \<open>UTC and back\<close>

text \<open>The seconds the conversion to \<^verbatim>\<open>int\<close> and the calendar cover: from the start of the Julian period on, up to a day number
  whose quadruple is an \<^verbatim>\<open>int\<close>.\<close>

definition utc_range :: "int \<Rightarrow> bool" where
  "utc_range t \<longleftrightarrow> - 2440588 \<le> t div 86400 \<and> t div 86400 < 500000000"

lemma epoch_day: "kJulianDayOf1970_01_01 = 2440588"
  by (simp add: kJulianDayOf1970_01_01_def getJulianDayNumber_def)

lemma truncated_days:
  "(if t smod k < 0 then (t smod k + k, t sdiv k - 1) else (t smod k, t sdiv k)) = (t mod k, t div k)" if "0 < k" for t k :: int
proof (cases "0 \<le> t")
  case True
  then show ?thesis
    using that by (simp add: not_less)
next
  case False
  then have "t sdiv k = - ((- t) div k)" "t smod k = - ((- t) mod k)"
    using that by (simp_all add: signed_divide_int_def signed_modulo_int_def minus_div_mult_eq_mod [symmetric])
  then show ?thesis
    using that zdiv_zminus1_eq_if [of k "- t"] zmod_zminus1_eq_if [of "- t" k] pos_mod_bound [of k "- t"]
    by (auto simp: less_le)
qed

lemma int32_id: "- (2 ^ 31) \<le> x \<Longrightarrow> x < 2 ^ 31 \<Longrightarrow> int32 x = x"
  by (simp add: int32_def signed_take_bit_int_eq_self)

lemma hms_of_seconds: "(s div 60 div 60) * 3600 + (s div 60 mod 60) * 60 + s mod 60 = s" for s :: int
proof -
  have "(s div 60 div 60) * 60 + s div 60 mod 60 = s div 60"
    by simp
  then show ?thesis
    using div_mult_mod_eq [of s 60] by linarith
qed

text \<open>What \<^verbatim>\<open>toUtcTime\<close> stores, in floor division.\<close>

lemma toUtcTime_fields:
  assumes "utc_range t"
  shows "tm_hour (TimeZone_toUtcTime t yd) = t mod 86400 div 60 div 60" "tm_min (TimeZone_toUtcTime t yd) = t mod 86400 div 60 mod 60"
    "tm_sec (TimeZone_toUtcTime t yd) = t mod 86400 mod 60" "tm_isdst (TimeZone_toUtcTime t yd) = False"
    "tm_year (TimeZone_toUtcTime t yd) + 1900 = year (getYearMonthDay (t div 86400 + 2440588))"
    "tm_mon (TimeZone_toUtcTime t yd) + 1 = month (getYearMonthDay (t div 86400 + 2440588))"
    "tm_mday (TimeZone_toUtcTime t yd) = day (getYearMonthDay (t div 86400 + 2440588))"
proof -
  have sizes: "- (2 ^ 31) \<le> t smod 86400" "t smod 86400 < 2 ^ 31" "- (2 ^ 31) \<le> t sdiv 86400" "t sdiv 86400 < 2 ^ 31"
    using assms truncated_days [of 86400 t] pos_mod_sign [of 86400 t] pos_mod_bound [of 86400 t]
    by (auto simp: utc_range_def split: if_splits)
  have pair: "(if int32 (t smod 86400) < 0 then (int32 (t smod 86400) + 86400, int32 (t sdiv 86400) - 1)
      else (int32 (t smod 86400), int32 (t sdiv 86400))) = (t mod 86400, t div 86400)"
    unfolding int32_id [OF sizes(1,2)] int32_id [OF sizes(3,4)] using truncated_days [of 86400 t] by simp
  have day_length: "kSecondsPerDay = 86400"
    by (simp add: kSecondsPerDay_def)
  show "tm_hour (TimeZone_toUtcTime t yd) = t mod 86400 div 60 div 60" "tm_min (TimeZone_toUtcTime t yd) = t mod 86400 div 60 mod 60"
    "tm_sec (TimeZone_toUtcTime t yd) = t mod 86400 mod 60" "tm_isdst (TimeZone_toUtcTime t yd) = False"
    "tm_year (TimeZone_toUtcTime t yd) + 1900 = year (getYearMonthDay (t div 86400 + 2440588))"
    "tm_mon (TimeZone_toUtcTime t yd) + 1 = month (getYearMonthDay (t div 86400 + 2440588))"
    "tm_mday (TimeZone_toUtcTime t yd) = day (getYearMonthDay (t div 86400 + 2440588))"
    unfolding TimeZone_toUtcTime_def Let_def day_length pair prod.case
    by (simp_all add: fillHMS_def zero_tm_def Date_yearMonthDay_def epoch_day Let_def)
qed

lemma fromUtc_toUtc:
  assumes "utc_range t"
  shows "TimeZone_fromUtcTime (TimeZone_toUtcTime t yd) = t"
proof -
  let ?u = "TimeZone_toUtcTime t yd"
  have "0 \<le> t div 86400 + 2440588"
    using assms by (simp add: utc_range_def)
  from julian_of_ymd [OF this refl] have day: "getJulianDayNumber (tm_year ?u + 1900) (tm_mon ?u + 1) (tm_mday ?u) = t div 86400 + 2440588"
    unfolding toUtcTime_fields(5-7) [OF assms] .
  have "TimeZone_fromUtcTime ?u = t div 86400 * 86400 +
      (tm_hour ?u * 3600 + tm_min ?u * 60 + tm_sec ?u)"
    by (simp add: TimeZone_fromUtcTime_def TimeZone_fromUtcYmd_def Date_ymd_def day epoch_day kSecondsPerDay_def)
  also have "\<dots> = t div 86400 * 86400 + t mod 86400"
    unfolding toUtcTime_fields(1-3) [OF assms] hms_of_seconds ..
  also have "\<dots> = t"
    by (rule div_mult_mod_eq)
  finally show ?thesis .
qed

text \<open>
  C35. Broken-down UTC time and back: for every second of the Julian period that the calendar arithmetic
  covers, before 1970 too, \<^verbatim>\<open>toUtcTime\<close> gives a real date and a time within a day, and \<^verbatim>\<open>fromUtcTime\<close> gives the second back.
\<close>

theorem TimeZone_utc_roundtrip:
  assumes "- 2440588 * 86400 \<le> t" "t < 500000000 * 86400"
  shows "TimeZone_fromUtcTime (TimeZone_toUtcTime t yd) = t \<and>
    real_date (tm_year (TimeZone_toUtcTime t yd) + 1900) (tm_mon (TimeZone_toUtcTime t yd) + 1) (tm_mday (TimeZone_toUtcTime t yd)) \<and>
    tm_hour (TimeZone_toUtcTime t yd) \<in> {0..23} \<and> tm_min (TimeZone_toUtcTime t yd) \<in> {0..59} \<and> tm_sec (TimeZone_toUtcTime t yd) \<in> {0..59}"
proof -
  let ?u = "TimeZone_toUtcTime t yd"
  have range: "utc_range t"
    using assms zdiv_mono1 [of "- 2440588 * 86400" t 86400] by (auto simp: utc_range_def intro: less_mult_imp_div_less)
  obtain y m d where date: "real_date y m d" "getJulianDayNumber y m d = t div 86400 + 2440588"
    using julian_surj [of "t div 86400 + 2440588"] range by (auto simp: utc_range_def)
  have "tm_year ?u + 1900 = y \<and> tm_mon ?u + 1 = m \<and> tm_mday ?u = d"
    using toUtcTime_fields(5-7) [OF range, of yd] Date_decode [OF date(1)] date(2) by simp
  moreover have "t mod 86400 div 60 div 60 \<in> {0..23}"
    using zdiv_mono1 [of "t mod 86400" 86399 60] zdiv_mono1 [of "t mod 86400 div 60" 1439 60] pos_mod_bound [of 86400 t]
    by (simp add: pos_imp_zdiv_nonneg_iff)
  moreover have "x mod 60 \<le> 59" for x :: int
    using pos_mod_bound [of 60 x] by linarith
  ultimately show ?thesis
    using fromUtc_toUtc [OF range, of yd] date(1) toUtcTime_fields(1-3) [OF range, of yd] by simp
qed

theorem TimeZone_utc_roundtrip_witness:
  "TimeZone_fromUtcTime (TimeZone_toUtcTime (- 1) True) = - 1 \<and>
   real_date (tm_year (TimeZone_toUtcTime (- 1) True) + 1900) (tm_mon (TimeZone_toUtcTime (- 1) True) + 1) (tm_mday (TimeZone_toUtcTime (- 1) True))"
  using TimeZone_utc_roundtrip [of "- 1" True] by simp

section \<open>Local time and back\<close>

text \<open>The \<open>n\<close>-th stretch of a zone's history: the first type before any transition, then the type of the last one.\<close>

definition stretch :: "tz_data \<Rightarrow> nat \<Rightarrow> local_type" where
  "stretch data n = (if n = 0 then localtimes data ! 0 else localtimes data ! localtimeIdx (transitions data ! (n - 1)))"

definition tr_key :: "bool \<Rightarrow> transition \<Rightarrow> int" where
  "tr_key cmp x = (if cmp then gmttime x else localtime x)"

definition in_stretch :: "bool \<Rightarrow> tz_data \<Rightarrow> nat \<Rightarrow> int \<Rightarrow> bool" where
  "in_stretch cmp data n t \<longleftrightarrow> n \<le> length (transitions data) \<and> (\<forall>i<n. tr_key cmp (transitions data ! i) \<le> t) \<and>
     (n < length (transitions data) \<longrightarrow> t < tr_key cmp (transitions data ! n))"

lemma stretch_exists: "\<exists>n. in_stretch cmp data n t"
proof -
  let ?P = "\<lambda>x. tr_key cmp x \<le> t"
  let ?n = "length (takeWhile ?P (transitions data))"
  have "tr_key cmp (transitions data ! i) \<le> t" if "i < ?n" for i
    using that set_takeWhileD [of "takeWhile ?P (transitions data) ! i" ?P] nth_mem [OF that] by (simp add: takeWhile_nth)
  moreover have "\<not> ?P (transitions data ! ?n)" if "?n < length (transitions data)"
    using nth_length_takeWhile [OF that] .
  ultimately show ?thesis
    unfolding in_stretch_def by (intro exI [of _ ?n]) (auto simp: length_takeWhile_le not_le)
qed

definition indices_ok :: "tz_data \<Rightarrow> bool" where
  "indices_ok data \<longleftrightarrow> localtimes data \<noteq> [] \<and> list_all (\<lambda>x. localtimeIdx x < length (localtimes data)) (transitions data)"

lemma findLocaltime_stretch:
  assumes "indices_ok data" "sorted_wrt (\<lambda>x y. tr_key cmp x < tr_key cmp y) (transitions data)" "in_stretch cmp data n (tr_key cmp sentry)"
  shows "findLocaltime data sentry cmp = Inr (stretch data n)"
proof -
  let ?T = "transitions data" and ?k = "tr_key cmp" and ?t = "tr_key cmp sentry"
  have cmp: "Comp_less cmp x y \<longleftrightarrow> ?k x < ?k y" "Comp_equal cmp x y \<longleftrightarrow> ?k x = ?k y" for x y
    by (simp_all add: Comp_less_def Comp_equal_def tr_key_def)
  have idx: "localtimes data \<noteq> []" "i < length ?T \<Longrightarrow> localtimeIdx (?T ! i) < length (localtimes data)" for i
    using assms(1) by (auto simp: indices_ok_def list_all_length)
  have n: "n \<le> length ?T" "\<And>i. i < n \<Longrightarrow> ?k (?T ! i) \<le> ?t" "n < length ?T \<Longrightarrow> ?t < ?k (?T ! n)"
    using assms(3) by (auto simp: in_stretch_def)
  have sorted: "i < j \<Longrightarrow> j < length ?T \<Longrightarrow> ?k (?T ! i) < ?k (?T ! j)" for i j
    using assms(2) by (simp add: sorted_wrt_iff_nth_less)
  show ?thesis
  proof (cases n)
    case 0
    then have "?T = [] \<or> Comp_less cmp sentry (hd ?T)"
      using n(3) by (cases ?T) (auto simp: cmp)
    then show ?thesis
      using 0 idx(1) by (simp add: findLocaltime_def vec_at_def stretch_def)
  next
    case (Suc m)
    have T: "?T \<noteq> []" "\<not> Comp_less cmp sentry (hd ?T)"
      using n(1) n(2) [of 0] Suc by (cases ?T; simp add: cmp)+
    let ?P = "\<lambda>x. \<not> Comp_less cmp x sentry"
    have m: "m < length ?T" "?k (?T ! m) \<le> ?t"
      using n(1) n(2) [of m] Suc by simp_all
    have sn: "stretch data n = localtimes data ! localtimeIdx (?T ! m)"
      by (simp add: stretch_def Suc)
    consider "?k (?T ! m) = ?t" | "?k (?T ! m) < ?t" "n < length ?T" | "?k (?T ! m) < ?t" "n = length ?T"
      using m(2) n(1) by linarith
    then show ?thesis
    proof cases
      case 1
      then have "find_index ?P ?T = Some m"
        using m(1) sorted [of _ m] by (auto simp: find_index_Some cmp)
      then show ?thesis
        using T 1 idx(2) [OF m(1)] Suc by (simp add: findLocaltime_def cmp vec_at_def stretch_def)
    next
      case 2
      then have "?k (?T ! j) < ?t" if "j < n" for j
        using that sorted [of j m] m(1) Suc by (cases "j = m") (auto intro: less_trans)
      then have "find_index ?P ?T = Some n"
        using 2 n(3) by (auto simp: find_index_Some cmp)
      then show ?thesis
        using T 2 n(3) idx(2) [OF m(1)] Suc by (simp add: findLocaltime_def cmp vec_at_def stretch_def)
    next
      case 3
      then have "?k (?T ! j) < ?t" if "j < length ?T" for j
        using that sorted [of j m] m(1) Suc by (cases "j = m") (auto intro: less_trans)
      then have "find_index ?P ?T = None"
        by (auto simp: find_index_None cmp in_set_conv_nth)
      moreover have "last ?T = ?T ! m"
        using T(1) 3 Suc by (simp add: last_conv_nth flip: 3(2))
      ultimately show ?thesis
        using T 3 idx(2) [OF m(1)] sn by (simp add: findLocaltime_def cmp vec_at_def)
    qed
  qed
qed

text \<open>
  A zone whose clock changes are the ordinary ones: transitions in order, an hour apart or more, in UTC and in local time; the
  local time of each as the reader computes it; and a clock that is set back is set back by one hour, from daylight
  saving time to standard time, with the repeated hour over before the next change.
\<close>

definition clock_change_ok :: "tz_data \<Rightarrow> nat \<Rightarrow> bool" where
  "clock_change_ok data i \<longleftrightarrow>
     (let old = stretch data i; new = stretch data (Suc i); tr = transitions data ! i in
      localtime tr = gmttime tr + gmtOffset new \<and>
      (gmtOffset old \<le> gmtOffset new \<or> isDst old \<and> \<not> isDst new \<and> gmtOffset old = gmtOffset new + 3600) \<and>
      (Suc i < length (transitions data) \<longrightarrow>
         gmttime tr + 3600 \<le> gmttime (transitions data ! Suc i) \<and> localtime tr < localtime (transitions data ! Suc i) \<and>
         gmttime tr + gmtOffset old \<le> localtime (transitions data ! Suc i)))"

definition zone_ok :: "tz_data \<Rightarrow> bool" where
  "zone_ok data \<longleftrightarrow> indices_ok data \<and>
     list_all (\<lambda>l. \<bar>gmtOffset l\<bar> \<le> 86400 \<and> arrbIdx l \<le> length (tz_abbreviation data)) (localtimes data) \<and>
     list_all (clock_change_ok data) [0..<length (transitions data)]"

lemma sorted_by_steps:
  assumes "\<And>i. Suc i < length xs \<Longrightarrow> (f (xs ! i) :: int) < f (xs ! Suc i)"
  shows "sorted_wrt (\<lambda>x y. f x < f y) xs"
proof -
  have "f (xs ! i) < f (xs ! (i + Suc k))" if "i + Suc k < length xs" for i k
    using that
  proof (induction k)
    case 0
    then show ?case using assms [of i] by simp
  next
    case (Suc k)
    then show ?case using assms [of "i + Suc k"] by fastforce
  qed
  then show ?thesis
    unfolding sorted_wrt_iff_nth_less by (metis less_iff_Suc_add add_Suc_right)
qed

lemma zone_okD:
  assumes "zone_ok data"
  shows "indices_ok data" "sorted_wrt (\<lambda>x y. tr_key cmp x < tr_key cmp y) (transitions data)"
    "n \<le> length (transitions data) \<Longrightarrow> \<bar>gmtOffset (stretch data n)\<bar> \<le> 86400 \<and> arrbIdx (stretch data n) \<le> length (tz_abbreviation data)"
    "i < length (transitions data) \<Longrightarrow> clock_change_ok data i"
proof -
  show idx: "indices_ok data" and step: "\<And>i. i < length (transitions data) \<Longrightarrow> clock_change_ok data i"
    using assms by (auto simp: zone_ok_def list_all_iff)
  show "sorted_wrt (\<lambda>x y. tr_key cmp x < tr_key cmp y) (transitions data)"
  proof (rule sorted_by_steps)
    fix i
    assume i: "Suc i < length (transitions data)"
    then have "clock_change_ok data i"
      by (intro step) simp
    then show "tr_key cmp (transitions data ! i) < tr_key cmp (transitions data ! Suc i)"
      using i by (auto simp: clock_change_ok_def tr_key_def Let_def)
  qed
  have "n \<le> length (transitions data) \<Longrightarrow> stretch data n \<in> set (localtimes data)"
    using idx by (cases n) (auto simp: stretch_def indices_ok_def list_all_length)
  then show "n \<le> length (transitions data) \<Longrightarrow> \<bar>gmtOffset (stretch data n)\<bar> \<le> 86400 \<and> arrbIdx (stretch data n) \<le> length (tz_abbreviation data)"
    using assms by (auto simp: zone_ok_def list_all_iff)
qed

definition local_tm :: "tz_data \<Rightarrow> nat \<Rightarrow> int \<Rightarrow> zoned_tm" where
  "local_tm data n t = (gmtime_r (t + gmtOffset (stretch data n)))\<lparr>tm_isdst := isDst (stretch data n), tm_gmtoff := gmtOffset (stretch data n),
     tm_zone := c_string (drop (arrbIdx (stretch data n)) (tz_abbreviation data))\<rparr>"

lemma toLocalTime_stretch:
  assumes "zone_ok data" "in_stretch True data n t"
  shows "TimeZone_toLocalTime t (Some data) = Inr (local_tm data n t)"
proof -
  have "n \<le> length (transitions data)"
    using assms(2) by (simp add: in_stretch_def)
  moreover have "findLocaltime data \<lparr>gmttime = t, localtime = 0, localtimeIdx = 0\<rparr> True = Inr (stretch data n)"
    using findLocaltime_stretch [OF zone_okD(1) [OF assms(1)] zone_okD(2) [OF assms(1)]] assms(2) by (simp add: tr_key_def)
  ultimately show ?thesis
    using zone_okD(3) [OF assms(1), of n] by (simp add: TimeZone_toLocalTime_def local_tm_def)
qed

lemma local_tm_fields:
  "tm_isdst (local_tm data n t) = isDst (stretch data n)" "tm_hour (local_tm data n t) = tm_hour (gmtime_r (t + gmtOffset (stretch data n)))"
  "tm_min (local_tm data n t) = tm_min (gmtime_r (t + gmtOffset (stretch data n)))"
  "utc_range (t + gmtOffset (stretch data n)) \<Longrightarrow> timegm (local_tm data n t) = t + gmtOffset (stretch data n)"
  using fromUtc_toUtc [of "t + gmtOffset (stretch data n)" True]
  by (simp_all add: local_tm_def timegm_def gmtime_r_def TimeZone_fromUtcTime_def)

text \<open>The local time shown in one stretch is found again there, or in the next when the clock was set back.\<close>

lemma local_stretch:
  assumes "zone_ok data" "in_stretch True data n t"
  defines "s \<equiv> t + gmtOffset (stretch data n)"
  shows "in_stretch False data n s \<or> n < length (transitions data) \<and> in_stretch False data (Suc n) s \<and> isDst (stretch data n) \<and>
    \<not> isDst (stretch data (Suc n)) \<and> gmtOffset (stretch data n) = gmtOffset (stretch data (Suc n)) + 3600 \<and>
    in_stretch True data (Suc n) (t + 3600)"
proof -
  let ?T = "transitions data"
  have n: "n \<le> length ?T" "\<And>i. i < n \<Longrightarrow> gmttime (?T ! i) \<le> t" "n < length ?T \<Longrightarrow> t < gmttime (?T ! n)"
    using assms(2) by (auto simp: in_stretch_def tr_key_def)
  have ok: "i < length ?T \<Longrightarrow> clock_change_ok data i" for i
    by (rule zone_okD(4) [OF assms(1)])
  have sorted: "i < j \<Longrightarrow> j < length ?T \<Longrightarrow> localtime (?T ! i) < localtime (?T ! j)" for i j
    using zone_okD(2) [OF assms(1), of False] by (simp add: sorted_wrt_iff_nth_less tr_key_def)
  have before: "localtime (?T ! i) \<le> s" if "i < n" for i
  proof -
    obtain m where m: "n = Suc m"
      using \<open>i < n\<close> by (cases n) auto
    have "localtime (?T ! m) \<le> s"
      using ok [of m] n(1) n(2) [of m] m by (auto simp: clock_change_ok_def Let_def s_def)
    then show ?thesis
      using sorted [of i m] that m n(1) by (cases "i = m") auto
  qed
  show ?thesis
  proof (cases "n < length ?T \<and> localtime (?T ! n) \<le> s")
    case False
    then show ?thesis
      using n(1) before by (auto simp: in_stretch_def tr_key_def)
  next
    case True
    then have lt: "n < length ?T" "localtime (?T ! n) \<le> s" "t < gmttime (?T ! n)"
      using n(3) by auto
    note change = ok [OF lt(1), unfolded clock_change_ok_def Let_def]
    have setback: "isDst (stretch data n)" "\<not> isDst (stretch data (Suc n))" "gmtOffset (stretch data n) = gmtOffset (stretch data (Suc n)) + 3600"
      using change lt by (auto simp: s_def)
    have "in_stretch False data (Suc n) s"
      using lt before change by (auto simp: in_stretch_def tr_key_def less_Suc_eq s_def)
    moreover have "gmttime (?T ! n) \<le> t + 3600"
      using change lt(2) setback(3) by (simp add: s_def)
    then have "in_stretch True data (Suc n) (t + 3600)"
      using lt n(2) change by (fastforce simp: in_stretch_def tr_key_def less_Suc_eq)
    ultimately show ?thesis
      using lt(1) setback by simp
  qed
qed

text \<open>
  C33. Local time and back: in a zone with ordinary clock changes, for every second whose local time the calendar
  arithmetic covers, \<^verbatim>\<open>fromLocalTime\<close> of the local time \<^verbatim>\<open>toLocalTime\<close> gives is that second. This includes both passes
  through the hour that is repeated when daylight saving time ends.
\<close>

theorem TimeZone_local_roundtrip:
  assumes "zone_ok data" "- 2440587 * 86400 \<le> t" "t < 499999999 * 86400"
  shows "\<exists>local. TimeZone_toLocalTime t (Some data) = Inr local \<and> TimeZone_fromLocalTime local (Some data) = Inr t"
proof -
  obtain n where n: "in_stretch True data n t"
    using stretch_exists by blast
  let ?o = "gmtOffset (stretch data n)"
  note here = toLocalTime_stretch [OF assms(1) n]
  have "\<bar>?o\<bar> \<le> 86400"
    using zone_okD(3) [OF assms(1)] n by (simp add: in_stretch_def)
  then have "utc_range (t + ?o)"
    using assms(2,3) zdiv_mono1 [of "- 2440588 * 86400" "t + ?o" 86400]
    by (auto simp: utc_range_def intro: less_mult_imp_div_less)
  note fields = local_tm_fields(1-3) local_tm_fields(4) [OF this]
  have found: "findLocaltime data \<lparr>gmttime = 0, localtime = t + ?o, localtimeIdx = 0\<rparr> False = Inr (stretch data m)"
    if "in_stretch False data m (t + ?o)" for m
    using that findLocaltime_stretch [OF zone_okD(1) [OF assms(1)] zone_okD(2) [OF assms(1)]] by (simp add: tr_key_def)
  from local_stretch [OF assms(1) n] show ?thesis
  proof (elim disjE conjE)
    assume "in_stretch False data n (t + ?o)"
    then show ?thesis
      using here found by (simp add: TimeZone_fromLocalTime_def fields Let_def)
  next
    let ?p = "gmtOffset (stretch data (Suc n))"
    assume setback: "in_stretch False data (Suc n) (t + ?o)" "isDst (stretch data n)" "\<not> isDst (stretch data (Suc n))" "?o = ?p + 3600"
      "in_stretch True data (Suc n) (t + 3600)"
    have "TimeZone_toLocalTime (t + ?o - ?p) (Some data) = Inr (local_tm data (Suc n) (t + 3600))"
      using toLocalTime_stretch [OF assms(1) setback(5)] setback(4) by (simp add: add.commute)
    then show ?thesis
      using here found [OF setback(1)] setback(2-4) by (simp add: TimeZone_fromLocalTime_def fields Let_def add.commute add.left_commute)
  qed
qed

definition new_york_2020 :: tz_data where
  "new_york_2020 = \<lparr>transitions =
       [\<lparr>gmttime = 1583650800, localtime = 1583636400, localtimeIdx = 1\<rparr>, \<lparr>gmttime = 1604210400, localtime = 1604192400, localtimeIdx = 0\<rparr>],
     localtimes = [\<lparr>gmtOffset = - 18000, isDst = False, arrbIdx = 0\<rparr>, \<lparr>gmtOffset = - 14400, isDst = True, arrbIdx = 4\<rparr>],
     zone_names = [], tz_abbreviation = ''EST'' @ CHR 0x00 # ''EDT''\<rparr>"

theorem TimeZone_local_roundtrip_witness:
  "zone_ok new_york_2020 \<and>
   (\<exists>local. TimeZone_toLocalTime 1604208600 (Some new_york_2020) = Inr local \<and> TimeZone_fromLocalTime local (Some new_york_2020) = Inr 1604208600)"
proof -
  have "zone_ok new_york_2020"
    by (simp add: zone_ok_def new_york_2020_def indices_ok_def clock_change_ok_def stretch_def upt_rec)
  then show ?thesis
    using TimeZone_local_roundtrip [of new_york_2020 1604208600] by simp
qed

text \<open>A file that cannot be opened gives a zone that calls itself valid and has no type to convert with.\<close>

lemma TimeZone_missing_file:
  "TimeZone_file None = Inr (Some tz_data_new)" "TimeZone_valid (Some tz_data_new)" "TimeZone_toLocalTime t (Some tz_data_new) = Inl OutOfRange"
  by (simp_all add: TimeZone_file_def readTimeZoneFile_def TimeZone_valid_def TimeZone_toLocalTime_def findLocaltime_def tz_data_new_def vec_at_def)

end
