(* ===== verification/Base_Logging.thy ===== *)
theory Base_Logging
  imports Base_TimeZone
begin

text \<open>
  The front end of logging (\<^verbatim>\<open>muduo/base/Logging.{h,cc}\<close>): levels and macros, the prefix with the cached time of day, the
  suffix with the source file, and what reaches the output function. The state of a thread is its cache of the time text
  and of its identifier (\<^verbatim>\<open>CurrentThread\<close>); \<^verbatim>\<open>strerror_r\<close> and \<^verbatim>\<open>gettid\<close> are arguments.
\<close>

section \<open>Levels and source files\<close>

datatype log_level = TRACE | DEBUG | INFO | WARN | LERROR | FATAL

primrec level_number :: "log_level \<Rightarrow> nat" where
  "level_number TRACE = 0"
| "level_number DEBUG = 1"
| "level_number INFO = 2"
| "level_number WARN = 3"
| "level_number LERROR = 4"
| "level_number FATAL = 5"

instantiation log_level :: linorder
begin

definition less_eq_log_level :: "log_level \<Rightarrow> log_level \<Rightarrow> bool" where
  "less_eq_log_level a b \<longleftrightarrow> level_number a \<le> level_number b"

definition less_log_level :: "log_level \<Rightarrow> log_level \<Rightarrow> bool" where
  "less_log_level a b \<longleftrightarrow> level_number a < level_number b"

instance
proof
  show "a \<le> b \<Longrightarrow> b \<le> a \<Longrightarrow> a = b" for a b :: log_level
    by (cases a; cases b) (simp_all add: less_eq_log_level_def)
qed (auto simp: less_eq_log_level_def less_log_level_def)

end

primrec LogLevelName :: "log_level \<Rightarrow> string" where
  "LogLevelName TRACE = ''TRACE ''"
| "LogLevelName DEBUG = ''DEBUG ''"
| "LogLevelName INFO = ''INFO  ''"
| "LogLevelName WARN = ''WARN  ''"
| "LogLevelName LERROR = ''ERROR ''"
| "LogLevelName FATAL = ''FATAL ''"

definition initLogLevel :: "(string \<Rightarrow> string option) \<Rightarrow> log_level" where
  "initLogLevel getenv =
     (if getenv ''MUDUO_LOG_TRACE'' \<noteq> None then TRACE
      else if getenv ''MUDUO_LOG_DEBUG'' \<noteq> None then DEBUG
      else INFO)"

definition strrchr :: "string \<Rightarrow> char \<Rightarrow> nat option" where
  "strrchr s c = map_option (\<lambda>i. length s - 1 - i) (find_index (\<lambda>x. x = c) (rev s))"

text \<open>A source file is what \<^verbatim>\<open>data_\<close> points to, and \<^verbatim>\<open>size_\<close>. The first constructor takes a literal of \<open>N - 1\<close> characters.\<close>

definition SourceFile_literal :: "string \<Rightarrow> string \<times> int" where
  "SourceFile_literal arr =
     (case strrchr arr (CHR ''/'') of
        None \<Rightarrow> (arr, int (length arr))
      | Some slash \<Rightarrow> (drop (slash + 1) arr, int (length arr) - int (slash + 1)))"

definition SourceFile_name :: "string \<Rightarrow> string \<times> int" where
  "SourceFile_name filename =
     (let dat = (case strrchr filename (CHR ''/'') of None \<Rightarrow> filename | Some slash \<Rightarrow> drop (slash + 1) filename)
      in (dat, int (length dat)))"

section \<open>The state\<close>

record log_thread =
  t_time :: string
  t_lastSecond :: int
  t_cachedTid :: int
  t_tidString :: string
  t_tidStringLength :: nat

definition log_thread_new :: log_thread where
  "log_thread_new = \<lparr>t_time = [], t_lastSecond = 0, t_cachedTid = 0, t_tidString = [], t_tidStringLength = 6\<rparr>"

text \<open>What the output function was given, and whether the process was ended by \<^verbatim>\<open>abort()\<close>.\<close>

record log_globals =
  g_logLevel :: log_level
  g_logTimeZone :: time_zone
  g_output :: "string list"
  g_flushes :: nat
  g_aborted :: bool

record log_impl =
  li_stream :: fixed_buffer
  li_level :: log_level
  li_line :: "32 word"
  li_basename :: "string \<times> int"

definition Logger_setLogLevel :: "log_level \<Rightarrow> log_globals \<Rightarrow> log_globals" where
  "Logger_setLogLevel level g = g\<lparr>g_logLevel := level\<rparr>"

definition Logger_setTimeZone :: "time_zone \<Rightarrow> log_globals \<Rightarrow> log_globals" where
  "Logger_setTimeZone tz g = g\<lparr>g_logTimeZone := tz\<rparr>"

section \<open>Thread identifiers\<close>

definition cacheTid :: "int \<Rightarrow> log_thread \<Rightarrow> log_thread" where
  "cacheTid gettid th =
     (if t_cachedTid th = 0
      then (let txt = show_int_blank 5 gettid @ '' '' in
            th\<lparr>t_cachedTid := gettid, t_tidString := take 31 txt, t_tidStringLength := length txt\<rparr>)
      else th)"

definition CurrentThread_tid :: "int \<Rightarrow> log_thread \<Rightarrow> int \<times> log_thread" where
  "CurrentThread_tid gettid th =
     (let th' = (if t_cachedTid th = 0 then cacheTid gettid th else th) in (t_cachedTid th', th'))"

section \<open>One statement\<close>

definition T_new :: "string \<Rightarrow> nat \<Rightarrow> string res" where
  "T_new str len = c_assert (length str = len) (Inr str)"

definition put_T :: "string \<Rightarrow> nat \<Rightarrow> fixed_buffer \<Rightarrow> fixed_buffer res" where
  "put_T str len s = rbind (T_new str len) (\<lambda>v. LogStream_append v s)"

definition put_SourceFile :: "string \<times> int \<Rightarrow> fixed_buffer \<Rightarrow> fixed_buffer res" where
  "put_SourceFile v s = LogStream_append (take (nat (snd v)) (fst v)) s"

definition broken_down :: "time_zone \<Rightarrow> int \<Rightarrow> zoned_tm res" where
  "broken_down tz seconds = (if TimeZone_valid tz then TimeZone_toLocalTime seconds tz else Inr (gmtime_r seconds))"

definition time_text :: "zoned_tm \<Rightarrow> string" where
  "time_text t = show_int_blank 4 (tm_year t + 1900) @ show_int_zero 2 (tm_mon t + 1) @ show_int_zero 2 (tm_mday t) @ '' '' @
     show_int_zero 2 (tm_hour t) @ '':'' @ show_int_zero 2 (tm_min t) @ '':'' @ show_int_zero 2 (tm_sec t)"

definition Impl_formatTime :: "int \<Rightarrow> log_globals \<Rightarrow> log_thread \<Rightarrow> fixed_buffer \<Rightarrow> (log_thread \<times> fixed_buffer) res" where
  "Impl_formatTime micros g th s =
     (let seconds = micros sdiv kMicroSecondsPerSecond;
          microseconds = int32 (micros smod kMicroSecondsPerSecond)
      in rbind (if seconds \<noteq> t_lastSecond th
                then rbind (broken_down (g_logTimeZone g) seconds) (\<lambda>tm_time.
                       c_assert (length (time_text tm_time) = 17)
                         (Inr (th\<lparr>t_lastSecond := seconds, t_time := take 63 (time_text tm_time)\<rparr>)))
                else Inr th) (\<lambda>th1.
         if TimeZone_valid (g_logTimeZone g)
         then rbind (Fmt_new (''.'' @ show_int_zero 6 microseconds @ '' '')) (\<lambda>us.
              c_assert (length us = 8)
                (rbind (put_T (t_time th1) 17 s) (\<lambda>s1. rbind (put_T us 8 s1) (\<lambda>s2. Inr (th1, s2)))))
         else rbind (Fmt_new (''.'' @ show_int_zero 6 microseconds @ ''Z '')) (\<lambda>us.
              c_assert (length us = 9)
                (rbind (put_T (t_time th1) 17 s) (\<lambda>s1. rbind (put_T us 9 s1) (\<lambda>s2. Inr (th1, s2)))))))"

record log_env =
  le_strerror :: "32 word \<Rightarrow> string"
  le_gettid :: int

definition Impl_new :: "log_env \<Rightarrow> int \<Rightarrow> log_level \<Rightarrow> 32 word \<Rightarrow> string \<times> int \<Rightarrow> 32 word \<Rightarrow> log_globals \<Rightarrow> log_thread \<Rightarrow> (log_thread \<times> log_impl) res" where
  "Impl_new env now level savedErrno src line g th =
     rbind (Impl_formatTime now g th (FixedBuffer_new kSmallBuffer)) (\<lambda>(th1, s1).
     let th2 = snd (CurrentThread_tid (le_gettid env) th1) in
     rbind (put_T (t_tidString th2) (t_tidStringLength th2) s1) (\<lambda>s2.
     rbind (put_T (LogLevelName level) 6 s2) (\<lambda>s3.
     rbind (if savedErrno \<noteq> 0
            then LogStream_statement [OCString (Some (le_strerror env savedErrno)), OCString (Some '' (errno=''), OInt savedErrno, OCString (Some '') '')] s3
            else Inr s3) (\<lambda>s4.
       Inr (th2, \<lparr>li_stream = s4, li_level = level, li_line = line, li_basename = src\<rparr>)))))"

definition Impl_finish :: "log_impl \<Rightarrow> log_impl res" where
  "Impl_finish m =
     rbind (LogStream_cstring (Some '' - '') (li_stream m)) (\<lambda>s1.
     rbind (put_SourceFile (li_basename m) s1) (\<lambda>s2.
     rbind (LogStream_char (CHR '':'') s2) (\<lambda>s3.
     rbind (LogStream_int (li_line m) s3) (\<lambda>s4.
     rbind (LogStream_char (CHR 0x0A) s4) (\<lambda>s5. Inr (m\<lparr>li_stream := s5\<rparr>))))))"

definition Logger_info :: "log_env \<Rightarrow> int \<Rightarrow> string \<times> int \<Rightarrow> 32 word \<Rightarrow> log_globals \<Rightarrow> log_thread \<Rightarrow> (log_thread \<times> log_impl) res" where
  "Logger_info env now src line = Impl_new env now INFO 0 src line"

definition Logger_level_func ::
  "log_env \<Rightarrow> int \<Rightarrow> string \<times> int \<Rightarrow> 32 word \<Rightarrow> log_level \<Rightarrow> string \<Rightarrow> log_globals \<Rightarrow> log_thread \<Rightarrow> (log_thread \<times> log_impl) res" where
  "Logger_level_func env now src line level func g th =
     rbind (Impl_new env now level 0 src line g th) (\<lambda>(th1, m).
     rbind (LogStream_statement [OCString (Some func), OChr (CHR '' '')] (li_stream m)) (\<lambda>s. Inr (th1, m\<lparr>li_stream := s\<rparr>)))"

definition Logger_level :: "log_env \<Rightarrow> int \<Rightarrow> string \<times> int \<Rightarrow> 32 word \<Rightarrow> log_level \<Rightarrow> log_globals \<Rightarrow> log_thread \<Rightarrow> (log_thread \<times> log_impl) res" where
  "Logger_level env now src line level = Impl_new env now level 0 src line"

definition Logger_toAbort ::
  "log_env \<Rightarrow> int \<Rightarrow> string \<times> int \<Rightarrow> 32 word \<Rightarrow> bool \<Rightarrow> 32 word \<Rightarrow> log_globals \<Rightarrow> log_thread \<Rightarrow> (log_thread \<times> log_impl) res" where
  "Logger_toAbort env now src line toAbort errno = Impl_new env now (if toAbort then FATAL else LERROR) errno src line"

definition Logger_delete :: "log_impl \<Rightarrow> log_globals \<Rightarrow> log_globals res" where
  "Logger_delete m g =
     rbind (Impl_finish m) (\<lambda>m1.
       let g1 = g\<lparr>g_output := g_output g @ [FixedBuffer_toString (li_stream m1)]\<rparr> in
       Inr (if li_level m1 = FATAL then g1\<lparr>g_flushes := g_flushes g1 + 1, g_aborted := True\<rparr> else g1))"

text \<open>The macros: three of them test the level first.\<close>

datatype log_macro = LOG_TRACE string | LOG_DEBUG string | LOG_INFO | LOG_WARN | LOG_ERROR | LOG_FATAL | LOG_SYSERR "32 word" | LOG_SYSFATAL "32 word"

record log_call =
  lc_macro :: log_macro
  lc_now :: int
  lc_file :: string
  lc_line :: "32 word"
  lc_operands :: "operand list"

definition macro_new :: "log_env \<Rightarrow> log_call \<Rightarrow> log_globals \<Rightarrow> log_thread \<Rightarrow> (log_thread \<times> log_impl) option res" where
  "macro_new env c g th =
     (let now = lc_now c; src = SourceFile_literal (lc_file c); line = lc_line c;
          logger = (\<lambda>r. rbind r (\<lambda>x. Inr (Some x)))
      in case lc_macro c of
           LOG_TRACE func \<Rightarrow> if g_logLevel g \<le> TRACE then logger (Logger_level_func env now src line TRACE func g th) else Inr None
         | LOG_DEBUG func \<Rightarrow> if g_logLevel g \<le> DEBUG then logger (Logger_level_func env now src line DEBUG func g th) else Inr None
         | LOG_INFO \<Rightarrow> if g_logLevel g \<le> INFO then logger (Logger_info env now src line g th) else Inr None
         | LOG_WARN \<Rightarrow> logger (Logger_level env now src line WARN g th)
         | LOG_ERROR \<Rightarrow> logger (Logger_level env now src line LERROR g th)
         | LOG_FATAL \<Rightarrow> logger (Logger_level env now src line FATAL g th)
         | LOG_SYSERR errno \<Rightarrow> logger (Logger_toAbort env now src line False errno g th)
         | LOG_SYSFATAL errno \<Rightarrow> logger (Logger_toAbort env now src line True errno g th))"

definition log_statement :: "log_env \<Rightarrow> log_call \<Rightarrow> log_globals \<times> log_thread \<Rightarrow> (log_globals \<times> log_thread) res" where
  "log_statement env c st =
     (case st of (g, th) \<Rightarrow>
       rbind (macro_new env c g th) (\<lambda>made. case made of
           None \<Rightarrow> Inr (g, th)
         | Some (th1, m) \<Rightarrow>
             rbind (LogStream_statement (lc_operands c) (li_stream m)) (\<lambda>s.
             rbind (Logger_delete (m\<lparr>li_stream := s\<rparr>) g) (\<lambda>g1. Inr (g1, th1)))))"

text \<open>A thread runs statements until one aborts the process.\<close>

primrec log_statements :: "log_env \<Rightarrow> log_call list \<Rightarrow> log_globals \<times> log_thread \<Rightarrow> (log_globals \<times> log_thread) res" where
  "log_statements env [] st = Inr st"
| "log_statements env (c # cs) st =
     rbind (log_statement env c st) (\<lambda>st1. if g_aborted (fst st1) then Inr st1 else log_statements env cs st1)"

text \<open>\<^verbatim>\<open>CHECK_NOTNULL\<close>: a null pointer is logged as fatal.\<close>

definition CheckNotNull :: "log_env \<Rightarrow> int \<Rightarrow> string \<Rightarrow> 32 word \<Rightarrow> string \<Rightarrow> 'p option \<Rightarrow> log_globals \<times> log_thread \<Rightarrow> ('p option \<times> log_globals \<times> log_thread) res" where
  "CheckNotNull env now filename line what ptr st =
     (if ptr = None
      then rbind (log_statement env \<lparr>lc_macro = LOG_FATAL, lc_now = now, lc_file = filename, lc_line = line, lc_operands = [OCString (Some what)]\<rparr> st)
             (\<lambda>st1. Inr (ptr, st1))
      else Inr (ptr, st))"

section \<open>Base names\<close>

definition basename :: "string \<Rightarrow> string" where
  "basename f = rev (takeWhile (\<lambda>c. c \<noteq> CHR ''/'') (rev f))"

lemma strrchr_basename:
  "(case strrchr f (CHR ''/'') of None \<Rightarrow> f | Some i \<Rightarrow> drop (i + 1) f) = basename f"
  "(case strrchr f (CHR ''/'') of None \<Rightarrow> int (length f) | Some i \<Rightarrow> int (length f) - int (i + 1)) = int (length (basename f))"
proof -
  have "(case strrchr f (CHR ''/'') of None \<Rightarrow> f | Some i \<Rightarrow> drop (i + 1) f) = basename f \<and>
    (case strrchr f (CHR ''/'') of None \<Rightarrow> int (length f) | Some i \<Rightarrow> int (length f) - int (i + 1)) = int (length (basename f))"
  proof (cases "find_index (\<lambda>x. x = CHR ''/'') (rev f)")
    case None
    then have "basename f = f"
      by (simp add: basename_def find_index_None takeWhile_eq_all_conv [THEN iffD2])
    with None show ?thesis
      by (simp add: strrchr_def)
  next
    case (Some i)
    then have i: "i < length f" "rev f ! i = CHR ''/''" "\<forall>j<i. rev f ! j \<noteq> CHR ''/''"
      by (simp_all add: find_index_Some)
    have "takeWhile (\<lambda>c. c \<noteq> CHR ''/'') (rev f) = take i (rev f)"
      using i by (intro takeWhile_eq_take_P_nth) auto
    then have "basename f = drop (length f - i) f"
      by (simp add: basename_def take_rev)
    with Some i(1) show ?thesis
      by (simp add: strrchr_def Suc_diff_Suc)
  qed
  then show "(case strrchr f (CHR ''/'') of None \<Rightarrow> f | Some i \<Rightarrow> drop (i + 1) f) = basename f"
    "(case strrchr f (CHR ''/'') of None \<Rightarrow> int (length f) | Some i \<Rightarrow> int (length f) - int (i + 1)) = int (length (basename f))"
    by simp_all
qed

text \<open>Both constructors find the part after the last slash.\<close>

lemma SourceFile_basename: "SourceFile_literal f = (basename f, int (length (basename f)))" "SourceFile_name f = (basename f, int (length (basename f)))"
  using strrchr_basename [of f] by (simp_all add: SourceFile_literal_def SourceFile_name_def Let_def split: option.splits)

section \<open>The time of day\<close>

lemma length_show_int_zero: "0 \<le> i \<Longrightarrow> i < 10 ^ Suc k \<Longrightarrow> length (show_int_zero (Suc k) i) = Suc k"
  using length_show_nat_le [of "nat i" k] by (simp add: show_int_zero_def pad_left_def nat_less_iff)

lemma length_show_int_blank: "0 \<le> i \<Longrightarrow> i < 10 ^ Suc k \<Longrightarrow> length (show_int_blank (Suc k) i) = Suc k"
  using length_show_nat_le [of "nat i" k] by (simp add: show_int_blank_def show_int_def pad_left_def nat_less_iff)

text \<open>The last day with a year of four digits is the 31st of December 9999.\<close>

lemma div_bounds: "0 < k \<Longrightarrow> k * (Y div k) \<le> Y \<and> Y < k * (Y div k) + k" for Y k :: int
  using mult_div_mod_eq [of k Y] pos_mod_sign [of k Y] pos_mod_bound [of k Y] by linarith

lemma year_bounds:
  assumes "real_date y m d" "getJulianDayNumber y m d \<le> 5373484" "2440587 \<le> getJulianDayNumber y m d"
  shows "1000 \<le> y \<and> y \<le> 9999"
proof -
  have rd: "- 4800 < y" "1 \<le> m" "m \<le> 12" "1 \<le> d" "d \<le> 31"
    using assms(1) by (auto simp: real_date_def month_days_def split: if_splits)
  define Y M where "Y = (if m \<le> 2 then y + 4799 else y + 4800)" and "M = (if m \<le> 2 then m + 9 else m - 3)"
  have j: "getJulianDayNumber y m d = jdn Y M d"
    using julian_jdn [OF rd(1), of m d] rd unfolding Y_def M_def by auto
  have M: "0 \<le> (153 * M + 2) div 5" "(153 * M + 2) div 5 \<le> 337" "m \<le> 2 \<Longrightarrow> 306 \<le> (153 * M + 2) div 5"
    using rd unfolding M_def by (auto simp: pos_imp_zdiv_nonneg_iff)
  have Y: "4 * (Y div 4) \<le> Y" "Y < 4 * (Y div 4) + 4" "100 * (Y div 100) \<le> Y" "Y < 100 * (Y div 100) + 100"
      "400 * (Y div 400) \<le> Y" "Y < 400 * (Y div 400) + 400"
    using div_bounds [of 4 Y] div_bounds [of 100 Y] div_bounds [of 400 Y] by simp_all
  have bounds: "d + (153 * M + 2) div 5 + Y * 365 + Y div 4 - Y div 100 + Y div 400 - 32045 \<le> 5373484"
      "2440587 \<le> d + (153 * M + 2) div 5 + Y * 365 + Y div 4 - Y div 100 + Y div 400 - 32045"
    using assms(2,3) unfolding j jdn_def by simp_all
  show ?thesis
  proof (cases "m \<le> 2")
    case True
    then have "Y = y + 4799" "306 \<le> (153 * M + 2) div 5"
      using M(3) by (simp_all add: Y_def)
    then show ?thesis
      using bounds rd(4,5) M(2) Y by linarith
  next
    case False
    then have "Y = y + 4800"
      by (simp add: Y_def)
    then show ?thesis
      using bounds rd(4,5) M(1,2) Y by linarith
  qed
qed

definition shown_second :: "int \<Rightarrow> bool" where
  "shown_second t \<longleftrightarrow> - 86400 \<le> t \<and> t < 253402300800"

lemma clock_fields: "t mod 86400 div 60 div 60 \<in> {0..23}" "t mod 86400 div 60 mod 60 \<in> {0..59}" "t mod 86400 mod 60 \<in> {0..59}" for t :: int
proof -
  have s: "0 \<le> t mod 86400" "t mod 86400 \<le> 86399"
    using pos_mod_bound [of 86400 t] by simp_all
  have "t mod 86400 div 60 \<le> 1439"
    using zdiv_mono1 [OF s(2), of 60] by simp
  then have "t mod 86400 div 60 div 60 \<le> 23"
    using zdiv_mono1 [of "t mod 86400 div 60" 1439 60] by simp
  then show "t mod 86400 div 60 div 60 \<in> {0..23}"
    using s(1) by (simp add: pos_imp_zdiv_nonneg_iff)
  show "t mod 86400 div 60 mod 60 \<in> {0..59}" "t mod 86400 mod 60 \<in> {0..59}"
    using pos_mod_bound [of 60 "t mod 86400 div 60"] pos_mod_bound [of 60 "t mod 86400"] by simp_all
qed

lemma length_time_text:
  assumes "shown_second t"
  shows "length (time_text (gmtime_r t)) = 17"
proof -
  have days: "- 1 \<le> t div 86400" "t div 86400 < 2932897"
    using assms zdiv_mono1 [of "- 86400" t 86400] by (auto simp: shown_second_def intro: less_mult_imp_div_less)
  then have range: "utc_range t" and j: "0 \<le> t div 86400 + 2440588"
    by (simp_all add: utc_range_def)
  obtain y m d where date: "real_date y m d" "getJulianDayNumber y m d = t div 86400 + 2440588"
    using julian_surj [OF j] by blast
  have fields: "tm_year (gmtime_r t) + 1900 = y" "tm_mon (gmtime_r t) + 1 = m" "tm_mday (gmtime_r t) = d"
    using toUtcTime_fields(5-7) [OF range, of True] Date_decode [OF date(1)] date(2) by (simp_all add: gmtime_r_def)
  have "1000 \<le> y \<and> y \<le> 9999"
    using year_bounds [OF date(1)] date(2) days by simp
  then have "length (show_int_blank 4 y) = 4"
    using length_show_int_blank [of y 3] by (simp add: numeral_eq_Suc)
  moreover have "length (show_int_zero 2 x) = 2" if "0 \<le> x" "x \<le> 99" for x
    using length_show_int_zero [of x 1] that by (simp add: numeral_eq_Suc)
  moreover have "0 \<le> tm_hour (gmtime_r t) \<and> tm_hour (gmtime_r t) \<le> 99" "0 \<le> tm_min (gmtime_r t) \<and> tm_min (gmtime_r t) \<le> 99"
      "0 \<le> tm_sec (gmtime_r t) \<and> tm_sec (gmtime_r t) \<le> 99"
    using clock_fields [of t] unfolding gmtime_r_def toUtcTime_fields(1-3) [OF range] by simp_all
  moreover have "0 \<le> m \<and> m \<le> 99" "0 \<le> d \<and> d \<le> 99"
    using date(1) by (auto simp: real_date_def month_days_def split: if_splits)
  ultimately show ?thesis
    unfolding time_text_def fields by simp
qed

definition zone_good :: "time_zone \<Rightarrow> bool" where
  "zone_good tz \<longleftrightarrow> (case tz of None \<Rightarrow> True | Some data \<Rightarrow> zone_ok data)"

definition loggable :: "int \<Rightarrow> bool" where
  "loggable us \<longleftrightarrow> 1000000 \<le> us \<and> us < (253402300800 - 86400) * 1000000"

definition zone_tm :: "time_zone \<Rightarrow> int \<Rightarrow> zoned_tm" where
  "zone_tm tz t = (case broken_down tz t of Inl e \<Rightarrow> zero_tm | Inr r \<Rightarrow> r)"

lemma broken_down_ok:
  assumes "zone_good tz" "0 \<le> t" "t < 253402300800 - 86400"
  shows "broken_down tz t = Inr (zone_tm tz t) \<and> length (time_text (zone_tm tz t)) = 17"
proof (cases tz)
  case None
  then show ?thesis
    using length_time_text [of t] assms(2,3) by (simp add: zone_tm_def broken_down_def TimeZone_valid_def shown_second_def)
next
  case (Some data)
  obtain n where n: "in_stretch True data n t"
    using stretch_exists by blast
  have zone: "zone_ok data" and "n \<le> length (transitions data)"
    using assms(1) n by (simp_all add: zone_good_def Some in_stretch_def)
  then have "shown_second (t + gmtOffset (stretch data n))"
    using zone_okD(3) [OF zone, of n] assms(2,3) by (auto simp: shown_second_def)
  then have "length (time_text (local_tm data n t)) = 17"
    using length_time_text by (simp add: time_text_def local_tm_def)
  then show ?thesis
    using toLocalTime_stretch [OF zone n] Some by (simp add: zone_tm_def broken_down_def TimeZone_valid_def)
qed

section \<open>The line of a statement\<close>

primrec macro_level :: "log_macro \<Rightarrow> log_level" where
  "macro_level (LOG_TRACE f) = TRACE"
| "macro_level (LOG_DEBUG f) = DEBUG"
| "macro_level LOG_INFO = INFO"
| "macro_level LOG_WARN = WARN"
| "macro_level LOG_ERROR = LERROR"
| "macro_level LOG_FATAL = FATAL"
| "macro_level (LOG_SYSERR e) = LERROR"
| "macro_level (LOG_SYSFATAL e) = FATAL"

definition enabled :: "log_level \<Rightarrow> log_call \<Rightarrow> bool" where
  "enabled level c \<longleftrightarrow> WARN \<le> macro_level (lc_macro c) \<or> level \<le> macro_level (lc_macro c)"

definition errno_ops :: "log_env \<Rightarrow> 32 word \<Rightarrow> operand list" where
  "errno_ops env e = (if e \<noteq> 0 then [OCString (Some (le_strerror env e)), OCString (Some '' (errno=''), OInt e, OCString (Some '') '')] else [])"

primrec macro_ops :: "log_env \<Rightarrow> log_macro \<Rightarrow> operand list" where
  "macro_ops env (LOG_TRACE f) = [OCString (Some f), OChr (CHR '' '')]"
| "macro_ops env (LOG_DEBUG f) = [OCString (Some f), OChr (CHR '' '')]"
| "macro_ops env LOG_INFO = []"
| "macro_ops env LOG_WARN = []"
| "macro_ops env LOG_ERROR = []"
| "macro_ops env LOG_FATAL = []"
| "macro_ops env (LOG_SYSERR e) = errno_ops env e"
| "macro_ops env (LOG_SYSFATAL e) = errno_ops env e"

definition micros_text :: "time_zone \<Rightarrow> int \<Rightarrow> string" where
  "micros_text tz us = ''.'' @ show_int_zero 6 (us mod 1000000) @ (if tz = None then ''Z '' else '' '')"

definition tid_text :: "log_env \<Rightarrow> string" where
  "tid_text env = show_int_blank 5 (le_gettid env) @ '' ''"

text \<open>The operands of the whole line, in the order in which they are put on the stream.\<close>

definition head_ops :: "log_env \<Rightarrow> time_zone \<Rightarrow> int \<Rightarrow> log_level \<Rightarrow> operand list" where
  "head_ops env tz us level = [OPiece (time_text (zone_tm tz (us div 1000000))), OPiece (micros_text tz us), OPiece (tid_text env), OPiece (LogLevelName level)]"

definition tail_ops :: "string \<Rightarrow> 32 word \<Rightarrow> operand list" where
  "tail_ops f line = [OCString (Some '' - ''), OPiece (basename f), OChr (CHR '':''), OInt line, OChr (CHR 0x0A)]"

definition line_ops :: "log_env \<Rightarrow> time_zone \<Rightarrow> log_call \<Rightarrow> operand list" where
  "line_ops env tz c = head_ops env tz (lc_now c) (macro_level (lc_macro c)) @ macro_ops env (lc_macro c) @ lc_operands c @ tail_ops (lc_file c) (lc_line c)"

definition log_line :: "log_env \<Rightarrow> time_zone \<Rightarrow> log_call \<Rightarrow> string" where
  "log_line env tz c =
     time_text (zone_tm tz (lc_now c div 1000000)) @ micros_text tz (lc_now c) @ tid_text env @ LogLevelName (macro_level (lc_macro c)) @
     concat (map operand_text (macro_ops env (lc_macro c) @ lc_operands c)) @
     '' - '' @ basename (lc_file c) @ '':'' @ show_int (sint (lc_line c)) @ [CHR 0x0A]"

definition thread_ok :: "log_env \<Rightarrow> time_zone \<Rightarrow> log_thread \<Rightarrow> bool" where
  "thread_ok env tz th \<longleftrightarrow> (t_lastSecond th = 0 \<or> t_time th = time_text (zone_tm tz (t_lastSecond th))) \<and>
     (t_cachedTid th = 0 \<or> t_tidString th = tid_text env \<and> t_tidStringLength th = length (tid_text env))"

lemma statement_append: "LogStream_statement (xs @ ys) s = rbind (LogStream_statement xs s) (LogStream_statement ys)"
  by (induction xs arbitrary: s) (auto simp: rbind_def split: sum.split)

lemma rbind_assoc: "rbind (rbind r f) h = rbind r (\<lambda>x. rbind (f x) h)"
  by (cases r) simp_all

lemma rbind_return [simp]: "rbind r Inr = r"
  by (cases r) simp_all

lemma put_T_piece: "length v = n \<Longrightarrow> put_T v n s = LogStream_put (OPiece v) s"
  by (simp add: put_T_def T_new_def LogStream_append_def LogStream_piece_def)

lemma formatTime_ops:
  assumes "zone_good (g_logTimeZone g)" "loggable us" "thread_ok env (g_logTimeZone g) th"
  shows "\<exists>th1. thread_ok env (g_logTimeZone g) th1 \<and> Impl_formatTime us g th s =
    rbind (LogStream_statement [OPiece (time_text (zone_tm (g_logTimeZone g) (us div 1000000))), OPiece (micros_text (g_logTimeZone g) us)] s) (\<lambda>s1. Inr (th1, s1))"
proof -
  let ?tz = "g_logTimeZone g" and ?t = "us div 1000000"
  let ?text = "time_text (zone_tm ?tz ?t)"
  have t: "0 < ?t" "?t < 253402300800 - 86400" "0 \<le> us"
    using assms(2) zdiv_mono1 [of 1000000 us 1000000] by (auto simp: loggable_def intro: less_mult_imp_div_less)
  have broken: "broken_down ?tz ?t = Inr (zone_tm ?tz ?t)" "length ?text = 17"
    using broken_down_ok [OF assms(1), of ?t] t by simp_all
  have div: "us sdiv kMicroSecondsPerSecond = ?t" "int32 (us smod kMicroSecondsPerSecond) = us mod 1000000"
    using t(3) pos_mod_bound [of 1000000 us] by (simp_all add: kMicroSecondsPerSecond_def int32_id)
  define th1 where "th1 = (if ?t \<noteq> t_lastSecond th then th\<lparr>t_lastSecond := ?t, t_time := ?text\<rparr> else th)"
  have th1: "thread_ok env ?tz th1" "t_time th1 = ?text"
    using assms(3) t(1) by (auto simp: th1_def thread_ok_def)
  have first: "(if ?t \<noteq> t_lastSecond th then rbind (broken_down ?tz ?t) (\<lambda>tm_time. c_assert (length (time_text tm_time) = 17)
      (Inr (th\<lparr>t_lastSecond := ?t, t_time := take 63 (time_text tm_time)\<rparr>))) else Inr th) = Inr th1"
    using broken by (simp add: th1_def)
  have us: "length (show_int_zero 6 (us mod 1000000)) = 6"
    using length_show_int_zero [of "us mod 1000000" 5] pos_mod_bound [of 1000000 us] by (simp add: numeral_eq_Suc)
  show ?thesis
    unfolding Impl_formatTime_def Let_def div first
    using th1 us broken(2)
    by (intro exI [of _ th1]) (cases ?tz; simp add: TimeZone_valid_def Fmt_new_def micros_text_def put_T_piece; simp add: rbind_def split: sum.split)
qed

lemma Impl_new_ops:
  assumes "zone_good (g_logTimeZone g)" "loggable us" "thread_ok env (g_logTimeZone g) th" "0 < le_gettid env" "le_gettid env < 2 ^ 31"
  shows "\<exists>th2. thread_ok env (g_logTimeZone g) th2 \<and> Impl_new env us level e src line g th =
    rbind (LogStream_statement (head_ops env (g_logTimeZone g) us level @ errno_ops env e) (FixedBuffer_new kSmallBuffer))
      (\<lambda>s. Inr (th2, \<lparr>li_stream = s, li_level = level, li_line = line, li_basename = src\<rparr>))"
proof -
  let ?tz = "g_logTimeZone g"
  obtain th1 where th1: "thread_ok env ?tz th1" "Impl_formatTime us g th (FixedBuffer_new kSmallBuffer) =
    rbind (LogStream_statement [OPiece (time_text (zone_tm ?tz (us div 1000000))), OPiece (micros_text ?tz us)] (FixedBuffer_new kSmallBuffer)) (\<lambda>s1. Inr (th1, s1))"
    using formatTime_ops [OF assms(1-3)] by blast
  define th2 where "th2 = snd (CurrentThread_tid (le_gettid env) th1)"
  have "length (show_nat (nat (le_gettid env))) \<le> 10"
    using length_show_nat_le [of "nat (le_gettid env)" 9] assms(5) by (simp add: nat_less_iff)
  then have "length (tid_text env) \<le> 31"
    using assms(4) by (simp add: tid_text_def show_int_blank_def show_int_def pad_left_def)
  then have th2: "thread_ok env ?tz th2" "t_tidString th2 = tid_text env" "t_tidStringLength th2 = length (tid_text env)"
    using th1(1) assms(4) by (auto simp: th2_def CurrentThread_tid_def cacheTid_def thread_ok_def Let_def tid_text_def)
  have name: "length (LogLevelName level) = 6"
    by (cases level) simp_all
  have T: "put_T (t_tidString th2) (t_tidStringLength th2) s = LogStream_put (OPiece (tid_text env)) s"
      "put_T (LogLevelName level) 6 s = LogStream_put (OPiece (LogLevelName level)) s" for s
    using put_T_piece [OF refl, of "tid_text env" s] put_T_piece [OF name, of s] unfolding th2(2,3) by blast+
  have "Impl_new env us level e src line g th =
    rbind (LogStream_statement (head_ops env ?tz us level @ errno_ops env e) (FixedBuffer_new kSmallBuffer))
      (\<lambda>s. Inr (th2, \<lparr>li_stream = s, li_level = level, li_line = line, li_basename = src\<rparr>))"
    unfolding Impl_new_def th1(2) Let_def errno_ops_def head_ops_def
    by (cases "e = 0") (simp_all only: rbind_assoc rbind_simps prod.case LogStream_statement.simps append.simps T statement_append
        th2_def [symmetric] simp_thms if_True if_False)
  with th2(1) show ?thesis
    by blast
qed

definition impl_of :: "log_call \<Rightarrow> fixed_buffer \<Rightarrow> log_impl" where
  "impl_of c s = \<lparr>li_stream = s, li_level = macro_level (lc_macro c), li_line = lc_line c, li_basename = SourceFile_literal (lc_file c)\<rparr>"

lemma macro_new_ops:
  assumes "zone_good (g_logTimeZone g)" "loggable (lc_now c)" "thread_ok env (g_logTimeZone g) th" "0 < le_gettid env" "le_gettid env < 2 ^ 31"
    "enabled (g_logLevel g) c"
  shows "\<exists>th2. thread_ok env (g_logTimeZone g) th2 \<and> macro_new env c g th =
    rbind (LogStream_statement (head_ops env (g_logTimeZone g) (lc_now c) (macro_level (lc_macro c)) @ macro_ops env (lc_macro c)) (FixedBuffer_new kSmallBuffer))
      (\<lambda>s. Inr (Some (th2, impl_of c s)))"
proof -
  let ?tz = "g_logTimeZone g" and ?src = "SourceFile_literal (lc_file c)"
  have new: "\<exists>th2. thread_ok env ?tz th2 \<and> rbind (Impl_new env (lc_now c) (macro_level (lc_macro c)) e ?src (lc_line c) g th) (\<lambda>x. Inr (Some x)) =
    rbind (LogStream_statement (head_ops env ?tz (lc_now c) (macro_level (lc_macro c)) @ errno_ops env e) (FixedBuffer_new kSmallBuffer))
      (\<lambda>s. Inr (Some (th2, impl_of c s)))" for e
    using Impl_new_ops [OF assms(1-5), of "macro_level (lc_macro c)" e ?src "lc_line c"] by (auto simp: rbind_assoc impl_of_def)
  have func: "\<exists>th2. thread_ok env ?tz th2 \<and>
      rbind (Logger_level_func env (lc_now c) ?src (lc_line c) (macro_level (lc_macro c)) f g th) (\<lambda>x. Inr (Some x)) =
    rbind (LogStream_statement (head_ops env ?tz (lc_now c) (macro_level (lc_macro c)) @ [OCString (Some f), OChr (CHR '' '')]) (FixedBuffer_new kSmallBuffer))
      (\<lambda>s. Inr (Some (th2, impl_of c s)))" for f
    using Impl_new_ops [OF assms(1-5), of "macro_level (lc_macro c)" 0 ?src "lc_line c"]
    by (auto simp: rbind_assoc impl_of_def errno_ops_def Logger_level_func_def statement_append)
  have none: "errno_ops env 0 = []"
    by (simp add: errno_ops_def)
  show ?thesis
    using assms(6) new [of 0] new func unfolding macro_new_def Let_def none
    by (cases "lc_macro c") (auto simp: enabled_def less_eq_log_level_def Logger_info_def Logger_level_def Logger_toAbort_def)
qed

lemma finish_ops: "Impl_finish (impl_of c s) = rbind (LogStream_statement (tail_ops (lc_file c) (lc_line c)) s) (\<lambda>s'. Inr (impl_of c s'))"
proof -
  have src: "put_SourceFile (SourceFile_literal f) s = LogStream_put (OPiece (basename f)) s" for f s
    by (simp add: put_SourceFile_def SourceFile_basename LogStream_append_def LogStream_piece_def)
  show ?thesis
    by (simp add: Impl_finish_def tail_ops_def impl_of_def src rbind_assoc)
qed

lemma log_statement_ops:
  assumes "zone_good (g_logTimeZone g)" "loggable (lc_now c)" "thread_ok env (g_logTimeZone g) th" "0 < le_gettid env" "le_gettid env < 2 ^ 31"
    "enabled (g_logLevel g) c"
  shows "\<exists>th2. thread_ok env (g_logTimeZone g) th2 \<and> log_statement env c (g, th) =
    rbind (LogStream_statement (line_ops env (g_logTimeZone g) c) (FixedBuffer_new kSmallBuffer)) (\<lambda>s.
      let g1 = g\<lparr>g_output := g_output g @ [FixedBuffer_toString s]\<rparr> in
      Inr (if macro_level (lc_macro c) = FATAL then g1\<lparr>g_flushes := g_flushes g1 + 1, g_aborted := True\<rparr> else g1, th2))"
proof -
  have impl: "(impl_of c s)\<lparr>li_stream := s'\<rparr> = impl_of c s'" "li_stream (impl_of c s) = s" "li_level (impl_of c s) = macro_level (lc_macro c)" for s s'
    by (simp_all add: impl_of_def)
  have cut: "LogStream_statement (line_ops env (g_logTimeZone g) c) s =
      rbind (LogStream_statement (head_ops env (g_logTimeZone g) (lc_now c) (macro_level (lc_macro c)) @ macro_ops env (lc_macro c)) s)
        (\<lambda>s. rbind (LogStream_statement (lc_operands c) s) (LogStream_statement (tail_ops (lc_file c) (lc_line c))))" for s
    unfolding line_ops_def by (simp only: statement_append [THEN ext] rbind_assoc)
  obtain th2 where th2: "thread_ok env (g_logTimeZone g) th2" "macro_new env c g th =
    rbind (LogStream_statement (head_ops env (g_logTimeZone g) (lc_now c) (macro_level (lc_macro c)) @ macro_ops env (lc_macro c)) (FixedBuffer_new kSmallBuffer))
      (\<lambda>s. Inr (Some (th2, impl_of c s)))"
    using macro_new_ops [OF assms] by blast
  show ?thesis
    unfolding log_statement_def th2(2) cut prod.case rbind_assoc rbind_simps option.case impl Logger_delete_def finish_ops Let_def
    using th2(1) by blast
qed

lemma line_ops_text: "concat (map operand_text (line_ops env tz c)) = log_line env tz c"
  by (simp add: line_ops_def head_ops_def tail_ops_def log_line_def c_string_def)

lemma statement_room:
  "FixedBuffer_ok n s \<Longrightarrow> list_all operand_ok xs \<Longrightarrow> fb_cur s + length (concat (map operand_text xs)) + 32 \<le> n \<Longrightarrow>
   \<exists>s'. LogStream_statement xs s = Inr s' \<and> FixedBuffer_ok n s' \<and> FixedBuffer_toString s' = FixedBuffer_toString s @ concat (map operand_text xs)"
proof (induction xs arbitrary: s)
  case Nil
  then show ?case by simp
next
  case (Cons x xs)
  from put_appends [of n s x] Cons.prems obtain s1 where s1: "LogStream_put x s = Inr s1" "FixedBuffer_ok n s1"
      "FixedBuffer_toString s1 = FixedBuffer_toString s @ operand_text x"
    unfolding appends_def by auto
  have "fb_cur s1 = fb_cur s + length (operand_text x)"
    using arg_cong [OF s1(3), of length] length_toString [OF s1(2)] length_toString [OF Cons.prems(1)] by simp
  then show ?case
    using Cons.IH [OF s1(2)] Cons.prems(2,3) s1(1,3) by auto
qed

text \<open>What a statement needs: a time between the first second and the year 9999, operands the stream can print and a line that fits.\<close>

definition call_ok :: "log_env \<Rightarrow> time_zone \<Rightarrow> log_call \<Rightarrow> bool" where
  "call_ok env tz c \<longleftrightarrow> loggable (lc_now c) \<and> list_all operand_ok (lc_operands c) \<and> length (log_line env tz c) + 32 \<le> kSmallBuffer"

lemma log_statement_ok:
  assumes "zone_good (g_logTimeZone g)" "thread_ok env (g_logTimeZone g) th" "0 < le_gettid env" "le_gettid env < 2 ^ 31"
    "call_ok env (g_logTimeZone g) c" "enabled (g_logLevel g) c"
  shows "\<exists>g' th'. log_statement env c (g, th) = Inr (g', th') \<and> thread_ok env (g_logTimeZone g) th' \<and>
    g_output g' = g_output g @ [log_line env (g_logTimeZone g) c] \<and> g_logTimeZone g' = g_logTimeZone g \<and> g_logLevel g' = g_logLevel g \<and>
    g_aborted g' = (g_aborted g \<or> macro_level (lc_macro c) = FATAL)"
proof -
  let ?new = "FixedBuffer_new kSmallBuffer" and ?xs = "line_ops env (g_logTimeZone g) c"
  have call: "loggable (lc_now c)" "list_all operand_ok (lc_operands c)" "length (log_line env (g_logTimeZone g) c) + 32 \<le> kSmallBuffer"
    using assms(5) by (simp_all add: call_ok_def)
  have "list_all operand_ok (macro_ops env (lc_macro c))"
    by (cases "lc_macro c") (simp_all add: errno_ops_def)
  then have ops: "list_all operand_ok ?xs"
    using call(2) by (simp add: line_ops_def head_ops_def tail_ops_def)
  have new: "FixedBuffer_ok kSmallBuffer ?new" "FixedBuffer_toString ?new = []" "fb_cur ?new = 0"
    using FixedBuffer_new_ok [of kSmallBuffer] by (simp_all add: kSmallBuffer_def FixedBuffer_new_def)
  obtain s where "LogStream_statement ?xs ?new = Inr s" "FixedBuffer_toString s = log_line env (g_logTimeZone g) c"
    using statement_room [OF new(1) ops] call(3) new(2,3) unfolding line_ops_text by auto
  then show ?thesis
    using log_statement_ops [OF assms(1) call(1) assms(2-4,6)] by (auto simp: Let_def)
qed

lemma disabled_statement: "\<not> enabled (g_logLevel g) c \<Longrightarrow> log_statement env c (g, th) = Inr (g, th)"
  by (cases "lc_macro c") (auto simp: log_statement_def macro_new_def enabled_def less_eq_log_level_def Let_def)

text \<open>The statements up to the first fatal one.\<close>

fun until_fatal :: "log_call list \<Rightarrow> log_call list" where
  "until_fatal [] = []"
| "until_fatal (c # cs) = (if macro_level (lc_macro c) = FATAL then [c] else c # until_fatal cs)"

lemma fatal_enabled: "macro_level (lc_macro c) = FATAL \<Longrightarrow> enabled level c"
  by (simp add: enabled_def less_eq_log_level_def)

text \<open>
  C37. What a thread logs: with a fixed level and time zone, the output function gets, in order, one line for every
  statement whose level is enabled, up to the first fatal statement, which ends the process. Every line is
  the local (or UTC) date and time with microseconds, the thread identifier, the level, the operands in order and the base name
  and number of the source line, and ends with a newline: the cached time text is never that of another second. No
  assertion of the formatting code fails. The lines must fit the buffer, and the times lie between the first
  second and the year 9999.
\<close>

theorem Logger_lines:
  assumes "zone_good (g_logTimeZone g)" "thread_ok env (g_logTimeZone g) th" "0 < le_gettid env" "le_gettid env < 2 ^ 31" "\<not> g_aborted g"
    "list_all (call_ok env (g_logTimeZone g)) cs"
  shows "\<exists>g' th'. log_statements env cs (g, th) = Inr (g', th') \<and>
    g_output g' = g_output g @ map (log_line env (g_logTimeZone g)) (filter (enabled (g_logLevel g)) (until_fatal cs)) \<and>
    (g_aborted g' \<longleftrightarrow> FATAL \<in> (macro_level \<circ> lc_macro) ` set cs)"
  using assms
proof (induction cs arbitrary: g th)
  case Nil
  then show ?case by simp
next
  case (Cons c cs)
  have c: "call_ok env (g_logTimeZone g) c" "list_all (call_ok env (g_logTimeZone g)) cs"
    using Cons.prems(6) by simp_all
  show ?case
  proof (cases "enabled (g_logLevel g) c")
    case True
    obtain g1 th1 where st: "log_statement env c (g, th) = Inr (g1, th1)" "thread_ok env (g_logTimeZone g) th1"
        "g_output g1 = g_output g @ [log_line env (g_logTimeZone g) c]" "g_logTimeZone g1 = g_logTimeZone g" "g_logLevel g1 = g_logLevel g"
        "g_aborted g1 = (macro_level (lc_macro c) = FATAL)"
      using log_statement_ok [OF Cons.prems(1-4) c(1) True] Cons.prems(5) by auto
    show ?thesis
    proof (cases "macro_level (lc_macro c) = FATAL")
      case fatal: True
      then show ?thesis
        using st True by (simp add: image_iff)
    next
      case False
      then obtain g' th' where "log_statements env cs (g1, th1) = Inr (g', th')"
          "g_output g' = g_output g1 @ map (log_line env (g_logTimeZone g)) (filter (enabled (g_logLevel g)) (until_fatal cs))"
          "g_aborted g' \<longleftrightarrow> FATAL \<in> (macro_level \<circ> lc_macro) ` set cs"
        using Cons.IH [of g1 th1] Cons.prems(1,3,4) c(2) st by auto
      then show ?thesis
        using False True st by (auto simp: image_iff)
    qed
  next
    case False
    then have "macro_level (lc_macro c) \<noteq> FATAL"
      using fatal_enabled by blast
    then show ?thesis
      using Cons.IH [OF Cons.prems(1-5) c(2)] False disabled_statement [OF False] Cons.prems(5) by (auto simp: image_iff)
  qed
qed

definition sample_globals :: log_globals where
  "sample_globals = \<lparr>g_logLevel = INFO, g_logTimeZone = None, g_output = [], g_flushes = 0, g_aborted = False\<rparr>"

definition sample_log_env :: log_env where
  "sample_log_env = \<lparr>le_strerror = (\<lambda>e. ''No such file''), le_gettid = 77\<rparr>"

theorem Logger_lines_witness:
  "\<exists>g' th'. log_statements sample_log_env
       [\<lparr>lc_macro = LOG_SYSERR 2, lc_now = 1000005, lc_file = ''net/Acceptor.cc'', lc_line = 40, lc_operands = [OCString (Some ''open'')]\<rparr>,
        \<lparr>lc_macro = LOG_DEBUG ''f'', lc_now = 1000006, lc_file = ''a.cc'', lc_line = 1, lc_operands = []\<rparr>]
       (sample_globals, log_thread_new) = Inr (g', th') \<and>
     g_output g' = [''19700101 00:00:01.000005Z    77 ERROR No such file (errno=2) open - Acceptor.cc:40'' @ [CHR 0x0A]]"
proof -
  define c d where "c = \<lparr>lc_macro = LOG_SYSERR 2, lc_now = 1000005, lc_file = ''net/Acceptor.cc'', lc_line = 40, lc_operands = [OCString (Some ''open'')]\<rparr>"
    and "d = \<lparr>lc_macro = LOG_DEBUG ''f'', lc_now = 1000006, lc_file = ''a.cc'', lc_line = 1, lc_operands = []\<rparr>"
  have range: "utc_range 1"
    by (simp add: utc_range_def)
  have ymd: "getYearMonthDay 2440588 = \<lparr>year = 1970, month = 1, day = 1\<rparr>"
    by (simp add: getYearMonthDay_def Let_def)
  have fields: "tm_year (gmtime_r 1) + 1900 = 1970" "tm_mon (gmtime_r 1) + 1 = 1" "tm_mday (gmtime_r 1) = 1" "tm_hour (gmtime_r 1) = 0"
      "tm_min (gmtime_r 1) = 0" "tm_sec (gmtime_r 1) = 1"
    unfolding gmtime_r_def toUtcTime_fields [OF range] by (simp_all add: ymd)
  have texts: "show_int_blank 4 1970 = ''1970''" "show_int_zero 2 1 = ''01''" "show_int_zero 2 0 = ''00''"
    by (simp_all add: show_int_blank_def show_int_zero_def show_int_def pad_left_def show_nat.simps digit_char_def char_of_def bit_Suc_0_iff)
  have t: "time_text (zone_tm None 1) = ''19700101 00:00:01''"
    by (simp add: zone_tm_def broken_down_def TimeZone_valid_def time_text_def fields texts)
  have us: "show_int_zero 6 5 = ''000005''" "show_int_zero 6 6 = ''000006''" "show_int 40 = ''40''" "show_int 1 = ''1''" "show_int 2 = ''2''" "show_int_blank 5 77 = ''   77''"
    by code_simp+
  have line: "log_line sample_log_env None c = ''19700101 00:00:01.000005Z    77 ERROR No such file (errno=2) open - Acceptor.cc:40'' @ [CHR 0x0A]"
    using t us by (simp add: log_line_def c_def micros_text_def tid_text_def sample_log_env_def errno_ops_def basename_def c_string_def)
  have line': "length (log_line sample_log_env None d) < 100"
    using t us by (simp add: log_line_def d_def micros_text_def tid_text_def sample_log_env_def errno_ops_def basename_def c_string_def)
  have "list_all (call_ok sample_log_env None) [c, d]"
    using line line' by (simp add: call_ok_def loggable_def kSmallBuffer_def) (simp add: c_def d_def)
  moreover have "until_fatal [c, d] = [c, d]" "enabled INFO c" "\<not> enabled INFO d"
    by (simp_all add: c_def d_def enabled_def less_eq_log_level_def)
  ultimately show ?thesis
    using Logger_lines [of sample_globals sample_log_env log_thread_new "[c, d]"] line unfolding c_def [symmetric] d_def [symmetric]
    by (auto simp: sample_globals_def zone_good_def thread_ok_def log_thread_new_def sample_log_env_def)
qed

text \<open>A statement that has filled the buffer leaves no room for the suffix: what is output does not end in a newline, and the
  next line is appended to it.\<close>

lemma Logger_full_line:
  assumes "zone_good (g_logTimeZone g)" "loggable (lc_now c)" "thread_ok env (g_logTimeZone g) th" "0 < le_gettid env" "le_gettid env < 2 ^ 31"
    "enabled (g_logLevel g) c" "lc_operands c = [OPiece p]" "basename (lc_file c) \<noteq> []"
    "LogStream_statement (head_ops env (g_logTimeZone g) (lc_now c) (macro_level (lc_macro c)) @ macro_ops env (lc_macro c)) (FixedBuffer_new kSmallBuffer) = Inr s"
    "FixedBuffer_ok kSmallBuffer s" "fb_cur s + length p = kSmallBuffer - 1"
  shows "\<exists>g' th'. log_statement env c (g, th) = Inr (g', th') \<and> g_output g' = g_output g @ [FixedBuffer_toString s @ p]"
proof -
  obtain s1 where s1: "FixedBuffer_append p s = Inr s1" "FixedBuffer_ok kSmallBuffer s1" "FixedBuffer_toString s1 = FixedBuffer_toString s @ p"
    using FixedBuffer_append_exact(1) [OF assms(10), of p] assms(11) by (force simp: kSmallBuffer_def)
  have cur: "fb_cur s1 = kSmallBuffer - 1"
    using arg_cong [OF s1(3), of length] length_toString [OF s1(2)] length_toString [OF assms(10)] assms(11) by simp
  then have full: "FixedBuffer_append d s1 = Inr s1" if "d \<noteq> []" for d
    using that s1(2) avail_ok [OF s1(2)] by (simp add: FixedBuffer_append_def kSmallBuffer_def)
  have "FixedBuffer_avail s1 = 1"
    using s1(2) cur by (simp add: FixedBuffer_avail_def FixedBuffer_ok_def kSmallBuffer_def)
  then have tail: "LogStream_statement (tail_ops (lc_file c) (lc_line c)) s1 = Inr s1"
    using assms(8) by (simp add: tail_ops_def put_defs full c_string_def LogStream_formatInteger_def kMaxNumericSize_def)
  have "LogStream_statement (line_ops env (g_logTimeZone g) c) (FixedBuffer_new kSmallBuffer) = Inr s1"
    using assms(9) s1(1) tail unfolding line_ops_def assms(7)
    by (simp add: statement_append LogStream_piece_def rbind_assoc flip: append_assoc)
  then show ?thesis
    using log_statement_ops [OF assms(1-6)] s1(3) by (auto simp: Let_def)
qed

text \<open>Within one second the cached text outlives a change of the time zone.\<close>

lemma Logger_stale_zone:
  assumes "t_lastSecond th = us sdiv kMicroSecondsPerSecond" "Impl_formatTime us (Logger_setTimeZone tz g) th s = Inr (th', s')"
  shows "t_time th' = t_time th"
  using assms by (auto simp: Impl_formatTime_def Let_def res_elims split: if_splits)

end
