(* ===== verification/App_Memcache.thy ===== *)
theory App_Memcache
  imports Base_Logging Http_Laws
begin

text \<open>
  The memcached server of the examples (\<^verbatim>\<open>examples/memcached/server\<close>): items with their storage, the sharded table with
  its update policies, and a session that parses the text protocol from a connection's input buffer. \<^verbatim>\<open>boost::hash_range\<close> is
  an argument; a shard is a map from keys to items, which is what an \<^verbatim>\<open>unordered_set\<close> compared by key is. Storage that
  was not written yet is zero. The build without \<^verbatim>\<open>HAVE_TCMALLOC\<close> is modelled.
\<close>

section \<open>Item\<close>

datatype update_policy = kInvalidPolicy | kSet | kAdd | kReplace | kAppend | kPrepend | kCas

record item =
  it_keylen :: int
  it_flags :: "32 word"
  it_exptime :: int
  it_valuelen :: int
  it_received :: int
  it_cas :: "64 word"
  it_hash :: nat
  it_data :: "char list"

type_synonym hash_fn = "char list \<Rightarrow> nat"

definition Item_key :: "item \<Rightarrow> string" where
  "Item_key it = take (nat (it_keylen it)) (it_data it)"

definition Item_totalLen :: "item \<Rightarrow> int" where
  "Item_totalLen it = int32 (it_keylen it + it_valuelen it)"

definition Item_neededBytes :: "item \<Rightarrow> nat" where
  "Item_neededBytes it = nat ((Item_totalLen it - it_received it) mod 2 ^ 64)"

definition Item_append :: "char list \<Rightarrow> item \<Rightarrow> item res" where
  "Item_append data it =
     c_assert (length data \<le> Item_neededBytes it)
       (rbind (mem_write (it_data it) (nat (it_received it)) data) (\<lambda>d.
         let it1 = it\<lparr>it_data := d, it_received := it_received it + int (length data)\<rparr> in
         c_assert (it_received it1 \<le> Item_totalLen it1) (Inr it1)))"

definition Item_new :: "hash_fn \<Rightarrow> string \<Rightarrow> 32 word \<Rightarrow> int \<Rightarrow> int \<Rightarrow> 64 word \<Rightarrow> item res" where
  "Item_new hash keyArg flagsArg exptimeArg valuelen casArg =
     (let it0 = \<lparr>it_keylen = int (length keyArg), it_flags = flagsArg, it_exptime = exptimeArg, it_valuelen = valuelen, it_received = 0,
            it_cas = casArg, it_hash = hash keyArg, it_data = []\<rparr>;
          it1 = it0\<lparr>it_data := replicate (nat (Item_totalLen it0)) (CHR 0x00)\<rparr>
      in c_assert (2 \<le> valuelen) (c_assert (it_received it1 < Item_totalLen it1) (Item_append keyArg it1)))"

definition Item_endsWithCRLF :: "item \<Rightarrow> bool" where
  "Item_endsWithCRLF it \<longleftrightarrow> it_received it = Item_totalLen it \<and> it_data it ! nat (Item_totalLen it - 2) = CHR 0x0D \<and>
     it_data it ! nat (Item_totalLen it - 1) = CHR 0x0A"

definition Item_resetKey :: "hash_fn \<Rightarrow> string \<Rightarrow> item \<Rightarrow> item res" where
  "Item_resetKey hash k it =
     c_assert (length k \<le> 250)
       (rbind (Item_append k (it\<lparr>it_keylen := int (length k), it_received := 0\<rparr>)) (\<lambda>it1. Inr (it1\<lparr>it_hash := hash k\<rparr>)))"

definition Item_setCas :: "64 word \<Rightarrow> item \<Rightarrow> item" where
  "Item_setCas c it = it\<lparr>it_cas := c\<rparr>"

definition Item_valueLength :: "item \<Rightarrow> nat" where
  "Item_valueLength it = nat (it_valuelen it mod 2 ^ 64)"

text \<open>The first \<open>n\<close> bytes at \<^verbatim>\<open>value()\<close>.\<close>

definition Item_value :: "nat \<Rightarrow> item \<Rightarrow> char list res" where
  "Item_value n it = mem_read (it_data it) (nat (it_keylen it)) n"

definition Item_output :: "bool \<Rightarrow> item \<Rightarrow> net_buffer \<Rightarrow> net_buffer res" where
  "Item_output needCas it out =
     rbind (Buffer_append out ''VALUE '') (\<lambda>out1.
     rbind (mem_read (it_data it) 0 (nat (it_keylen it))) (\<lambda>key.
     rbind (Buffer_append out1 key) (\<lambda>out2.
     rbind (LogStream_statement ([OChr (CHR '' ''), OUInt (it_flags it), OChr (CHR '' ''), OInt (word_of_int (it_valuelen it - 2))] @
              (if needCas then [OChr (CHR '' ''), OULong (it_cas it)] else []) @ [OCString (Some crlf)]) (FixedBuffer_new kSmallBuffer)) (\<lambda>buf.
     rbind (Buffer_append out2 (FixedBuffer_toString buf)) (\<lambda>out3.
     rbind (Item_value (Item_valueLength it) it) (\<lambda>v. Buffer_append out3 v))))))"

section \<open>MemcacheServer\<close>

definition kShards :: nat where
  "kShards = 4096"

record memcache =
  mc_shards :: "nat \<Rightarrow> string \<Rightarrow> item option"
  mc_cas :: "64 word"
  mc_startTime :: int
  mc_sessions :: "string set"
  mc_stopping :: bool

definition MemcacheServer_new :: "int \<Rightarrow> memcache" where
  "MemcacheServer_new now = \<lparr>mc_shards = (\<lambda>i. Map.empty), mc_cas = 0, mc_startTime = now - 1, mc_sessions = {}, mc_stopping = False\<rparr>"

definition MemcacheServer_stop :: "memcache \<Rightarrow> memcache" where
  "MemcacheServer_stop m = m\<lparr>mc_stopping := True\<rparr>"

definition shard_put :: "item \<Rightarrow> memcache \<Rightarrow> memcache" where
  "shard_put it m = m\<lparr>mc_shards := (mc_shards m)(it_hash it mod kShards := (mc_shards m (it_hash it mod kShards))(Item_key it \<mapsto> it))\<rparr>"

definition shard_find :: "item \<Rightarrow> memcache \<Rightarrow> item option" where
  "shard_find it m = mc_shards m (it_hash it mod kShards) (Item_key it)"

text \<open>\<^verbatim>\<open>g_cas.incrementAndGet()\<close>, and the item that is then stored.\<close>

definition store_with_cas :: "item \<Rightarrow> memcache \<Rightarrow> memcache" where
  "store_with_cas it m = (let c = mc_cas m + 1 in shard_put (Item_setCas c it) (m\<lparr>mc_cas := c\<rparr>))"

definition MemcacheServer_storeItem :: "hash_fn \<Rightarrow> item \<Rightarrow> update_policy \<Rightarrow> memcache \<Rightarrow> (bool \<times> bool \<times> memcache) res" where
  "MemcacheServer_storeItem hash it policy m =
     c_assert (Item_neededBytes it = 0)
       (let old = shard_find it m; exists = (old \<noteq> None) in
        case policy of
          kSet \<Rightarrow> Inr (True, exists, store_with_cas it m)
        | kAdd \<Rightarrow> Inr (if exists then (False, exists, m) else (True, exists, store_with_cas it m))
        | kReplace \<Rightarrow> Inr (if exists then (True, exists, store_with_cas it m) else (False, exists, m))
        | kCas \<Rightarrow> Inr (if exists \<and> it_cas (the old) = it_cas it then (True, exists, store_with_cas it m) else (False, exists, m))
        | kInvalidPolicy \<Rightarrow> Inl AssertFailed
        | _ \<Rightarrow>
            (case old of
               None \<Rightarrow> Inr (False, exists, m)
             | Some oldItem \<Rightarrow>
                 (let newLen = int32 (int (Item_valueLength it + Item_valueLength oldItem) - 2); c = mc_cas m + 1 in
                  rbind (Item_new hash (Item_key it) (it_flags oldItem) (it_exptime oldItem) newLen c) (\<lambda>new0.
                  rbind (if policy = kAppend
                         then rbind (Item_value (Item_valueLength oldItem - 2) oldItem) (\<lambda>a. rbind (Item_value (Item_valueLength it) it) (\<lambda>b.
                              rbind (Item_append a new0) (Item_append b)))
                         else rbind (Item_value (Item_valueLength it - 2) it) (\<lambda>a. rbind (Item_value (Item_valueLength oldItem) oldItem) (\<lambda>b.
                              rbind (Item_append a new0) (Item_append b)))) (\<lambda>new.
                  c_assert (Item_neededBytes new = 0) (c_assert (Item_endsWithCRLF new)
                    (Inr (True, exists, shard_put new (m\<lparr>mc_cas := c\<rparr>)))))))))"

definition MemcacheServer_getItem :: "item \<Rightarrow> memcache \<Rightarrow> item option" where
  "MemcacheServer_getItem key m = shard_find key m"

definition MemcacheServer_deleteItem :: "item \<Rightarrow> memcache \<Rightarrow> bool \<times> memcache" where
  "MemcacheServer_deleteItem key m =
     (shard_find key m \<noteq> None,
      m\<lparr>mc_shards := (mc_shards m)(it_hash key mod kShards := (mc_shards m (it_hash key mod kShards))(Item_key key := None))\<rparr>)"

section \<open>Session\<close>

datatype session_state = kNewCommand | kReceiveValue | kDiscardValue

datatype protocol = kAscii | kBinary | kAuto

record session =
  se_conn :: tcp_connection
  se_state :: session_state
  se_protocol :: protocol
  se_command :: string
  se_noreply :: bool
  se_policy :: update_policy
  se_currItem :: "item option"
  se_bytesToDiscard :: nat
  se_needle :: item
  se_outputBuf :: net_buffer
  se_bytesRead :: nat
  se_requestsProcessed :: nat

definition kLongestKeySize :: nat where
  "kLongestKeySize = 250"

definition kLongestKey :: string where
  "kLongestKey = replicate kLongestKeySize (CHR ''x'')"

definition Session_new :: "hash_fn \<Rightarrow> tcp_connection \<Rightarrow> session res" where
  "Session_new hash conn =
     rbind (Item_new hash kLongestKey 0 0 2 0) (\<lambda>needle. rbind (Buffer_new kInitialSize) (\<lambda>b.
       Inr \<lparr>se_conn = conn, se_state = kNewCommand, se_protocol = kAscii, se_command = [], se_noreply = False, se_policy = kInvalidPolicy,
         se_currItem = None, se_bytesToDiscard = 0, se_needle = needle, se_outputBuf = b, se_bytesRead = 0, se_requestsProcessed = 0\<rparr>))"

text \<open>\<^verbatim>\<open>MemcacheServer::onConnection\<close>, with the name of the connection.\<close>

definition MemcacheServer_onConnection :: "hash_fn \<Rightarrow> string \<Rightarrow> tcp_connection \<Rightarrow> memcache \<Rightarrow> (session option \<times> memcache) res" where
  "MemcacheServer_onConnection hash nm conn m =
     (if connState conn = kConnected
      then rbind (Session_new hash conn) (\<lambda>s.
           c_assert (nm \<notin> mc_sessions m) (Inr (Some s, m\<lparr>mc_sessions := insert nm (mc_sessions m)\<rparr>)))
      else c_assert (nm \<in> mc_sessions m) (Inr (None, m\<lparr>mc_sessions := mc_sessions m - {nm}\<rparr>)))"

definition isBinaryProtocol :: "char \<Rightarrow> bool" where
  "isBinaryProtocol firstByte \<longleftrightarrow> firstByte = CHR 0x80"

text \<open>The tokens of a request line: \<^verbatim>\<open>SpaceSeparator\<close> skips blanks and takes the text up to the next blank.\<close>

definition SpaceSeparator_next :: "string \<Rightarrow> (string \<times> string) option" where
  "SpaceSeparator_next next =
     (let start = dropWhile (\<lambda>c. c = CHR '' '') next in
      if start = [] then None
      else (case find_index (\<lambda>c. c = CHR '' '') start of
              Some sp \<Rightarrow> Some (take sp start, drop sp start)
            | None \<Rightarrow> Some (start, [])))"

lemma SpaceSeparator_shorter: "SpaceSeparator_next s = Some (t, r) \<Longrightarrow> length r < length s"
proof -
  assume next_tok: "SpaceSeparator_next s = Some (t, r)"
  let ?s = "dropWhile (\<lambda>c. c = CHR '' '') s"
  have "?s \<noteq> []" "hd ?s \<noteq> CHR '' ''"
    using next_tok hd_dropWhile [of "\<lambda>c. c = CHR '' ''" s] by (auto simp: SpaceSeparator_next_def Let_def split: if_splits)
  then have "length r < length ?s"
    using next_tok by (cases ?s) (auto simp: SpaceSeparator_next_def Let_def split: if_splits option.splits)
  then show ?thesis
    using length_dropWhile_le [of "\<lambda>c. c = CHR '' ''" s] by simp
qed

function tokens :: "string \<Rightarrow> string list" where
  "tokens s = (case SpaceSeparator_next s of None \<Rightarrow> [] | Some (t, r) \<Rightarrow> t # tokens r)"
  by pat_completeness auto
termination
  by (relation "measure length") (auto dest: SpaceSeparator_shorter)

declare tokens.simps [simp del]

text \<open>\<^verbatim>\<open>strtoull\<close> on a token, when it stops at the token's end.\<close>

definition strtoull :: "string \<Rightarrow> 64 word option" where
  "strtoull tok =
     (let s = dropWhile isspace tok;
          negative = (s \<noteq> [] \<and> hd s = CHR ''-'');
          digits = (if s \<noteq> [] \<and> (hd s = CHR ''-'' \<or> hd s = CHR ''+'') then tl s else s)
      in if digits = [] \<or> \<not> list_all (\<lambda>c. (of_char c :: nat) \<in> {48..57}) digits then None
         else if 2 ^ 64 \<le> read_nat digits then Some (- 1)
         else Some (if negative then - of_nat (read_nat digits) else of_nat (read_nat digits)))"

definition Reader_read :: "string list \<Rightarrow> (64 word \<times> string list) option" where
  "Reader_read toks = (case toks of [] \<Rightarrow> None | t # ts \<Rightarrow> map_option (\<lambda>x. (x, ts)) (strtoull t))"

definition Session_reply :: "write_fn \<Rightarrow> string \<Rightarrow> session \<Rightarrow> session res" where
  "Session_reply write msg s =
     (if \<not> se_noreply s then rbind (TcpConnection_send write msg (se_conn s)) (\<lambda>c. Inr (s\<lparr>se_conn := c\<rparr>)) else Inr s)"

definition Session_resetRequest :: "session \<Rightarrow> session" where
  "Session_resetRequest s = s\<lparr>se_command := [], se_noreply := False, se_policy := kInvalidPolicy, se_currItem := None, se_bytesToDiscard := 0\<rparr>"

definition Session_shutdown :: "session \<Rightarrow> session res" where
  "Session_shutdown s = rbind (TcpConnection_shutdown (se_conn s)) (\<lambda>c. Inr (s\<lparr>se_conn := c\<rparr>))"

definition policy_of :: "string \<Rightarrow> update_policy option" where
  "policy_of command =
     (if command = ''set'' then Some kSet else if command = ''add'' then Some kAdd else if command = ''replace'' then Some kReplace
      else if command = ''append'' then Some kAppend else if command = ''prepend'' then Some kPrepend else if command = ''cas'' then Some kCas
      else None)"

text \<open>Reading \<^verbatim>\<open>flags\<close>, \<^verbatim>\<open>exptime\<close> and \<^verbatim>\<open>bytes\<close>: a value that was not read keeps its initial one.\<close>

definition read_numbers :: "bool \<Rightarrow> string list \<Rightarrow> bool \<times> 32 word \<times> int \<times> int \<times> string list" where
  "read_numbers good toks =
     (if \<not> good then (False, 0, 1, - 1, toks)
      else case Reader_read toks of
        None \<Rightarrow> (False, 0, 1, - 1, toks)
      | Some (flags, toks1) \<Rightarrow>
          (case Reader_read toks1 of
             None \<Rightarrow> (False, ucast flags, 1, - 1, toks1)
           | Some (exptime, toks2) \<Rightarrow>
               (case Reader_read toks2 of
                  None \<Rightarrow> (False, ucast flags, sint exptime, - 1, toks2)
                | Some (bytes, toks3) \<Rightarrow> (True, ucast flags, sint exptime, sint (ucast bytes :: 32 word), toks3))))"

definition relative_exptime :: "int \<Rightarrow> int \<Rightarrow> int" where
  "relative_exptime exptime startTime =
     (if 60 * 60 * 24 * 30 < exptime
      then (let rel = int32 (exptime - startTime) in if rel < 1 then 1 else rel)
      else int32 exptime)"

definition bad_format :: string where
  "bad_format = ''CLIENT_ERROR bad command line format'' @ crlf"

definition Session_doUpdate :: "write_fn \<Rightarrow> hash_fn \<Rightarrow> string list \<Rightarrow> session \<Rightarrow> memcache \<Rightarrow> (bool \<times> session \<times> memcache) res" where
  "Session_doUpdate write hash toks s0 m =
     (case policy_of (se_command s0) of
        None \<Rightarrow> Inl AssertFailed
      | Some policy \<Rightarrow>
          (let s = s0\<lparr>se_policy := policy\<rparr> in
           case toks of
             [] \<Rightarrow> Inl OutOfRange
           | key # rest \<Rightarrow>
               (case read_numbers (length key \<le> kLongestKeySize) rest of (good1, flags, exptime, bytes, rest1) \<Rightarrow>
                let rel = relative_exptime exptime (mc_startTime m);
                    (good, cas) = (if good1 \<and> policy = kCas
                                   then (case Reader_read rest1 of None \<Rightarrow> (False, 0) | Some (c, _) \<Rightarrow> (True, c)) else (good1, 0))
                in if \<not> good then rbind (Session_reply write bad_format s) (\<lambda>s1. Inr (True, s1, m))
                   else if 1024 * 1024 < bytes
                   then rbind (Session_reply write (''SERVER_ERROR object too large for cache'' @ crlf) s) (\<lambda>s1.
                        rbind (Item_resetKey hash key (se_needle s1)) (\<lambda>needle.
                          Inr (False, s1\<lparr>se_needle := needle, se_bytesToDiscard := nat ((bytes + 2) mod 2 ^ 64), se_state := kDiscardValue\<rparr>,
                               snd (MemcacheServer_deleteItem needle m))))
                   else rbind (Item_new hash key flags rel (bytes + 2) cas) (\<lambda>it.
                          Inr (False, s\<lparr>se_currItem := Some it, se_state := kReceiveValue\<rparr>, m)))))"

definition Session_doDelete :: "write_fn \<Rightarrow> hash_fn \<Rightarrow> string list \<Rightarrow> session \<Rightarrow> memcache \<Rightarrow> (session \<times> memcache) res" where
  "Session_doDelete write hash toks s m =
     c_assert (se_command s = ''delete'')
       (case toks of
          [] \<Rightarrow> Inl OutOfRange
        | key # rest \<Rightarrow>
            if \<not> length key \<le> kLongestKeySize then rbind (Session_reply write bad_format s) (\<lambda>s1. Inr (s1, m))
            else if rest \<noteq> [] \<and> hd rest \<noteq> ''0''
            then rbind (Session_reply write (''CLIENT_ERROR bad command line format.  Usage: delete <key> [noreply]'' @ crlf) s) (\<lambda>s1. Inr (s1, m))
            else rbind (Item_resetKey hash key (se_needle s)) (\<lambda>needle.
                 let (deleted, m1) = MemcacheServer_deleteItem needle m in
                 rbind (Session_reply write ((if deleted then ''DELETED'' else ''NOT_FOUND'') @ crlf) (s\<lparr>se_needle := needle\<rparr>)) (\<lambda>s1. Inr (s1, m1))))"

text \<open>The loop over the keys of \<^verbatim>\<open>get\<close>; the answer tells whether it returned early.\<close>

primrec Session_getLoop :: "write_fn \<Rightarrow> hash_fn \<Rightarrow> bool \<Rightarrow> string list \<Rightarrow> session \<Rightarrow> memcache \<Rightarrow> (bool \<times> session) res" where
  "Session_getLoop write hash cas [] s m = Inr (False, s)"
| "Session_getLoop write hash cas (key # keys) s m =
     (if \<not> length key \<le> kLongestKeySize then rbind (Session_reply write bad_format s) (\<lambda>s1. Inr (True, s1))
      else rbind (Item_resetKey hash key (se_needle s)) (\<lambda>needle.
           rbind (case MemcacheServer_getItem needle m of
                    None \<Rightarrow> Inr (se_outputBuf s)
                  | Some it \<Rightarrow> Item_output cas it (se_outputBuf s)) (\<lambda>b.
             Session_getLoop write hash cas keys (s\<lparr>se_needle := needle, se_outputBuf := b\<rparr>) m)))"

definition Session_shrinkOutput :: "nat \<Rightarrow> tcp_connection \<Rightarrow> tcp_connection res" where
  "Session_shrinkOutput reserve c =
     (if reserve < Buffer_writableBytes (outputBuffer c)
      then rbind (Buffer_shrink (outputBuffer c) reserve) (\<lambda>b. Inr (c\<lparr>outputBuffer := b\<rparr>)) else Inr c)"

definition Session_get :: "write_fn \<Rightarrow> hash_fn \<Rightarrow> bool \<Rightarrow> string list \<Rightarrow> session \<Rightarrow> memcache \<Rightarrow> session res" where
  "Session_get write hash cas keys s m =
     rbind (Session_getLoop write hash cas keys s m) (\<lambda>(early, s1).
       if early then Inr s1
       else rbind (Buffer_append (se_outputBuf s1) (''END'' @ crlf)) (\<lambda>out.
            rbind (Session_shrinkOutput (size_add 65536 (Buffer_readableBytes out)) (se_conn s1)) (\<lambda>c1.
            rbind (TcpConnection_sendBuffer write out c1) (\<lambda>(out1, c2). Inr (s1\<lparr>se_outputBuf := out1, se_conn := c2\<rparr>)))))"

definition Session_processRequest :: "write_fn \<Rightarrow> hash_fn \<Rightarrow> string \<Rightarrow> session \<Rightarrow> memcache \<Rightarrow> (bool \<times> session \<times> memcache) res" where
  "Session_processRequest write hash request0 s0 m =
     c_assert (se_command s0 = []) (c_assert (\<not> se_noreply s0) (c_assert (se_policy s0 = kInvalidPolicy)
     (c_assert (se_currItem s0 = None) (c_assert (se_bytesToDiscard s0 = 0)
       (let noreply = (8 \<le> length request0 \<and> drop (length request0 - 8) request0 = '' noreply'');
            request = (if noreply then take (length request0 - 8) request0 else request0);
            s1 = s0\<lparr>se_requestsProcessed := size_add (se_requestsProcessed s0) 1, se_noreply := noreply\<rparr>
        in case tokens request of
             [] \<Rightarrow> rbind (Session_reply write (''ERROR'' @ crlf) s1) (\<lambda>s. Inr (True, s, m))
           | command # toks \<Rightarrow>
               (let s = s1\<lparr>se_command := command\<rparr> in
                if policy_of command \<noteq> None then Session_doUpdate write hash toks s m
                else if command = ''get'' \<or> command = ''gets''
                then rbind (Session_get write hash (command = ''gets'') toks s m) (\<lambda>s2. Inr (True, s2, m))
                else if command = ''delete'' then rbind (Session_doDelete write hash toks s m) (\<lambda>(s2, m2). Inr (True, s2, m2))
                else if command = ''version'' then rbind (Session_reply write (''VERSION 0.01 muduo'' @ crlf) s) (\<lambda>s2. Inr (True, s2, m))
                else if command = ''quit'' then rbind (Session_shutdown s) (\<lambda>s2. Inr (True, s2, m))
                else if command = ''shutdown'' then rbind (Session_shutdown s) (\<lambda>s2. Inr (True, s2, MemcacheServer_stop m))
                else rbind (Session_reply write (''ERROR'' @ crlf) s) (\<lambda>s2. Inr (True, s2, m))))))))"

definition store_reply :: "bool \<Rightarrow> bool \<Rightarrow> update_policy \<Rightarrow> string" where
  "store_reply stored exists policy =
     (if stored then ''STORED'' else if policy = kCas then (if exists then ''EXISTS'' else ''NOT_FOUND'') else ''NOT_STORED'') @ crlf"

text \<open>What \<^verbatim>\<open>receiveValue\<close> does once the item is complete.\<close>

definition Session_valueComplete :: "write_fn \<Rightarrow> hash_fn \<Rightarrow> item \<Rightarrow> session \<Rightarrow> memcache \<Rightarrow> (session \<times> memcache) res" where
  "Session_valueComplete write hash it s m =
     rbind (if Item_endsWithCRLF it
            then rbind (MemcacheServer_storeItem hash it (se_policy s) m) (\<lambda>(stored, exists, m1).
                 rbind (Session_reply write (store_reply stored exists (se_policy s)) s) (\<lambda>s1. Inr (s1, m1)))
            else rbind (Session_reply write (''CLIENT_ERROR bad data chunk'' @ crlf) s) (\<lambda>s1. Inr (s1, m))) (\<lambda>(s2, m2).
     Inr ((Session_resetRequest s2)\<lparr>se_state := kNewCommand\<rparr>, m2))"

definition Session_receiveValue :: "write_fn \<Rightarrow> hash_fn \<Rightarrow> net_buffer \<Rightarrow> session \<Rightarrow> memcache \<Rightarrow> (session \<times> memcache \<times> net_buffer) res" where
  "Session_receiveValue write hash buf s m =
     (case se_currItem s of
        None \<Rightarrow> Inl AssertFailed
      | Some it \<Rightarrow>
          c_assert (se_state s = kReceiveValue)
            (let avail = min (Buffer_readableBytes buf) (Item_neededBytes it) in
             rbind (mem_read (buffer buf) (Buffer_peek buf) avail) (\<lambda>d.
             rbind (Item_append d it) (\<lambda>it1.
             rbind (Buffer_retrieve buf avail) (\<lambda>buf1.
               if Item_neededBytes it1 = 0
               then rbind (Session_valueComplete write hash it1 s m) (\<lambda>(s2, m2). Inr (s2, m2, buf1))
               else Inr (s\<lparr>se_currItem := Some it1\<rparr>, m, buf1))))))"

definition Session_discardValue :: "net_buffer \<Rightarrow> session \<Rightarrow> (session \<times> net_buffer) res" where
  "Session_discardValue buf s =
     c_assert (se_currItem s = None) (c_assert (se_state s = kDiscardValue)
       (if Buffer_readableBytes buf < se_bytesToDiscard s
        then Inr (s\<lparr>se_bytesToDiscard := size_sub (se_bytesToDiscard s) (Buffer_readableBytes buf)\<rparr>, Buffer_retrieveAll buf)
        else rbind (Buffer_retrieve buf (se_bytesToDiscard s)) (\<lambda>buf1.
             Inr ((Session_resetRequest (s\<lparr>se_bytesToDiscard := 0\<rparr>))\<lparr>se_state := kNewCommand\<rparr>, buf1))))"

text \<open>One round of the loop of \<^verbatim>\<open>onMessage\<close>; the answer tells whether it leaves the loop.\<close>

definition Session_round :: "write_fn \<Rightarrow> hash_fn \<Rightarrow> net_buffer \<Rightarrow> session \<Rightarrow> memcache \<Rightarrow> (bool \<times> session \<times> memcache \<times> net_buffer) res" where
  "Session_round write hash buf s0 m =
     (case se_state s0 of
        kNewCommand \<Rightarrow>
          rbind (if se_protocol s0 = kAuto
                 then c_assert (se_bytesRead s0 = 0) (rbind (mem_read (buffer buf) (Buffer_peek buf) 1) (\<lambda>d.
                      Inr (s0\<lparr>se_protocol := (if isBinaryProtocol (hd d) then kBinary else kAscii)\<rparr>)))
                 else Inr s0) (\<lambda>s.
          if se_protocol s = kBinary then Inr (False, s, m, buf)
          else (case Buffer_findCRLF buf of
                  Some eol \<Rightarrow>
                    rbind (Session_processRequest write hash (range_of buf (Buffer_peek buf) eol) s m) (\<lambda>(finished, s1, m1).
                    rbind (Buffer_retrieveUntil buf (eol + 2)) (\<lambda>buf1.
                      Inr (False, (if finished then Session_resetRequest s1 else s1), m1, buf1)))
                | None \<Rightarrow>
                    rbind (if 1024 < Buffer_readableBytes buf then Session_shutdown s else Inr s) (\<lambda>s1. Inr (True, s1, m, buf))))
      | kReceiveValue \<Rightarrow> rbind (Session_receiveValue write hash buf s0 m) (\<lambda>(s1, m1, buf1). Inr (False, s1, m1, buf1))
      | kDiscardValue \<Rightarrow> rbind (Session_discardValue buf s0) (\<lambda>(s1, buf1). Inr (False, s1, m, buf1)))"

partial_function (option) Session_loop ::
  "write_fn \<Rightarrow> hash_fn \<Rightarrow> net_buffer \<Rightarrow> session \<Rightarrow> memcache \<Rightarrow> (session \<times> memcache \<times> net_buffer) res option" where
  "Session_loop write hash buf s m =
     (if 0 < Buffer_readableBytes buf
      then (case Session_round write hash buf s m of
              Inl e \<Rightarrow> Some (Inl e)
            | Inr (stop, s1, m1, buf1) \<Rightarrow> if stop then Some (Inr (s1, m1, buf1)) else Session_loop write hash buf1 s1 m1)
      else Some (Inr (s, m, buf)))"

definition Session_onMessage :: "write_fn \<Rightarrow> hash_fn \<Rightarrow> net_buffer \<Rightarrow> session \<Rightarrow> memcache \<Rightarrow> (session \<times> memcache \<times> net_buffer) res option" where
  "Session_onMessage write hash buf s m =
     (case Session_loop write hash buf s m of
        None \<Rightarrow> None
      | Some (Inl e) \<Rightarrow> Some (Inl e)
      | Some (Inr (s1, m1, buf1)) \<Rightarrow>
          Some (Inr (s1\<lparr>se_bytesRead := size_add (se_bytesRead s1) (size_sub (Buffer_readableBytes buf) (Buffer_readableBytes buf1))\<rparr>, m1, buf1)))"

end
