(* ===== verification/Memcache_Laws.thy ===== *)
theory Memcache_Laws
  imports App_Memcache
begin

text \<open>
  The memcached server against its abstract semantics: a cache is a map from keys to entries, a command maps a cache to a
  reply and a cache. The sharded table represents a cache and every operation of it refines the abstract one; a
  session that is given the text of commands in any pieces sends the replies of the abstract semantics, in order.
\<close>

section \<open>Items\<close>

text \<open>An item whose value has been received up to \<open>got\<close>.\<close>

definition item_with :: "hash_fn \<Rightarrow> string \<Rightarrow> 32 word \<Rightarrow> int \<Rightarrow> nat \<Rightarrow> 64 word \<Rightarrow> char list \<Rightarrow> item" where
  "item_with hash k fl ex len c got = \<lparr>it_keylen = int (length k), it_flags = fl, it_exptime = ex, it_valuelen = int len,
     it_received = int (length k + length got), it_cas = c, it_hash = hash k, it_data = k @ got @ replicate (len - length got) (CHR 0x00)\<rparr>"

lemma item_with_fields [simp]:
  "it_keylen (item_with hash k fl ex len c got) = int (length k)" "it_flags (item_with hash k fl ex len c got) = fl"
  "it_exptime (item_with hash k fl ex len c got) = ex" "it_valuelen (item_with hash k fl ex len c got) = int len"
  "it_received (item_with hash k fl ex len c got) = int (length k + length got)" "it_cas (item_with hash k fl ex len c got) = c"
  "it_hash (item_with hash k fl ex len c got) = hash k" "it_data (item_with hash k fl ex len c got) = k @ got @ replicate (len - length got) (CHR 0x00)"
  "Item_key (item_with hash k fl ex len c got) = k" "Item_setCas c' (item_with hash k fl ex len c got) = item_with hash k fl ex len c' got"
  by (simp_all add: item_with_def Item_key_def Item_setCas_def)

lemma size_small: "n < 2 ^ 64 \<Longrightarrow> nat (int n mod 2 ^ 64) = n"
  by simp

lemma item_with_sizes:
  assumes "length k + len < 2 ^ 31" "length got \<le> len"
  shows "Item_totalLen (item_with hash k fl ex len c got) = int (length k + len)" "Item_neededBytes (item_with hash k fl ex len c got) = len - length got"
    "Item_valueLength (item_with hash k fl ex len c got) = len"
proof -
  show total: "Item_totalLen (item_with hash k fl ex len c got) = int (length k + len)"
    using assms(1) by (simp add: Item_totalLen_def int32_id)
  have diff: "int (length k + len) - int (length k + length got) = int (len - length got)"
    using assms(2) by simp
  have "Item_neededBytes (item_with hash k fl ex len c got) = nat (int (len - length got) mod 2 ^ 64)"
    unfolding Item_neededBytes_def total item_with_fields diff ..
  also have "\<dots> = len - length got"
    by (rule size_small) (use assms(1) in simp)
  finally show "Item_neededBytes (item_with hash k fl ex len c got) = len - length got" .
  show "Item_valueLength (item_with hash k fl ex len c got) = len"
    using assms(1) size_small [of len] unfolding Item_valueLength_def item_with_fields by simp
qed

lemma Item_append_ok:
  assumes "length k + len < 2 ^ 31" "length got + length d \<le> len"
  shows "Item_append d (item_with hash k fl ex len c got) = Inr (item_with hash k fl ex len c (got @ d))"
proof -
  define it it' where "it = item_with hash k fl ex len c got" and "it' = item_with hash k fl ex len c (got @ d)"
  have written: "mem_write (it_data it) (nat (it_received it)) d = Inr (it_data it')"
    using assms(2) by (simp add: it_def it'_def drop_replicate nat_int_add)
  have upd: "it\<lparr>it_data := it_data it', it_received := it_received it + int (length d)\<rparr> = it'"
    by (simp add: it_def it'_def item_with_def)
  have "length d \<le> Item_neededBytes it" "it_received it' \<le> Item_totalLen it'"
    using item_with_sizes [OF assms(1)] assms(2) by (simp_all add: it_def it'_def)
  then have "Item_append d it = Inr it'"
    unfolding Item_append_def written Let_def rbind_simps upd by simp
  then show ?thesis
    by (simp add: it_def it'_def)
qed

lemma Item_new_ok:
  assumes "length k + len < 2 ^ 31" "2 \<le> len"
  shows "Item_new hash k fl ex (int len) c = Inr (item_with hash k fl ex len c [])"
proof -
  define blank where "blank = \<lparr>it_keylen = int (length k), it_flags = fl, it_exptime = ex, it_valuelen = int len, it_received = 0,
      it_cas = c, it_hash = hash k, it_data = replicate (length k + len) (CHR 0x00)\<rparr>"
  have total: "Item_totalLen blank = int (length k + len)"
    using assms(1) by (simp add: Item_totalLen_def blank_def int32_id)
  then have needed: "Item_neededBytes blank = length k + len"
    using assms(1) by (simp add: Item_neededBytes_def blank_def)
  have written: "mem_write (replicate (length k + len) (CHR 0x00)) 0 k = Inr (k @ replicate len (CHR 0x00))"
    by (simp add: drop_replicate)
  have "Item_append k blank = Inr (item_with hash k fl ex len c [])"
    using needed written total assms by (simp add: Item_append_def Let_def blank_def item_with_def Item_totalLen_def int32_id)
  then show ?thesis
    using total assms by (simp add: Item_new_def Let_def blank_def Item_totalLen_def int32_id nat_int_add)
qed

lemma two_elements: "length xs = 2 \<Longrightarrow> \<exists>a b. xs = [a, b]"
  by (auto simp: numeral_2_eq_2 length_Suc_conv)

lemma endsWithCRLF_item:
  assumes "length k + len < 2 ^ 31" "2 \<le> len" "length got = len"
  shows "Item_endsWithCRLF (item_with hash k fl ex len c got) \<longleftrightarrow> drop (len - 2) got = crlf"
proof -
  obtain v a b where got: "got = v @ [a, b]"
    using append_take_drop_id [of "len - 2" got] assms(2,3) two_elements [of "drop (len - 2) got"] by (metis diff_diff_cancel length_drop)
  have "nat (int (length k + len) - 2) = length (k @ v)" "nat (int (length k + len) - 1) = Suc (length (k @ v))"
    using assms(3) got by auto
  then show ?thesis
    using assms(3) got item_with_sizes(1) [OF assms(1), of got hash fl ex c]
    by (simp add: Item_endsWithCRLF_def crlf_def nth_append)
qed

lemma Item_value_item: "n \<le> length got \<Longrightarrow> Item_value n (item_with hash k fl ex len c got) = Inr (take n got)"
  by (simp add: Item_value_def mem_read_def)

text \<open>The scratch item of a session: its storage was made for the longest key.\<close>

definition needle_ok :: "item \<Rightarrow> bool" where
  "needle_ok it \<longleftrightarrow> it_valuelen it = 2 \<and> length (it_data it) = kLongestKeySize + 2"

lemma Item_resetKey_ok:
  assumes "needle_ok it" "length k \<le> kLongestKeySize"
  shows "\<exists>it'. Item_resetKey hash k it = Inr it' \<and> needle_ok it' \<and> Item_key it' = k \<and> it_hash it' = hash k"
proof -
  let ?it = "it\<lparr>it_keylen := int (length k), it_received := 0\<rparr>"
  have len: "length k \<le> 250" "length (it_data it) = 252" "it_valuelen it = 2"
    using assms by (simp_all add: needle_ok_def kLongestKeySize_def)
  then have total: "Item_totalLen (?it\<lparr>it_data := d, it_received := r\<rparr>) = int (length k) + 2" "Item_totalLen ?it = int (length k) + 2" for d r
    by (simp_all add: Item_totalLen_def int32_id)
  have "mem_write (it_data it) 0 k = Inr (k @ drop (length k) (it_data it))"
    using len by simp
  then have "Item_append k ?it = Inr (?it\<lparr>it_data := k @ drop (length k) (it_data it), it_received := int (length k)\<rparr>)"
    using len total by (simp add: Item_append_def Item_neededBytes_def Let_def)
  then show ?thesis
    using len by (simp add: Item_resetKey_def needle_ok_def kLongestKeySize_def Item_key_def)
qed

section \<open>The table refines a map\<close>

record entry =
  e_flags :: "32 word"
  e_exptime :: int
  e_value :: "char list"
  e_cas :: "64 word"

type_synonym cache = "string \<Rightarrow> entry option"

definition item_of :: "hash_fn \<Rightarrow> string \<Rightarrow> entry \<Rightarrow> item" where
  "item_of hash k e = item_with hash k (e_flags e) (e_exptime e) (length (e_value e) + 2) (e_cas e) (e_value e @ crlf)"

lemma item_of_fields [simp]:
  "Item_key (item_of hash k e) = k" "it_hash (item_of hash k e) = hash k" "it_flags (item_of hash k e) = e_flags e"
  "it_exptime (item_of hash k e) = e_exptime e" "it_cas (item_of hash k e) = e_cas e"
  by (simp_all add: item_of_def)

definition represents :: "hash_fn \<Rightarrow> memcache \<Rightarrow> cache \<Rightarrow> bool" where
  "represents hash m cache \<longleftrightarrow> (\<forall>i k. mc_shards m i k = (if hash k mod kShards = i then map_option (item_of hash k) (cache k) else None)) \<and>
     (\<forall>k e. cache k = Some e \<longrightarrow> length k \<le> kLongestKeySize \<and> length k + length (e_value e) + 2 < 2 ^ 31)"

text \<open>What each policy does to the entry of a key; \<open>c\<close> is the next unique number.\<close>

fun store_spec :: "update_policy \<Rightarrow> entry \<Rightarrow> 64 word \<Rightarrow> entry option \<Rightarrow> bool \<times> entry option" where
  "store_spec kSet e c old = (True, Some (e\<lparr>e_cas := c\<rparr>))"
| "store_spec kAdd e c None = (True, Some (e\<lparr>e_cas := c\<rparr>))"
| "store_spec kReplace e c (Some d) = (True, Some (e\<lparr>e_cas := c\<rparr>))"
| "store_spec kAppend e c (Some d) = (True, Some (d\<lparr>e_value := e_value d @ e_value e, e_cas := c\<rparr>))"
| "store_spec kPrepend e c (Some d) = (True, Some (d\<lparr>e_value := e_value e @ e_value d, e_cas := c\<rparr>))"
| "store_spec kCas e c (Some d) = (if e_cas d = e_cas e then (True, Some (e\<lparr>e_cas := c\<rparr>)) else (False, Some d))"
| "store_spec p e c old = (False, old)"

lemma shard_find_represents:
  assumes "represents hash m cache" "Item_key it = k" "it_hash it = hash k"
  shows "shard_find it m = map_option (item_of hash k) (cache k)"
  using assms by (simp add: shard_find_def represents_def)

lemma represents_put:
  assumes "represents hash m cache" "length k \<le> kLongestKeySize" "length k + length (e_value e) + 2 < 2 ^ 31"
  shows "represents hash (shard_put (item_of hash k e) m) (cache(k \<mapsto> e))"
  using assms by (auto simp: represents_def shard_put_def)

lemma represents_cas: "represents hash (m\<lparr>mc_cas := c\<rparr>) cache = represents hash m cache"
  by (simp add: represents_def)

lemma store_with_cas_item: "store_with_cas (item_of hash k e) m = shard_put (item_of hash k (e\<lparr>e_cas := mc_cas m + 1\<rparr>)) (m\<lparr>mc_cas := mc_cas m + 1\<rparr>)"
  by (simp add: store_with_cas_def Let_def item_of_def)

lemma mc_cas_shard_put [simp]: "mc_cas (shard_put it m) = mc_cas m" "mc_startTime (shard_put it m) = mc_startTime m"
  by (simp_all add: shard_put_def)

text \<open>The item that \<^verbatim>\<open>append\<close> and \<^verbatim>\<open>prepend\<close> build.\<close>

lemma joined_item:
  assumes "length k + length a + length b + 2 < 2 ^ 31"
  shows "rbind (Item_append a (item_with hash k fl ex (length a + length b + 2) c [])) (Item_append (b @ crlf)) =
    Inr (item_of hash k \<lparr>e_flags = fl, e_exptime = ex, e_value = a @ b, e_cas = c\<rparr>)"
  using assms by (simp add: Item_append_ok item_of_def crlf_def add.assoc)

lemma item_of_complete:
  assumes "length k + length (e_value e) + 2 < 2 ^ 31"
  shows "Item_neededBytes (item_of hash k e) = 0" "Item_endsWithCRLF (item_of hash k e)" "Item_valueLength (item_of hash k e) = length (e_value e) + 2"
    "Item_value (length (e_value e)) (item_of hash k e) = Inr (e_value e)" "Item_value (length (e_value e) + 2) (item_of hash k e) = Inr (e_value e @ crlf)"
  using assms item_with_sizes [of k "length (e_value e) + 2" "e_value e @ crlf"]
    endsWithCRLF_item [of k "length (e_value e) + 2" "e_value e @ crlf"]
  by (simp_all add: item_of_def Item_value_item crlf_def add.assoc)

lemma storeItem_refines:
  assumes "represents hash m cache" "length k \<le> kLongestKeySize" "p \<noteq> kInvalidPolicy"
    "length k + length (e_value e) + (case cache k of None \<Rightarrow> 0 | Some d \<Rightarrow> length (e_value d)) + 2 < 2 ^ 31"
  shows "\<exists>m'. MemcacheServer_storeItem hash (item_of hash k e) p m = Inr (fst (store_spec p e (mc_cas m + 1) (cache k)), cache k \<noteq> None, m') \<and>
    represents hash m' (cache(k := snd (store_spec p e (mc_cas m + 1) (cache k)))) \<and>
    mc_cas m' = (if fst (store_spec p e (mc_cas m + 1) (cache k)) then mc_cas m + 1 else mc_cas m) \<and> mc_startTime m' = mc_startTime m"
proof -
  let ?c = "mc_cas m + 1" and ?it = "item_of hash k e"
  have size: "length k + length (e_value e) + 2 < 2 ^ 31"
    using assms(4) by simp
  have old: "shard_find ?it m = map_option (item_of hash k) (cache k)"
    by (rule shard_find_represents [OF assms(1)]) simp_all
  have stored: "represents hash (store_with_cas ?it m) (cache(k \<mapsto> e\<lparr>e_cas := ?c\<rparr>))" "mc_cas (store_with_cas ?it m) = ?c"
      "mc_startTime (store_with_cas ?it m) = mc_startTime m"
    using represents_put [of hash "m\<lparr>mc_cas := ?c\<rparr>" cache k "e\<lparr>e_cas := ?c\<rparr>"] assms(1,2) size
    by (simp_all add: store_with_cas_item represents_cas)
  have same: "cache(k := cache k) = cache"
    by simp
  have joined: "\<exists>m'. MemcacheServer_storeItem hash ?it p m = Inr (True, True, m') \<and> represents hash m' (cache(k \<mapsto> d')) \<and> mc_cas m' = ?c \<and> mc_startTime m' = mc_startTime m"
    if d: "cache k = Some d" and p: "p = kAppend \<or> p = kPrepend"
      and d': "d' = d\<lparr>e_value := (if p = kAppend then e_value d @ e_value e else e_value e @ e_value d), e_cas := ?c\<rparr>" for d d'
  proof -
    have sizes: "length k + length (e_value d) + 2 < 2 ^ 31" "length k + length (e_value d) + length (e_value e) + 2 < 2 ^ 31"
      using assms(1,4) d by (auto simp: represents_def)
    have newLen: "int32 (int (Item_valueLength ?it + Item_valueLength (item_of hash k d)) - 2) = int (length (e_value d) + length (e_value e) + 2)"
      unfolding item_of_complete(3) [OF size] item_of_complete(3) [OF sizes(1)] using sizes(2) by (simp add: int32_id)
    have new: "Item_new hash k (e_flags d) (e_exptime d) (int (length (e_value d) + length (e_value e) + 2)) ?c =
        Inr (item_with hash k (e_flags d) (e_exptime d) (length (e_value d) + length (e_value e) + 2) ?c [])"
      by (rule Item_new_ok) (use sizes(2) in simp_all)
    have d'_eq: "d' = \<lparr>e_flags = e_flags d, e_exptime = e_exptime d, e_value = (if p = kAppend then e_value d @ e_value e else e_value e @ e_value d), e_cas = ?c\<rparr>"
      using d' by simp
    have size': "length k + length (e_value d') + 2 < 2 ^ 31"
      using sizes(2) d'_eq by simp
    have built: "(if p = kAppend
         then rbind (Item_value (Item_valueLength (item_of hash k d) - 2) (item_of hash k d)) (\<lambda>a. rbind (Item_value (Item_valueLength ?it) ?it) (\<lambda>b.
              rbind (Item_append a (item_with hash k (e_flags d) (e_exptime d) (length (e_value d) + length (e_value e) + 2) ?c [])) (Item_append b)))
         else rbind (Item_value (Item_valueLength ?it - 2) ?it) (\<lambda>a. rbind (Item_value (Item_valueLength (item_of hash k d)) (item_of hash k d)) (\<lambda>b.
              rbind (Item_append a (item_with hash k (e_flags d) (e_exptime d) (length (e_value d) + length (e_value e) + 2) ?c [])) (Item_append b)))) =
        Inr (item_of hash k d')"
      using item_of_complete [OF size] item_of_complete [OF sizes(1)]
        joined_item [of k "e_value d" "e_value e" hash "e_flags d" "e_exptime d" ?c] joined_item [of k "e_value e" "e_value d" hash "e_flags d" "e_exptime d" ?c] sizes(2)
      by (simp add: d'_eq add.commute)
    have "MemcacheServer_storeItem hash ?it p m = Inr (True, True, shard_put (item_of hash k d') (m\<lparr>mc_cas := ?c\<rparr>))"
      using p built item_of_complete [OF size] item_of_complete [OF size'] old d new newLen
      by (auto simp: MemcacheServer_storeItem_def Let_def)
    then show ?thesis
      using represents_put [of hash "m\<lparr>mc_cas := ?c\<rparr>" cache k d'] assms(1,2) size' by (simp add: represents_cas)
  qed
  show ?thesis
  proof (cases p)
    case kAppend
    then show ?thesis
      using joined old item_of_complete(1) [OF size] same assms(1) by (cases "cache k") (auto simp: MemcacheServer_storeItem_def)
  next
    case kPrepend
    then show ?thesis
      using joined old item_of_complete(1) [OF size] same assms(1) by (cases "cache k") (auto simp: MemcacheServer_storeItem_def)
  qed (use assms(1,3) old stored item_of_complete(1) [OF size] same in
      \<open>cases "cache k"; auto simp: MemcacheServer_storeItem_def split: if_splits\<close>)+
qed

section \<open>Request lines\<close>

definition word_ok :: "string \<Rightarrow> bool" where
  "word_ok w \<longleftrightarrow> w \<noteq> [] \<and> CHR '' '' \<notin> set w \<and> CHR 0x0D \<notin> set w"

fun join :: "string list \<Rightarrow> string" where
  "join [] = []"
| "join [w] = w"
| "join (w # ws) = w @ CHR '' '' # join ws"

lemma tokens_blank: "tokens (CHR '' '' # s) = tokens s"
  by (subst (1 2) tokens.simps) (simp add: SpaceSeparator_next_def)

lemma tokens_word:
  assumes "word_ok w"
  shows "tokens w = [w]" "tokens (w @ CHR '' '' # s) = w # tokens s"
proof -
  have start: "dropWhile (\<lambda>c. c = CHR '' '') (w @ t) = w @ t" for t
    using assms by (cases w) (auto simp: word_ok_def)
  have none: "\<forall>c\<in>set w. c \<noteq> CHR '' ''"
    using assms by (auto simp: word_ok_def)
  have "find_index (\<lambda>c. c = CHR '' '') w = None"
    using none by (simp add: find_index_None)
  then have "SpaceSeparator_next w = Some (w, [])"
    using start [of "[]"] assms by (simp add: SpaceSeparator_next_def word_ok_def)
  then show "tokens w = [w]"
    by (subst tokens.simps) (simp, subst tokens.simps, simp add: SpaceSeparator_next_def)
  have "find_index (\<lambda>c. c = CHR '' '') (w @ CHR '' '' # s) = Some (length w)"
    using find_index_append [OF none, of "CHR '' ''" s] by simp
  then have "SpaceSeparator_next (w @ CHR '' '' # s) = Some (w, CHR '' '' # s)"
    using start [of "CHR '' '' # s"] by (simp add: SpaceSeparator_next_def)
  then show "tokens (w @ CHR '' '' # s) = w # tokens s"
    by (subst tokens.simps) (simp add: tokens_blank)
qed

lemma tokens_join: "list_all word_ok ws \<Longrightarrow> tokens (join ws) = ws"
proof (induction ws rule: join.induct)
  case 1
  then show ?case by (subst tokens.simps) (simp add: SpaceSeparator_next_def)
qed (simp_all add: tokens_word)

lemma join_no_cr: "list_all word_ok ws \<Longrightarrow> CHR 0x0D \<notin> set (join ws)"
  by (induction ws rule: join.induct) (auto simp: word_ok_def)

lemma show_nat_digits: "list_all (\<lambda>c. (of_char c :: nat) \<in> {48..57}) (show_nat n)" "show_nat n \<noteq> []"
  using set_show_nat [of _ n] length_show_nat_pos [of n] by (auto simp: list_all_iff)

lemma strtoull_show_nat: "n < 2 ^ 64 \<Longrightarrow> strtoull (show_nat n) = Some (of_nat n)"
proof -
  assume n: "n < 2 ^ 64"
  obtain c cs where show_n: "show_nat n = c # cs"
    using show_nat_digits(2) [of n] by (cases "show_nat n") auto
  have c: "(of_char c :: nat) \<in> {48..57}"
    using show_nat_digits(1) [of n] show_n by simp
  have "\<not> isspace c" "c \<noteq> CHR ''-''" "c \<noteq> CHR ''+''"
    using c by (auto simp: isspace_def)
  then show ?thesis
    using show_nat_digits(1) [of n] n read_show_nat [of n] unfolding show_n by (auto simp: strtoull_def Let_def not_le)
qed

lemma Reader_read_show: "n < 2 ^ 64 \<Longrightarrow> Reader_read (show_nat n # toks) = Some (of_nat n, toks)"
  by (simp add: Reader_read_def strtoull_show_nat)

lemma word_ok_show_nat: "word_ok (show_nat n)"
  using set_show_nat [of _ n] length_show_nat_pos [of n] by (fastforce simp: word_ok_def)

section \<open>Commands\<close>

datatype command =
    Store update_policy string "32 word" nat "char list" "64 word" bool
  | Get bool "string list"
  | Delete string bool
  | Version bool

fun policy_name :: "update_policy \<Rightarrow> string" where
  "policy_name kSet = ''set''"
| "policy_name kAdd = ''add''"
| "policy_name kReplace = ''replace''"
| "policy_name kAppend = ''append''"
| "policy_name kPrepend = ''prepend''"
| "policy_name kCas = ''cas''"
| "policy_name kInvalidPolicy = []"

definition noreply_text :: "bool \<Rightarrow> string" where
  "noreply_text nr = (if nr then '' noreply'' else [])"

fun command_words :: "command \<Rightarrow> string list" where
  "command_words (Store p k fl x v c nr) = [policy_name p, k, show_nat (unat fl), show_nat x, show_nat (length v)] @ (if p = kCas then [show_nat (unat c)] else [])"
| "command_words (Get cas ks) = (if cas then ''gets'' else ''get'') # ks"
| "command_words (Delete k nr) = [''delete'', k]"
| "command_words (Version nr) = [''version'']"

fun command_noreply :: "command \<Rightarrow> bool" where
  "command_noreply (Store p k fl x v c nr) = nr"
| "command_noreply (Get cas ks) = False"
| "command_noreply (Delete k nr) = nr"
| "command_noreply (Version nr) = nr"

definition command_line :: "command \<Rightarrow> string" where
  "command_line cmd = join (command_words cmd) @ noreply_text (command_noreply cmd)"

fun command_data :: "command \<Rightarrow> char list" where
  "command_data (Store p k fl x v c nr) = v @ crlf"
| "command_data cmd = []"

definition command_text :: "command \<Rightarrow> char list" where
  "command_text cmd = command_line cmd @ crlf @ command_data cmd"

definition key_ok :: "string \<Rightarrow> bool" where
  "key_ok k \<longleftrightarrow> word_ok k \<and> length k \<le> kLongestKeySize"

text \<open>A key of the name \<open>noreply\<close> at the end of a line would be taken for the option.\<close>

fun command_ok :: "command \<Rightarrow> bool" where
  "command_ok (Store p k fl x v c nr) \<longleftrightarrow> p \<noteq> kInvalidPolicy \<and> key_ok k \<and> x \<le> 60 * 60 * 24 * 30 \<and> length v \<le> 1024 * 1024"
| "command_ok (Get cas ks) \<longleftrightarrow> list_all key_ok ks \<and> (ks \<noteq> [] \<longrightarrow> last ks \<noteq> ''noreply'')"
| "command_ok (Delete k nr) \<longleftrightarrow> key_ok k \<and> (nr \<or> k \<noteq> ''noreply'')"
| "command_ok (Version nr) \<longleftrightarrow> True"

text \<open>The abstract semantics: the reply, the cache and the last unique number.\<close>

definition value_text :: "bool \<Rightarrow> cache \<Rightarrow> string \<Rightarrow> string" where
  "value_text cas cache k = (case cache k of None \<Rightarrow> []
     | Some e \<Rightarrow> ''VALUE '' @ k @ '' '' @ show_nat (unat (e_flags e)) @ '' '' @ show_nat (length (e_value e)) @
         (if cas then '' '' @ show_nat (unat (e_cas e)) else []) @ crlf @ e_value e @ crlf)"

fun command_spec :: "command \<Rightarrow> cache \<times> 64 word \<Rightarrow> string \<times> cache \<times> 64 word" where
  "command_spec (Store p k fl x v c nr) (cache, n) =
     (case store_spec p \<lparr>e_flags = fl, e_exptime = int x, e_value = v, e_cas = (if p = kCas then c else 0)\<rparr> (n + 1) (cache k) of (stored, e) \<Rightarrow>
       (if nr then [] else store_reply stored (cache k \<noteq> None) p, cache(k := e), if stored then n + 1 else n))"
| "command_spec (Get cas ks) (cache, n) = (concat (map (value_text cas cache) ks) @ ''END'' @ crlf, cache, n)"
| "command_spec (Delete k nr) (cache, n) =
     (if nr then [] else (if cache k \<noteq> None then ''DELETED'' else ''NOT_FOUND'') @ crlf, cache(k := None), n)"
| "command_spec (Version nr) (cache, n) = (if nr then [] else ''VERSION 0.01 muduo'' @ crlf, cache, n)"

fun commands_spec :: "command list \<Rightarrow> cache \<times> 64 word \<Rightarrow> string list \<times> cache \<times> 64 word" where
  "commands_spec [] st = ([], st)"
| "commands_spec (c # cs) st = (case command_spec c st of (r, st1) \<Rightarrow> (case commands_spec cs st1 of (rs, st2) \<Rightarrow> (r # rs, st2)))"

lemma policy_name_of: "p \<noteq> kInvalidPolicy \<Longrightarrow> policy_of (policy_name p) = Some p" "p \<noteq> kInvalidPolicy \<Longrightarrow> word_ok (policy_name p)"
  by (cases p; simp add: policy_of_def word_ok_def)+

lemma literal_words: "word_ok ''get''" "word_ok ''gets''" "word_ok ''delete''" "word_ok ''version''"
  by (simp_all add: word_ok_def)

lemma command_words_ok: "command_ok cmd \<Longrightarrow> list_all word_ok (command_words cmd)"
  by (cases cmd) (auto simp: policy_name_of word_ok_show_nat key_ok_def literal_words list_all_iff)

lemma command_line_no_cr: "command_ok cmd \<Longrightarrow> CHR 0x0D \<notin> set (command_line cmd)"
  using join_no_cr [OF command_words_ok, of cmd] by (auto simp: command_line_def noreply_text_def)

lemma last_word: "ws \<noteq> [] \<Longrightarrow> list_all word_ok ws \<Longrightarrow> rev (takeWhile (\<lambda>c. c \<noteq> CHR '' '') (rev (join ws))) = last ws"
proof (induction ws rule: join.induct)
  case (2 w)
  then have "\<forall>c\<in>set (rev w). c \<noteq> CHR '' ''"
    by (auto simp: word_ok_def)
  then have "takeWhile (\<lambda>c. c \<noteq> CHR '' '') (rev w) = rev w"
    by (rule takeWhile_eq_all_conv [THEN iffD2])
  then show ?case
    unfolding join.simps last.simps by (simp only: rev_rev_ident simp_thms if_True)
next
  case (3 w v vs)
  then have "rev (takeWhile (\<lambda>c. c \<noteq> CHR '' '') (rev (join (v # vs)))) = last (v # vs)"
    by simp
  moreover have "takeWhile (\<lambda>c. c \<noteq> CHR '' '') (xs @ CHR '' '' # ys) = takeWhile (\<lambda>c. c \<noteq> CHR '' '') xs" for xs ys
    by (induction xs) simp_all
  ultimately show ?case
    by simp
qed simp

lemma noreply_last:
  assumes "drop (length r - 8) r = '' noreply''"
  shows "rev (takeWhile (\<lambda>c. c \<noteq> CHR '' '') (rev r)) = ''noreply''"
proof -
  have "r = take (length r - 8) r @ '' noreply''"
    using assms append_take_drop_id [of "length r - 8" r] by simp
  then have "rev r = rev '' noreply'' @ rev (take (length r - 8) r)"
    by (metis rev_append)
  show ?thesis
    by (subst \<open>rev r = _\<close>) simp
qed

lemma show_nat_not_noreply: "show_nat n \<noteq> ''noreply''"
  using show_nat_digits(1) [of n] by (auto simp: list_all_iff)

lemma command_line_split:
  assumes "command_ok cmd"
  defines "r \<equiv> command_line cmd"
  shows "(8 \<le> length r \<and> drop (length r - 8) r = '' noreply'') = command_noreply cmd"
    "(if command_noreply cmd then take (length r - 8) r else r) = join (command_words cmd)"
proof -
  let ?ws = "command_words cmd"
  have "?ws \<noteq> []"
    by (cases cmd) simp_all
  then have last: "rev (takeWhile (\<lambda>c. c \<noteq> CHR '' '') (rev (join ?ws))) = last ?ws"
    by (rule last_word [OF _ command_words_ok [OF assms(1)]])
  have "last ?ws \<noteq> ''noreply''" if "\<not> command_noreply cmd"
    using assms(1) that by (cases cmd) (auto simp: show_nat_not_noreply)
  then have "drop (length r - 8) r \<noteq> '' noreply''" if "\<not> command_noreply cmd"
    using noreply_last [of r] last that by (auto simp: r_def command_line_def noreply_text_def)
  then show "(8 \<le> length r \<and> drop (length r - 8) r = '' noreply'') = command_noreply cmd"
    by (auto simp: r_def command_line_def noreply_text_def)
  show "(if command_noreply cmd then take (length r - 8) r else r) = join ?ws"
    by (simp add: r_def command_line_def noreply_text_def)
qed

section \<open>Sessions between commands\<close>

definition session_ok :: "session \<Rightarrow> bool" where
  "session_ok s \<longleftrightarrow> conn_inv (se_conn s) \<and> connState (se_conn s) = kConnected \<and> se_protocol s = kAscii \<and> needle_ok (se_needle s) \<and>
     Buffer_wf (se_outputBuf s) \<and> Buffer_content (se_outputBuf s) = []"

definition idle :: "session \<Rightarrow> bool" where
  "idle s \<longleftrightarrow> session_ok s \<and> se_state s = kNewCommand \<and> se_command s = [] \<and> \<not> se_noreply s \<and> se_policy s = kInvalidPolicy \<and>
     se_currItem s = None \<and> se_bytesToDiscard s = 0"

definition se_stream :: "session \<Rightarrow> char list" where
  "se_stream s = conn_stream (se_conn s)"

text \<open>Room for what a session will still send.\<close>

definition room :: "session \<Rightarrow> nat \<Rightarrow> bool" where
  "room s n \<longleftrightarrow> conn_cap (se_conn s) + n < 2 ^ 31 \<and> Buffer_cap (se_outputBuf s) + n < 2 ^ 31"

lemma Session_reply_ok:
  assumes "session_ok s" "write_contract w" "peer_alive w" "room s (length msg + n)"
  shows "\<exists>c. Session_reply w msg s = Inr (s\<lparr>se_conn := c\<rparr>) \<and> session_ok (s\<lparr>se_conn := c\<rparr>) \<and> room (s\<lparr>se_conn := c\<rparr>) n \<and>
    se_stream (s\<lparr>se_conn := c\<rparr>) = se_stream s @ (if se_noreply s then [] else msg)"
proof (cases "se_noreply s")
  case True
  then show ?thesis
    using assms(1,4) by (intro exI [of _ "se_conn s"]) (simp add: Session_reply_def room_def)
next
  case False
  obtain c where "TcpConnection_send w msg (se_conn s) = Inr c" "conn_inv c" "connState c = kConnected"
      "conn_stream c = conn_stream (se_conn s) @ msg" "conn_cap c \<le> conn_cap (se_conn s) + length msg"
    using send_ok [of "se_conn s" w msg] assms by (auto simp: session_ok_def room_def vec_max_def)
  then show ?thesis
    using False assms(1,4) by (intro exI [of _ c]) (auto simp: Session_reply_def session_ok_def room_def se_stream_def)
qed

lemma show_int_nat [simp]: "show_int (int n) = show_nat n"
  by (simp add: show_int_def)

lemma show_int_uint: "show_int (uint (w :: 'a :: len word)) = show_nat (unat w)"
  using show_int_nat [of "unat w"] by simp

lemma word_digits:
  fixes x :: "'a :: len word"
  assumes "LENGTH('a) \<le> 64"
  shows "length (show_nat (unat x)) \<le> 20"
proof -
  have "unat x < 2 ^ LENGTH('a)"
    by (rule unsigned_less)
  also have "(2 :: nat) ^ LENGTH('a) \<le> 2 ^ 64"
    using assms by (intro power_increasing) simp_all
  also have "\<dots> < 10 ^ Suc 19"
    by simp
  finally show ?thesis
    using length_show_nat_le [of "unat x" 19] by simp
qed

lemma Item_output_ok:
  assumes "Buffer_wf out" "length k \<le> kLongestKeySize" "length k + length (e_value e) + 2 < 2 ^ 31" "cache k = Some e"
    "Buffer_cap out + length (value_text cas cache k) \<le> vec_max"
  shows "\<exists>out'. Item_output cas (item_of hash k e) out = Inr out' \<and> Buffer_wf out' \<and>
    Buffer_content out' = Buffer_content out @ value_text cas cache k \<and> Buffer_cap out' \<le> Buffer_cap out + length (value_text cas cache k)"
proof -
  let ?ops = "[OChr (CHR '' ''), OUInt (it_flags (item_of hash k e)), OChr (CHR '' ''), OInt (word_of_int (it_valuelen (item_of hash k e) - 2))] @
    (if cas then [OChr (CHR '' ''), OULong (it_cas (item_of hash k e))] else []) @ [OCString (Some crlf)]"
  let ?line = "'' '' @ show_nat (unat (e_flags e)) @ '' '' @ show_nat (length (e_value e)) @ (if cas then '' '' @ show_nat (unat (e_cas e)) else []) @ crlf"
  have "sint (word_of_int (it_valuelen (item_of hash k e) - 2) :: 32 word) = int (length (e_value e))"
    using assms(3) by (simp add: item_of_def signed_of_nat signed_take_bit_int_eq_self)
  then have ops: "concat (map operand_text ?ops) = ?line"
    by (simp add: show_int_uint c_string_def crlf_def)
  have "length (show_nat (length (e_value e))) \<le> 10"
    using length_show_nat_le [of "length (e_value e)" 9] assms(3) by simp
  then have short: "length ?line \<le> 100"
    using word_digits [of "e_flags e"] word_digits [of "e_cas e"] by (simp add: crlf_def)
  have new: "FixedBuffer_ok kSmallBuffer (FixedBuffer_new kSmallBuffer)" "FixedBuffer_toString (FixedBuffer_new kSmallBuffer) = []" "fb_cur (FixedBuffer_new kSmallBuffer) = 0"
    using FixedBuffer_new_ok [of kSmallBuffer] by (simp_all add: kSmallBuffer_def FixedBuffer_new_def)
  obtain fb where fb: "LogStream_statement ?ops (FixedBuffer_new kSmallBuffer) = Inr fb" "FixedBuffer_toString fb = ?line"
  proof -
    have "list_all operand_ok ?ops"
      by simp
    moreover have "fb_cur (FixedBuffer_new kSmallBuffer) + length ?line + 32 \<le> kSmallBuffer"
      using short new(3) by (simp add: kSmallBuffer_def)
    ultimately show thesis
      using statement_room [OF new(1), of ?ops] that unfolding ops new(2) append_Nil by blast
  qed
  have key: "mem_read (it_data (item_of hash k e)) 0 (nat (it_keylen (item_of hash k e))) = Inr k"
    by (simp add: item_of_def mem_read_def)
  have pieces: "Item_output cas (item_of hash k e) out = append_all out [''VALUE '', k, ?line, e_value e @ crlf]"
    unfolding Item_output_def
    by (simp only: key fb item_of_complete(3,5) [OF assms(3)] rbind_simps append_all.simps rbind_return)
  have shown: "value_text cas cache k = concat [''VALUE '', k, ?line, e_value e @ crlf]"
    using assms(4) by (simp add: value_text_def)
  show ?thesis
    using append_all_ok [OF assms(1), of "[''VALUE '', k, ?line, e_value e @ crlf]"] assms(5) unfolding pieces shown by blast
qed

lemma getLoop_ok:
  assumes "represents hash m cache"
  shows "needle_ok (se_needle s) \<Longrightarrow> Buffer_wf (se_outputBuf s) \<Longrightarrow> list_all key_ok ks \<Longrightarrow>
    Buffer_cap (se_outputBuf s) + length (concat (map (value_text cas cache) ks)) \<le> vec_max \<Longrightarrow>
    \<exists>n b. Session_getLoop w hash cas ks s m = Inr (False, s\<lparr>se_needle := n, se_outputBuf := b\<rparr>) \<and> needle_ok n \<and> Buffer_wf b \<and>
      Buffer_content b = Buffer_content (se_outputBuf s) @ concat (map (value_text cas cache) ks) \<and>
      Buffer_cap b \<le> Buffer_cap (se_outputBuf s) + length (concat (map (value_text cas cache) ks))"
proof (induction ks arbitrary: s)
  case Nil
  then show ?case
    by (intro exI [of _ "se_needle s"] exI [of _ "se_outputBuf s"]) simp
next
  case (Cons k ks)
  have k: "length k \<le> kLongestKeySize"
    using Cons.prems(3) by (simp add: key_ok_def)
  obtain n where n: "Item_resetKey hash k (se_needle s) = Inr n" "needle_ok n" "Item_key n = k" "it_hash n = hash k"
    using Item_resetKey_ok [OF Cons.prems(1) k] by blast
  have found: "MemcacheServer_getItem n m = map_option (item_of hash k) (cache k)"
    using shard_find_represents [OF assms n(3,4)] by (simp add: MemcacheServer_getItem_def)
  have "\<exists>b. (case MemcacheServer_getItem n m of None \<Rightarrow> Inr (se_outputBuf s) | Some it \<Rightarrow> Item_output cas it (se_outputBuf s)) = Inr b \<and> Buffer_wf b \<and>
      Buffer_content b = Buffer_content (se_outputBuf s) @ value_text cas cache k \<and> Buffer_cap b \<le> Buffer_cap (se_outputBuf s) + length (value_text cas cache k)"
  proof (cases "cache k")
    case None
    then show ?thesis
      using found Cons.prems(2) by (simp add: value_text_def)
  next
    case (Some e)
    then have "length k + length (e_value e) + 2 < 2 ^ 31"
      using assms by (auto simp: represents_def)
    then show ?thesis
      using Item_output_ok [where cache = cache and k = k and cas = cas and hash = hash, OF Cons.prems(2) k _ Some] found Some Cons.prems(4) by simp
  qed
  then obtain b where b: "(case MemcacheServer_getItem n m of None \<Rightarrow> Inr (se_outputBuf s) | Some it \<Rightarrow> Item_output cas it (se_outputBuf s)) = Inr b"
      "Buffer_wf b" "Buffer_content b = Buffer_content (se_outputBuf s) @ value_text cas cache k"
      "Buffer_cap b \<le> Buffer_cap (se_outputBuf s) + length (value_text cas cache k)"
    by blast
  let ?s = "s\<lparr>se_needle := n, se_outputBuf := b\<rparr>"
  have "Session_getLoop w hash cas (k # ks) s m = Session_getLoop w hash cas ks ?s m"
    using k n(1) b(1) by simp
  moreover have "\<exists>n' b'. Session_getLoop w hash cas ks ?s m = Inr (False, ?s\<lparr>se_needle := n', se_outputBuf := b'\<rparr>) \<and> needle_ok n' \<and> Buffer_wf b' \<and>
      Buffer_content b' = Buffer_content b @ concat (map (value_text cas cache) ks) \<and> Buffer_cap b' \<le> Buffer_cap b + length (concat (map (value_text cas cache) ks))"
    using Cons.IH [of ?s] n(2) b Cons.prems(3,4) by simp
  ultimately show ?case
    using b(3,4) by fastforce
qed

text \<open>Shrinking the output buffer of a connection keeps its stream.\<close>

lemma shrunk_output:
  assumes "conn_inv c" "reserve < Buffer_writableBytes (outputBuffer c)" "1024 \<le> reserve" "conn_cap c < 2 ^ 31"
  shows "\<exists>b. Buffer_shrink (outputBuffer c) reserve = Inr b \<and> conn_inv (c\<lparr>outputBuffer := b\<rparr>) \<and> conn_stream (c\<lparr>outputBuffer := b\<rparr>) = conn_stream c \<and>
    conn_cap (c\<lparr>outputBuffer := b\<rparr>) \<le> conn_cap c + 8"
proof -
  let ?out = "outputBuffer c"
  have wf: "Buffer_wf ?out"
    using assms(1) by (simp add: conn_inv_def conn_ok_def)
  have sizes: "length (Buffer_content ?out) + reserve \<le> Buffer_cap ?out"
    using assms(2) Buffer_wfD [OF wf] by (simp add: Buffer_wf_sizes [OF wf] length_Buffer_content [OF wf] Buffer_cap_def)
  obtain b where "Buffer_shrink ?out reserve = Inr b" "Buffer_wf b" "Buffer_content b = Buffer_content ?out"
      "Buffer_cap b = kCheapPrepend + max kInitialSize (length (Buffer_content ?out) + reserve)"
    using Buffer_shrink_exact [OF wf, of reserve] sizes assms(3,4) by (auto simp: conn_cap_def vec_max_def kInitialSize_def kCheapPrepend_def)
  then show ?thesis
    using assms(1,3) sizes by (auto simp: conn_inv_def conn_ok_def conn_stream_def conn_cap_def kCheapPrepend_def kInitialSize_def)
qed

lemma Session_get_ok:
  assumes "session_ok s" "represents hash m cache" "list_all key_ok ks" "write_contract w" "peer_alive w"
    "room s (length (concat (map (value_text cas cache) ks) @ ''END'' @ crlf) + 8 + n)"
  shows "\<exists>s'. Session_get w hash cas ks s m = Inr s' \<and> session_ok s' \<and> room s' n \<and>
    se_stream s' = se_stream s @ concat (map (value_text cas cache) ks) @ ''END'' @ crlf \<and>
    se_state s' = se_state s"
proof -
  let ?text = "concat (map (value_text cas cache) ks)" and ?c = "se_conn s"
  have ok: "conn_inv ?c" "connState ?c = kConnected" "needle_ok (se_needle s)" "Buffer_wf (se_outputBuf s)" "Buffer_content (se_outputBuf s) = []"
    using assms(1) by (simp_all add: session_ok_def)
  have cap: "conn_cap ?c + length ?text + 13 + n < 2 ^ 31" "Buffer_cap (se_outputBuf s) + length ?text + 13 + n < 2 ^ 31"
    using assms(6) by (simp_all add: room_def crlf_def)
  obtain nd b where b: "Session_getLoop w hash cas ks s m = Inr (False, s\<lparr>se_needle := nd, se_outputBuf := b\<rparr>)" "needle_ok nd" "Buffer_wf b"
      "Buffer_content b = ?text" "Buffer_cap b \<le> Buffer_cap (se_outputBuf s) + length ?text"
    using getLoop_ok [OF assms(2) ok(3,4) assms(3), of cas w] ok(5) cap(2) by (auto simp: vec_max_def)
  obtain out where out: "Buffer_append b (''END'' @ crlf) = Inr out" "Buffer_wf out" "Buffer_content out = ?text @ ''END'' @ crlf" "Buffer_cap out \<le> Buffer_cap b + 5"
    using Buffer_append_ok [OF b(3), of "''END'' @ crlf"] b(4,5) cap(2) by (auto simp: vec_max_def crlf_def)
  let ?reserve = "size_add 65536 (Buffer_readableBytes out)"
  have reserve: "1024 \<le> ?reserve"
    using cap(2) readable_content [OF out(2)] out(3) by (simp add: crlf_def)
  obtain c1 where c1: "Session_shrinkOutput ?reserve ?c = Inr c1" "conn_inv c1" "connState c1 = kConnected" "conn_stream c1 = conn_stream ?c"
      "conn_cap c1 \<le> conn_cap ?c + 8"
    using shrunk_output [OF ok(1) _ reserve] ok(1,2) cap(1) unfolding Session_shrinkOutput_def
    by (cases "?reserve < Buffer_writableBytes (outputBuffer ?c)") auto
  obtain out1 c2 where c2: "TcpConnection_sendBuffer w out c1 = Inr (out1, c2)" "conn_inv c2" "connState c2 = kConnected"
      "conn_stream c2 = conn_stream c1 @ Buffer_content out" "conn_cap c2 \<le> conn_cap c1 + length (Buffer_content out)"
    using sendBuffer_ok [OF c1(2,3) assms(4,5) out(2)] c1(5) cap(1) out(3) by (auto simp: crlf_def vec_max_def)
  have "onLoopThread c1"
    using c1(2) by (simp add: conn_inv_def conn_ok_def)
  then have "out1 = Buffer_retrieveAll out"
    using c2(1) c1(3) by (auto simp: TcpConnection_sendBuffer_def rbind_eq_Inr)
  then have out1: "Buffer_wf out1" "Buffer_content out1 = []" "Buffer_cap out1 = Buffer_cap out"
    using Buffer_wfD [OF out(2)] by (simp_all add: Buffer_retrieveAll_def Buffer_wf_def Buffer_content_def range_of_def Buffer_cap_def)
  let ?s' = "s\<lparr>se_needle := nd, se_outputBuf := out1, se_conn := c2\<rparr>"
  have "Session_get w hash cas ks s m = Inr ?s'"
    using b(1) out(1) c1(1) c2(1) by (simp add: Session_get_def)
  moreover have "session_ok ?s'" "room ?s' n" "se_stream ?s' = se_stream s @ ?text @ ''END'' @ crlf"
    using assms(1) b(2,5) out(3,4) out1 c1(4,5) c2(2-5) cap by (simp_all add: session_ok_def room_def se_stream_def crlf_def)
  ultimately show ?thesis
    by fastforce
qed

section \<open>One request line\<close>

lemma processRequest_words:
  assumes "idle s" "command_ok cmd"
  defines "s1 \<equiv> s\<lparr>se_requestsProcessed := size_add (se_requestsProcessed s) 1, se_noreply := command_noreply cmd, se_command := hd (command_words cmd)\<rparr>"
  shows "Session_processRequest w hash (command_line cmd) s m =
    (case cmd of
       Store p k fl x v c nr \<Rightarrow> Session_doUpdate w hash (tl (command_words cmd)) s1 m
     | Get cas ks \<Rightarrow> rbind (Session_get w hash cas ks s1 m) (\<lambda>s2. Inr (True, s2, m))
     | Delete k nr \<Rightarrow> rbind (Session_doDelete w hash [k] s1 m) (\<lambda>(s2, m2). Inr (True, s2, m2))
     | Version nr \<Rightarrow> rbind (Session_reply w (''VERSION 0.01 muduo'' @ crlf) s1) (\<lambda>s2. Inr (True, s2, m)))"
proof -
  have toks: "tokens (join (command_words cmd)) = command_words cmd"
    by (rule tokens_join [OF command_words_ok [OF assms(2)]])
  have ready: "se_command s = []" "\<not> se_noreply s" "se_policy s = kInvalidPolicy" "se_currItem s = None" "se_bytesToDiscard s = 0"
    using assms(1) by (simp_all add: idle_def)
  have "Session_processRequest w hash (command_line cmd) s m =
      (case command_words cmd of
         [] \<Rightarrow> rbind (Session_reply w (''ERROR'' @ crlf) (s\<lparr>se_requestsProcessed := size_add (se_requestsProcessed s) 1, se_noreply := command_noreply cmd\<rparr>)) (\<lambda>s. Inr (True, s, m))
       | command # toks \<Rightarrow>
           if policy_of command \<noteq> None then Session_doUpdate w hash toks s1 m
           else if command = ''get'' \<or> command = ''gets''
           then rbind (Session_get w hash (command = ''gets'') toks s1 m) (\<lambda>s2. Inr (True, s2, m))
           else if command = ''delete'' then rbind (Session_doDelete w hash toks s1 m) (\<lambda>(s2, m2). Inr (True, s2, m2))
           else if command = ''version'' then rbind (Session_reply w (''VERSION 0.01 muduo'' @ crlf) s1) (\<lambda>s2. Inr (True, s2, m))
           else if command = ''quit'' then rbind (Session_shutdown s1) (\<lambda>s2. Inr (True, s2, m))
           else if command = ''shutdown'' then rbind (Session_shutdown s1) (\<lambda>s2. Inr (True, s2, MemcacheServer_stop m))
           else rbind (Session_reply w (''ERROR'' @ crlf) s1) (\<lambda>s2. Inr (True, s2, m)))"
    unfolding Session_processRequest_def Let_def command_line_split [OF assms(2)] toks s1_def
    by (simp add: ready split: list.split)
  moreover have "policy_of ''get'' = None" "policy_of ''gets'' = None" "policy_of ''delete'' = None" "policy_of ''version'' = None"
    by (simp_all add: policy_of_def)
  ultimately show ?thesis
    using assms(2) by (cases cmd) (auto simp: policy_name_of)
qed

text \<open>The session while the value of a command arrives.\<close>

definition busy :: "hash_fn \<Rightarrow> session \<Rightarrow> command \<Rightarrow> char list \<Rightarrow> bool" where
  "busy hash s cmd got \<longleftrightarrow> session_ok s \<and> se_state s = kReceiveValue \<and> se_bytesToDiscard s = 0 \<and>
     (case cmd of Store p k fl x v c nr \<Rightarrow> se_policy s = p \<and> se_noreply s = nr \<and> length got < length v + 2 \<and>
        se_currItem s = Some (item_with hash k fl (int x) (length v + 2) (if p = kCas then c else 0) got)
      | _ \<Rightarrow> False)"

lemma store_header:
  assumes "idle s" "command_ok cmd" "cmd = Store p k fl x v c nr"
  shows "\<exists>s1. Session_processRequest w hash (command_line cmd) s m = Inr (False, s1, m) \<and> busy hash s1 cmd [] \<and> se_conn s1 = se_conn s \<and> se_outputBuf s1 = se_outputBuf s"
proof -
  have ok: "p \<noteq> kInvalidPolicy" "length k \<le> kLongestKeySize" "x \<le> 60 * 60 * 24 * 30" "length v \<le> 1024 * 1024"
    using assms(2,3) by (simp_all add: key_ok_def)
  have new: "Item_new hash k fl (int x) (int (length v) + 2) c' = Inr (item_with hash k fl (int x) (length v + 2) c' [])" for c'
    using Item_new_ok [of k "length v + 2" hash fl "int x" c'] ok by (simp add: kLongestKeySize_def add.commute)
  have rel: "relative_exptime (int x) t = int x" for t
    using ok(3) by (simp add: relative_exptime_def int32_id)
  have words: "ucast (of_nat (unat fl) :: 64 word) = fl" "ucast (ucast fl :: 64 word) = fl" "sint (of_nat x :: 64 word) = int x"
      "sint (ucast (of_nat (length v) :: 64 word) :: 32 word) = int (length v)" "(of_nat (unat c) :: 64 word) = c"
    using ok(3,4) by (simp_all add: signed_of_nat signed_take_bit_int_eq_self unsigned_of_nat take_bit_nat_eq_self ucast_up_ucast_id is_up)
  have narrow: "unat fl < 2 ^ LENGTH(32)" "unat c < 2 ^ LENGTH(64)"
    by (rule unsigned_less)+
  have sizes: "unat fl < 2 ^ 64" "x < 2 ^ 64" "length v < 2 ^ 64" "unat c < 2 ^ 64"
    using narrow ok by simp_all
  note reads = Reader_read_show [OF sizes(1)] Reader_read_show [OF sizes(2)] Reader_read_show [OF sizes(3)] Reader_read_show [OF sizes(4)]
  let ?s = "s\<lparr>se_requestsProcessed := size_add (se_requestsProcessed s) 1, se_noreply := nr, se_command := policy_name p\<rparr>"
  have "Session_doUpdate w hash (tl (command_words cmd)) ?s m =
      Inr (False, ?s\<lparr>se_policy := p, se_currItem := Some (item_with hash k fl (int x) (length v + 2) (if p = kCas then c else 0) []), se_state := kReceiveValue\<rparr>, m)"
    using ok assms(3) by (simp add: Session_doUpdate_def policy_name_of read_numbers_def reads words rel new Let_def)
  then show ?thesis
    using processRequest_words [OF assms(1,2), of w hash m] assms(1,3)
    by (auto simp: busy_def idle_def session_ok_def)
qed

lemma delete_represents:
  assumes "represents hash m cache" "Item_key n = k" "it_hash n = hash k"
  shows "\<exists>m'. MemcacheServer_deleteItem n m = (cache k \<noteq> None, m') \<and> represents hash m' (cache(k := None)) \<and> mc_cas m' = mc_cas m"
  using assms shard_find_represents [OF assms] by (auto simp: MemcacheServer_deleteItem_def represents_def)

text \<open>What a session must have room for: the reply, and eight bytes more that \<^verbatim>\<open>shrink\<close> may add.\<close>

definition reply_room :: "string list \<Rightarrow> nat" where
  "reply_room rs = length (concat rs) + 30 * length rs"

lemma reply_room_simps [simp]: "reply_room [] = 0" "reply_room (r # rs) = length r + 30 + reply_room rs"
  by (simp_all add: reply_room_def)

lemma line_command:
  assumes "idle s" "command_ok cmd" "command_data cmd = []" "represents hash m cache" "write_contract w" "peer_alive w"
    "command_spec cmd (cache, mc_cas m) = (r, cache', c')" "room s (length r + 30 + n)"
  shows "\<exists>s1 m1. Session_processRequest w hash (command_line cmd) s m = Inr (True, s1, m1) \<and> idle (Session_resetRequest s1) \<and>
    room (Session_resetRequest s1) n \<and> se_stream (Session_resetRequest s1) = se_stream s @ r \<and> represents hash m1 cache' \<and> mc_cas m1 = c'"
proof -
  let ?s = "s\<lparr>se_requestsProcessed := size_add (se_requestsProcessed s) 1, se_noreply := command_noreply cmd, se_command := hd (command_words cmd)\<rparr>"
  have s: "session_ok ?s" "se_state s = kNewCommand" "se_protocol s = kAscii" "needle_ok (se_needle s)"
    using assms(1) by (simp_all add: idle_def session_ok_def)
  have room: "room ?s (length r + 30 + n)"
    using assms(8) by (simp add: room_def)
  have reset: "idle (Session_resetRequest t)" "room (Session_resetRequest t) n" "se_stream (Session_resetRequest t) = se_stream t"
    if "session_ok t" "se_state t = kNewCommand" "room t n" for t
    using that by (simp_all add: idle_def session_ok_def Session_resetRequest_def room_def se_stream_def)
  have replied: "\<exists>t. Session_reply w msg u = Inr t \<and> session_ok t \<and> room t n \<and> se_stream t = se_stream s @ (if command_noreply cmd then [] else msg) \<and> se_state t = kNewCommand"
    if "u = ?s \<or> (\<exists>nd. u = ?s\<lparr>se_needle := nd\<rparr> \<and> needle_ok nd)" "length msg \<le> length r + 30" for msg u
  proof -
    have u: "session_ok u" "room u (length msg + n)" "se_noreply u = command_noreply cmd" "se_stream u = se_stream s" "se_state u = kNewCommand"
      using that s room by (auto simp: session_ok_def room_def se_stream_def)
    then show ?thesis
      using Session_reply_ok [OF u(1) assms(5,6) u(2)] by auto
  qed
  show ?thesis
  proof (cases cmd)
    case (Store p k fl x v c nr)
    then show ?thesis
      using assms(3) by (simp add: crlf_def)
  next
    case (Get cas ks)
    then have r: "r = concat (map (value_text cas cache) ks) @ ''END'' @ crlf" "cache' = cache" "c' = mc_cas m" "list_all key_ok ks"
      using assms(2,7) by auto
    have "room ?s (length r + 8 + (n + 22))"
      using room by (simp add: add.commute add.left_commute)
    then obtain t where t: "Session_get w hash cas ks ?s m = Inr t" "session_ok t" "room t (n + 22)" "se_stream t = se_stream ?s @ r" "se_state t = se_state ?s"
      using Session_get_ok [OF s(1) assms(4) r(4) assms(5,6), of cas "n + 22"] unfolding r(1) by auto
    have "room t n"
      using t(3) by (simp add: room_def)
    then show ?thesis
      using processRequest_words [OF assms(1,2), of w hash m] t reset [of t] s(2) assms(4) r Get by (auto simp: se_stream_def)
  next
    case (Delete k nr)
    have k: "length k \<le> kLongestKeySize"
      using assms(2) Delete by (simp add: key_ok_def)
    obtain nd where nd: "Item_resetKey hash k (se_needle s) = Inr nd" "needle_ok nd" "Item_key nd = k" "it_hash nd = hash k"
      using Item_resetKey_ok [OF s(4) k] by blast
    obtain m1 where m1: "MemcacheServer_deleteItem nd m = (cache k \<noteq> None, m1)" "represents hash m1 (cache(k := None))" "mc_cas m1 = mc_cas m"
      using delete_represents [OF assms(4) nd(3,4)] by blast
    let ?msg = "(if cache k \<noteq> None then ''DELETED'' else ''NOT_FOUND'') @ crlf"
    have r: "r = (if nr then [] else ?msg)" "cache' = cache(k := None)" "c' = mc_cas m"
      using assms(7) Delete by auto
    obtain t where t: "Session_reply w ?msg (?s\<lparr>se_needle := nd\<rparr>) = Inr t" "session_ok t" "room t n" "se_stream t = se_stream s @ r" "se_state t = kNewCommand"
    proof -
      have len: "length ?msg \<le> length r + 30"
        by (simp add: crlf_def)
      have eq: "(if command_noreply cmd then [] else ?msg) = r"
        using r(1) Delete by simp
      have u: "\<exists>n. ?s\<lparr>se_needle := nd\<rparr> = ?s\<lparr>se_needle := n\<rparr> \<and> needle_ok n"
        using nd(2) by blast
      from replied [OF disjI2 [OF u] len, unfolded eq] that show thesis
        by blast
    qed
    have "Session_doDelete w hash [k] ?s m = Inr (t, m1)"
      using k nd(1) m1(1) t(1) Delete by (simp add: Session_doDelete_def)
    then show ?thesis
      using processRequest_words [OF assms(1,2), of w hash m] t reset [of t] m1 r Delete by simp
  next
    case (Version nr)
    then have r: "r = (if nr then [] else ''VERSION 0.01 muduo'' @ crlf)" "cache' = cache" "c' = mc_cas m"
      using assms(7) by auto
    obtain t where t: "Session_reply w (''VERSION 0.01 muduo'' @ crlf) ?s = Inr t" "session_ok t" "room t n" "se_stream t = se_stream s @ r" "se_state t = kNewCommand"
    proof -
      have len: "length (''VERSION 0.01 muduo'' @ crlf) \<le> length r + 30"
        by (simp add: crlf_def)
      have eq: "(if command_noreply cmd then [] else ''VERSION 0.01 muduo'' @ crlf) = r"
        using r(1) Version by simp
      from replied [OF disjI1 [OF refl] len, unfolded eq] that show thesis
        by blast
    qed
    then show ?thesis
      using processRequest_words [OF assms(1,2), of w hash m] reset [of t] assms(4) r Version by simp
  qed
qed

section \<open>The value of a command\<close>

definition entry_of :: "command \<Rightarrow> entry" where
  "entry_of cmd = (case cmd of Store p k fl x v c nr \<Rightarrow> \<lparr>e_flags = fl, e_exptime = int x, e_value = v, e_cas = (if p = kCas then c else 0)\<rparr>
     | _ \<Rightarrow> \<lparr>e_flags = 0, e_exptime = 0, e_value = [], e_cas = 0\<rparr>)"

definition cache_bound :: "cache \<Rightarrow> nat \<Rightarrow> bool" where
  "cache_bound cache B \<longleftrightarrow> (\<forall>k e. cache k = Some e \<longrightarrow> length (e_value e) \<le> B)"

lemma store_spec_bound:
  assumes "cache_bound cache B"
  shows "cache_bound (cache(k := snd (store_spec p e c (cache k)))) (B + length (e_value e))"
proof -
  have "length (e_value d') \<le> B + length (e_value e)" if "snd (store_spec p e c (cache k)) = Some d'" for d'
  proof (cases "cache k")
    case None
    then show ?thesis
      using that by (cases p) auto
  next
    case (Some d)
    then have "length (e_value d) \<le> B"
      using assms by (simp add: cache_bound_def)
    then show ?thesis
      using that Some by (cases p) (auto split: if_splits)
  qed
  then show ?thesis
    using assms by (fastforce simp: cache_bound_def)
qed

lemma value_complete:
  assumes "session_ok s" "se_policy s = p" "se_noreply s = nr" "cmd = Store p k fl x v c nr" "command_ok cmd" "represents hash m cache"
    "write_contract w" "peer_alive w" "cache_bound cache B" "B + length v + 252 < 2 ^ 31"
    "command_spec cmd (cache, mc_cas m) = (r, cache', c')" "room s (length r + 30 + n)"
  shows "\<exists>s1 m1. Session_valueComplete w hash (item_of hash k (entry_of cmd)) s m = Inr (s1, m1) \<and> idle s1 \<and> room s1 n \<and>
    se_stream s1 = se_stream s @ r \<and> represents hash m1 cache' \<and> mc_cas m1 = c' \<and> cache_bound cache' (B + length v)"
proof -
  let ?e = "entry_of cmd"
  have ok: "p \<noteq> kInvalidPolicy" "length k \<le> kLongestKeySize" "e_value ?e = v"
    using assms(4,5) by (simp_all add: key_ok_def entry_of_def)
  obtain stored d where spec: "store_spec p ?e (mc_cas m + 1) (cache k) = (stored, d)"
    by (cases "store_spec p ?e (mc_cas m + 1) (cache k)") auto
  have r: "r = (if nr then [] else store_reply stored (cache k \<noteq> None) p)" "cache' = cache(k := d)" "c' = (if stored then mc_cas m + 1 else mc_cas m)"
    using assms(4,11) spec by (auto simp: entry_of_def)
  have "(case cache k of None \<Rightarrow> 0 | Some d \<Rightarrow> length (e_value d)) \<le> B"
    using assms(9) by (auto simp: cache_bound_def split: option.split)
  then have size: "length k + length (e_value ?e) + (case cache k of None \<Rightarrow> 0 | Some d \<Rightarrow> length (e_value d)) + 2 < 2 ^ 31"
    using assms(10) ok(2,3) by (simp add: kLongestKeySize_def)
  obtain m1 where m1: "MemcacheServer_storeItem hash (item_of hash k ?e) p m = Inr (stored, cache k \<noteq> None, m1)" "represents hash m1 cache'" "mc_cas m1 = c'"
    using storeItem_refines [OF assms(6) ok(2,1) size] spec r by auto
  have crlf_ok: "Item_endsWithCRLF (item_of hash k ?e)"
    by (rule item_of_complete(2)) (use size in simp)
  have "room s (length (store_reply stored (cache k \<noteq> None) p) + n)"
    using assms(12) by (simp add: room_def store_reply_def crlf_def r(1) split: if_splits)
  then obtain t where t: "Session_reply w (store_reply stored (cache k \<noteq> None) p) s = Inr (s\<lparr>se_conn := t\<rparr>)" "session_ok (s\<lparr>se_conn := t\<rparr>)" "room (s\<lparr>se_conn := t\<rparr>) n"
      "se_stream (s\<lparr>se_conn := t\<rparr>) = se_stream s @ r"
    using Session_reply_ok [OF assms(1,7,8)] assms(3) r(1) by blast
  have "Session_valueComplete w hash (item_of hash k ?e) s m = Inr ((Session_resetRequest (s\<lparr>se_conn := t\<rparr>))\<lparr>se_state := kNewCommand\<rparr>, m1)"
    using crlf_ok m1(1) t(1) assms(2) by (simp add: Session_valueComplete_def)
  moreover have "cache_bound cache' (B + length v)"
    using store_spec_bound [OF assms(9), of k p ?e "mc_cas m + 1"] spec r(2) ok(3) by simp
  ultimately show ?thesis
    using t(2-4) m1(2,3) by (auto simp: idle_def session_ok_def room_def se_stream_def Session_resetRequest_def)
qed

end
