(* ===== verification/Memcache_Loop.thy ===== *)
theory Memcache_Loop
  imports Memcache_Laws
begin

text \<open>
  The loop of a session: text of commands that arrives in any pieces is answered with the replies of the abstract semantics.
\<close>

section \<open>The loop\<close>

text \<open>
  Where a session stands in the text of commands: \<open>t\<close> is what is in its buffer with what has not arrived yet.
\<close>

definition at_text :: "hash_fn \<Rightarrow> command list \<Rightarrow> session \<Rightarrow> char list \<Rightarrow> bool" where
  "at_text hash cmds s t \<longleftrightarrow>
     idle s \<and> t = concat (map command_text cmds) \<or>
     (\<exists>cmd rest got. cmds = cmd # rest \<and> busy hash s cmd got \<and> take (length got) (command_data cmd) = got \<and>
        t = drop (length got) (command_data cmd) @ concat (map command_text rest))"

definition data_total :: "command list \<Rightarrow> nat" where
  "data_total cmds = length (concat (map command_data cmds))"

definition serving :: "hash_fn \<Rightarrow> command list \<Rightarrow> cache \<Rightarrow> nat \<Rightarrow> session \<Rightarrow> memcache \<Rightarrow> char list \<Rightarrow> bool" where
  "serving hash cmds cache B s m t \<longleftrightarrow> at_text hash cmds s t \<and> represents hash m cache \<and> cache_bound cache B \<and>
     list_all command_ok cmds \<and> list_all (\<lambda>c. length (command_line c) \<le> 1000) cmds \<and> B + data_total cmds + 252 < 2 ^ 31 \<and>
     room s (reply_room (fst (commands_spec cmds (cache, mc_cas m))))"

text \<open>One command is done.\<close>

lemma serving_next:
  assumes "idle s1" "t = concat (map command_text rest)" "represents hash m1 cache'" "cache_bound cache' (B + length (command_data cmd))"
    "list_all command_ok rest" "list_all (\<lambda>c. length (command_line c) \<le> 1000) rest" "B + data_total (cmd # rest) + 252 < 2 ^ 31"
    "room s1 (reply_room (fst (commands_spec rest (cache', mc_cas m1))))"
  shows "serving hash rest cache' (B + length (command_data cmd)) s1 m1 t"
  using assms by (simp add: serving_def at_text_def data_total_def)

lemma cache_bound_mono: "cache_bound cache B \<Longrightarrow> B \<le> B' \<Longrightarrow> cache_bound cache B'"
  by (fastforce simp: cache_bound_def)

lemma line_command_bound:
  "cache_bound cache B \<Longrightarrow> command_data cmd = [] \<Longrightarrow> command_spec cmd (cache, n) = (r, cache', c') \<Longrightarrow> cache_bound cache' B"
  by (cases cmd) (auto simp: cache_bound_def crlf_def split: if_splits)

lemma find_line:
  assumes "Buffer_wf buf" "Buffer_content buf = line @ crlf @ rest" "CHR 0x0D \<notin> set line"
  shows "Buffer_findCRLF buf = Some (readerIndex buf + length line)" "range_of buf (Buffer_peek buf) (readerIndex buf + length line) = line"
    "\<exists>buf1. Buffer_retrieveUntil buf (readerIndex buf + length line + 2) = Inr buf1 \<and> Buffer_wf buf1 \<and> Buffer_content buf1 = rest \<and> Buffer_cap buf1 = Buffer_cap buf"
proof -
  have len: "writerIndex buf - readerIndex buf = length line + 2 + length rest"
    using length_Buffer_content [OF assms(1)] assms(2) by (simp add: crlf_def)
  show "Buffer_findCRLF buf = Some (readerIndex buf + length line)"
    using Buffer_findCRLF_content [OF assms(1)] assms(2) search2_first [OF assms(3), of "CHR 0x0A" rest] by (simp add: crlf_def)
  have "range_of buf (Buffer_peek buf) (readerIndex buf + length line) = take (length line) (Buffer_content buf)"
    using len by (simp add: range_of_def Buffer_content_def Buffer_peek_def min_def)
  then show "range_of buf (Buffer_peek buf) (readerIndex buf + length line) = line"
    using assms(2) by simp
  show "\<exists>buf1. Buffer_retrieveUntil buf (readerIndex buf + length line + 2) = Inr buf1 \<and> Buffer_wf buf1 \<and> Buffer_content buf1 = rest \<and> Buffer_cap buf1 = Buffer_cap buf"
    using Buffer_retrieveUntil_ok [OF assms(1), of "readerIndex buf + length line + 2"] len assms(2) by (auto simp: crlf_def)
qed

text \<open>A round at the start of a line, whether or not the line is complete.\<close>

lemma round_line:
  assumes "idle s" "command_ok cmd" "Buffer_wf buf" "Buffer_content buf = command_line cmd @ crlf @ rest"
    "Session_processRequest w hash (command_line cmd) s m = Inr (finished, s1, m1)"
  shows "\<exists>buf1. Session_round w hash buf s m = Inr (False, (if finished then Session_resetRequest s1 else s1), m1, buf1) \<and> Buffer_wf buf1 \<and>
    Buffer_content buf1 = rest \<and> Buffer_cap buf1 = Buffer_cap buf"
proof -
  have s: "se_state s = kNewCommand" "se_protocol s = kAscii"
    using assms(1) by (simp_all add: idle_def session_ok_def)
  note line = find_line [OF assms(3,4) command_line_no_cr [OF assms(2)]]
  obtain buf1 where "Buffer_retrieveUntil buf (readerIndex buf + length (command_line cmd) + 2) = Inr buf1" "Buffer_wf buf1"
      "Buffer_content buf1 = rest" "Buffer_cap buf1 = Buffer_cap buf"
    using line(3) by blast
  then show ?thesis
    using s line(1,2) assms(5) by (simp add: Session_round_def)
qed

lemma round_partial:
  assumes "idle s" "Buffer_wf buf" "search2 (CHR 0x0D) (CHR 0x0A) (Buffer_content buf) = None" "length (Buffer_content buf) \<le> 1024"
  shows "Session_round w hash buf s m = Inr (True, s, m, buf)"
  using assms Buffer_findCRLF_content [OF assms(2)] readable_content [OF assms(2)]
  by (simp add: Session_round_def idle_def session_ok_def)

lemma search2_line: "a \<notin> set xs \<Longrightarrow> search2 a b xs = None" "a \<notin> set xs \<Longrightarrow> search2 a b (xs @ [a]) = None"
proof -
  show none: "search2 a b xs = None" if "a \<notin> set xs"
    using that by (induction a b xs rule: search2.induct) auto
  show "search2 a b (xs @ [a]) = None" if "a \<notin> set xs"
    using that by (induction a b xs rule: search2.induct) auto
qed

text \<open>Text that ends before the line does.\<close>

lemma partial_line:
  assumes "content @ todo = line @ crlf @ rest" "CHR 0x0D \<notin> set line" "length content < length line + 2"
  shows "search2 (CHR 0x0D) (CHR 0x0A) content = None"
proof (cases "length content \<le> length line")
  case True
  then have "content = take (length content) line"
    using arg_cong [OF assms(1), of "take (length content)"] by simp
  then have "CHR 0x0D \<notin> set content"
    using assms(2) set_take_subset [of "length content" line] by auto
  then show ?thesis
    by (rule search2_line(1))
next
  case False
  then have "length content = length (line @ [CHR 0x0D])"
    using assms(3) by simp
  then have "content = line @ [CHR 0x0D]"
    using assms(1) append_eq_append_conv [of content "line @ [CHR 0x0D]" todo "CHR 0x0A # rest"] by (simp add: crlf_def)
  then show ?thesis
    using search2_line(2) [OF assms(2)] by simp
qed

lemma full_line:
  assumes "content @ todo = line @ crlf @ rest" "length line + 2 \<le> length content"
  shows "\<exists>more. content = line @ crlf @ more \<and> more @ todo = rest"
proof -
  have "length (line @ crlf) \<le> length content"
    using assms(2) by (simp add: crlf_def)
  then obtain more where "content = (line @ crlf) @ more"
    using assms(1) by (metis append_assoc append_eq_append_conv_if append_take_drop_id)
  then show ?thesis
    using assms(1) by auto
qed

text \<open>A round while a value arrives.\<close>

lemma receive_value:
  assumes "Buffer_wf buf" "se_state s = kReceiveValue" "se_currItem s = Some (item_with hash k fl ex len c got)" "length k + len < 2 ^ 31" "length got < len"
  defines "d \<equiv> take (len - length got) (Buffer_content buf)"
  shows "\<exists>buf1. Buffer_wf buf1 \<and> Buffer_content buf1 = drop (len - length got) (Buffer_content buf) \<and> Buffer_cap buf1 = Buffer_cap buf \<and>
    Session_receiveValue w hash buf s m =
      (if length (got @ d) = len
       then rbind (Session_valueComplete w hash (item_with hash k fl ex len c (got @ d)) s m) (\<lambda>(s2, m2). Inr (s2, m2, buf1))
       else Inr (s\<lparr>se_currItem := Some (item_with hash k fl ex len c (got @ d))\<rparr>, m, buf1))"
proof -
  let ?avail = "min (Buffer_readableBytes buf) (Item_neededBytes (item_with hash k fl ex len c got))"
  have avail: "?avail = min (length (Buffer_content buf)) (len - length got)"
    using item_with_sizes(2) [OF assms(4)] assms(5) readable_content [OF assms(1)] by simp
  then have d: "take ?avail (Buffer_content buf) = d" "drop ?avail (Buffer_content buf) = drop (len - length got) (Buffer_content buf)" "?avail \<le> length (Buffer_content buf)"
    by (simp_all add: d_def min_def)
  obtain buf1 where buf1: "Buffer_retrieve buf ?avail = Inr buf1" "Buffer_wf buf1" "Buffer_content buf1 = drop (len - length got) (Buffer_content buf)" "Buffer_cap buf1 = Buffer_cap buf"
    using Buffer_retrieve_ok [OF assms(1) d(3)] d(2) by auto
  have read: "mem_read (buffer buf) (Buffer_peek buf) ?avail = Inr d"
    using Buffer_mem_read [OF assms(1) d(3)] d(1) by simp
  have len: "length got + length d \<le> len"
    using assms(5) by (simp add: d_def)
  have app: "Item_append d (item_with hash k fl ex len c got) = Inr (item_with hash k fl ex len c (got @ d))"
    by (rule Item_append_ok [OF assms(4) len])
  have needed: "Item_neededBytes (item_with hash k fl ex len c (got @ d)) = 0 \<longleftrightarrow> length (got @ d) = len"
    using item_with_sizes(2) [OF assms(4), of "got @ d"] len by auto
  have "Session_receiveValue w hash buf s m =
      (if length (got @ d) = len
       then rbind (Session_valueComplete w hash (item_with hash k fl ex len c (got @ d)) s m) (\<lambda>(s2, m2). Inr (s2, m2, buf1))
       else Inr (s\<lparr>se_currItem := Some (item_with hash k fl ex len c (got @ d))\<rparr>, m, buf1))"
    unfolding Session_receiveValue_def assms(2,3) option.case c_assert_def Let_def read rbind_simps app buf1(1) needed by simp
  with buf1(2-4) show ?thesis by blast
qed

text \<open>
  What a part of the loop did: it answered the commands \<open>done\<close> and left the session in the text of the others.
\<close>

definition served :: "hash_fn \<Rightarrow> command list \<Rightarrow> cache \<Rightarrow> session \<Rightarrow> memcache \<Rightarrow> session \<Rightarrow> memcache \<Rightarrow> char list \<Rightarrow> bool" where
  "served hash cmds cache s m s1 m1 t \<longleftrightarrow> (\<exists>done cmds1 rs cache1 B1. cmds = done @ cmds1 \<and> commands_spec done (cache, mc_cas m) = (rs, cache1, mc_cas m1) \<and>
     se_stream s1 = se_stream s @ concat rs \<and> serving hash cmds1 cache1 B1 s1 m1 t)"

lemma commands_spec_append:
  "commands_spec xs st = (rs, st1) \<Longrightarrow> commands_spec (xs @ ys) st = (rs @ fst (commands_spec ys st1), snd (commands_spec ys st1))"
  by (induction xs arbitrary: st rs) (auto split: prod.splits)

lemma served_refl: "serving hash cmds cache B s m t \<Longrightarrow> served hash cmds cache s m s m t"
  unfolding served_def by (intro exI [of _ "[]"] exI [of _ cmds] exI [of _ cache] exI [of _ B]) simp

lemma served_same: "serving hash cmds cache B s1 m t \<Longrightarrow> se_stream s1 = se_stream s \<Longrightarrow> served hash cmds cache s m s1 m t"
  unfolding served_def by (intro exI [of _ "[]"] exI [of _ cmds] exI [of _ cache] exI [of _ B]) simp

lemma served_one:
  assumes "command_spec cmd (cache, mc_cas m) = (r, cache1, mc_cas m1)" "se_stream s1 = se_stream s @ r" "serving hash rest cache1 B s1 m1 t"
  shows "served hash (cmd # rest) cache s m s1 m1 t"
  unfolding served_def
  by (intro exI [of _ "[cmd]"] exI [of _ rest] exI [of _ "[r]"] exI [of _ cache1] exI [of _ B]) (use assms in simp)

text \<open>A round at the start of a command.\<close>

lemma round_idle:
  assumes "serving hash cmds cache B s m (Buffer_content buf @ todo)" "idle s" "Buffer_content buf @ todo = concat (map command_text cmds)"
    "Buffer_wf buf" "Buffer_content buf \<noteq> []" "write_contract w" "peer_alive w"
  shows "Session_round w hash buf s m = Inr (True, s, m, buf) \<and> todo \<noteq> [] \<or>
    (\<exists>s1 m1 buf1. Session_round w hash buf s m = Inr (False, s1, m1, buf1) \<and> Buffer_wf buf1 \<and> length (Buffer_content buf1) < length (Buffer_content buf) \<and>
      Buffer_cap buf1 = Buffer_cap buf \<and> served hash cmds cache s m s1 m1 (Buffer_content buf1 @ todo))"
proof -
  obtain cmd rest where cmds: "cmds = cmd # rest"
    using assms(3,5) by (cases cmds) auto
  have ok: "command_ok cmd" "length (command_line cmd) \<le> 1000" "list_all command_ok rest" "list_all (\<lambda>c. length (command_line c) \<le> 1000) rest"
      "represents hash m cache" "cache_bound cache B" "B + data_total cmds + 252 < 2 ^ 31" "room s (reply_room (fst (commands_spec cmds (cache, mc_cas m))))"
    using assms(1) cmds by (simp_all add: serving_def)
  have here: "Buffer_content buf @ todo = command_line cmd @ crlf @ command_data cmd @ concat (map command_text rest)"
    using assms(3) cmds by (simp add: command_text_def)
  show ?thesis
  proof (cases "length (Buffer_content buf) < length (command_line cmd) + 2")
    case True
    then have "Session_round w hash buf s m = Inr (True, s, m, buf)"
      using round_partial [OF assms(2,4) partial_line [OF here command_line_no_cr [OF ok(1)] True]] ok(2) by simp
    moreover have "todo \<noteq> []"
    proof
      assume "todo = []"
      then show False
        using arg_cong [OF here, of length] True by (simp add: crlf_def)
    qed
    ultimately show ?thesis by blast
  next
    case False
    then obtain more where more: "Buffer_content buf = command_line cmd @ crlf @ more" "more @ todo = command_data cmd @ concat (map command_text rest)"
      using full_line [OF here] by auto
    note round = round_line [OF assms(2) ok(1) assms(4) more(1)]
    have shorter: "length more < length (Buffer_content buf)"
      using more(1) by (simp add: crlf_def)
    show ?thesis
    proof (cases "command_data cmd = []")
      case True
      obtain r cache' c' where spec: "command_spec cmd (cache, mc_cas m) = (r, cache', c')"
        by (cases "command_spec cmd (cache, mc_cas m)") auto
      have "fst (commands_spec cmds (cache, mc_cas m)) = r # fst (commands_spec rest (cache', c'))"
        using spec cmds by (simp split: prod.split)
      then have "room s (length r + 30 + reply_room (fst (commands_spec rest (cache', c'))))"
        using ok(8) by simp
      then obtain s1 m1 where s1: "Session_processRequest w hash (command_line cmd) s m = Inr (True, s1, m1)" "idle (Session_resetRequest s1)"
          "room (Session_resetRequest s1) (reply_room (fst (commands_spec rest (cache', c'))))" "se_stream (Session_resetRequest s1) = se_stream s @ r"
          "represents hash m1 cache'" "mc_cas m1 = c'"
        using line_command [OF assms(2) ok(1) True ok(5) assms(6,7) spec] by blast
      have "serving hash rest cache' (B + length (command_data cmd)) (Session_resetRequest s1) m1 (more @ todo)"
        using s1 more(2) ok True line_command_bound [OF ok(6) True spec] cmds by (intro serving_next) simp_all
      then have "served hash cmds cache s m (Session_resetRequest s1) m1 (more @ todo)"
        unfolding cmds by (rule served_one [rotated 2]) (use spec s1 in simp_all)
      then show ?thesis
        using round [OF s1(1)] shorter by auto
    next
      case False
      then obtain p k fl x v c nr where cmd: "cmd = Store p k fl x v c nr"
        by (cases cmd) simp_all
      obtain s1 where s1: "Session_processRequest w hash (command_line cmd) s m = Inr (False, s1, m)" "busy hash s1 cmd []" "se_conn s1 = se_conn s" "se_outputBuf s1 = se_outputBuf s"
        using store_header [OF assms(2) ok(1) cmd] by blast
      have "at_text hash cmds s1 (more @ todo)"
        unfolding at_text_def using cmds s1(2) more(2) by (intro disjI2 exI [of _ cmd] exI [of _ rest] exI [of _ "[]"]) simp
      then have "serving hash cmds cache B s1 m (more @ todo)"
        using assms(1) s1(3,4) by (simp add: serving_def room_def)
      then have "served hash cmds cache s m s1 m (more @ todo)"
        by (rule served_same) (simp add: se_stream_def s1(3))
      then show ?thesis
        using round [OF s1(1)] shorter by auto
    qed
  qed
qed

text \<open>A round while a value arrives.\<close>

lemma value_split:
  assumes "take (length got) data = got" "content @ todo = drop (length got) data @ rest" "length got \<le> length data"
  defines "d \<equiv> take (length data - length got) content"
  shows "take (length (got @ d)) data = got @ d" "drop (length data - length got) content @ todo = drop (length (got @ d)) data @ rest"
proof -
  obtain more where data: "data = got @ more"
    using assms(1) append_take_drop_id [of "length got" data] by metis
  then have here: "content @ todo = more @ rest" and d: "d = take (length more) content"
    using assms(2) by (simp_all add: d_def)
  have "take (length (got @ d)) data = got @ d \<and> drop (length data - length got) content @ todo = drop (length (got @ d)) data @ rest"
  proof (cases "length content \<le> length more")
    case True
    then have "content = take (length content) more" "todo = drop (length content) more @ rest"
      using arg_cong [OF here, of "take (length content)"] arg_cong [OF here, of "drop (length content)"] by simp_all
    then show ?thesis
      using True d data by simp
  next
    case False
    then have "take (length more) content = more" "drop (length more) content @ todo = rest"
      using arg_cong [OF here, of "take (length more)"] arg_cong [OF here, of "drop (length more)"] by simp_all
    then show ?thesis
      using d data by simp
  qed
  then show "take (length (got @ d)) data = got @ d" "drop (length data - length got) content @ todo = drop (length (got @ d)) data @ rest"
    by blast+
qed

lemma round_busy:
  assumes "serving hash cmds cache B s m (Buffer_content buf @ todo)" "cmds = cmd # rest" "busy hash s cmd got" "take (length got) (command_data cmd) = got"
    "Buffer_content buf @ todo = drop (length got) (command_data cmd) @ concat (map command_text rest)"
    "Buffer_wf buf" "Buffer_content buf \<noteq> []" "write_contract w" "peer_alive w"
  shows "\<exists>s1 m1 buf1. Session_round w hash buf s m = Inr (False, s1, m1, buf1) \<and> Buffer_wf buf1 \<and> length (Buffer_content buf1) < length (Buffer_content buf) \<and>
      Buffer_cap buf1 = Buffer_cap buf \<and> served hash cmds cache s m s1 m1 (Buffer_content buf1 @ todo)"
proof -
  obtain p k fl x v c nr where cmd: "cmd = Store p k fl x v c nr"
    using assms(3) by (cases cmd) (simp_all add: busy_def)
  let ?len = "length v + 2" and ?c = "if p = kCas then c else 0"
  have data: "command_data cmd = v @ crlf" "length (command_data cmd) = ?len"
    using cmd by (simp_all add: crlf_def)
  have s: "session_ok s" "se_state s = kReceiveValue" "se_bytesToDiscard s = 0" "se_policy s = p" "se_noreply s = nr" "length got < ?len"
      "se_currItem s = Some (item_with hash k fl (int x) ?len ?c got)"
    using assms(3) cmd by (simp_all add: busy_def)
  have ok: "command_ok cmd" "list_all command_ok rest" "list_all (\<lambda>c. length (command_line c) \<le> 1000) rest"
      "represents hash m cache" "cache_bound cache B" "B + data_total cmds + 252 < 2 ^ 31" "room s (reply_room (fst (commands_spec cmds (cache, mc_cas m))))"
    using assms(1,2) by (simp_all add: serving_def)
  have len: "B + ?len + 252 < 2 ^ 31"
    using ok(6) assms(2) data(2) by (simp add: data_total_def)
  then have small: "length k + ?len < 2 ^ 31"
    using ok(1) cmd by (simp add: key_ok_def kLongestKeySize_def)
  let ?d = "take (?len - length got) (Buffer_content buf)"
  obtain buf1 where buf1: "Buffer_wf buf1" "Buffer_content buf1 = drop (?len - length got) (Buffer_content buf)" "Buffer_cap buf1 = Buffer_cap buf"
      "Session_receiveValue w hash buf s m =
        (if length (got @ ?d) = ?len
         then rbind (Session_valueComplete w hash (item_with hash k fl (int x) ?len ?c (got @ ?d)) s m) (\<lambda>(s2, m2). Inr (s2, m2, buf1))
         else Inr (s\<lparr>se_currItem := Some (item_with hash k fl (int x) ?len ?c (got @ ?d))\<rparr>, m, buf1))"
    using receive_value [OF assms(6) s(2,7) small s(6)] by blast
  have shorter: "length (Buffer_content buf1) < length (Buffer_content buf)"
    using buf1(2) s(6) length_greater_0_conv [THEN iffD2, OF assms(7)] unfolding buf1(2) length_drop by arith
  have split: "take (length (got @ ?d)) (command_data cmd) = got @ ?d"
      "Buffer_content buf1 @ todo = drop (length (got @ ?d)) (command_data cmd) @ concat (map command_text rest)"
    using value_split [OF assms(4,5)] s(6) data(2) buf1(2) by simp_all
  show ?thesis
  proof (cases "length (got @ ?d) = ?len")
    case False
    then have more: "length (got @ ?d) < ?len"
      using s(6) by simp
    let ?s1 = "s\<lparr>se_currItem := Some (item_with hash k fl (int x) ?len ?c (got @ ?d))\<rparr>"
    have "busy hash ?s1 cmd (got @ ?d)"
      unfolding busy_def cmd using s more by (simp add: session_ok_def)
    then have "at_text hash cmds ?s1 (Buffer_content buf1 @ todo)"
      unfolding at_text_def using assms(2) split by blast
    then have "serving hash cmds cache B ?s1 m (Buffer_content buf1 @ todo)"
      using assms(1) by (simp add: serving_def room_def)
    then have "served hash cmds cache s m ?s1 m (Buffer_content buf1 @ todo)"
      by (rule served_same) (simp add: se_stream_def)
    moreover have "Session_round w hash buf s m = Inr (False, ?s1, m, buf1)"
      using buf1(4) False s(2) by (simp add: Session_round_def)
    ultimately show ?thesis
      using buf1(1,3) shorter by blast
  next
    case True
    then have whole: "got @ ?d = v @ crlf"
      using split(1) data by (metis take_all_iff order_refl)
    then have item: "item_with hash k fl (int x) ?len ?c (got @ ?d) = item_of hash k (entry_of cmd)"
      using cmd by (simp add: item_of_def entry_of_def)
    obtain r cache' c' where spec: "command_spec cmd (cache, mc_cas m) = (r, cache', c')"
      by (cases "command_spec cmd (cache, mc_cas m)") auto
    have "fst (commands_spec cmds (cache, mc_cas m)) = r # fst (commands_spec rest (cache', c'))"
      using spec assms(2) by (simp split: prod.split)
    then have room: "room s (length r + 30 + reply_room (fst (commands_spec rest (cache', c'))))"
      using ok(7) by simp
    have "B + length v + 252 < 2 ^ 31"
      using len by simp
    then obtain s1 m1 where s1: "Session_valueComplete w hash (item_of hash k (entry_of cmd)) s m = Inr (s1, m1)" "idle s1"
        "room s1 (reply_room (fst (commands_spec rest (cache', c'))))" "se_stream s1 = se_stream s @ r" "represents hash m1 cache'" "mc_cas m1 = c'"
        "cache_bound cache' (B + length v)"
      using value_complete [OF s(1,4,5) cmd ok(1,4) assms(8,9) ok(5) _ spec room] by blast
    have bound: "cache_bound cache' (B + length (command_data cmd))"
      by (rule cache_bound_mono [OF s1(7)]) (simp add: data)
    have done_text: "Buffer_content buf1 @ todo = concat (map command_text rest)"
      using split(2) True data(2) by simp
    have "serving hash rest cache' (B + length (command_data cmd)) s1 m1 (Buffer_content buf1 @ todo)"
      by (rule serving_next [OF s1(2) done_text s1(5) bound ok(2,3)]) (use ok(6) assms(2) s1(3,6) in simp_all)
    then have "served hash cmds cache s m s1 m1 (Buffer_content buf1 @ todo)"
      unfolding assms(2) by (rule served_one [rotated 2]) (use spec s1 in simp_all)
    moreover have "Session_round w hash buf s m = Inr (False, s1, m1, buf1)"
      using buf1(4) True s(2) s1(1) item by (simp add: Session_round_def)
    ultimately show ?thesis
      using buf1(1,3) shorter by blast
  qed
qed

lemma served_trans:
  assumes "served hash cmds cache s m s1 m1 t1"
    "\<And>cmds1 cache1 B1. serving hash cmds1 cache1 B1 s1 m1 t1 \<Longrightarrow> served hash cmds1 cache1 s1 m1 s2 m2 t2"
  shows "served hash cmds cache s m s2 m2 t2"
proof -
  obtain done1 cmds1 rs1 cache1 B1 where one: "cmds = done1 @ cmds1" "commands_spec done1 (cache, mc_cas m) = (rs1, cache1, mc_cas m1)"
      "se_stream s1 = se_stream s @ concat rs1" "serving hash cmds1 cache1 B1 s1 m1 t1"
    using assms(1) unfolding served_def by blast
  obtain done2 cmds2 rs2 cache2 B2 where two: "cmds1 = done2 @ cmds2" "commands_spec done2 (cache1, mc_cas m1) = (rs2, cache2, mc_cas m2)"
      "se_stream s2 = se_stream s1 @ concat rs2" "serving hash cmds2 cache2 B2 s2 m2 t2"
    using assms(2) [OF one(4)] unfolding served_def by blast
  show ?thesis
    unfolding served_def
    by (intro exI [of _ "done1 @ done2"] exI [of _ cmds2] exI [of _ "rs1 @ rs2"] exI [of _ cache2] exI [of _ B2])
      (use one two commands_spec_append [OF one(2), of done2] in simp)
qed

lemma loop_served:
  assumes "write_contract w" "peer_alive w"
  shows "serving hash cmds cache B s m (Buffer_content buf @ todo) \<Longrightarrow> Buffer_wf buf \<Longrightarrow>
    \<exists>s1 m1 buf1. Session_loop w hash buf s m = Some (Inr (s1, m1, buf1)) \<and> Buffer_wf buf1 \<and> Buffer_cap buf1 = Buffer_cap buf \<and>
      served hash cmds cache s m s1 m1 (Buffer_content buf1 @ todo) \<and> (Buffer_content buf1 = [] \<or> todo \<noteq> [])"
proof (induction "length (Buffer_content buf)" arbitrary: buf cmds cache B s m rule: less_induct)
  case less
  show ?case
  proof (cases "Buffer_content buf = []")
    case True
    then have "Session_loop w hash buf s m = Some (Inr (s, m, buf))"
      using readable_content [OF less.prems(2)] by (subst Session_loop.simps) simp
    then show ?thesis
      using True less.prems served_refl [OF less.prems(1)] by auto
  next
    case False
    then have unfold: "Session_loop w hash buf s m = (case Session_round w hash buf s m of
              Inl e \<Rightarrow> Some (Inl e)
            | Inr (stop, s1, m1, buf1) \<Rightarrow> if stop then Some (Inr (s1, m1, buf1)) else Session_loop w hash buf1 s1 m1)"
      using readable_content [OF less.prems(2)] by (subst Session_loop.simps) simp
    have "at_text hash cmds s (Buffer_content buf @ todo)"
      using less.prems(1) by (simp add: serving_def)
    then consider "Session_round w hash buf s m = Inr (True, s, m, buf)" "todo \<noteq> []"
      | s1 m1 buf1 where "Session_round w hash buf s m = Inr (False, s1, m1, buf1)" "Buffer_wf buf1" "length (Buffer_content buf1) < length (Buffer_content buf)"
          "Buffer_cap buf1 = Buffer_cap buf" "served hash cmds cache s m s1 m1 (Buffer_content buf1 @ todo)"
      unfolding at_text_def
      using round_idle [OF less.prems(1) _ _ less.prems(2) False assms] round_busy [OF less.prems(1) _ _ _ _ less.prems(2) False assms]
      by blast
    then show ?thesis
    proof cases
      case 1
      then show ?thesis
        using unfold less.prems served_refl [OF less.prems(1)] by auto
    next
      case 2
      obtain cmds1 cache1 B1 where "serving hash cmds1 cache1 B1 s1 m1 (Buffer_content buf1 @ todo)"
        using 2(5) unfolding served_def by blast
      then obtain s2 m2 buf2 where two: "Session_loop w hash buf1 s1 m1 = Some (Inr (s2, m2, buf2))" "Buffer_wf buf2" "Buffer_cap buf2 = Buffer_cap buf1"
          "Buffer_content buf2 = [] \<or> todo \<noteq> []"
        using less.hyps [OF 2(3) _ 2(2)] by blast
      have "served hash cmds1 cache1 s1 m1 s2 m2 (Buffer_content buf2 @ todo)"
        if "serving hash cmds1 cache1 B1 s1 m1 (Buffer_content buf1 @ todo)" for cmds1 cache1 B1
        using less.hyps [OF 2(3) that 2(2)] two(1) by auto
      then have "served hash cmds cache s m s2 m2 (Buffer_content buf2 @ todo)"
        by (rule served_trans [OF 2(5)])
      then show ?thesis
        using unfold 2(1,4) two by simp
    qed
  qed
qed

section \<open>A session\<close>

lemma bytesRead_irrelevant [simp]:
  "serving hash cmds cache B (s\<lparr>se_bytesRead := n\<rparr>) m t = serving hash cmds cache B s m t" "se_stream (s\<lparr>se_bytesRead := n\<rparr>) = se_stream s"
  by (simp_all add: serving_def at_text_def idle_def busy_def session_ok_def room_def se_stream_def split: command.split)

text \<open>What arrives in pieces: each is appended to the input buffer and then handed to the session.\<close>

primrec mc_receive :: "write_fn \<Rightarrow> hash_fn \<Rightarrow> char list list \<Rightarrow> net_buffer \<Rightarrow> session \<Rightarrow> memcache \<Rightarrow> (session \<times> memcache \<times> net_buffer) res option" where
  "mc_receive w hash [] buf s m = Some (Inr (s, m, buf))"
| "mc_receive w hash (d # ds) buf s m =
     (case Buffer_append buf d of
        Inl e \<Rightarrow> Some (Inl e)
      | Inr b \<Rightarrow> (case Session_onMessage w hash b s m of
           Some (Inr (s1, m1, b1)) \<Rightarrow> mc_receive w hash ds b1 s1 m1
         | r \<Rightarrow> r))"

lemma onMessage_served:
  assumes "write_contract w" "peer_alive w" "serving hash cmds cache B s m (Buffer_content buf @ todo)" "Buffer_wf buf"
  shows "\<exists>s1 m1 buf1. Session_onMessage w hash buf s m = Some (Inr (s1, m1, buf1)) \<and> Buffer_wf buf1 \<and> Buffer_cap buf1 = Buffer_cap buf \<and>
      served hash cmds cache s m s1 m1 (Buffer_content buf1 @ todo) \<and> (Buffer_content buf1 = [] \<or> todo \<noteq> [])"
proof -
  obtain s1 m1 buf1 where "Session_loop w hash buf s m = Some (Inr (s1, m1, buf1))" "Buffer_wf buf1" "Buffer_cap buf1 = Buffer_cap buf"
      "served hash cmds cache s m s1 m1 (Buffer_content buf1 @ todo)" "Buffer_content buf1 = [] \<or> todo \<noteq> []"
    using loop_served [OF assms] by blast
  then show ?thesis
    by (simp add: Session_onMessage_def served_def)
qed

lemma receive_served:
  assumes "write_contract w" "peer_alive w"
  shows "serving hash cmds cache B s m (Buffer_content buf @ concat reads) \<Longrightarrow> Buffer_wf buf \<Longrightarrow> Buffer_cap buf + length (concat reads) \<le> vec_max \<Longrightarrow>
    Buffer_content buf = [] \<or> concat reads \<noteq> [] \<Longrightarrow>
    \<exists>s1 m1 buf1. mc_receive w hash reads buf s m = Some (Inr (s1, m1, buf1)) \<and> Buffer_wf buf1 \<and> Buffer_content buf1 = [] \<and> served hash cmds cache s m s1 m1 []"
proof (induction reads arbitrary: buf cmds cache B s m)
  case Nil
  then show ?case
    using served_refl [OF Nil.prems(1)] by simp
next
  case (Cons d ds)
  obtain b where b: "Buffer_append buf d = Inr b" "Buffer_wf b" "Buffer_content b = Buffer_content buf @ d" "Buffer_cap b \<le> Buffer_cap buf + length d"
    using Buffer_append_ok [OF Cons.prems(2), of d] Cons.prems(3) by auto
  have "serving hash cmds cache B s m (Buffer_content b @ concat ds)"
    using Cons.prems(1) b(3) by simp
  then obtain s1 m1 b1 where one: "Session_onMessage w hash b s m = Some (Inr (s1, m1, b1))" "Buffer_wf b1" "Buffer_cap b1 = Buffer_cap b"
      "served hash cmds cache s m s1 m1 (Buffer_content b1 @ concat ds)" "Buffer_content b1 = [] \<or> concat ds \<noteq> []"
    using onMessage_served [OF assms _ b(2)] by blast
  have cap: "Buffer_cap b1 + length (concat ds) \<le> vec_max"
    using one(3) b(4) Cons.prems(3) by simp
  obtain cmds1 cache1 B1 where next_cmds: "serving hash cmds1 cache1 B1 s1 m1 (Buffer_content b1 @ concat ds)"
    using one(4) unfolding served_def by blast
  obtain s2 m2 b2 where two: "mc_receive w hash ds b1 s1 m1 = Some (Inr (s2, m2, b2))" "Buffer_wf b2" "Buffer_content b2 = []"
    using Cons.IH [OF next_cmds one(2) cap one(5)] by blast
  have "served hash cmds1 cache1 s1 m1 s2 m2 []" if "serving hash cmds1 cache1 B1 s1 m1 (Buffer_content b1 @ concat ds)" for cmds1 cache1 B1
    using Cons.IH [OF that one(2) cap one(5)] two(1) by auto
  then have "served hash cmds cache s m s2 m2 []"
    by (rule served_trans [OF one(4)])
  then show ?case
    using b(1) one(1) two by simp
qed

lemma serving_end:
  assumes "serving hash cmds cache B s m []"
  shows "cmds = [] \<and> idle s \<and> represents hash m cache"
proof -
  have "command_text c \<noteq> []" for c
    by (simp add: command_text_def crlf_def)
  moreover have "length got < length (command_data c)" if "busy hash s c got" for c got
    using that by (cases c) (simp_all add: busy_def crlf_def)
  ultimately show ?thesis
    using assms by (cases cmds) (fastforce simp: serving_def at_text_def)+
qed

text \<open>
  C26. A session of the memcached server refines the abstract semantics of its commands. When the text of well-formed
  commands (\<^verbatim>\<open>set\<close>, \<^verbatim>\<open>add\<close>, \<^verbatim>\<open>replace\<close>, \<^verbatim>\<open>append\<close>, \<^verbatim>\<open>prepend\<close>, \<^verbatim>\<open>cas\<close>, \<^verbatim>\<open>get\<close>, \<^verbatim>\<open>gets\<close>, \<^verbatim>\<open>delete\<close>, \<^verbatim>\<open>version\<close>, with or without \<^verbatim>\<open>noreply\<close>)
  arrives in any pieces, every call of \<^verbatim>\<open>onMessage\<close> returns, what the session has sent is exactly the replies of the abstract
  semantics in the order of the commands, the sharded table represents the resulting cache, and the session waits for
  a new command with an empty buffer.
\<close>

theorem Memcache_session:
  assumes "write_contract w" "peer_alive w" "idle s" "represents hash m cache" "cache_bound cache B"
    "list_all command_ok cmds" "list_all (\<lambda>c. length (command_line c) \<le> 1000) cmds" "B + data_total cmds + 252 < 2 ^ 31"
    "commands_spec cmds (cache, mc_cas m) = (replies, cache', c')" "room s (reply_room replies)"
    "Buffer_wf buf" "Buffer_content buf = []" "concat reads = concat (map command_text cmds)" "Buffer_cap buf + length (concat reads) \<le> vec_max"
  shows "\<exists>s' m' buf'. mc_receive w hash reads buf s m = Some (Inr (s', m', buf')) \<and> se_stream s' = se_stream s @ concat replies \<and>
    represents hash m' cache' \<and> mc_cas m' = c' \<and> idle s' \<and> Buffer_content buf' = []"
proof -
  have "serving hash cmds cache B s m (Buffer_content buf @ concat reads)"
    using assms by (simp add: serving_def at_text_def)
  then obtain s' m' buf' where last: "mc_receive w hash reads buf s m = Some (Inr (s', m', buf'))" "Buffer_content buf' = []" "served hash cmds cache s m s' m' []"
    using receive_served [OF assms(1,2) _ assms(11,14)] assms(12) by blast
  then obtain xs ys rs cache1 B1 where xs: "cmds = xs @ ys" "commands_spec xs (cache, mc_cas m) = (rs, cache1, mc_cas m')"
      "se_stream s' = se_stream s @ concat rs" "serving hash ys cache1 B1 s' m' []"
    unfolding served_def by blast
  then show ?thesis
    using last serving_end [OF xs(4)] assms(9) by auto
qed

lemma Session_new_idle:
  assumes "conn_inv c" "connState c = kConnected"
  shows "\<exists>s. Session_new hash c = Inr s \<and> idle s \<and> se_conn s = c \<and> Buffer_cap (se_outputBuf s) \<le> 1032"
proof -
  have new: "Item_new hash kLongestKey 0 0 2 0 = Inr (item_with hash kLongestKey 0 0 2 0 [])"
    using Item_new_ok [of kLongestKey 2 hash 0 0 0] by (simp add: kLongestKey_def kLongestKeySize_def)
  have needle: "needle_ok (item_with hash kLongestKey 0 0 2 0 [])"
    by (simp add: needle_ok_def kLongestKey_def)
  obtain b where "Buffer_new kInitialSize = Inr b" "Buffer_wf b" "Buffer_content b = []" "Buffer_cap b = kCheapPrepend + kInitialSize"
    using Buffer_new_ok [of kInitialSize] by (auto simp: kInitialSize_def kCheapPrepend_def vec_max_def)
  then show ?thesis
    using new needle assms by (simp add: Session_new_def idle_def session_ok_def kInitialSize_def kCheapPrepend_def)
qed

lemma represents_new: "represents hash (MemcacheServer_new now) Map.empty"
  by (simp add: represents_def MemcacheServer_new_def)

lemma demo_commands:
  defines "cmds \<equiv> [Store kSet ''k'' 7 0 ''hi'' 0 False, Get False [''k'']]"
  shows "list_all command_ok cmds" "list_all (\<lambda>c. length (command_line c) \<le> 1000) cmds" "data_total cmds = 4"
    "concat (map command_text cmds) = ''set k 7 0 2'' @ crlf @ ''hi'' @ crlf @ ''get k'' @ crlf"
    "commands_spec cmds (Map.empty, 0) =
       ([''STORED'' @ crlf, ''VALUE k 7 2'' @ crlf @ ''hi'' @ crlf @ ''END'' @ crlf], [''k'' \<mapsto> \<lparr>e_flags = 7, e_exptime = 0, e_value = ''hi'', e_cas = 1\<rparr>], 1)"
proof -
  have digits: "show_nat 7 = ''7''" "show_nat 0 = ''0''" "show_nat 2 = ''2''"
    by (simp_all add: show_nat.simps digit_char_def char_of_def bit_Suc_0_iff)
  then have "show_nat (Suc (Suc 0)) = ''2''"
    by (simp add: numeral_2_eq_2)
  note digits = digits this
  have lines: "command_line (Store kSet ''k'' 7 0 ''hi'' 0 False) = ''set k 7 0 2''" "command_line (Get False [''k'']) = ''get k''"
    by (simp_all add: command_line_def noreply_text_def digits)
  show "list_all command_ok cmds" "data_total cmds = 4"
    by (simp_all add: cmds_def key_ok_def word_ok_def kLongestKeySize_def data_total_def crlf_def)
  show "list_all (\<lambda>c. length (command_line c) \<le> 1000) cmds"
    by (simp add: cmds_def lines)
  show "concat (map command_text cmds) = ''set k 7 0 2'' @ crlf @ ''hi'' @ crlf @ ''get k'' @ crlf"
    by (simp add: cmds_def command_text_def lines)
  show "commands_spec cmds (Map.empty, 0) =
       ([''STORED'' @ crlf, ''VALUE k 7 2'' @ crlf @ ''hi'' @ crlf @ ''END'' @ crlf], [''k'' \<mapsto> \<lparr>e_flags = 7, e_exptime = 0, e_value = ''hi'', e_cas = 1\<rparr>], 1)"
    by (simp add: cmds_def value_text_def store_reply_def digits)
qed

theorem Memcache_session_witness:
  "\<exists>c b s s' m' b'. Session_new length c = Inr s \<and> se_stream s = [] \<and>
     mc_receive (write_room 9) length [''set k 7 0'', '' 2'' @ crlf @ ''h'', ''i'' @ crlf @ ''get k'' @ crlf] b s (MemcacheServer_new 1) = Some (Inr (s', m', b')) \<and>
     se_stream s' = ''STORED'' @ crlf @ ''VALUE k 7 2'' @ crlf @ ''hi'' @ crlf @ ''END'' @ crlf"
proof -
  let ?reads = "[''set k 7 0'', '' 2'' @ crlf @ ''h'', ''i'' @ crlf @ ''get k'' @ crlf]"
  obtain c where c: "conn_inv c" "connState c = kConnected" "conn_stream c = []" "conn_cap c = 1032"
    using fresh_with_input [of "[]"] by auto
  obtain b where b: "Buffer_wf b" "Buffer_content b = []" "Buffer_cap b \<le> 1032"
    using buffer_of [of "[]"] by (auto simp: vec_max_def)
  obtain s where s: "Session_new length c = Inr s" "idle s" "se_conn s = c" "Buffer_cap (se_outputBuf s) \<le> 1032"
    using Session_new_idle [OF c(1,2)] by blast
  have stream: "se_stream s = []"
    using s(3) c(3) by (simp add: se_stream_def)
  have cas: "mc_cas (MemcacheServer_new 1) = 0"
    by (simp add: MemcacheServer_new_def)
  have bound: "cache_bound Map.empty 0"
    by (simp add: cache_bound_def)
  have room: "room s (reply_room [''STORED'' @ crlf, ''VALUE k 7 2'' @ crlf @ ''hi'' @ crlf @ ''END'' @ crlf])"
    using s(3,4) c(4) by (simp add: room_def crlf_def)
  have pieces: "concat ?reads = ''set k 7 0 2'' @ crlf @ ''hi'' @ crlf @ ''get k'' @ crlf"
    by simp
  have cap: "Buffer_cap b + length (concat ?reads) \<le> vec_max"
    using b(3) by (simp add: crlf_def vec_max_def)
  have total: "0 + data_total [Store kSet ''k'' 7 0 ''hi'' 0 False, Get False [''k'']] + 252 < 2 ^ 31"
    by (simp add: demo_commands(3))
  have spec: "commands_spec [Store kSet ''k'' 7 0 ''hi'' 0 False, Get False [''k'']] (Map.empty, mc_cas (MemcacheServer_new 1)) =
      ([''STORED'' @ crlf, ''VALUE k 7 2'' @ crlf @ ''hi'' @ crlf @ ''END'' @ crlf], [''k'' \<mapsto> \<lparr>e_flags = 7, e_exptime = 0, e_value = ''hi'', e_cas = 1\<rparr>], 1)"
    unfolding cas by (rule demo_commands(5))
  obtain s' m' b' where "mc_receive (write_room 9) length ?reads b s (MemcacheServer_new 1) = Some (Inr (s', m', b'))"
      "se_stream s' = se_stream s @ concat [''STORED'' @ crlf, ''VALUE k 7 2'' @ crlf @ ''hi'' @ crlf @ ''END'' @ crlf]"
    using Memcache_session [OF write_room_contract s(2) represents_new bound demo_commands(1,2) total spec room b(1,2)
        pieces [folded demo_commands(4)] cap, of 9] by blast
  moreover from this(2) have "se_stream s' = ''STORED'' @ crlf @ ''VALUE k 7 2'' @ crlf @ ''hi'' @ crlf @ ''END'' @ crlf"
    unfolding stream by simp
  ultimately show ?thesis
    using s(1) stream by blast
qed

section \<open>Requests that the server does not survive, and text that is left over\<close>

lemma negative_bytes:
  assumes "2 ^ 31 \<le> n mod 2 ^ 32"
  shows "sint (ucast (of_nat n :: 64 word) :: 32 word) < 0"
proof -
  have "n mod 2 ^ 32 = n mod 2 ^ 31 + 2 ^ 31 * (n div 2 ^ 31 mod 2)"
    using mod_mult2_eq [of n "2 ^ 31" 2] by simp
  moreover have "n mod 2 ^ 31 < 2 ^ 31"
    by simp
  ultimately have "n div 2 ^ 31 mod 2 \<noteq> 0"
    using assms by (metis add_0_right mult_0_right leD)
  then have "bit n 31"
    by (simp add: bit_iff_odd odd_iff_mod_2_eq_one)
  then have "bit (int n) 31"
    by (simp add: bit_of_nat_iff_bit)
  moreover have "ucast (of_nat n :: 64 word) = (of_nat n :: 32 word)"
    by (simp add: unsigned_of_nat word_of_nat_eq_iff)
  ultimately show ?thesis
    by (simp add: signed_of_nat signed_take_bit_negative_iff)
qed

text \<open>
  A length that does not fit 31 bits is read as a negative number of bytes: the guard against large values lets it
  pass and the assertion of \<^verbatim>\<open>Item\<close> that a value has at least two bytes fails. One line from a client ends a server that is built
  with assertions.
\<close>

theorem Session_negative_length:
  assumes "idle s" "key_ok k" "n < 2 ^ 64" "2 ^ 31 \<le> n mod 2 ^ 32" "Buffer_wf buf"
    "Buffer_content buf = join [''set'', k, show_nat (unat (fl :: 32 word)), show_nat (unat (x :: 64 word)), show_nat n] @ crlf @ rest"
  shows "Session_onMessage w hash buf s m = Some (Inl AssertFailed)"
proof -
  let ?ws = "[''set'', k, show_nat (unat fl), show_nat (unat x), show_nat n]"
  let ?s = "s\<lparr>se_requestsProcessed := size_add (se_requestsProcessed s) 1, se_noreply := False, se_command := ''set''\<rparr>"
  have ready: "se_command s = []" "\<not> se_noreply s" "se_policy s = kInvalidPolicy" "se_currItem s = None" "se_bytesToDiscard s = 0"
      "se_state s = kNewCommand" "se_protocol s = kAscii"
    using assms(1) by (simp_all add: idle_def session_ok_def)
  have ok: "list_all word_ok ?ws"
    using assms(2) policy_name_of(2) [of kSet] by (simp add: word_ok_show_nat key_ok_def)
  have last: "rev (takeWhile (\<lambda>c. c \<noteq> CHR '' '') (rev (join ?ws))) = show_nat n"
    using last_word [OF _ ok] by (simp del: join.simps)
  have "drop (length (join ?ws) - 8) (join ?ws) \<noteq> '' noreply''"
    using noreply_last [of "join ?ws", unfolded last] show_nat_not_noreply [of n] by blast
  then have plain: "(8 \<le> length (join ?ws) \<and> drop (length (join ?ws) - 8) (join ?ws) = '' noreply'') = False"
    by blast
  have request: "Session_processRequest w hash (join ?ws) s m = Session_doUpdate w hash (tl ?ws) ?s m"
    unfolding Session_processRequest_def Let_def plain if_False tokens_join [OF ok] by (simp add: ready policy_of_def)
  have narrow: "unat fl < 2 ^ LENGTH(32)" "unat x < 2 ^ LENGTH(64)"
    by (rule unsigned_less)+
  then have sizes: "unat fl < 2 ^ 64" "unat x < 2 ^ 64"
    by simp_all
  have bytes: "sint (ucast (of_nat n :: 64 word) :: 32 word) < 0"
    by (rule negative_bytes [OF assms(4)])
  have "Session_doUpdate w hash (tl ?ws) ?s m = Inl AssertFailed"
    using bytes assms(2) Reader_read_show [OF sizes(1)] Reader_read_show [OF sizes(2)] Reader_read_show [OF assms(3)]
    by (simp add: Session_doUpdate_def policy_of_def read_numbers_def key_ok_def Item_new_def)
  with request have failed: "Session_processRequest w hash (join ?ws) s m = Inl AssertFailed"
    by simp
  note line = find_line [OF assms(5,6) join_no_cr [OF ok]]
  have "Session_round w hash buf s m = Inl AssertFailed"
    using ready line(1,2) failed by (simp add: Session_round_def del: join.simps)
  moreover have "0 < Buffer_readableBytes buf"
    using readable_content [OF assms(5)] assms(6) by (simp add: crlf_def del: join.simps)
  ultimately have "Session_loop w hash buf s m = Some (Inl AssertFailed)"
    by (subst Session_loop.simps) simp
  then show ?thesis
    by (simp add: Session_onMessage_def)
qed

theorem Session_negative_length_witness:
  "\<exists>c s b. Session_new length c = Inr s \<and> Buffer_wf b \<and> Buffer_content b = ''set k 0 0 4294967295'' @ crlf \<and>
     Session_onMessage (write_room 9) length b s (MemcacheServer_new 1) = Some (Inl AssertFailed)"
proof -
  let ?text = "join [''set'', ''k'', show_nat (unat (0 :: 32 word)), show_nat (unat (0 :: 64 word)), show_nat 4294967295] @ crlf @ []"
  have shown: "?text = ''set k 0 0 4294967295'' @ crlf"
    by (simp add: show_nat.simps digit_char_def char_of_def bit_Suc_0_iff)
  obtain c where c: "conn_inv c" "connState c = kConnected"
    using fresh_with_input [of "[]"] by auto
  obtain s where s: "Session_new length c = Inr s" "idle s"
    using Session_new_idle [OF c] by blast
  obtain b where b: "Buffer_wf b" "Buffer_content b = ''set k 0 0 4294967295'' @ crlf"
    using buffer_of [of "''set k 0 0 4294967295'' @ crlf"] by (auto simp: vec_max_def crlf_def)
  have key: "key_ok ''k''"
    by (simp add: key_ok_def word_ok_def kLongestKeySize_def)
  have "Session_onMessage (write_room 9) length b s (MemcacheServer_new 1) = Some (Inl AssertFailed)"
    by (rule Session_negative_length [OF s(2) key _ _ b(1) b(2) [folded shown]]) simp_all
  with s(1) b show ?thesis by blast
qed

text \<open>
  A key that is too long ends \<^verbatim>\<open>get\<close> with an error after earlier keys were found; their text stays in the output buffer of the
  session, so the next \<^verbatim>\<open>get\<close> sends it.
\<close>

lemma Session_get_leftover:
  assumes "session_ok s" "represents hash m cache" "key_ok k" "kLongestKeySize < length long" "write_contract w" "peer_alive w" "\<not> se_noreply s"
    "room s (length (value_text cas cache k) + length bad_format)"
  shows "\<exists>s'. Session_get w hash cas [k, long] s m = Inr s' \<and> se_stream s' = se_stream s @ bad_format \<and> Buffer_content (se_outputBuf s') = value_text cas cache k"
proof -
  let ?vt = "value_text cas cache k"
  have ok: "needle_ok (se_needle s)" "Buffer_wf (se_outputBuf s)" "Buffer_content (se_outputBuf s) = []" "list_all key_ok [k]" "length k \<le> kLongestKeySize"
    using assms(1,3) by (simp_all add: session_ok_def key_ok_def)
  obtain n b where b: "Session_getLoop w hash cas [k] s m = Inr (False, s\<lparr>se_needle := n, se_outputBuf := b\<rparr>)" "Buffer_content b = ?vt"
    using getLoop_ok [OF assms(2) ok(1,2,4), of cas w] assms(8) ok(3) by (auto simp: room_def vec_max_def)
  have conn: "conn_inv (se_conn s)" "connState (se_conn s) = kConnected" "conn_cap (se_conn s) + length bad_format \<le> vec_max"
    using assms(1,8) by (simp_all add: session_ok_def room_def vec_max_def)
  obtain c where c: "TcpConnection_send w bad_format (se_conn s) = Inr c" "conn_stream c = conn_stream (se_conn s) @ bad_format"
    using send_ok [of "se_conn s" w bad_format] conn assms(5,6) by auto
  have "Session_getLoop w hash cas [k, long] s m = Session_getLoop w hash cas [long] (s\<lparr>se_needle := n, se_outputBuf := b\<rparr>) m"
    using b(1) ok(5) assms(4) by (auto simp: rbind_eq_Inr split: if_splits)
  also have "\<dots> = Inr (True, s\<lparr>se_needle := n, se_outputBuf := b, se_conn := c\<rparr>)"
    using assms(4,7) c(1) by (simp add: Session_reply_def)
  finally show ?thesis
    using b(2) c(2) by (simp add: Session_get_def se_stream_def)
qed

end
