(* ===== verification/App_Chat.thy ===== *)
theory App_Chat
  imports Frame_Decoder Codec_Laws
begin

text \<open>
  The chat server of the examples (\<^verbatim>\<open>examples/asio/chat\<close>): messages behind a length header, and a server that sends every message
  to every connection. Connections are numbered; the set that holds them is iterated in the order of the numbers.
\<close>

section \<open>LengthHeaderCodec\<close>

datatype chat_event = Message string | BadLength

partial_function (option) LengthHeaderCodec_onMessage :: "chat_event list \<Rightarrow> net_buffer \<Rightarrow> (chat_event list \<times> net_buffer) res option" where
  "LengthHeaderCodec_onMessage done buf =
     (if Buffer_readableBytes buf < 4 then Some (Inr (done, buf))
      else (case Buffer_peekInt32 buf of
        Inl e \<Rightarrow> Some (Inl e)
      | Inr w \<Rightarrow>
          (let len = sint w in
           if 65536 < len \<or> len < 0 then Some (Inr (done @ [BadLength], buf))
           else if nat len + 4 \<le> Buffer_readableBytes buf
           then (case rbind (Buffer_retrieve buf 4) (\<lambda>b1. rbind (mem_read (buffer b1) (Buffer_peek b1) (nat len)) (\<lambda>m.
                        rbind (Buffer_retrieve b1 (nat len)) (\<lambda>b2. Inr (m, b2)))) of
                   Inl e \<Rightarrow> Some (Inl e)
                 | Inr (m, b2) \<Rightarrow> LengthHeaderCodec_onMessage (done @ [Message m]) b2)
           else Some (Inr (done, buf)))))"

definition LengthHeaderCodec_send :: "write_fn \<Rightarrow> string \<Rightarrow> tcp_connection \<Rightarrow> tcp_connection res" where
  "LengthHeaderCodec_send write message conn =
     rbind (Buffer_new kInitialSize) (\<lambda>b0.
     rbind (Buffer_append b0 message) (\<lambda>b1.
     rbind (Buffer_prepend b1 (word_image 4 (hostToNetwork32 (of_nat (length message))))) (\<lambda>b2.
     rbind (TcpConnection_sendBuffer write b2 conn) (\<lambda>(b3, c). Inr c))))"

section \<open>ChatServer\<close>

record chat =
  ch_conns :: "nat \<Rightarrow> tcp_connection"
  ch_connections :: "nat list"

definition ChatServer_onConnection :: "nat \<Rightarrow> chat \<Rightarrow> chat" where
  "ChatServer_onConnection i s =
     (if connState (ch_conns s i) = kConnected then s\<lparr>ch_connections := insort_insert i (ch_connections s)\<rparr>
      else s\<lparr>ch_connections := remove1 i (ch_connections s)\<rparr>)"

primrec send_each :: "(tcp_connection \<Rightarrow> tcp_connection res) \<Rightarrow> nat list \<Rightarrow> (nat \<Rightarrow> tcp_connection) \<Rightarrow> (nat \<Rightarrow> tcp_connection) res" where
  "send_each f [] cs = Inr cs"
| "send_each f (j # js) cs = rbind (f (cs j)) (\<lambda>c. send_each f js (cs(j := c)))"

definition ChatServer_onStringMessage :: "write_fn \<Rightarrow> string \<Rightarrow> chat \<Rightarrow> chat res" where
  "ChatServer_onStringMessage write message s =
     rbind (send_each (LengthHeaderCodec_send write message) (ch_connections s) (ch_conns s)) (\<lambda>cs. Inr (s\<lparr>ch_conns := cs\<rparr>))"

primrec chat_handle :: "write_fn \<Rightarrow> nat \<Rightarrow> chat_event list \<Rightarrow> chat \<Rightarrow> chat res" where
  "chat_handle write i [] s = Inr s"
| "chat_handle write i (e # es) s =
     rbind (case e of
              Message m \<Rightarrow> ChatServer_onStringMessage write m s
            | BadLength \<Rightarrow> rbind (TcpConnection_shutdown (ch_conns s i)) (\<lambda>c. Inr (s\<lparr>ch_conns := (ch_conns s)(i := c)\<rparr>))) (chat_handle write i es)"

text \<open>
  The message callback of the server: the codec on the input of the connection. What it calls only sends, so the calls are made
  after the loop over the input.
\<close>

definition ChatServer_onMessage :: "write_fn \<Rightarrow> nat \<Rightarrow> chat \<Rightarrow> chat res option" where
  "ChatServer_onMessage write i s =
     (case LengthHeaderCodec_onMessage [] (inputBuffer (ch_conns s i)) of
        None \<Rightarrow> None
      | Some (Inl e) \<Rightarrow> Some (Inl e)
      | Some (Inr (es, b)) \<Rightarrow> Some (chat_handle write i es (s\<lparr>ch_conns := (ch_conns s)(i := (ch_conns s i)\<lparr>inputBuffer := b\<rparr>)\<rparr>)))"

section \<open>The codec as a decoder\<close>

function chat_decode :: "char list \<Rightarrow> chat_event list \<times> bool \<times> char list" where
  "chat_decode cs =
     (if length cs < 4 then ([], True, cs)
      else (let len = frame_len cs in
        if 65536 < len \<or> len < 0 then ([BadLength], False, cs)
        else if nat len + 4 \<le> length cs
        then (case chat_decode (drop (nat len + 4) cs) of (ev, fine, r) \<Rightarrow> (Message (take (nat len) (drop 4 cs)) # ev, fine, r))
        else ([], True, cs)))"
  by pat_completeness auto
termination
  by (relation "measure length") auto

declare chat_decode.simps [simp del]

definition chat_frame :: "string \<Rightarrow> char list" where
  "chat_frame m = be_bytes 4 (length m) @ m"

definition chat_sendable :: "string \<Rightarrow> bool" where
  "chat_sendable m \<longleftrightarrow> length m \<le> 65536"

lemma chat_decode_append:
  "chat_decode (cs @ ds) = (case chat_decode cs of (ev, fine, rest) \<Rightarrow>
     if fine then (case chat_decode (rest @ ds) of (ev', fine', r) \<Rightarrow> (ev @ ev', fine', r)) else (ev, False, rest @ ds))"
proof (induction cs rule: chat_decode.induct)
  case (1 cs)
  let ?len = "frame_len cs"
  consider (short) "length cs < 4" | (bad) "4 \<le> length cs" "65536 < ?len \<or> ?len < 0"
    | (part) "4 \<le> length cs" "\<not> (65536 < ?len \<or> ?len < 0)" "length cs < nat ?len + 4"
    | (whole) "4 \<le> length cs" "\<not> (65536 < ?len \<or> ?len < 0)" "nat ?len + 4 \<le> length cs"
    by linarith
  then show ?case
  proof cases
    case short
    then have "chat_decode cs = ([], True, cs)"
      by (simp add: chat_decode.simps [of cs])
    then show ?thesis
      by (simp split: prod.split)
  next
    case bad
    then show ?thesis
      by (simp add: chat_decode.simps [of cs] chat_decode.simps [of "cs @ ds"] Let_def frame_len_append)
  next
    case part
    then have "chat_decode cs = ([], True, cs)"
      by (simp add: chat_decode.simps [of cs] Let_def)
    then show ?thesis
      by (simp split: prod.split)
  next
    case whole
    have len: "frame_len (cs @ ds) = ?len"
      by (rule frame_len_append [OF whole(1)])
    have one: "chat_decode cs = (case chat_decode (drop (nat ?len + 4) cs) of (ev, fine, r) \<Rightarrow> (Message (take (nat ?len) (drop 4 cs)) # ev, fine, r))"
      using whole by (subst chat_decode.simps) (simp add: Let_def)
    have two: "chat_decode (cs @ ds) = (case chat_decode (drop (nat ?len + 4) cs @ ds) of (ev, fine, r) \<Rightarrow> (Message (take (nat ?len) (drop 4 cs)) # ev, fine, r))"
      using whole len by (subst chat_decode.simps) (simp add: Let_def)
    show ?thesis
      using "1.IH" [OF _ refl whole(2,3)] whole(1) unfolding one two by (auto split: prod.splits)
  qed
qed

lemma chat_decode_nil: "chat_decode [] = ([], True, [])"
  by (simp add: chat_decode.simps)

lemma chat_decode_frame:
  assumes "chat_sendable m"
  shows "chat_decode (chat_frame m) = ([Message m], True, [])"
proof -
  have n: "length m \<le> 65536"
    using assms by (simp add: chat_sendable_def)
  have "be_val (be_bytes 4 (length m)) = length m"
    using n by (intro be_val_bytes) simp
  then have "frame_len (chat_frame m) = int (length m)"
    using sint_small [of "length m"] n by (simp add: frame_len_def chat_frame_def)
  then show ?thesis
    using n by (subst chat_decode.simps) (simp add: chat_frame_def Let_def chat_decode_nil)
qed

lemma chat_onMessage_decode:
  "Buffer_wf b \<Longrightarrow> \<exists>b'. LengthHeaderCodec_onMessage acc b = Some (Inr (acc @ fst (chat_decode (Buffer_content b)), b')) \<and>
     Buffer_wf b' \<and> Buffer_content b' = snd (snd (chat_decode (Buffer_content b))) \<and> Buffer_cap b' = Buffer_cap b"
proof (induction "length (Buffer_content b)" arbitrary: b acc rule: less_induct)
  case less
  note wf = less.prems
  let ?cs = "Buffer_content b" and ?len = "frame_len (Buffer_content b)"
  have readable: "Buffer_readableBytes b = length ?cs"
    by (rule readable_content [OF wf])
  show ?case
  proof (cases "length ?cs < 4")
    case True
    then show ?thesis
      using wf readable by (simp add: LengthHeaderCodec_onMessage.simps [of acc b] chat_decode.simps [of ?cs])
  next
    case False
    then have peek: "Buffer_peekInt32 b = Inr (of_nat (be_val (take 4 ?cs)))"
      by (intro Buffer_peekInt_be(2) [OF wf]) simp
    note unfold = LengthHeaderCodec_onMessage.simps [of acc b] chat_decode.simps [of ?cs] peek
    show ?thesis
    proof (cases "(65536 < ?len \<or> ?len < 0) \<or> length ?cs < nat ?len + 4")
      case True
      then show ?thesis
        using False wf readable by (auto simp: unfold Let_def frame_len_def)
    next
      case whole: False
      then have n: "4 \<le> length ?cs" "nat ?len + 4 \<le> length ?cs" "\<not> (65536 < ?len \<or> ?len < 0)"
        using False by auto
      obtain b1 where b1: "Buffer_retrieve b 4 = Inr b1" "Buffer_wf b1" "Buffer_content b1 = drop 4 ?cs" "Buffer_cap b1 = Buffer_cap b"
        using Buffer_retrieve_ok [OF wf n(1)] by blast
      have len1: "nat ?len \<le> length (Buffer_content b1)"
        using b1(3) n(2) by simp
      obtain b2 where b2: "Buffer_retrieve b1 (nat ?len) = Inr b2" "Buffer_wf b2" "Buffer_content b2 = drop (nat ?len + 4) ?cs" "Buffer_cap b2 = Buffer_cap b"
        using Buffer_retrieve_ok [OF b1(2) len1] b1(3,4) by (auto simp: add.commute)
      have msg: "mem_read (buffer b1) (Buffer_peek b1) (nat ?len) = Inr (take (nat ?len) (drop 4 ?cs))"
        using Buffer_mem_read [OF b1(2) len1] b1(3) by simp
      have "length (Buffer_content b2) < length ?cs"
        using b2(3) n(1) by simp
      note ih = less.hyps [OF this b2(2), of "acc @ [Message (take (nat ?len) (drop 4 ?cs))]"]
      have code: "LengthHeaderCodec_onMessage acc b = LengthHeaderCodec_onMessage (acc @ [Message (take (nat ?len) (drop 4 ?cs))]) b2"
        unfolding unfold(1) using False n readable peek b1(1) b2(1) msg by (simp add: Let_def flip: frame_len_def)
      have spec: "chat_decode ?cs = (case chat_decode (drop (nat ?len + 4) ?cs) of (ev, fine, r) \<Rightarrow> (Message (take (nat ?len) (drop 4 ?cs)) # ev, fine, r))"
        using n by (subst chat_decode.simps) (simp add: Let_def)
      show ?thesis
        using ih unfolding code spec b2(3,4) by (simp add: case_prod_beta)
    qed
  qed
qed

interpretation chat: buffer_decoder chat_decode chat_frame Message chat_sendable "LengthHeaderCodec_onMessage []"
proof unfold_locales
  show "chat_decode (cs @ ds) = (case chat_decode cs of (ev, fine, rest) \<Rightarrow>
      if fine then (case chat_decode (rest @ ds) of (ev', fine', r) \<Rightarrow> (ev @ ev', fine', r)) else (ev, False, rest @ ds))" for cs ds
    by (rule chat_decode_append)
  show "chat_decode [] = ([], True, [])"
    by (rule chat_decode_nil)
  show "chat_sendable m \<Longrightarrow> chat_decode (chat_frame m) = ([Message m], True, [])" for m
    by (rule chat_decode_frame)
  show "decodes (LengthHeaderCodec_onMessage []) chat_decode"
    unfolding decodes_def using chat_onMessage_decode [of _ "[]"] by simp
qed

section \<open>Sending to all\<close>

lemma length_chat_frame [simp]: "length (chat_frame m) = length m + 4"
  by (simp add: chat_frame_def)

lemma chat_send_ok:
  assumes "conn_inv c" "connState c = kConnected" "write_contract w" "peer_alive w" "chat_sendable m" "conn_cap c + length (chat_frame m) \<le> vec_max"
  shows "\<exists>c'. LengthHeaderCodec_send w m c = Inr c' \<and> conn_inv c' \<and> connState c' = kConnected \<and> conn_stream c' = conn_stream c @ chat_frame m \<and>
    inputBuffer c' = inputBuffer c \<and> conn_cap c' \<le> conn_cap c + length (chat_frame m)"
proof -
  have len: "length m \<le> 65536"
    using assms(5) by (simp add: chat_sendable_def)
  obtain b0 where b0: "Buffer_new kInitialSize = Inr b0" "Buffer_wf b0" "Buffer_content b0 = []" "Buffer_cap b0 = 1032" "readerIndex b0 = kCheapPrepend"
    using Buffer_new_ok [of kInitialSize] by (auto simp: kInitialSize_def kCheapPrepend_def vec_max_def)
  obtain b1 where b1: "Buffer_append b0 m = Inr b1" "Buffer_wf b1" "Buffer_content b1 = m"
    using Buffer_append_ok [OF b0(2), of m] b0(3,4) len by (auto simp: vec_max_def)
  have pre: "kCheapPrepend \<le> readerIndex b1"
    using append_prefix [OF b1(1)] b0(5) by simp
  have "unat (of_nat (length m) :: 32 word) = length m"
    using len by (simp only: unat_of_nat) (simp add: take_bit_nat_eq_self)
  then have head: "word_image 4 (hostToNetwork32 (of_nat (length m))) = be_bytes 4 (length m)"
    by (simp add: hostToNetwork_image)
  obtain b2 where b2: "Buffer_prepend b1 (be_bytes 4 (length m)) = Inr b2" "Buffer_wf b2" "Buffer_content b2 = chat_frame m"
    using Buffer_prepend_ok [OF b1(2), of "be_bytes 4 (length m)"] pre b1(3) by (auto simp: kCheapPrepend_def chat_frame_def)
  then show ?thesis
    using sendBuffer_ok [OF assms(1-4) b2(2)] assms(6) b0(1) b1(1) head by (auto simp: LengthHeaderCodec_send_def)
qed

text \<open>Connections that are up, with room for \<open>n\<close> more bytes in what they send.\<close>

definition up :: "nat \<Rightarrow> tcp_connection \<Rightarrow> bool" where
  "up n c \<longleftrightarrow> conn_inv c \<and> connState c = kConnected \<and> conn_cap c + n \<le> vec_max"

lemma send_each_ok:
  assumes "\<And>c k. up (n + k) c \<Longrightarrow> \<exists>c'. f c = Inr c' \<and> up k c' \<and> conn_stream c' = conn_stream c @ d \<and> inputBuffer c' = inputBuffer c"
  shows "distinct js \<Longrightarrow> \<forall>j\<in>set js. up (n + k) (cs j) \<Longrightarrow> \<exists>cs'. send_each f js cs = Inr cs' \<and>
    (\<forall>j\<in>set js. up k (cs' j) \<and> conn_stream (cs' j) = conn_stream (cs j) @ d \<and> inputBuffer (cs' j) = inputBuffer (cs j)) \<and> (\<forall>j. j \<notin> set js \<longrightarrow> cs' j = cs j)"
proof (induction js arbitrary: cs)
  case (Cons j js)
  obtain c where c: "f (cs j) = Inr c" "up k c" "conn_stream c = conn_stream (cs j) @ d" "inputBuffer c = inputBuffer (cs j)"
    using assms [of k "cs j"] Cons.prems(2) by auto
  have other: "(cs(j := c)) i = cs i" if "i \<in> set js" for i
    using that Cons.prems(1) by auto
  then have prem: "\<forall>i\<in>set js. up (n + k) ((cs(j := c)) i)"
    using Cons.prems(2) by simp
  obtain cs' where cs': "send_each f js (cs(j := c)) = Inr cs'"
      "\<forall>i\<in>set js. up k (cs' i) \<and> conn_stream (cs' i) = conn_stream ((cs(j := c)) i) @ d \<and> inputBuffer (cs' i) = inputBuffer ((cs(j := c)) i)"
      "\<forall>i. i \<notin> set js \<longrightarrow> cs' i = (cs(j := c)) i"
  proof -
    have "distinct js"
      using Cons.prems(1) by simp
    from Cons.IH [OF this prem] show thesis
      using that by blast
  qed
  have "cs' j = c"
    using cs'(3) Cons.prems(1) by simp
  moreover have "\<forall>i\<in>set js. up k (cs' i) \<and> conn_stream (cs' i) = conn_stream (cs i) @ d \<and> inputBuffer (cs' i) = inputBuffer (cs i)"
    using cs'(2) other by metis
  ultimately show ?case
    using c cs'(1,3) by (intro exI [of _ cs']) simp
qed simp

lemma broadcast_ok:
  assumes "write_contract w" "peer_alive w" "list_all chat_sendable ms" "distinct (ch_connections s)"
    "\<forall>j\<in>set (ch_connections s). up (length (concat (map chat_frame ms)) + k) (ch_conns s j)"
  shows "\<exists>s'. chat_handle w i (map Message ms) s = Inr s' \<and> ch_connections s' = ch_connections s \<and>
    (\<forall>j\<in>set (ch_connections s). up k (ch_conns s' j) \<and> conn_stream (ch_conns s' j) = conn_stream (ch_conns s j) @ concat (map chat_frame ms) \<and>
       inputBuffer (ch_conns s' j) = inputBuffer (ch_conns s j))"
  using assms(3-5)
proof (induction ms arbitrary: s)
  case (Cons m ms)
  let ?k = "length (concat (map chat_frame ms)) + k"
  have send: "\<exists>c'. LengthHeaderCodec_send w m c = Inr c' \<and> up k' c' \<and> conn_stream c' = conn_stream c @ chat_frame m \<and> inputBuffer c' = inputBuffer c"
    if "up (length (chat_frame m) + k') c" for c k'
    using chat_send_ok [of c w m] that Cons.prems(1) assms(1,2) by (fastforce simp: up_def)
  obtain cs where cs: "send_each (LengthHeaderCodec_send w m) (ch_connections s) (ch_conns s) = Inr cs"
      "\<forall>j\<in>set (ch_connections s). up ?k (cs j) \<and> conn_stream (cs j) = conn_stream (ch_conns s j) @ chat_frame m \<and> inputBuffer (cs j) = inputBuffer (ch_conns s j)"
  proof -
    have "\<forall>j\<in>set (ch_connections s). up (length (chat_frame m) + ?k) (ch_conns s j)"
      using Cons.prems(3) by (simp add: add.assoc)
    from send_each_ok [where f = "LengthHeaderCodec_send w m" and n = "length (chat_frame m)" and k = ?k, OF send Cons.prems(2) this] show thesis
      using that by blast
  qed
  obtain s' where "chat_handle w i (map Message ms) (s\<lparr>ch_conns := cs\<rparr>) = Inr s'" "ch_connections s' = ch_connections s"
      "\<forall>j\<in>set (ch_connections s). up k (ch_conns s' j) \<and> conn_stream (ch_conns s' j) = conn_stream (cs j) @ concat (map chat_frame ms) \<and>
         inputBuffer (ch_conns s' j) = inputBuffer (cs j)"
    using Cons.IH [of "s\<lparr>ch_conns := cs\<rparr>"] Cons.prems cs(2) by auto
  then show ?case
    using cs by (simp add: ChatServer_onStringMessage_def)
qed simp

section \<open>One order for all\<close>

text \<open>A sequence of reads: each appends to the input of a connection and runs the message callback.\<close>

primrec chat_reads :: "write_fn \<Rightarrow> (nat \<times> char list) list \<Rightarrow> chat \<Rightarrow> chat res option" where
  "chat_reads w [] s = Some (Inr s)"
| "chat_reads w (r # rs) s =
     (case Buffer_append (inputBuffer (ch_conns s (fst r))) (snd r) of
        Inl e \<Rightarrow> Some (Inl e)
      | Inr b \<Rightarrow> (case ChatServer_onMessage w (fst r) (s\<lparr>ch_conns := (ch_conns s)(fst r := (ch_conns s (fst r))\<lparr>inputBuffer := b\<rparr>)\<rparr>) of
           Some (Inr s1) \<Rightarrow> chat_reads w rs s1
         | x \<Rightarrow> x))"

definition of_conn :: "nat \<Rightarrow> (nat \<times> 'a) list \<Rightarrow> 'a list" where
  "of_conn i rs = map snd (filter (\<lambda>r. fst r = i) rs)"

lemma of_conn_simps [simp]:
  "of_conn i [] = []" "of_conn i (r # rs) = (if fst r = i then [snd r] else []) @ of_conn i rs" "of_conn i (rs @ rs') = of_conn i rs @ of_conn i rs'"
  "of_conn i (map (Pair j) xs) = (if i = j then xs else [])"
  by (auto simp: of_conn_def comp_def)

definition chat_text :: "string list \<Rightarrow> char list" where
  "chat_text ms = concat (map chat_frame ms)"

text \<open>What is still to come of every connection: \<open>msgs i\<close> are the messages of connection \<open>i\<close> that are not complete yet.\<close>

definition chat_ready :: "(nat \<times> char list) list \<Rightarrow> (nat \<Rightarrow> string list) \<Rightarrow> chat \<Rightarrow> bool" where
  "chat_ready rs msgs s \<longleftrightarrow> distinct (ch_connections s) \<and> (\<forall>r\<in>set rs. fst r \<in> set (ch_connections s)) \<and>
     (\<forall>i\<in>set (ch_connections s). list_all chat_sendable (msgs i) \<and>
        chat_decode (Buffer_content (inputBuffer (ch_conns s i))) = ([], True, Buffer_content (inputBuffer (ch_conns s i))) \<and>
        chat_decode (Buffer_content (inputBuffer (ch_conns s i)) @ concat (of_conn i rs)) = (map Message (msgs i), True, []) \<and>
        Buffer_cap (inputBuffer (ch_conns s i)) + length (concat (map snd rs)) \<le> vec_max \<and>
        up (\<Sum>k\<in>set (ch_connections s). length (chat_text (msgs k))) (ch_conns s i))"

lemma up_input: "up n c \<Longrightarrow> Buffer_wf b \<Longrightarrow> up n (c\<lparr>inputBuffer := b\<rparr>)" "up n c \<Longrightarrow> Buffer_wf (inputBuffer c)"
  by (auto simp: up_def conn_inv_def conn_ok_def conn_cap_def)

lemma stream_input [simp]: "conn_stream (c\<lparr>inputBuffer := b\<rparr>) = conn_stream c"
  by (simp add: conn_stream_def)

lemma total_split:
  assumes "finite S" "i \<in> S" "msgs i = a @ rest"
  shows "(\<Sum>k\<in>S. length (chat_text (msgs k))) = length (chat_text a) + (\<Sum>k\<in>S. length (chat_text ((msgs(i := rest)) k)))"
  using assms by (simp add: sum.remove [of S i] chat_text_def)

text \<open>What a read completes.\<close>

lemma read_completes:
  assumes "chat_decode (content @ d @ fut) = (map Message ms, True, [])"
  shows "\<exists>a rest more. chat_decode (content @ d) = (map Message a, True, more) \<and> ms = a @ rest \<and> chat_decode more = ([], True, more) \<and>
    chat_decode (more @ fut) = (map Message rest, True, [])"
proof -
  obtain ev fine more where first: "chat_decode (content @ d) = (ev, fine, more)"
    by (cases "chat_decode (content @ d)") auto
  obtain ev' fine' r where second: "chat_decode (more @ fut) = (ev', fine', r)"
    by (cases "chat_decode (more @ fut)") auto
  have "fine" "map Message ms = ev @ ev'" "fine'" "r = []"
    using chat_decode_append [of "content @ d" fut] assms first second by (auto split: if_splits)
  then obtain a rest where "ms = a @ rest" "ev = map Message a" "ev' = map Message rest"
    by (auto simp: map_eq_append_conv)
  then show ?thesis
    using first second \<open>fine\<close> \<open>fine'\<close> \<open>r = []\<close> chat.dec_rest [of "content @ d" ev more] by auto
qed

lemma one_read:
  assumes "write_contract w" "peer_alive w" "chat_ready (r # rs) msgs s"
  shows "\<exists>b s1 a rest. Buffer_append (inputBuffer (ch_conns s (fst r))) (snd r) = Inr b \<and>
    ChatServer_onMessage w (fst r) (s\<lparr>ch_conns := (ch_conns s)(fst r := (ch_conns s (fst r))\<lparr>inputBuffer := b\<rparr>)\<rparr>) = Some (Inr s1) \<and>
    msgs (fst r) = a @ rest \<and> ch_connections s1 = ch_connections s \<and> chat_ready rs (msgs(fst r := rest)) s1 \<and>
    (\<forall>j\<in>set (ch_connections s). conn_stream (ch_conns s1 j) = conn_stream (ch_conns s j) @ chat_text a)"
proof -
  define i d c S where "i = fst r" and "d = snd r" and "c = ch_conns s i" and "S = set (ch_connections s)"
  have i: "i \<in> S" "finite S" and dist: "distinct (ch_connections s)"
    using assms(3) by (simp_all add: chat_ready_def i_def S_def)
  have ready: "list_all chat_sendable (msgs i)" "chat_decode (Buffer_content (inputBuffer c) @ d @ concat (of_conn i rs)) = (map Message (msgs i), True, [])"
      "Buffer_cap (inputBuffer c) + length d + length (concat (map snd rs)) \<le> vec_max" "up (\<Sum>k\<in>S. length (chat_text (msgs k))) c"
    using assms(3) i(1) by (auto simp: chat_ready_def i_def d_def c_def S_def)
  obtain b where b: "Buffer_append (inputBuffer c) d = Inr b" "Buffer_wf b" "Buffer_content b = Buffer_content (inputBuffer c) @ d"
      "Buffer_cap b \<le> Buffer_cap (inputBuffer c) + length d"
    using Buffer_append_ok [OF up_input(2) [OF ready(4)], of d] ready(3) by auto
  obtain a rest more where got: "chat_decode (Buffer_content b) = (map Message a, True, more)" "msgs i = a @ rest" "chat_decode more = ([], True, more)"
      "chat_decode (more @ concat (of_conn i rs)) = (map Message rest, True, [])"
    using read_completes [OF ready(2)] b(3) by auto
  obtain b' where b': "LengthHeaderCodec_onMessage [] b = Some (Inr (map Message a, b'))" "Buffer_wf b'" "Buffer_content b' = more" "Buffer_cap b' = Buffer_cap b"
    using chat_onMessage_decode [OF b(2), of "[]"] got(1) by auto
  define s0 where "s0 = s\<lparr>ch_conns := (ch_conns s)(i := c\<lparr>inputBuffer := b'\<rparr>)\<rparr>"
  let ?k = "\<Sum>k\<in>S. length (chat_text ((msgs(i := rest)) k))"
  have total: "(\<Sum>k\<in>S. length (chat_text (msgs k))) = length (concat (map chat_frame a)) + ?k"
    using total_split [where msgs = msgs, OF i(2,1) got(2)] by (simp add: chat_text_def)
  have ups: "up (\<Sum>k\<in>S. length (chat_text (msgs k))) (ch_conns s j)" if "j \<in> S" for j
    using assms(3) that by (simp add: chat_ready_def S_def)
  have ok0: "\<forall>j\<in>set (ch_connections s0). up (length (concat (map chat_frame a)) + ?k) (ch_conns s0 j)"
    using ups up_input(1) [OF ready(4) b'(2)] unfolding total by (simp add: s0_def S_def)
  obtain s1 where s1: "chat_handle w i (map Message a) s0 = Inr s1" "ch_connections s1 = ch_connections s0"
      "\<forall>j\<in>set (ch_connections s0). up ?k (ch_conns s1 j) \<and> conn_stream (ch_conns s1 j) = conn_stream (ch_conns s0 j) @ concat (map chat_frame a) \<and>
         inputBuffer (ch_conns s1 j) = inputBuffer (ch_conns s0 j)"
    using broadcast_ok [OF assms(1,2) _ _ ok0] ready(1) dist got(2) by (auto simp: s0_def)
  have onm: "ChatServer_onMessage w i (s\<lparr>ch_conns := (ch_conns s)(i := c\<lparr>inputBuffer := b\<rparr>)\<rparr>) = Some (Inr s1)"
    using b'(1) s1(1) by (simp add: ChatServer_onMessage_def s0_def)
  have streams: "\<forall>j\<in>S. conn_stream (ch_conns s1 j) = conn_stream (ch_conns s j) @ chat_text a"
    using s1(3) by (simp add: s0_def S_def c_def chat_text_def)
  have "list_all chat_sendable ((msgs(i := rest)) j) \<and>
      chat_decode (Buffer_content (inputBuffer (ch_conns s1 j))) = ([], True, Buffer_content (inputBuffer (ch_conns s1 j))) \<and>
      chat_decode (Buffer_content (inputBuffer (ch_conns s1 j)) @ concat (of_conn j rs)) = (map Message ((msgs(i := rest)) j), True, []) \<and>
      Buffer_cap (inputBuffer (ch_conns s1 j)) + length (concat (map snd rs)) \<le> vec_max \<and> up ?k (ch_conns s1 j)" if j: "j \<in> S" for j
  proof (cases "j = i")
    case True
    have "inputBuffer (ch_conns s1 i) = b'"
      using s1(3) i(1) by (simp add: s0_def S_def)
    then show ?thesis
      using True got(2-4) b'(3,4) b(4) ready(1,3) s1(3) i(1) by (simp add: s0_def S_def)
  next
    case False
    have "inputBuffer (ch_conns s1 j) = inputBuffer (ch_conns s j)"
      using s1(3) j False by (simp add: s0_def S_def)
    then show ?thesis
      using False assms(3) j s1(3) by (auto simp: chat_ready_def s0_def S_def i_def)
  qed
  then have "chat_ready rs (msgs(i := rest)) s1"
    using assms(3) s1(2) by (simp add: chat_ready_def s0_def S_def)
  then show ?thesis
    using b(1) onm got(2) s1(2) streams unfolding i_def d_def c_def S_def s0_def
    by (intro exI [of _ b] exI [of _ s1] exI [of _ a] exI [of _ rest]) simp
qed

lemma reads_ok:
  assumes "write_contract w" "peer_alive w"
  shows "chat_ready rs msgs s \<Longrightarrow> \<exists>s' log. chat_reads w rs s = Some (Inr s') \<and> (\<forall>i\<in>set (ch_connections s). of_conn i log = msgs i) \<and>
    (\<forall>j\<in>set (ch_connections s). conn_stream (ch_conns s' j) = conn_stream (ch_conns s j) @ chat_text (map snd log))"
proof (induction rs arbitrary: s msgs)
  case Nil
  have "msgs i = []" if "i \<in> set (ch_connections s)" for i
    using Nil that by (auto simp: chat_ready_def)
  then show ?case
    by (intro exI [of _ s] exI [of _ "[]"]) (simp add: chat_text_def)
next
  case (Cons r rs)
  obtain b s1 a rest where one: "Buffer_append (inputBuffer (ch_conns s (fst r))) (snd r) = Inr b"
      "ChatServer_onMessage w (fst r) (s\<lparr>ch_conns := (ch_conns s)(fst r := (ch_conns s (fst r))\<lparr>inputBuffer := b\<rparr>)\<rparr>) = Some (Inr s1)"
      "msgs (fst r) = a @ rest" "ch_connections s1 = ch_connections s" "chat_ready rs (msgs(fst r := rest)) s1"
      "\<forall>j\<in>set (ch_connections s). conn_stream (ch_conns s1 j) = conn_stream (ch_conns s j) @ chat_text a"
    using one_read [OF assms Cons.prems] by blast
  obtain s' log where two: "chat_reads w rs s1 = Some (Inr s')" "\<forall>i\<in>set (ch_connections s). of_conn i log = (msgs(fst r := rest)) i"
      "\<forall>j\<in>set (ch_connections s). conn_stream (ch_conns s' j) = conn_stream (ch_conns s1 j) @ chat_text (map snd log)"
    using Cons.IH [OF one(5)] one(4) by auto
  have "chat_reads w (r # rs) s = Some (Inr s')"
    using one(1,2) two(1) by simp
  moreover have "\<forall>i\<in>set (ch_connections s). of_conn i (map (Pair (fst r)) a @ log) = msgs i"
    using two(2) one(3) by simp
  moreover have "\<forall>j\<in>set (ch_connections s). conn_stream (ch_conns s' j) = conn_stream (ch_conns s j) @ chat_text (map snd (map (Pair (fst r)) a @ log))"
    using two(3) one(6) by (simp add: chat_text_def comp_def)
  ultimately show ?case by blast
qed

text \<open>
  C27. The chat server delivers in one order. When the connections send messages behind their length headers and the
  server reads the streams in any pieces and any interleaving, every call returns and there is one sequence of all the messages,
  with the messages of each sender in the order it sent them, of which every connection is sent exactly the frames, in that
  order, after what it was sent before.
\<close>

theorem ChatServer_total_order:
  assumes "write_contract w" "peer_alive w" "distinct (ch_connections s)" "\<forall>r\<in>set reads. fst r \<in> set (ch_connections s)"
    "\<forall>i\<in>set (ch_connections s). list_all chat_sendable (msgs i) \<and> concat (of_conn i reads) = chat_text (msgs i) \<and>
       Buffer_content (inputBuffer (ch_conns s i)) = [] \<and> Buffer_cap (inputBuffer (ch_conns s i)) + length (concat (map snd reads)) \<le> vec_max \<and>
       conn_inv (ch_conns s i) \<and> connState (ch_conns s i) = kConnected \<and>
       conn_cap (ch_conns s i) + (\<Sum>k\<in>set (ch_connections s). length (chat_text (msgs k))) \<le> vec_max"
  shows "\<exists>s' log. chat_reads w reads s = Some (Inr s') \<and> (\<forall>i\<in>set (ch_connections s). of_conn i log = msgs i) \<and>
    (\<forall>j\<in>set (ch_connections s). conn_stream (ch_conns s' j) = conn_stream (ch_conns s j) @ chat_text (map snd log))"
proof -
  have "chat_decode (chat_text (msgs i)) = (map Message (msgs i), True, [])" if "i \<in> set (ch_connections s)" for i
    using chat.dec_frames [of "msgs i"] assms(5) that by (simp add: chat_text_def)
  then have "chat_ready reads msgs s"
    using assms(3-5) by (simp add: chat_ready_def up_def chat_decode_nil)
  then show ?thesis
    by (rule reads_ok [OF assms(1,2)])
qed

lemma demo_chat_frames: "chat_frame ''b'' = [CHR 0x00, CHR 0x00, CHR 0x00, CHR 0x01] @ ''b''" "chat_frame ''hi'' = [CHR 0x00, CHR 0x00, CHR 0x00, CHR 0x02] @ ''hi''"
  by code_simp+

theorem ChatServer_total_order_witness:
  "\<exists>c s'. chat_reads (write_room 9) [(1, [CHR 0x00, CHR 0x00, CHR 0x00]), (0, [CHR 0x00, CHR 0x00, CHR 0x00, CHR 0x01] @ ''b''), (1, [CHR 0x02] @ ''hi'')]
       \<lparr>ch_conns = \<lambda>_. c, ch_connections = [0, 1]\<rparr> = Some (Inr s') \<and>
     conn_stream c = [] \<and> conn_stream (ch_conns s' 0) = conn_stream (ch_conns s' 1)"
proof -
  let ?reads = "[(1, [CHR 0x00, CHR 0x00, CHR 0x00]), (0, [CHR 0x00, CHR 0x00, CHR 0x00, CHR 0x01] @ ''b''), (1, [CHR 0x02] @ ''hi'')]"
  obtain c where c: "conn_inv c" "connState c = kConnected" "conn_stream c = []" "Buffer_content (inputBuffer c) = []" "conn_cap c = 1032"
    using fresh_with_input [of "[]"] by auto
  obtain b where b: "Buffer_wf b" "Buffer_content b = []" "Buffer_cap b \<le> 1032"
    using buffer_of [of "[]"] by (auto simp: vec_max_def)
  define c' where "c' = c\<lparr>inputBuffer := b\<rparr>"
  have conn: "conn_inv c'" "connState c' = kConnected" "conn_cap c' = 1032" "inputBuffer c' = b" "conn_stream c' = []"
    using c(1-3,5) b(1) by (auto simp: c'_def conn_inv_def conn_ok_def conn_cap_def)
  let ?s = "\<lparr>ch_conns = \<lambda>_. c', ch_connections = [0, 1]\<rparr>" and ?msgs = "\<lambda>i. if i = 0 then [''b''] else [''hi'']"
  have texts: "chat_text [''b''] = [CHR 0x00, CHR 0x00, CHR 0x00, CHR 0x01] @ ''b''" "chat_text [''hi''] = [CHR 0x00, CHR 0x00, CHR 0x00, CHR 0x02] @ ''hi''"
    by (simp_all add: chat_text_def demo_chat_frames)
  have zero: "concat (of_conn 0 ?reads) = chat_text [''b'']" and one: "concat (of_conn 1 ?reads) = chat_text [''hi'']"
    by (simp_all add: texts)
  have total: "(\<Sum>k\<in>{0, 1 :: nat}. length (chat_text (?msgs k))) = 11" and size: "length (concat (map snd ?reads)) = 11"
    by (simp_all add: texts)
  have sendable: "chat_sendable ''b''" "chat_sendable ''hi''"
    by (simp_all add: chat_sendable_def)
  have ready: "\<forall>i\<in>set (ch_connections ?s). list_all chat_sendable (?msgs i) \<and> concat (of_conn i ?reads) = chat_text (?msgs i) \<and>
       Buffer_content (inputBuffer (ch_conns ?s i)) = [] \<and> Buffer_cap (inputBuffer (ch_conns ?s i)) + length (concat (map snd ?reads)) \<le> vec_max \<and>
       conn_inv (ch_conns ?s i) \<and> connState (ch_conns ?s i) = kConnected \<and>
       conn_cap (ch_conns ?s i) + (\<Sum>k\<in>set (ch_connections ?s). length (chat_text (?msgs k))) \<le> vec_max"
    unfolding size using conn b(2,3) zero one total sendable by (simp add: vec_max_def del: of_conn_simps)
  obtain s' and log :: "(nat \<times> string) list" where "chat_reads (write_room 9) ?reads ?s = Some (Inr s')"
      "\<forall>j\<in>set (ch_connections ?s). conn_stream (ch_conns s' j) = conn_stream (ch_conns ?s j) @ chat_text (map snd log)"
  proof -
    have "distinct (ch_connections ?s)" "\<forall>r\<in>set ?reads. fst r \<in> set (ch_connections ?s)"
      by simp_all
    from ChatServer_total_order [OF write_room_contract [of 9] this ready] show thesis
      using that by blast
  qed
  then show ?thesis
    using conn(5) by (intro exI [of _ c'] exI [of _ s']) (simp del: chat_reads.simps)
qed

end
