(* ===== verification/Base_LogFile.thy ===== *)
theory Base_LogFile
  imports Base_TimeZone
begin

text \<open>
  \<^verbatim>\<open>muduo/base/FileUtil.cc\<close> and \<^verbatim>\<open>LogFile.cc\<close>: files that are appended to, files that are read whole, and the log file that
  rolls over to a new one by size and by day. What \<^verbatim>\<open>fwrite\<close>, \<^verbatim>\<open>read\<close>, \<^verbatim>\<open>fopen\<close> and the clock answer are arguments; an
  open file keeps the bytes its stream accepted, and a \<^verbatim>\<open>LogFile\<close> keeps the files it closed.
\<close>

section \<open>Appending\<close>

record append_file =
  af_name :: string
  af_text :: "char list"
  af_flushed :: nat
  writtenBytes :: nat

type_synonym fwrite_fn = "char list \<Rightarrow> nat"

definition AppendFile_new :: "(string \<Rightarrow> bool) \<Rightarrow> string \<Rightarrow> append_file res" where
  "AppendFile_new fopen filename =
     c_assert (fopen filename) (Inr \<lparr>af_name = filename, af_text = [], af_flushed = 0, writtenBytes = 0\<rparr>)"

definition AppendFile_write :: "fwrite_fn \<Rightarrow> char list \<Rightarrow> append_file \<Rightarrow> nat \<times> append_file" where
  "AppendFile_write fwrite logline f =
     (let n = min (fwrite logline) (length logline) in (n, f\<lparr>af_text := af_text f @ take n logline\<rparr>))"

function AppendFile_loop :: "fwrite_fn \<Rightarrow> char list \<Rightarrow> nat \<Rightarrow> append_file \<Rightarrow> append_file" where
  "AppendFile_loop fwrite logline n f =
     (let remain = length logline - n in
      if 0 < remain
      then (case AppendFile_write fwrite (drop n logline) f of (x, f') \<Rightarrow>
              if x = 0 then f' else AppendFile_loop fwrite logline (n + x) f')
      else f)"
  by pat_completeness auto
termination
  by (relation "measure (\<lambda>(fwrite, logline, n, f). length logline - n)") (auto simp: AppendFile_write_def Let_def)

declare AppendFile_loop.simps [simp del]

definition AppendFile_append :: "fwrite_fn \<Rightarrow> char list \<Rightarrow> append_file \<Rightarrow> append_file" where
  "AppendFile_append fwrite logline f =
     (case AppendFile_write fwrite logline f of (n, f1) \<Rightarrow>
        (let f2 = AppendFile_loop fwrite logline n f1 in f2\<lparr>writtenBytes := writtenBytes f2 + length logline\<rparr>))"

definition AppendFile_flush :: "append_file \<Rightarrow> append_file" where
  "AppendFile_flush f = f\<lparr>af_flushed := length (af_text f)\<rparr>"

text \<open>\<^verbatim>\<open>fclose\<close> writes out what is buffered.\<close>

definition AppendFile_delete :: "append_file \<Rightarrow> append_file" where
  "AppendFile_delete f = AppendFile_flush f"

section \<open>Reading whole files\<close>

datatype read_outcome = RBytes "char list" | RError errno

datatype file_kind = Regular | Directory | OtherKind

record file_stat =
  st_kind :: file_kind
  st_size :: int
  st_mtime :: int
  st_ctime :: int

record small_file =
  sf_open :: bool
  sf_err :: errno
  sf_buf :: "char list"

definition kBufferSize :: nat where
  "kBufferSize = 64 * 1024"

definition ReadSmallFile_new :: "errno + unit \<Rightarrow> small_file" where
  "ReadSmallFile_new opened =
     (case opened of
        Inr _ \<Rightarrow> \<lparr>sf_open = True, sf_err = NoError, sf_buf = replicate kBufferSize (CHR 0x00)\<rparr>
      | Inl e \<Rightarrow> \<lparr>sf_open = False, sf_err = e, sf_buf = replicate kBufferSize (CHR 0x00)\<rparr>)"

text \<open>\<open>rd off n\<close> is what \<^verbatim>\<open>read\<close> delivers for \<open>n\<close> bytes when \<open>off\<close> bytes were read before.\<close>

function read_all :: "(nat \<Rightarrow> nat \<Rightarrow> read_outcome) \<Rightarrow> nat \<Rightarrow> errno \<Rightarrow> char list \<Rightarrow> errno \<times> char list" where
  "read_all rd maxSize err content =
     (if length content < maxSize
      then (let toRead = min (maxSize - length content) kBufferSize in
            case rd (length content) toRead of
              RBytes bs \<Rightarrow> if bs = [] then (err, content) else read_all rd maxSize err (content @ take toRead bs)
            | RError e \<Rightarrow> (e, content))
      else (err, content))"
  by pat_completeness auto
termination
  by (relation "measure (\<lambda>(rd, maxSize, err, content). maxSize - length content)") (auto simp: kBufferSize_def min_def neq_Nil_conv)

declare read_all.simps [simp del]

definition ReadSmallFile_readToString ::
  "(nat \<Rightarrow> nat \<Rightarrow> read_outcome) \<Rightarrow> (errno + file_stat) option \<Rightarrow> nat \<Rightarrow> char list \<Rightarrow> small_file \<Rightarrow> errno \<times> char list \<times> (int \<times> int \<times> int) option" where
  "ReadSmallFile_readToString rd fstat maxSize content sf =
     (if sf_open sf
      then (case fstat of
              None \<Rightarrow> (case read_all rd maxSize (sf_err sf) [] of (err, c) \<Rightarrow> (err, c, None))
            | Some (Inl e) \<Rightarrow> (case read_all rd maxSize e [] of (err, c) \<Rightarrow> (err, c, None))
            | Some (Inr st) \<Rightarrow>
                (case read_all rd maxSize (if st_kind st = Directory then OtherErrno 21 else sf_err sf) [] of
                   (err, c) \<Rightarrow> (err, c, Some (if st_kind st = Regular then st_size st else 0, st_mtime st, st_ctime st))))
      else (sf_err sf, content, None))"

definition ReadSmallFile_readToBuffer :: "(nat \<Rightarrow> read_outcome) \<Rightarrow> small_file \<Rightarrow> (errno \<times> nat option \<times> small_file) res" where
  "ReadSmallFile_readToBuffer pread sf =
     (if sf_open sf
      then (case pread (kBufferSize - 1) of
              RBytes bs \<Rightarrow> rbind (mem_write (sf_buf sf) 0 (take (kBufferSize - 1) bs @ [CHR 0x00])) (\<lambda>b.
                Inr (sf_err sf, Some (length (take (kBufferSize - 1) bs)), sf\<lparr>sf_buf := b\<rparr>))
            | RError e \<Rightarrow> Inr (e, None, sf))
      else Inr (sf_err sf, None, sf))"

definition readFile :: "errno + unit \<Rightarrow> (nat \<Rightarrow> nat \<Rightarrow> read_outcome) \<Rightarrow> nat \<Rightarrow> errno \<times> char list" where
  "readFile opened rd maxSize =
     (case ReadSmallFile_readToString rd None maxSize [] (ReadSmallFile_new opened) of (err, c, _) \<Rightarrow> (err, c))"

section \<open>The rolling log file\<close>

record log_file =
  lf_basename :: string
  rollSize :: nat
  flushInterval :: int
  checkEveryN :: int
  lf_count :: int
  startOfPeriod :: int
  lastRoll :: int
  lastFlush :: int
  lf_file :: "append_file option"
  lf_closed :: "append_file list"

definition kRollPerSeconds :: int where
  "kRollPerSeconds = 60 * 60 * 24"

text \<open>What the process and the file system contribute: the host, the process id and which files can be opened.\<close>

record log_env =
  hostname :: string
  pid :: int
  can_open :: "string \<Rightarrow> bool"
  fwrite :: fwrite_fn

definition LogFile_getLogFileName :: "log_env \<Rightarrow> string \<Rightarrow> int \<Rightarrow> string" where
  "LogFile_getLogFileName env base now =
     (let tm = gmtime_r now;
          timebuf = ''.'' @ show_int (tm_year tm + 1900) @ show_int_zero 2 (tm_mon tm + 1) @ show_int_zero 2 (tm_mday tm) @ ''-''
            @ show_int_zero 2 (tm_hour tm) @ show_int_zero 2 (tm_min tm) @ show_int_zero 2 (tm_sec tm) @ ''.''
      in base @ timebuf @ hostname env @ ''.'' @ show_int (pid env) @ ''.log'')"

definition period :: "int \<Rightarrow> int" where
  "period now = now sdiv kRollPerSeconds * kRollPerSeconds"

text \<open>\<^verbatim>\<open>file_.reset(new AppendFile)\<close> opens the new file and then closes the old one.\<close>

definition LogFile_rollFile :: "log_env \<Rightarrow> int \<Rightarrow> log_file \<Rightarrow> (bool \<times> log_file) res" where
  "LogFile_rollFile env now lf =
     (let filename = LogFile_getLogFileName env (lf_basename lf) now; start = period now in
      if lastRoll lf < now
      then rbind (AppendFile_new (can_open env) filename) (\<lambda>f.
           Inr (True, lf\<lparr>lastRoll := now, lastFlush := now, startOfPeriod := start, lf_file := Some f,
                  lf_closed := lf_closed lf @ (case lf_file lf of None \<Rightarrow> [] | Some old \<Rightarrow> [AppendFile_delete old])\<rparr>))
      else Inr (False, lf))"

definition LogFile_new :: "log_env \<Rightarrow> string \<Rightarrow> nat \<Rightarrow> int \<Rightarrow> int \<Rightarrow> int \<Rightarrow> log_file res" where
  "LogFile_new env base rs fi cn now =
     c_assert (CHR ''/'' \<notin> set base)
       (rbind (LogFile_rollFile env now \<lparr>lf_basename = base, rollSize = rs, flushInterval = fi, checkEveryN = cn, lf_count = 0,
          startOfPeriod = 0, lastRoll = 0, lastFlush = 0, lf_file = None, lf_closed = []\<rparr>) (\<lambda>(_, lf). Inr lf))"

text \<open>\<open>now\<close> is what \<^verbatim>\<open>time\<close> answers to \<^verbatim>\<open>append_unlocked\<close>, \<open>now'\<close> what it then answers to \<^verbatim>\<open>rollFile\<close>.\<close>

definition LogFile_append_unlocked :: "log_env \<Rightarrow> int \<Rightarrow> int \<Rightarrow> char list \<Rightarrow> log_file \<Rightarrow> log_file res" where
  "LogFile_append_unlocked env now now' logline lf =
     (case lf_file lf of
        None \<Rightarrow> Inl NullDeref
      | Some f0 \<Rightarrow>
          (let f = AppendFile_append (fwrite env) logline f0; lf1 = lf\<lparr>lf_file := Some f\<rparr> in
           if rollSize lf1 < writtenBytes f
           then rbind (LogFile_rollFile env now' lf1) (\<lambda>(_, lf2). Inr lf2)
           else (let lf2 = lf1\<lparr>lf_count := lf_count lf1 + 1\<rparr> in
                 if checkEveryN lf2 \<le> lf_count lf2
                 then (let lf3 = lf2\<lparr>lf_count := 0\<rparr>; thisPeriod = period now in
                       if thisPeriod \<noteq> startOfPeriod lf3
                       then rbind (LogFile_rollFile env now' lf3) (\<lambda>(_, lf4). Inr lf4)
                       else if flushInterval lf3 < now - lastFlush lf3
                       then Inr (lf3\<lparr>lastFlush := now, lf_file := Some (AppendFile_flush f)\<rparr>)
                       else Inr lf3)
                 else Inr lf2)))"

text \<open>With a mutex the operations of two threads do not overlap; on one thread the lock changes nothing.\<close>

definition LogFile_append :: "log_env \<Rightarrow> int \<Rightarrow> int \<Rightarrow> char list \<Rightarrow> log_file \<Rightarrow> log_file res" where
  "LogFile_append env now now' logline lf = LogFile_append_unlocked env now now' logline lf"

definition LogFile_flush :: "log_file \<Rightarrow> log_file res" where
  "LogFile_flush lf = (case lf_file lf of None \<Rightarrow> Inl NullDeref | Some f \<Rightarrow> Inr (lf\<lparr>lf_file := Some (AppendFile_flush f)\<rparr>))"

section \<open>What the files hold\<close>

text \<open>A stream that accepts at least one byte of every write, and file names that can be opened.\<close>

definition log_env_ok :: "log_env \<Rightarrow> bool" where
  "log_env_ok env \<longleftrightarrow> (\<forall>n. can_open env n) \<and> (\<forall>d. d \<noteq> [] \<longrightarrow> 0 < fwrite env d)"

lemma AppendFile_loop_text:
  assumes "\<And>d. d \<noteq> [] \<Longrightarrow> 0 < fw d"
  shows "af_text (AppendFile_loop fw line n f) = af_text f @ drop n line \<and> writtenBytes (AppendFile_loop fw line n f) = writtenBytes f"
proof (induction "length line - n" arbitrary: n f rule: less_induct)
  case less
  show ?case
  proof (cases "n < length line")
    case False
    then show ?thesis by (simp add: AppendFile_loop.simps [of fw line n f])
  next
    case True
    define x where "x = min (fw (drop n line)) (length line - n)"
    have x: "0 < x"
      using assms [of "drop n line"] True by (simp add: x_def)
    have "AppendFile_loop fw line n f = AppendFile_loop fw line (n + x) (f\<lparr>af_text := af_text f @ take x (drop n line)\<rparr>)"
      using True x by (simp add: AppendFile_loop.simps [of fw line n f] AppendFile_write_def Let_def x_def)
    moreover have "take x (drop n line) @ drop (n + x) line = drop n line"
      by (metis add.commute append_take_drop_id drop_drop)
    ultimately show ?thesis
      using less.hyps [of "n + x" "f\<lparr>af_text := af_text f @ take x (drop n line)\<rparr>"] True x by simp
  qed
qed

lemma AppendFile_append_text:
  assumes "\<And>d. d \<noteq> [] \<Longrightarrow> 0 < fw d"
  shows "af_text (AppendFile_append fw line f) = af_text f @ line \<and> writtenBytes (AppendFile_append fw line f) = writtenBytes f + length line"
  using AppendFile_loop_text [OF assms, where line = line] by (simp add: AppendFile_append_def AppendFile_write_def Let_def)

text \<open>A disk that accepts nothing: the loop gives up, the bytes are counted all the same.\<close>

lemma AppendFile_append_full:
  assumes "\<And>d. fw d = 0"
  shows "af_text (AppendFile_append fw line f) = af_text f \<and> writtenBytes (AppendFile_append fw line f) = writtenBytes f + length line"
  using assms by (simp add: AppendFile_append_def AppendFile_write_def AppendFile_loop.simps [of fw line 0] Let_def)

definition LogFile_texts :: "log_file \<Rightarrow> char list list" where
  "LogFile_texts lf = map af_text (lf_closed lf @ (case lf_file lf of None \<Rightarrow> [] | Some f \<Rightarrow> [f]))"

definition LogFile_ok :: "log_env \<Rightarrow> log_file \<Rightarrow> bool" where
  "LogFile_ok env lf \<longleftrightarrow> log_env_ok env \<and> lf_file lf \<noteq> None"

lemma AppendFile_flush_text [simp]: "af_text (AppendFile_flush f) = af_text f" "af_text (AppendFile_delete f) = af_text f"
  by (simp_all add: AppendFile_flush_def AppendFile_delete_def)

lemma rollFile_ok:
  assumes "log_env_ok env" "lf_file lf = Some f"
  shows "\<exists>b lf'. LogFile_rollFile env now lf = Inr (b, lf') \<and> LogFile_ok env lf' \<and> (b \<longleftrightarrow> lastRoll lf < now) \<and>
    LogFile_texts lf' = LogFile_texts lf @ (if b then [[]] else [])"
  using assms by (auto simp: LogFile_rollFile_def LogFile_ok_def LogFile_texts_def log_env_ok_def AppendFile_new_def Let_def)

lemma LogFile_append_ok:
  assumes "LogFile_ok env lf"
  shows "\<exists>lf'. LogFile_append env now now' d lf = Inr lf' \<and> LogFile_ok env lf' \<and>
    (\<exists>new. LogFile_texts lf' = butlast (LogFile_texts lf) @ [last (LogFile_texts lf) @ d] @ new \<and> concat new = [])"
proof -
  obtain f0 where f0: "lf_file lf = Some f0" and env: "log_env_ok env"
    using assms by (auto simp: LogFile_ok_def)
  define f where "f = AppendFile_append (fwrite env) d f0"
  have f: "af_text f = af_text f0 @ d"
    using AppendFile_append_text [of "fwrite env" d f0] env by (auto simp: f_def log_env_ok_def)
  have texts: "LogFile_texts lf = map af_text (lf_closed lf) @ [af_text f0]"
    by (simp add: LogFile_texts_def f0)
  have keeps: "LogFile_ok env lf1 \<and> LogFile_texts lf1 = butlast (LogFile_texts lf) @ [last (LogFile_texts lf) @ d] @ []"
    if "lf_file lf1 = Some g" "af_text g = af_text f" "lf_closed lf1 = lf_closed lf" for lf1 :: log_file and g
    using that env by (simp add: LogFile_ok_def LogFile_texts_def f0 f)
  have rolls: "\<exists>lf2. rbind (LogFile_rollFile env now' lf1) (\<lambda>(_, lf2). Inr lf2) = Inr lf2 \<and> LogFile_ok env lf2 \<and>
      (\<exists>new. LogFile_texts lf2 = butlast (LogFile_texts lf) @ [last (LogFile_texts lf) @ d] @ new \<and> concat new = [])"
    if "lf_file lf1 = Some f" "lf_closed lf1 = lf_closed lf" for lf1 :: log_file
    using rollFile_ok [OF env that(1), of now'] keeps [OF that(1) refl that(2)] by (auto split: if_splits)
  show ?thesis
    unfolding LogFile_append_def LogFile_append_unlocked_def f0 option.case Let_def f_def [symmetric]
    using rolls keeps by (auto simp: Let_def)
qed

text \<open>The interface the asynchronous front end relies on: what is put into the sink comes out in order.\<close>

locale log_sink =
  fixes put :: "'k \<Rightarrow> char list \<Rightarrow> 'f \<Rightarrow> 'f res" and sync :: "'f \<Rightarrow> 'f res" and ok :: "'f \<Rightarrow> bool" and contents :: "'f \<Rightarrow> char list"
  assumes put_ok: "ok f \<Longrightarrow> \<exists>f'. put k d f = Inr f' \<and> ok f' \<and> contents f' = contents f @ d"
    and sync_ok: "ok f \<Longrightarrow> \<exists>f'. sync f = Inr f' \<and> ok f' \<and> contents f' = contents f"
begin

lemma put_ensures: "ok f \<Longrightarrow> ensures (put k d f) (\<lambda>f'. ok f' \<and> contents f' = contents f @ d)"
  using put_ok [of f k d] by auto

end

definition LogFile_text :: "log_file \<Rightarrow> char list" where
  "LogFile_text lf = concat (LogFile_texts lf)"

definition LogFile_put :: "log_env \<Rightarrow> int \<times> int \<Rightarrow> char list \<Rightarrow> log_file \<Rightarrow> log_file res" where
  "LogFile_put env clk d lf = LogFile_append env (fst clk) (snd clk) d lf"

interpretation logfile: log_sink "LogFile_put env" LogFile_flush "LogFile_ok env" LogFile_text for env
proof unfold_locales
  fix f k and d :: "char list"
  assume ok: "LogFile_ok env f"
  then have "LogFile_texts f \<noteq> []"
    by (auto simp: LogFile_ok_def LogFile_texts_def)
  then have "concat (butlast (LogFile_texts f)) @ last (LogFile_texts f) = LogFile_text f"
    by (metis LogFile_text_def append_butlast_last_id concat_append concat.simps append_Nil2)
  then show "\<exists>f'. LogFile_put env k d f = Inr f' \<and> LogFile_ok env f' \<and> LogFile_text f' = LogFile_text f @ d"
    using LogFile_append_ok [OF ok, of "fst k" "snd k" d] by (auto simp: LogFile_put_def LogFile_text_def simp flip: append_assoc)
next
  show "LogFile_ok env f \<Longrightarrow> \<exists>f'. LogFile_flush f = Inr f' \<and> LogFile_ok env f' \<and> LogFile_text f' = LogFile_text f" for f
    by (auto simp: LogFile_ok_def LogFile_flush_def LogFile_text_def LogFile_texts_def)
qed

section \<open>Lines and files\<close>

primrec LogFile_run :: "log_env \<Rightarrow> ((int \<times> int) \<times> char list) list \<Rightarrow> log_file \<Rightarrow> log_file res" where
  "LogFile_run env [] lf = Inr lf"
| "LogFile_run env (x # xs) lf = rbind (LogFile_put env (fst x) (snd x) lf) (LogFile_run env xs)"

lemma split_groups:
  assumes "ts = map concat gs" "gs \<noteq> []" "ts' = butlast ts @ [last ts @ d] @ new" "concat new = []"
  shows "\<exists>gs'. ts' = map concat gs' \<and> gs' \<noteq> [] \<and> concat gs' = concat gs @ [d]"
proof -
  have new: "new = map concat (replicate (length new) [])"
    using assms(4) by (induction new) auto
  have "concat (replicate (length new) []) = []"
    by (induction new) auto
  moreover have "concat (butlast gs) @ last gs = concat gs"
    using assms(2) by (metis append_butlast_last_id concat_append concat.simps append_Nil2)
  moreover have "ts' = map concat (butlast gs @ [last gs @ [d]] @ replicate (length new) [])"
    unfolding assms(3) using assms(1,2) new by (simp add: map_butlast last_map)
  ultimately show ?thesis
    by (intro exI [of _ "butlast gs @ [last gs @ [d]] @ replicate (length new) []"]) (simp flip: append_assoc)
qed

text \<open>
  C38. Whatever the clock says and however often the log file rolls over, every line that is appended is in
  exactly one of the files, whole and in order: the texts of the files, in the order they were opened, are the
  concatenations of successive groups of lines.
\<close>

theorem LogFile_keeps_lines:
  assumes "log_env_ok env" "0 < now" "CHR ''/'' \<notin> set base" "LogFile_new env base rs fi cn now = Inr lf"
  shows "\<exists>lf' groups. LogFile_run env xs lf = Inr lf' \<and> LogFile_texts lf' = map concat groups \<and> concat groups = map snd xs"
proof -
  have start: "LogFile_ok env lf" "LogFile_texts lf = map concat [[]]"
    using assms by (auto simp: LogFile_new_def LogFile_rollFile_def log_env_ok_def AppendFile_new_def LogFile_ok_def LogFile_texts_def Let_def)
  have "\<exists>lf' gs'. LogFile_run env xs lf = Inr lf' \<and> LogFile_texts lf' = map concat gs' \<and> concat gs' = concat gs @ map snd xs"
    if "LogFile_ok env lf" "LogFile_texts lf = map concat gs" "gs \<noteq> []" for lf gs
    using that
  proof (induction xs arbitrary: lf gs)
    case Nil
    then show ?case by auto
  next
    case (Cons x xs)
    obtain lf1 new where lf1: "LogFile_put env (fst x) (snd x) lf = Inr lf1" "LogFile_ok env lf1"
        "LogFile_texts lf1 = butlast (LogFile_texts lf) @ [last (LogFile_texts lf) @ snd x] @ new" "concat new = []"
      using LogFile_append_ok [OF Cons.prems(1)] unfolding LogFile_put_def by blast
    obtain gs1 where gs1: "LogFile_texts lf1 = map concat gs1" "gs1 \<noteq> []" "concat gs1 = concat gs @ [snd x]"
      using split_groups [OF Cons.prems(2,3) lf1(3,4)] by blast
    show ?case
      using Cons.IH [OF lf1(2) gs1(1,2)] lf1(1) gs1(3) by auto
  qed
  from this [OF start] show ?thesis by simp
qed

definition sample_env :: log_env where
  "sample_env = \<lparr>hostname = ''host'', pid = 42, can_open = (\<lambda>_. True), fwrite = (\<lambda>d. 3)\<rparr>"

lemma sample_env_ok: "log_env_ok sample_env"
  by (simp add: log_env_ok_def sample_env_def)

theorem LogFile_keeps_lines_witness:
  "\<exists>lf lf' groups. LogFile_new sample_env ''app'' 10 3 1024 1000 = Inr lf \<and>
     LogFile_run sample_env [((1001, 1001), ''hello world''), ((1001, 1002), ''bye'')] lf = Inr lf' \<and>
     LogFile_texts lf' = map concat groups \<and> concat groups = [''hello world'', ''bye'']"
proof -
  obtain lf where lf: "LogFile_new sample_env ''app'' 10 3 1024 1000 = Inr lf"
    by (simp add: LogFile_new_def LogFile_rollFile_def AppendFile_new_def sample_env_def Let_def)
  then show ?thesis
    using LogFile_keeps_lines [OF sample_env_ok _ _ lf, of "[((1001, 1001), ''hello world''), ((1001, 1002), ''bye'')]"] by auto
qed

end
