(* ===== verification/Base_ProcessInfo.thy ===== *)
theory Base_ProcessInfo
  imports Http_Laws Base_LogFile
begin

text \<open>
  \<^verbatim>\<open>muduo/base/ProcessInfo.cc\<close> and the text functions of \<^verbatim>\<open>inspect/ProcessInspector.cc\<close>: what is read out of the files under
  \<^verbatim>\<open>/proc\<close>. The files are an argument, a function from names to what \<^verbatim>\<open>open\<close> and \<^verbatim>\<open>read\<close> answer, and so are the results of
  the other system calls. Process times are left as clock ticks.
\<close>

section \<open>Finding and reading numbers\<close>

type_synonym proc_files = "string \<Rightarrow> (errno + unit) \<times> (nat \<Rightarrow> nat \<Rightarrow> read_outcome)"

definition read_proc :: "proc_files \<Rightarrow> string \<Rightarrow> errno \<times> string" where
  "read_proc fs name = readFile (fst (fs name)) (snd (fs name)) 65536"

definition isdigit :: "char \<Rightarrow> bool" where
  "isdigit c \<longleftrightarrow> (of_char c :: nat) \<in> {48..57}"

text \<open>\<^verbatim>\<open>string::find\<close> for a text and \<^verbatim>\<open>string::rfind\<close> for a character.\<close>

fun str_find :: "string \<Rightarrow> string \<Rightarrow> nat option" where
  "str_find key [] = (if key = [] then Some 0 else None)"
| "str_find key (c # cs) = (if take (length key) (c # cs) = key then Some 0 else map_option Suc (str_find key cs))"

definition str_rfind :: "char \<Rightarrow> string \<Rightarrow> nat option" where
  "str_rfind c s = map_option (\<lambda>i. length s - Suc i) (find_index (\<lambda>x. x = c) (rev s))"

text \<open>\<^verbatim>\<open>strtol\<close> with base ten: blanks, a sign, digits; a number that does not fit is the nearest that does.\<close>

definition strtol :: "string \<Rightarrow> int" where
  "strtol txt =
     (let s = dropWhile isspace txt;
          negative = (s \<noteq> [] \<and> hd s = CHR ''-'');
          digits = takeWhile isdigit (if s \<noteq> [] \<and> (hd s = CHR ''-'' \<or> hd s = CHR ''+'') then tl s else s);
          v = int (read_nat digits)
      in if negative then max (- (2 ^ 63)) (- v) else min (2 ^ 63 - 1) v)"

definition atoi :: "string \<Rightarrow> int" where
  "atoi txt = int32 (strtol txt)"

section \<open>ProcessInfo\<close>

definition ProcessInfo_pidString :: "int \<Rightarrow> string" where
  "ProcessInfo_pidString p = take 31 (show_int p)"

definition ProcessInfo_username :: "string option \<Rightarrow> string" where
  "ProcessInfo_username pw = (case pw of Some name \<Rightarrow> name | None \<Rightarrow> ''unknownuser'')"

text \<open>\<open>buf\<close> is the array that \<^verbatim>\<open>gethostname\<close> filled, unless it failed.\<close>

definition ProcessInfo_hostname :: "char list option \<Rightarrow> string" where
  "ProcessInfo_hostname buf = (case buf of Some b \<Rightarrow> c_string (take 255 b) | None \<Rightarrow> ''unknownhost'')"

text \<open>The name in a \<^verbatim>\<open>stat\<close> line as its place and length.\<close>

definition procname :: "string \<Rightarrow> (nat \<times> nat) option" where
  "procname stat =
     (case (find_index (\<lambda>c. c = CHR ''('') stat, str_rfind (CHR '')'') stat) of
        (Some lp, Some rp) \<Rightarrow> if lp < rp then Some (lp + 1, rp - lp - 1) else None
      | _ \<Rightarrow> None)"

definition ProcessInfo_procStatus :: "proc_files \<Rightarrow> string" where
  "ProcessInfo_procStatus fs = snd (read_proc fs ''/proc/self/status'')"

definition ProcessInfo_procStat :: "proc_files \<Rightarrow> string" where
  "ProcessInfo_procStat fs = snd (read_proc fs ''/proc/self/stat'')"

definition ProcessInfo_threadStat :: "proc_files \<Rightarrow> int \<Rightarrow> string" where
  "ProcessInfo_threadStat fs tid = snd (read_proc fs (take 63 (''/proc/self/task/'' @ show_int tid @ ''/stat'')))"

definition ProcessInfo_procname :: "proc_files \<Rightarrow> string" where
  "ProcessInfo_procname fs =
     (let stat = ProcessInfo_procStat fs in case procname stat of Some (a, n) \<Rightarrow> take n (drop a stat) | None \<Rightarrow> [])"

definition ProcessInfo_exePath :: "char list option \<Rightarrow> string" where
  "ProcessInfo_exePath link = (case link of Some b \<Rightarrow> take 1024 b | None \<Rightarrow> [])"

text \<open>The directory listings: the names that the filters count and keep.\<close>

definition digit_name :: "string \<Rightarrow> bool" where
  "digit_name name \<longleftrightarrow> name \<noteq> [] \<and> isdigit (hd name)"

definition ProcessInfo_openedFiles :: "string list \<Rightarrow> nat" where
  "ProcessInfo_openedFiles names = length (filter digit_name names)"

definition ProcessInfo_maxOpenFiles :: "int option \<Rightarrow> string list \<Rightarrow> int" where
  "ProcessInfo_maxOpenFiles rlim names = (case rlim of Some cur \<Rightarrow> int32 cur | None \<Rightarrow> int (ProcessInfo_openedFiles names))"

definition ProcessInfo_numThreads :: "proc_files \<Rightarrow> int" where
  "ProcessInfo_numThreads fs =
     (let status = ProcessInfo_procStatus fs in
      case str_find ''Threads:'' status of Some pos \<Rightarrow> atoi (c_string (drop (pos + 8) status)) | None \<Rightarrow> 0)"

definition ProcessInfo_threads :: "string list \<Rightarrow> int list" where
  "ProcessInfo_threads names = sort (map atoi (filter digit_name names))"

section \<open>The texts of the process inspector\<close>

definition uptime :: "timestamp \<Rightarrow> timestamp \<Rightarrow> bool \<Rightarrow> string" where
  "uptime now start showMicroseconds =
     (let age = microSecondsSinceEpoch now - microSecondsSinceEpoch start;
          seconds = int32 (age sdiv kMicroSecondsPerSecond);
          days = seconds sdiv 86400;
          hours = (seconds smod 86400) sdiv 3600;
          minutes = (seconds smod 3600) sdiv 60;
          txt = show_int days @ '' days '' @ show_int_zero 2 hours @ '':'' @ show_int_zero 2 minutes @ '':'' @ show_int_zero 2 (seconds smod 60)
      in take 255 (if showMicroseconds then txt @ ''.'' @ show_int_zero 6 (int32 (age smod kMicroSecondsPerSecond)) else txt))"

definition getLong :: "string \<Rightarrow> string \<Rightarrow> int" where
  "getLong procStatus key = (case str_find key procStatus of Some pos \<Rightarrow> strtol (c_string (drop (pos + length key) procStatus)) | None \<Rightarrow> 0)"

text \<open>The scan for the end of the line has no bound: the terminator after the text is not a line feed.\<close>

definition getProcessName :: "string \<Rightarrow> string res" where
  "getProcessName procStatus =
     (case str_find ''Name:'' procStatus of
        None \<Rightarrow> Inr []
      | Some pos \<Rightarrow>
          (let s = dropWhile (\<lambda>c. c = CHR 0x09) (drop (pos + 5) procStatus) in
           case find_index (\<lambda>c. c = CHR 0x0A) s of Some eol \<Rightarrow> Inr (take eol s) | None \<Rightarrow> Inl OutOfRange))"

definition next_field :: "string \<Rightarrow> string" where
  "next_field data = (case find_index (\<lambda>c. c = CHR '' '') data of Some sp \<Rightarrow> drop (sp + 1) data | None \<Rightarrow> [])"

text \<open>User and system time of a \<^verbatim>\<open>stat\<close> line from its fourth field on, in ticks.\<close>

definition getCpuTime :: "string \<Rightarrow> int \<times> int" where
  "getCpuTime data = (let d = (next_field ^^ 10) data in (strtol (c_string d), strtol (c_string (next_field d))))"

definition stringPrintf :: "string \<Rightarrow> string \<Rightarrow> string" where
  "stringPrintf out txt = out @ take 255 (c_string txt)"

definition pad_right :: "nat \<Rightarrow> string \<Rightarrow> string" where
  "pad_right w s = s @ replicate (w - length s) (CHR '' '')"

text \<open>
  One line of the thread list. \<open>cpu\<close> is the text \<^verbatim>\<open>%12.3f %12.3f\<close> of two numbers of ticks. A line without a name makes the
  code look at the address zero.
\<close>

definition thread_line :: "(int \<times> int \<Rightarrow> string) \<Rightarrow> int \<Rightarrow> string \<Rightarrow> string res" where
  "thread_line cpu tid stat =
     (case procname stat of
        None \<Rightarrow> Inl NullDeref
      | Some (a, n) \<Rightarrow>
          rbind (mem_read stat (a + n) 1) (\<lambda>rp. c_assert (rp = [CHR '')''])
            (rbind (mem_read stat (a + n + 2) 1) (\<lambda>st.
             if length stat < a + n + 4 then Inl OutOfRange
             else Inr (take 255 (show_int_blank 5 tid @ '' '' @ pad_right 16 (c_string (take n (drop a stat))) @ '' '' @ st @ '' ''
                    @ cpu (getCpuTime (drop (a + n + 4) stat)) @ [CHR 0x0A]))))))"

primrec threads_loop :: "(int \<times> int \<Rightarrow> string) \<Rightarrow> proc_files \<Rightarrow> int \<Rightarrow> int list \<Rightarrow> string \<Rightarrow> string res" where
  "threads_loop cpu fs p [] result = Inr result"
| "threads_loop cpu fs p (tid # tids) result =
     (case read_proc fs (take 255 (''/proc/'' @ show_int p @ ''/task/'' @ show_int tid @ ''/stat'')) of (err, stat) \<Rightarrow>
        if err = NoError then rbind (thread_line cpu tid stat) (\<lambda>l. threads_loop cpu fs p tids (result @ l))
        else threads_loop cpu fs p tids result)"

definition ProcessInspector_threads :: "(int \<times> int \<Rightarrow> string) \<Rightarrow> proc_files \<Rightarrow> int \<Rightarrow> string list \<Rightarrow> string res" where
  "ProcessInspector_threads cpu fs p tasks =
     threads_loop cpu fs p (ProcessInfo_threads tasks) (''  TID NAME             S    User Time  System Time'' @ [CHR 0x0A])"

definition ProcessInspector_pid :: "int \<Rightarrow> string" where
  "ProcessInspector_pid p = take 31 (show_int p)"

definition ProcessInspector_procStatus :: "proc_files \<Rightarrow> string" where
  "ProcessInspector_procStatus fs = ProcessInfo_procStatus fs"

definition ProcessInspector_openedFiles :: "string list \<Rightarrow> string" where
  "ProcessInspector_openedFiles fds = take 31 (show_int (int (ProcessInfo_openedFiles fds)))"

record process_env =
  pe_now :: timestamp
  pe_start :: timestamp
  pe_exe :: "char list option"
  pe_user :: string
  pe_host :: "char list option"
  pe_debug :: bool
  pe_pid :: int
  pe_fds :: "string list"
  pe_rlimit :: "int option"

text \<open>\<open>mib\<close> is the text \<^verbatim>\<open>%.3f\<close> of a number of kilobytes in megabytes, \<open>cputext\<close> the text of the two process times.\<close>

definition ProcessInspector_overview :: "(int \<Rightarrow> tm) \<Rightarrow> (int \<Rightarrow> string) \<Rightarrow> string \<Rightarrow> proc_files \<Rightarrow> process_env \<Rightarrow> string res" where
  "ProcessInspector_overview gmtime mib cputext fs e =
     (let status = ProcessInfo_procStatus fs;
          r1 = ''Page generated at '' @ Timestamp_toFormattedString gmtime True (pe_now e) @ '' (UTC)'' @ [CHR 0x0A] @ ''Started at ''
             @ Timestamp_toFormattedString gmtime True (pe_start e) @ '' (UTC), up for '' @ uptime (pe_now e) (pe_start e) True @ [CHR 0x0A]
      in rbind (getProcessName status) (\<lambda>name.
         let r2 = r1 @ name @ '' ('' @ ProcessInfo_exePath (pe_exe e) @ '') running as '' @ pe_user e @ '' on '' @ ProcessInfo_hostname (pe_host e) @ [CHR 0x0A];
             r3 = (if pe_debug e then r2 @ ''WARNING: debug build!'' @ [CHR 0x0A] else r2);
             r4 = stringPrintf r3 (''pid '' @ show_int (pe_pid e) @ '', num of threads '' @ show_int (getLong status ''Threads:'') @ '', bits 64'' @ [CHR 0x0A]);
             r5 = stringPrintf (r4 @ ''Virtual memory: '') (mib (getLong status ''VmSize:'') @ '' MiB, '');
             r6 = stringPrintf (r5 @ ''RSS memory: '') (mib (getLong status ''VmRSS:'') @ '' MiB'' @ [CHR 0x0A]);
             r7 = stringPrintf r6 (''Opened files: '' @ show_int (int (ProcessInfo_openedFiles (pe_fds e))) @ '', limit: ''
                    @ show_int (ProcessInfo_maxOpenFiles (pe_rlimit e) (pe_fds e)) @ [CHR 0x0A])
         in Inr (stringPrintf r7 cputext)))"

section \<open>SystemInspector\<close>

definition SystemInspector_page :: "proc_files \<Rightarrow> string \<Rightarrow> string" where
  "SystemInspector_page fs name = snd (read_proc fs (''/proc/'' @ name))"

record uname_result =
  un_sysname :: string
  un_nodename :: string
  un_release :: string
  un_version :: string
  un_machine :: string

definition print_mib :: "string \<Rightarrow> string \<Rightarrow> int \<Rightarrow> string" where
  "print_mib out label kb = stringPrintf out (label @ show_int_blank 6 (kb sdiv 1024) @ '' MiB'' @ [CHR 0x0A])"

definition SystemInspector_overview :: "(int \<Rightarrow> tm) \<Rightarrow> timestamp \<Rightarrow> uname_result option \<Rightarrow> proc_files \<Rightarrow> string" where
  "SystemInspector_overview gmtime now un fs =
     (let r1 = ''Page generated at '' @ Timestamp_toFormattedString gmtime True now @ '' (UTC)'' @ [CHR 0x0A];
          r2 = (case un of
                  None \<Rightarrow> r1
                | Some u \<Rightarrow> stringPrintf (stringPrintf (stringPrintf r1 (''Hostname: '' @ un_nodename u @ [CHR 0x0A])) (''Machine: '' @ un_machine u @ [CHR 0x0A]))
                    (''OS: '' @ un_sysname u @ '' '' @ un_release u @ '' '' @ un_version u @ [CHR 0x0A]));
          stat = snd (read_proc fs ''/proc/stat'');
          bootTime = Timestamp (kMicroSecondsPerSecond * getLong stat ''btime '');
          r3 = r2 @ ''Boot time: '' @ Timestamp_toFormattedString gmtime False bootTime @ '' (UTC)'' @ [CHR 0x0A] @ ''Up time: '' @ uptime now bootTime False @ [CHR 0x0A];
          loadavg = snd (read_proc fs ''/proc/loadavg'');
          r4 = stringPrintf (stringPrintf r3 (''Processes created: '' @ show_int (getLong stat ''processes '') @ [CHR 0x0A])) (''Loadavg: '' @ c_string loadavg @ [CHR 0x0A]);
          meminfo = snd (read_proc fs ''/proc/meminfo'');
          total = getLong meminfo ''MemTotal:''; free = getLong meminfo ''MemFree:'';
          buffers = getLong meminfo ''Buffers:''; cached = getLong meminfo ''Cached:'';
          r5 = print_mib (print_mib (print_mib (print_mib r4 ''Total Memory: '' total) ''Free Memory:  '' free) ''Buffers:      '' buffers) ''Cached:       '' cached
      in print_mib (print_mib r5 ''Real Used:    '' (total - free - buffers - cached)) ''Real Free:    '' (free + buffers + cached))"

section \<open>Reading a stat line\<close>

lemma isdigit_show_nat: "\<forall>c\<in>set (show_nat n). isdigit c" "show_nat n \<noteq> []"
  using set_show_nat [of _ n] length_show_nat_pos [of n] by (auto simp: isdigit_def)

lemma isdigit_not: "isdigit c \<Longrightarrow> \<not> isspace c \<and> c \<noteq> CHR ''-'' \<and> c \<noteq> CHR ''+'' \<and> c \<noteq> CHR '' '' \<and> c \<noteq> CHR ''('' \<and> c \<noteq> CHR '')'' \<and> c \<noteq> CHR 0x00"
  by (auto simp: isdigit_def isspace_def)

lemma strtol_show_nat:
  assumes "n < 2 ^ 63" "rest = [] \<or> \<not> isdigit (hd rest)"
  shows "strtol (show_nat n @ rest) = int n"
proof -
  obtain d ds where shown: "show_nat n = d # ds" and d: "isdigit d"
    using isdigit_show_nat [of n] by (cases "show_nat n") auto
  have start: "dropWhile isspace (show_nat n @ rest) = show_nat n @ rest" "hd (show_nat n @ rest) = d" "show_nat n @ rest \<noteq> []"
    using isdigit_not [OF d] shown by simp_all
  have "takeWhile isdigit (show_nat n @ rest) = show_nat n @ takeWhile isdigit rest"
    by (rule takeWhile_append2) (use isdigit_show_nat in blast)
  then have digits: "takeWhile isdigit (show_nat n @ rest) = show_nat n"
    using assms(2) by (cases rest) simp_all
  show ?thesis
    unfolding strtol_def Let_def start(1) using start(2,3) digits isdigit_not [OF d] assms(1) by simp
qed

lemma atoi_show_nat: "n < 2 ^ 31 \<Longrightarrow> atoi (show_nat n) = int n"
  using strtol_show_nat [of n "[]"] by (simp add: atoi_def int32_id)

lemma next_field_word: "CHR '' '' \<notin> set f \<Longrightarrow> next_field (f @ CHR '' '' # s) = s"
proof -
  assume "CHR '' '' \<notin> set f"
  then have "find_index (\<lambda>c. c = CHR '' '') (f @ CHR '' '' # s) = Some (length f)"
    by (intro find_index_prefix) blast
  then show ?thesis
    by (simp add: next_field_def)
qed

lemma next_fields: "\<forall>f\<in>set fl. CHR '' '' \<notin> set f \<Longrightarrow> (next_field ^^ length fl) (concat (map (\<lambda>f. f @ '' '') fl) @ s) = s"
  by (induction fl) (simp_all add: next_field_word funpow_swap1)

lemma procname_line:
  assumes "CHR ''('' \<notin> set pre" "CHR '')'' \<notin> set post"
  shows "procname (pre @ ''('' @ name @ '')'' @ post) = Some (length pre + 1, length name)"
proof -
  have "find_index (\<lambda>c. c = CHR ''('') (pre @ CHR ''('' # (name @ '')'' @ post)) = Some (length pre)"
    by (rule find_index_prefix) (use assms(1) in blast)
  moreover have "find_index (\<lambda>c. c = CHR '')'') (rev post @ CHR '')'' # rev (pre @ ''('' @ name)) = Some (length (rev post))"
    by (rule find_index_prefix) (use assms(2) in auto)
  then have "str_rfind (CHR '')'') (pre @ ''('' @ name @ '')'' @ post) = Some (length pre + 1 + length name)"
    by (simp add: str_rfind_def)
  ultimately show ?thesis
    by (simp add: procname_def)
qed

text \<open>A line of \<^verbatim>\<open>/proc/.../stat\<close>: the ten fields between the state and the times, and what comes after.\<close>

record thread_stat =
  ts_name :: string
  ts_state :: char
  ts_fields :: "string list"
  ts_utime :: nat
  ts_stime :: nat
  ts_more :: string

definition stat_text :: "nat \<Rightarrow> thread_stat \<Rightarrow> string" where
  "stat_text tid ts = show_nat tid @ '' ('' @ ts_name ts @ '') '' @ [ts_state ts] @ '' '' @ concat (map (\<lambda>f. f @ '' '') (ts_fields ts))
     @ show_nat (ts_utime ts) @ '' '' @ show_nat (ts_stime ts) @ '' '' @ ts_more ts"

definition stat_ok :: "thread_stat \<Rightarrow> bool" where
  "stat_ok ts \<longleftrightarrow> length (ts_fields ts) = 10 \<and> (\<forall>f\<in>set (ts_fields ts). set f \<inter> {CHR '' '', CHR '')'', CHR 0x00} = {}) \<and> ts_state ts \<noteq> CHR '')'' \<and>
     CHR 0x00 \<notin> set (ts_name ts) \<and> set (ts_more ts) \<inter> {CHR '')'', CHR 0x00} = {} \<and> ts_utime ts < 2 ^ 63 \<and> ts_stime ts < 2 ^ 63"

definition stat_line :: "(int \<times> int \<Rightarrow> string) \<Rightarrow> nat \<Rightarrow> thread_stat \<Rightarrow> string" where
  "stat_line cpu tid ts = take 255 (show_int_blank 5 (int tid) @ '' '' @ pad_right 16 (ts_name ts) @ '' '' @ [ts_state ts] @ '' ''
     @ cpu (int (ts_utime ts), int (ts_stime ts)) @ [CHR 0x0A])"

lemma c_string_id: "CHR 0x00 \<notin> set s \<Longrightarrow> c_string s = s"
  by (auto simp: c_string_def takeWhile_eq_all_conv)

lemma drop_length_append: "drop (length xs) (xs @ ys) = ys"
  by simp

lemma thread_line_ok:
  assumes "stat_ok ts"
  shows "thread_line cpu (int tid) (stat_text tid ts) = Inr (stat_line cpu tid ts)"
proof -
  let ?pre = "show_nat tid @ '' ''" and ?times = "show_nat (ts_utime ts) @ '' '' @ show_nat (ts_stime ts) @ '' '' @ ts_more ts"
  let ?fields = "concat (map (\<lambda>f. f @ '' '') (ts_fields ts))"
  let ?post = "'' '' @ [ts_state ts] @ '' '' @ ?fields @ ?times"
  have shape: "stat_text tid ts = ?pre @ ''('' @ ts_name ts @ '')'' @ ?post"
    by (simp add: stat_text_def)
  have digits: "c \<notin> set (show_nat n)" if "c \<in> {CHR '' '', CHR ''('', CHR '')'', CHR 0x00}" for c n
    using isdigit_show_nat(1) [of n] isdigit_not that by blast
  have fields: "CHR '')'' \<notin> set ?fields" "CHR 0x00 \<notin> set ?fields" and more: "CHR '')'' \<notin> set (ts_more ts)" "CHR 0x00 \<notin> set (ts_more ts)" "ts_state ts \<noteq> CHR '')''"
    using assms by (auto simp: stat_ok_def)
  have clean: "CHR 0x00 \<notin> set (?fields @ ?times)"
    using fields(2) more(2) digits by simp
  have "CHR ''('' \<notin> set ?pre" "CHR '')'' \<notin> set ?post"
    using fields(1) more(1,3) digits by simp_all
  then have place: "procname (stat_text tid ts) = Some (length ?pre + 1, length (ts_name ts))"
    unfolding shape by (rule procname_line)
  have nonul: "CHR 0x00 \<notin> set ?times" "CHR 0x00 \<notin> set (show_nat (ts_stime ts) @ '' '' @ ts_more ts)"
    using clean by simp_all
  have "(next_field ^^ 10) (?fields @ ?times) = ?times"
    using next_fields [of "ts_fields ts" ?times] assms by (auto simp: stat_ok_def)
  moreover have "next_field ?times = show_nat (ts_stime ts) @ '' '' @ ts_more ts"
    using next_field_word [of "show_nat (ts_utime ts)"] digits [of "CHR '' ''"] by simp
  moreover have "strtol ?times = int (ts_utime ts)" "strtol (show_nat (ts_stime ts) @ '' '' @ ts_more ts) = int (ts_stime ts)"
    using assms strtol_show_nat [of "ts_utime ts"] strtol_show_nat [of "ts_stime ts"] by (simp_all add: stat_ok_def isdigit_def)
  ultimately have cpu: "getCpuTime (?fields @ ?times) = (int (ts_utime ts), int (ts_stime ts))"
    using c_string_id [OF nonul(1)] c_string_id [OF nonul(2)] by (simp only: getCpuTime_def Let_def)
  have data: "drop (length ?pre + 1 + length (ts_name ts) + 4) (stat_text tid ts) = ?fields @ ?times"
  proof -
    let ?A = "?pre @ ''('' @ ts_name ts @ '') '' @ [ts_state ts] @ '' ''"
    have "stat_text tid ts = ?A @ (?fields @ ?times)" "length ?pre + 1 + length (ts_name ts) + 4 = length ?A"
      by (simp_all add: stat_text_def)
    then show ?thesis
      by (simp only: drop_length_append)
  qed
  have name: "c_string (take (length (ts_name ts)) (drop (length ?pre + 1) (stat_text tid ts))) = ts_name ts"
    using assms unfolding shape by (simp add: c_string_id stat_ok_def)
  have reads: "mem_read (stat_text tid ts) (length ?pre + 1 + length (ts_name ts)) 1 = Inr '')''"
      "mem_read (stat_text tid ts) (length ?pre + 1 + length (ts_name ts) + 2) 1 = Inr [ts_state ts]"
      "\<not> length (stat_text tid ts) < length ?pre + 1 + length (ts_name ts) + 4"
    unfolding shape mem_read_def by (simp_all add: numeral_eq_Suc)
  show ?thesis
    unfolding thread_line_def place option.case prod.case reads rbind_simps c_assert_def data cpu name stat_line_def
    using reads(3) by simp
qed

section \<open>The list of threads\<close>

text \<open>What \<^verbatim>\<open>read\<close> does on a file: it delivers the next bytes, at least one while there are any.\<close>

definition file_holds :: "(nat \<Rightarrow> nat \<Rightarrow> read_outcome) \<Rightarrow> char list \<Rightarrow> bool" where
  "file_holds rd content \<longleftrightarrow> (\<forall>off n. 0 < n \<longrightarrow> off < length content \<longrightarrow> (\<exists>k. 0 < k \<and> k \<le> n \<and> rd off n = RBytes (take k (drop off content)))) \<and>
     (\<forall>n. rd (length content) n = RBytes [])"

lemma read_all_file:
  assumes "file_holds rd content" "length content < maxSize"
  shows "read_all rd maxSize err (take i content) = (err, content)"
proof (induction "length content - i" arbitrary: i rule: less_induct)
  case less
  show ?case
  proof (cases "i < length content")
    case False
    then show ?thesis
      using assms by (subst read_all.simps) (simp add: file_holds_def)
  next
    case True
    let ?n = "min (maxSize - i) kBufferSize"
    have "0 < ?n"
      using True assms(2) by (simp add: kBufferSize_def)
    then obtain k where k: "0 < k" "k \<le> ?n" "rd i ?n = RBytes (take k (drop i content))"
      using assms(1) True unfolding file_holds_def by blast
    have "take i content @ take ?n (take k (drop i content)) = take (i + k) content"
      using k(2) by (simp add: take_add min_absorb2)
    moreover have "read_all rd maxSize err (take (i + k) content) = (err, content)"
      by (rule less) (use True k(1) in simp)
    moreover have "length (take i content) = i" "take k (drop i content) \<noteq> []"
      using True k(1) by simp_all
    ultimately show ?thesis
      using True assms(2) k(3) by (subst read_all.simps) (simp add: Let_def)
  qed
qed

lemma read_proc_file:
  assumes "fs name = (Inr (), rd)" "file_holds rd content" "length content < 65536"
  shows "read_proc fs name = (NoError, content)"
  using assms read_all_file [OF assms(2), of 65536 NoError 0] by (simp add: read_proc_def readFile_def ReadSmallFile_readToString_def ReadSmallFile_new_def)

definition task_file :: "int \<Rightarrow> nat \<Rightarrow> string" where
  "task_file p tid = take 255 (''/proc/'' @ show_int p @ ''/task/'' @ show_int (int tid) @ ''/stat'')"

lemma threads_loop_ok:
  assumes "\<forall>tid\<in>set tids. stat_ok (info tid) \<and> (\<exists>rd. fs (task_file p tid) = (Inr (), rd) \<and> file_holds rd (stat_text tid (info tid))) \<and> length (stat_text tid (info tid)) < 65536"
  shows "threads_loop cpu fs p (map int tids) result = Inr (result @ concat (map (\<lambda>tid. stat_line cpu tid (info tid)) tids))"
  using assms
proof (induction tids arbitrary: result)
  case (Cons tid tids)
  then have ok: "stat_ok (info tid)" "read_proc fs (task_file p tid) = (NoError, stat_text tid (info tid))"
    using read_proc_file [of fs "task_file p tid" _ "stat_text tid (info tid)"] by auto
  then show ?case
    using Cons thread_line_ok [OF ok(1), of cpu tid] by (simp add: task_file_def)
qed simp

lemma sort_int: "sort (map int ns) = map int (sort ns)"
proof (induction ns)
  case (Cons n ns)
  have "insort (int n) (map int xs) = map int (insort n xs)" for xs
    by (induction xs) simp_all
  then show ?case
    using Cons by simp
qed simp

text \<open>
  The page of threads shows one line per entry of the task directory, sorted by thread, with the number, name, state and
  times that the thread's \<^verbatim>\<open>stat\<close> file holds, however \<^verbatim>\<open>read\<close> cuts the file and whatever blanks or parentheses the name
  contains.
\<close>

theorem ProcessInspector_threads_page:
  assumes "\<forall>tid\<in>set tids. stat_ok (info tid) \<and> (\<exists>rd. fs (task_file p tid) = (Inr (), rd) \<and> file_holds rd (stat_text tid (info tid))) \<and>
      length (stat_text tid (info tid)) < 65536 \<and> tid < 2 ^ 31"
    "filter digit_name tasks = map show_nat tids"
  shows "ProcessInspector_threads cpu fs p tasks = Inr (''  TID NAME             S    User Time  System Time'' @ [CHR 0x0A] @
    concat (map (\<lambda>tid. stat_line cpu tid (info tid)) (sort tids)))"
proof -
  have "map atoi (filter digit_name tasks) = map int tids"
    using assms unfolding assms(2) by (auto simp: atoi_show_nat)
  then have "ProcessInfo_threads tasks = map int (sort tids)"
    by (simp add: ProcessInfo_threads_def sort_int)
  moreover have "\<forall>tid\<in>set (sort tids). stat_ok (info tid) \<and> (\<exists>rd. fs (task_file p tid) = (Inr (), rd) \<and> file_holds rd (stat_text tid (info tid))) \<and>
      length (stat_text tid (info tid)) < 65536"
    using assms(1) by simp
  ultimately show ?thesis
    using threads_loop_ok [of "sort tids" info fs p cpu] by (simp add: ProcessInspector_threads_def)
qed

theorem ProcessInspector_threads_page_witness:
  "ProcessInspector_threads (\<lambda>(u, s). show_int u @ '' '' @ show_int s)
     (\<lambda>f. if f = task_file 7 7 then (Inr (), \<lambda>off n. RBytes (take (min n 3) (drop off (stat_text 7 \<lparr>ts_name = ''a) b'', ts_state = CHR ''S'',
            ts_fields = replicate 10 ''0'', ts_utime = 5, ts_stime = 6, ts_more = ''0 0''\<rparr>))))
          else (Inl ENOENT, \<lambda>off n. RError ENOENT)) 7 [''.'', ''..'', ''7''] =
   Inr (''  TID NAME             S    User Time  System Time'' @ [CHR 0x0A] @ ''    7 a) b             S 5 6'' @ [CHR 0x0A])"
proof -
  let ?ts = "\<lparr>ts_name = ''a) b'', ts_state = CHR ''S'', ts_fields = replicate 10 ''0'', ts_utime = 5, ts_stime = 6, ts_more = ''0 0''\<rparr>"
  let ?rd = "\<lambda>off n. RBytes (take (min n 3) (drop off (stat_text 7 ?ts)))"
  let ?fs = "\<lambda>f. if f = task_file 7 7 then (Inr (), ?rd) else (Inl ENOENT, \<lambda>off n. RError ENOENT)"
  let ?cpu = "\<lambda>(u, s). show_int u @ '' '' @ show_int s"
  have digits: "show_nat 7 = ''7''" "show_nat 5 = ''5''" "show_nat 6 = ''6''"
    by (simp_all add: show_nat.simps digit_char_def char_of_def bit_Suc_0_iff)
  have ok: "stat_ok ?ts"
    by (simp add: stat_ok_def)
  have "\<exists>k. 0 < k \<and> k \<le> n \<and> ?rd off n = RBytes (take k (drop off (stat_text 7 ?ts)))" if "0 < n" for off n
    using that by (intro exI [of _ "min n 3"]) simp
  then have holds: "file_holds ?rd (stat_text 7 ?ts)"
    by (simp add: file_holds_def)
  have short: "length (stat_text 7 ?ts) < 65536"
    by (simp add: stat_text_def digits length_concat sum_list_replicate)
  have files: "\<forall>tid\<in>set [7]. stat_ok ?ts \<and> (\<exists>rd. ?fs (task_file 7 tid) = (Inr (), rd) \<and> file_holds rd (stat_text tid ?ts)) \<and> length (stat_text tid ?ts) < 65536 \<and> tid < 2 ^ 31"
    using ok holds short by simp
  have names: "filter digit_name [''.'', ''..'', ''7''] = map show_nat [7]"
    by (simp add: digit_name_def isdigit_def digits)
  have blanks: "replicate 4 (CHR '' '') = ''    ''" "replicate 12 (CHR '' '') = ''            ''"
    by (simp_all add: numeral_eq_Suc)
  have line: "stat_line ?cpu 7 ?ts = ''    7 a) b             S 5 6'' @ [CHR 0x0A]"
    by (simp add: stat_line_def show_int_blank_def pad_left_def pad_right_def show_int_def digits blanks)
  show ?thesis
    using ProcessInspector_threads_page [of "[7]" "\<lambda>_. ?ts" ?fs 7 "[''.'', ''..'', ''7'']" ?cpu, OF files names] line by simp
qed

text \<open>A status text without a line feed after the name makes the scan of \<^verbatim>\<open>getProcessName\<close> leave the text.\<close>

lemma getProcessName_line:
  assumes "CHR 0x0A \<notin> set name" "name = [] \<or> hd name \<noteq> CHR 0x09"
  shows "getProcessName (''Name:'' @ replicate n (CHR 0x09) @ name @ CHR 0x0A # rest) = Inr name" "getProcessName (''Name:'' @ name) = Inl OutOfRange"
proof -
  have skip: "dropWhile (\<lambda>c. c = CHR 0x09) (replicate k (CHR 0x09) @ name @ s) = name @ s" if "s = [] \<or> hd s = CHR 0x0A" for k s
    using assms(2) that by (induction k) (cases name; cases s; simp)+
  have "find_index (\<lambda>c. c = CHR 0x0A) (name @ CHR 0x0A # rest) = Some (length name)"
    by (rule find_index_prefix) (use assms(1) in blast)
  then show "getProcessName (''Name:'' @ replicate n (CHR 0x09) @ name @ CHR 0x0A # rest) = Inr name"
    using skip [of "CHR 0x0A # rest" n] by (simp add: getProcessName_def)
  have "find_index (\<lambda>c. c = CHR 0x0A) name = None"
    using assms(1) by (auto simp: find_index_None)
  then show "getProcessName (''Name:'' @ name) = Inl OutOfRange"
    using skip [of "[]" 0] by (simp add: getProcessName_def)
qed

end
