(* ===== verification/Net_Inspect.thy ===== *)
theory Net_Inspect
  imports Base_ProcessInfo
begin

text \<open>
  \<^verbatim>\<open>muduo/net/inspect\<close>: the inspector, an HTTP server whose pages are commands of modules, and the texts about the process.
  Commands may be added and removed at any time; a request for one is answered by the callback added last.
\<close>

section \<open>Inspector\<close>

type_synonym icallback = "http_method \<Rightarrow> string list \<Rightarrow> string"

record inspector =
  in_modules :: "string \<Rightarrow> (string \<Rightarrow> icallback option option) option"
  in_helps :: "(string \<times> (string \<times> string) list) list"

definition Inspector_empty :: inspector where
  "Inspector_empty = \<lparr>in_modules = Map.empty, in_helps = []\<rparr>"

function split_from :: "string \<Rightarrow> nat \<Rightarrow> string list" where
  "split_from str start =
     (case find_index (\<lambda>c. c = CHR ''/'') (drop start str) of
        Some k \<Rightarrow> (let pos = start + k in (if start < pos then [take (pos - start) (drop start str)] else []) @ split_from str (pos + 1))
      | None \<Rightarrow> (if start < length str then [drop start str] else []))"
  by pat_completeness auto
termination
  by (relation "measure (\<lambda>(str, start). length str - start)") (auto simp: find_index_Some)

declare split_from.simps [simp del]

definition inspector_split :: "string \<Rightarrow> string list" where
  "inspector_split str = split_from str 0"

text \<open>\<open>helps_[module]\<close> makes an empty list where there is none; the keys of a \<^verbatim>\<open>std::map\<close> are in order.\<close>

fun helps_update :: "string \<Rightarrow> ((string \<times> string) list \<Rightarrow> (string \<times> string) list) \<Rightarrow> (string \<times> (string \<times> string) list) list \<Rightarrow> (string \<times> (string \<times> string) list) list" where
  "helps_update k f [] = [(k, f [])]"
| "helps_update k f ((k', v) # m) = (if k = k' then (k, f v) # m else if k < k' then (k, f []) # (k', v) # m else (k', v) # helps_update k f m)"

definition Inspector_add :: "string \<Rightarrow> string \<Rightarrow> icallback option \<Rightarrow> string \<Rightarrow> inspector \<Rightarrow> inspector" where
  "Inspector_add module command cb help ins =
     (let commands = (case in_modules ins module of Some cs \<Rightarrow> cs | None \<Rightarrow> Map.empty) in
      ins\<lparr>in_modules := (in_modules ins)(module \<mapsto> commands(command \<mapsto> cb)), in_helps := helps_update module (map_put command help) (in_helps ins)\<rparr>)"

definition Inspector_remove :: "string \<Rightarrow> string \<Rightarrow> inspector \<Rightarrow> inspector" where
  "Inspector_remove module command ins =
     (case in_modules ins module of
        None \<Rightarrow> ins
      | Some cs \<Rightarrow> ins\<lparr>in_modules := (in_modules ins)(module \<mapsto> cs(command := None)),
          in_helps := helps_update module (filter (\<lambda>(c, h). c \<noteq> command)) (in_helps ins)\<rparr>)"

definition help_line :: "string \<Rightarrow> string \<times> string \<Rightarrow> string" where
  "help_line module it =
     (let len = length module + length (fst it) in
      ''/'' @ module @ ''/'' @ fst it @ replicate (if 25 \<le> len then 1 else 25 - len) (CHR '' '') @ snd it @ [CHR 0x0A])"

definition help_page :: "inspector \<Rightarrow> string" where
  "help_page ins = concat (map (\<lambda>(module, ls). concat (map (help_line module) ls)) (in_helps ins))"

definition ok_page :: "string \<Rightarrow> string \<Rightarrow> http_response \<Rightarrow> http_response" where
  "ok_page contentType body resp =
     HttpResponse_setBody body (HttpResponse_setContentType contentType (HttpResponse_setStatusMessage ''OK'' (HttpResponse_setStatusCode k200Ok resp)))"

text \<open>\<open>favicon\<close> is the array of that name.\<close>

definition Inspector_onRequest :: "char list \<Rightarrow> inspector \<Rightarrow> http_request \<Rightarrow> http_response \<Rightarrow> http_response" where
  "Inspector_onRequest favicon ins req resp =
     (if req_path req = ''/'' then ok_page ''text/plain'' (help_page ins) resp
      else
        (let result = inspector_split (req_path req);
             answer = (case result of
                [] \<Rightarrow> None
              | [module] \<Rightarrow> if module = ''favicon.ico'' then Some (ok_page ''image/png'' favicon resp) else None
              | module # command # args \<Rightarrow>
                  (case in_modules ins module of
                     None \<Rightarrow> None
                   | Some commList \<Rightarrow>
                       (case commList command of
                          Some (Some cb) \<Rightarrow> Some (ok_page ''text/plain'' (cb (req_method req) args) resp)
                        | _ \<Rightarrow> None)))
         in case answer of
              Some r \<Rightarrow> r
            | None \<Rightarrow> HttpResponse_setStatusMessage ''Not Found'' (HttpResponse_setStatusCode k404NotFound resp)))"

text \<open>The commands that the constructor registers; \<open>body\<close> gives the function behind each.\<close>

definition ProcessInspector_registerCommands :: "(string \<Rightarrow> icallback) \<Rightarrow> inspector \<Rightarrow> inspector" where
  "ProcessInspector_registerCommands body ins =
     Inspector_add ''proc'' ''threads'' (Some (body ''threads'')) ''list /proc/self/task''
    (Inspector_add ''proc'' ''status'' (Some (body ''status'')) ''print /proc/self/status''
    (Inspector_add ''proc'' ''pid'' (Some (body ''pid'')) ''print pid''
    (Inspector_add ''proc'' ''overview'' (Some (body ''overview'')) ''print basic overview'' ins)))"

definition SystemInspector_registerCommands :: "(string \<Rightarrow> icallback) \<Rightarrow> inspector \<Rightarrow> inspector" where
  "SystemInspector_registerCommands body ins =
     Inspector_add ''sys'' ''stat'' (Some (body ''stat'')) ''print /proc/stat''
    (Inspector_add ''sys'' ''meminfo'' (Some (body ''meminfo'')) ''print /proc/meminfo''
    (Inspector_add ''sys'' ''cpuinfo'' (Some (body ''cpuinfo'')) ''print /proc/cpuinfo''
    (Inspector_add ''sys'' ''version'' (Some (body ''version'')) ''print /proc/version''
    (Inspector_add ''sys'' ''loadavg'' (Some (body ''loadavg'')) ''print /proc/loadavg''
    (Inspector_add ''sys'' ''overview'' (Some (body ''overview'')) ''print system overview'' ins)))))"

definition Inspector_new :: "(string \<Rightarrow> icallback) \<Rightarrow> (string \<Rightarrow> icallback) \<Rightarrow> inspector" where
  "Inspector_new proc sys = SystemInspector_registerCommands sys (ProcessInspector_registerCommands proc Inspector_empty)"

section \<open>Paths\<close>

definition path_of :: "string list \<Rightarrow> string" where
  "path_of ws = concat (map (\<lambda>w. CHR ''/'' # w) ws)"

lemma split_from_drop: "split_from (pre @ str) (length pre + start) = split_from str start"
proof (induction str start rule: split_from.induct)
  case (1 str start)
  show ?case
  proof (cases "find_index (\<lambda>c. c = CHR ''/'') (drop start str)")
    case None
    then show ?thesis
      by (subst (1 2) split_from.simps) simp
  next
    case (Some k)
    then show ?thesis
      using 1 [OF Some refl] by (subst (1 2) split_from.simps) (simp add: add.assoc)
  qed
qed

lemma split_slash:
  assumes "CHR ''/'' \<notin> set w"
  shows "inspector_split (w @ CHR ''/'' # s) = (if w = [] then [] else [w]) @ inspector_split s"
proof -
  have "\<forall>c\<in>set w. c \<noteq> CHR ''/''"
    using assms by blast
  then have found: "find_index (\<lambda>c. c = CHR ''/'') (w @ CHR ''/'' # s) = Some (length w)"
    by (rule find_index_prefix)
  have "split_from (w @ CHR ''/'' # s) (length w + 1) = split_from s 0"
    using split_from_drop [of "w @ ''/''" s 0] by simp
  then show ?thesis
    unfolding inspector_split_def by (subst split_from.simps) (simp add: found)
qed

lemma split_word:
  assumes "CHR ''/'' \<notin> set w"
  shows "inspector_split w = (if w = [] then [] else [w])"
proof -
  have "find_index (\<lambda>c. c = CHR ''/'') w = None"
    using assms by (auto simp: find_index_None)
  then show ?thesis
    unfolding inspector_split_def by (subst split_from.simps) simp
qed

text \<open>Splitting a path gives its words; empty ones are ignored.\<close>

lemma split_path: "\<forall>w\<in>set ws. CHR ''/'' \<notin> set w \<Longrightarrow> inspector_split (path_of ws) = filter (\<lambda>w. w \<noteq> []) ws"
proof -
  have words: "inspector_split (w @ path_of ws) = filter (\<lambda>w. w \<noteq> []) (w # ws)" if "\<forall>w\<in>set (w # ws). CHR ''/'' \<notin> set w" for w ws
    using that
  proof (induction ws arbitrary: w)
    case Nil
    then show ?case
      using split_word [of w] by (simp add: path_of_def)
  next
    case (Cons v ws)
    then have "inspector_split (w @ CHR ''/'' # (v @ path_of ws)) = (if w = [] then [] else [w]) @ inspector_split (v @ path_of ws)"
      by (intro split_slash) auto
    then show ?case
      using Cons by (simp add: path_of_def)
  qed
  assume "\<forall>w\<in>set ws. CHR ''/'' \<notin> set w"
  then show ?thesis
    using words [of "[]" ws] by simp
qed

section \<open>The table of commands\<close>

datatype inspect_op = Add string string "icallback option" string | Remove string string

primrec inspect_step :: "inspect_op \<Rightarrow> inspector \<Rightarrow> inspector" where
  "inspect_step (Add m c cb h) ins = Inspector_add m c cb h ins"
| "inspect_step (Remove m c) ins = Inspector_remove m c ins"

text \<open>What the last operation on a command left.\<close>

fun registered :: "inspect_op list \<Rightarrow> string \<Rightarrow> string \<Rightarrow> icallback option" where
  "registered [] m c = None"
| "registered (x # xs) m c =
     (case x of
        Add m' c' cb h \<Rightarrow> if m' = m \<and> c' = c then cb else registered xs m c
      | Remove m' c' \<Rightarrow> if m' = m \<and> c' = c then None else registered xs m c)"

definition command_of :: "inspector \<Rightarrow> string \<Rightarrow> string \<Rightarrow> icallback option" where
  "command_of ins m c = (case in_modules ins m of None \<Rightarrow> None | Some cs \<Rightarrow> (case cs c of Some cb \<Rightarrow> cb | None \<Rightarrow> None))"

lemma command_of_ops:
  "command_of (Inspector_add m c cb h ins) m' c' = (if m' = m \<and> c' = c then cb else command_of ins m' c')"
  "command_of (Inspector_remove m c ins) m' c' = (if m' = m \<and> c' = c then None else command_of ins m' c')"
  by (auto simp: command_of_def Inspector_add_def Inspector_remove_def Let_def split: option.splits)

text \<open>The newest operation is the head of the list.\<close>

lemma command_of_run: "command_of (foldr inspect_step ops Inspector_empty) m c = registered ops m c"
proof (induction ops)
  case Nil
  then show ?case by (simp add: command_of_def Inspector_empty_def)
next
  case (Cons x ops)
  then show ?case by (cases x) (auto simp: command_of_ops)
qed

lemma onRequest_command:
  assumes "\<forall>w\<in>set (m # c # args). w \<noteq> [] \<and> CHR ''/'' \<notin> set w" "req_path req = path_of (m # c # args)"
  shows "Inspector_onRequest favicon ins req resp = (case command_of ins m c of
      Some cb \<Rightarrow> ok_page ''text/plain'' (cb (req_method req) args) resp
    | None \<Rightarrow> HttpResponse_setStatusMessage ''Not Found'' (HttpResponse_setStatusCode k404NotFound resp))"
proof -
  have words: "inspector_split (req_path req) = m # c # args"
    using split_path [of "m # c # args"] assms by (simp add: filter_id_conv)
  have "req_path req \<noteq> ''/''"
    using assms(1) unfolding assms(2) by (simp add: path_of_def)
  then show ?thesis
    unfolding Inspector_onRequest_def words by (simp add: command_of_def split: option.split)
qed

text \<open>The operations of the constructor, the newest first.\<close>

definition builtin_commands :: "(string \<Rightarrow> icallback) \<Rightarrow> (string \<Rightarrow> icallback) \<Rightarrow> inspect_op list" where
  "builtin_commands proc sys =
     map (\<lambda>(c, h). Add ''sys'' c (Some (sys c)) h)
       [(''stat'', ''print /proc/stat''), (''meminfo'', ''print /proc/meminfo''), (''cpuinfo'', ''print /proc/cpuinfo''),
        (''version'', ''print /proc/version''), (''loadavg'', ''print /proc/loadavg''), (''overview'', ''print system overview'')] @
     map (\<lambda>(c, h). Add ''proc'' c (Some (proc c)) h)
       [(''threads'', ''list /proc/self/task''), (''status'', ''print /proc/self/status''), (''pid'', ''print pid''), (''overview'', ''print basic overview'')]"

lemma Inspector_new_ops: "Inspector_new proc sys = foldr inspect_step (builtin_commands proc sys) Inspector_empty"
  by (simp add: Inspector_new_def builtin_commands_def SystemInspector_registerCommands_def ProcessInspector_registerCommands_def)

text \<open>
  The text of an answer; \<open>close\<close> says whether the connection is closed after it, which by the header \<^verbatim>\<open>Connection\<close> and the version is what the client
  asked for.
\<close>

definition page_text :: "bool \<Rightarrow> string option \<Rightarrow> string" where
  "page_text close body =
     ''HTTP/1.1 '' @ (if body = None then ''404 Not Found'' else ''200 OK'') @ crlf @
     (if close then ''Connection: close'' @ crlf
      else ''Content-Length: '' @ show_nat (case body of Some b \<Rightarrow> length b | None \<Rightarrow> 0) @ crlf @ ''Connection: Keep-Alive'' @ crlf) @
     (case body of Some b \<Rightarrow> ''Content-Type: text/plain'' @ crlf @ crlf @ b | None \<Rightarrow> crlf)"

definition asks_close :: "http_version \<Rightarrow> (string \<times> string) list \<Rightarrow> bool" where
  "asks_close v hs \<longleftrightarrow>
     map_of (rev hs) ''Connection'' = Some ''close'' \<or> v = kHttp10 \<and> map_of (rev hs) ''Connection'' \<noteq> Some ''Keep-Alive''"

lemma show_int_status: "show_int 200 = ''200''" "show_int 404 = ''404''" "show_nat 0 = ''0''"
  by (simp_all add: show_int_def show_nat.simps digit_char_def char_of_def bit_Suc_0_iff)

definition inspector_page :: "bool \<Rightarrow> string option \<Rightarrow> http_response" where
  "inspector_page close body = (case body of
     Some b \<Rightarrow> ok_page ''text/plain'' b (HttpResponse_new close)
   | None \<Rightarrow> HttpResponse_setStatusMessage ''Not Found'' (HttpResponse_setStatusCode k404NotFound (HttpResponse_new close)))"

lemmas response_defs = HttpResponse_setBody_def HttpResponse_setContentType_def HttpResponse_addHeader_def HttpResponse_setStatusMessage_def
  HttpResponse_setStatusCode_def HttpResponse_new_def

lemma page_pieces:
  assumes "length (page_text close body) < 2 ^ 31"
  shows "concat (response_pieces (inspector_page close body)) = page_text close body" "resp_close (inspector_page close body) = close"
proof -
  show "resp_close (inspector_page close body) = close"
    by (simp add: inspector_page_def ok_page_def response_defs split: option.split)
  show "concat (response_pieces (inspector_page close body)) = page_text close body"
  proof (cases body)
    case None
    then show ?thesis
      by (simp add: response_pieces_def inspector_page_def page_text_def response_defs show_int_status crlf_def)
  next
    case (Some b)
    then have "length b < 2 ^ 31"
      using assms by (simp add: page_text_def)
    then have "length (show_nat (length b)) \<le> 10"
      using length_show_nat_le [of "length b" 9] by simp
    then have "take 31 (''Content-Length: '' @ show_nat (length b) @ crlf) = ''Content-Length: '' @ show_nat (length b) @ crlf"
      by (simp add: crlf_def)
    then show ?thesis
      using Some by (simp add: response_pieces_def inspector_page_def ok_page_def page_text_def response_defs show_int_status)
  qed
qed

lemma getHeader_close:
  assumes "req_version req = v" "req_headers req = map_of (rev hs)"
  shows "wants_close req = asks_close v hs"
  using assms by (simp add: wants_close_def asks_close_def HttpRequest_getHeader_def split: option.split)

text \<open>
  C28. After any sequence of \<^verbatim>\<open>add\<close> and \<^verbatim>\<open>remove\<close> on an inspector, a request for \<^verbatim>\<open>/module/command/arg...\<close>, with any method, query,
  version and headers and arriving on an idle connection in any pieces, is answered when its last byte is there, with the text that the
  callback added last for that command makes of the method and the arguments, or with status 404 when the command was never
  added, was removed since, or has no callback. The answer has a length and keeps the connection unless the request has the header
  \<^verbatim>\<open>Connection: close\<close>, or has version 1.0 without \<^verbatim>\<open>Connection: Keep-Alive\<close>; then it says so and the connection is being shut down. The bytes after the request stay
  in the input.
\<close>

theorem Inspector_serves:
  assumes "conn_inv c" "connState c = kConnected" "Buffer_content (inputBuffer c) = []" "write_contract w" "peer_alive w" "m \<noteq> kInvalid" "v \<noteq> kUnknown"
    "\<forall>x\<in>set (module # command # args). x \<noteq> [] \<and> CHR ''/'' \<notin> set x" "uri_ok (path_of (module # command # args)) query" "\<forall>h\<in>set hs. header_ok h"
    "concat (map snd reads) @ q = request_text m (path_of (module # command # args)) query v hs" "q \<noteq> []"
    "page = page_text (asks_close v hs) (map_option (\<lambda>cb. cb m args) (registered (ops @ builtin_commands proc sys) module command))"
    "length page < 2 ^ 31" "conn_cap c + length page \<le> vec_max"
    "Buffer_cap (inputBuffer c) + length (request_text m (path_of (module # command # args)) query v hs @ rest) \<le> vec_max"
  shows "\<exists>c'. http_reads w (Inspector_onRequest favicon (foldr inspect_step ops (Inspector_new proc sys))) (reads @ [(t, q @ rest)]) (c, HttpContext_new) =
      Some (Inr (c', HttpContext_new)) \<and>
    conn_stream c' = conn_stream c @ page \<and> Buffer_content (inputBuffer c') = rest \<and>
    connState c' = (if asks_close v hs then kDisconnecting else kConnected)"
proof -
  let ?ins = "foldr inspect_step ops (Inspector_new proc sys)" and ?path = "path_of (module # command # args)"
  let ?cb = "Inspector_onRequest favicon ?ins" and ?body = "map_option (\<lambda>cb. cb m args) (registered (ops @ builtin_commands proc sys) module command)"
  define req where "req = \<lparr>req_method = m, req_version = v, req_path = ?path, req_query = query, req_receiveTime = t, req_headers = map_of (rev hs)\<rparr>"
  have req: "req_method req = m" "req_version req = v" "req_path req = ?path" "req_headers req = map_of (rev hs)"
    by (simp_all add: req_def)
  have found: "command_of ?ins module command = registered (ops @ builtin_commands proc sys) module command"
    using command_of_run [of "ops @ builtin_commands proc sys"] by (simp add: Inspector_new_ops)
  have resp: "inspector_page (asks_close v hs) ?body = ?cb req (HttpResponse_new (wants_close req))"
    unfolding getHeader_close [OF req(2,4)] onRequest_command [OF assms(8) req(3)] found req(1) inspector_page_def by (simp split: option.split)
  have "req_path (req\<lparr>req_receiveTime := t'\<rparr>) = req_path req" "req_method (req\<lparr>req_receiveTime := t'\<rparr>) = req_method req" for t'
    by simp_all
  then have time: "?cb (req\<lparr>req_receiveTime := t'\<rparr>) = ?cb req" for t'
    by (intro ext) (simp only: Inspector_onRequest_def)
  have pieces: "concat (response_pieces (inspector_page (asks_close v hs) ?body)) = page" "resp_close (inspector_page (asks_close v hs) ?body) = asks_close v hs"
    using page_pieces [of "asks_close v hs" ?body] assms(13,14) by simp_all
  have size: "1032 + length (concat (response_pieces (inspector_page (asks_close v hs) ?body))) \<le> vec_max"
    unfolding pieces using assms(14) by (simp add: vec_max_def)
  have "completes HttpContext_new (Buffer_content (inputBuffer c) @ concat (map snd reads) @ q) req"
    using completes_request [OF assms(6,7,9,10) req_def] assms(3,11) by simp
  moreover have "Buffer_cap (inputBuffer c) + length (concat (map snd reads)) + length (q @ rest) \<le> vec_max"
    using assms(16) unfolding assms(11) [symmetric] by simp
  ultimately show ?thesis
    using http_reads_answers [where cb = ?cb and q = q and x = HttpContext_new and t = t, OF assms(4,5) time resp size assms(12,1,2)]
      assms(15) unfolding pieces by blast
qed

text \<open>A request in two reads, with two headers, the second of which asks to close.\<close>

definition greet_request :: string where
  "greet_request = request_text kGet ''/app/greet/you'' ''?x=1'' kHttp11 [(''Host'', ''h''), (''Connection'', ''close'')]"

theorem Inspector_serves_witness:
  "\<exists>c c'. conn_stream c = [] \<and>
     http_reads (write_room 9)
       (Inspector_onRequest [] (Inspector_add ''app'' ''greet'' (Some (\<lambda>m args. ''hello '' @ concat args)) [] (Inspector_new (\<lambda>n m a. n) (\<lambda>n m a. n))))
       [(Timestamp 1, take 20 greet_request), (Timestamp 2, drop 20 greet_request @ ''GET'')] (c, HttpContext_new) = Some (Inr (c', HttpContext_new)) \<and>
     conn_stream c' = ''HTTP/1.1 200 OK'' @ crlf @ ''Connection: close'' @ crlf @ ''Content-Type: text/plain'' @ crlf @ crlf @ ''hello you'' \<and>
     Buffer_content (inputBuffer c') = ''GET'' \<and> connState c' = kDisconnecting"
proof -
  let ?hs = "[(''Host'', ''h''), (''Connection'', ''close'')]" and ?q = "drop 20 greet_request"
  let ?ops = "[Add ''app'' ''greet'' (Some (\<lambda>m args. ''hello '' @ concat args)) []]" and ?none = "(\<lambda>n m a. n) :: string \<Rightarrow> icallback"
  have path: "path_of [''app'', ''greet'', ''you''] = ''/app/greet/you''"
    by (simp add: path_of_def)
  have request: "greet_request = request_text kGet (path_of [''app'', ''greet'', ''you'']) ''?x=1'' kHttp11 ?hs"
    unfolding path greet_request_def ..
  obtain c where c: "conn_inv c" "connState c = kConnected" "conn_stream c = []" "Buffer_content (inputBuffer c) = []" "conn_cap c = 1032"
      "Buffer_cap (inputBuffer c) = 1032"
    using fresh_connection_ok by (auto simp: conn_stream_def)
  have words: "\<forall>x\<in>set [''app'', ''greet'', ''you'']. x \<noteq> [] \<and> CHR ''/'' \<notin> set x" and uri: "uri_ok (path_of [''app'', ''greet'', ''you'']) ''?x=1''"
      and headers: "\<forall>h\<in>set ?hs. header_ok h"
    by (simp_all add: path uri_ok_def header_ok_def trimmed_def isspace_def)
  have len: "length greet_request = 63"
    by (simp add: greet_request_def request_text_def HttpRequest_methodString_def header_text_def crlf_def)
  have cut: "concat (map snd [(Timestamp 1, take 20 greet_request)]) @ ?q = request_text kGet (path_of [''app'', ''greet'', ''you'']) ''?x=1'' kHttp11 ?hs"
      "?q \<noteq> []"
    using len by (simp_all add: request)
  have asks: "asks_close kHttp11 ?hs"
    by (simp add: asks_close_def)
  have page: "''HTTP/1.1 200 OK'' @ crlf @ ''Connection: close'' @ crlf @ ''Content-Type: text/plain'' @ crlf @ crlf @ ''hello you'' =
      page_text (asks_close kHttp11 ?hs) (map_option (\<lambda>cb. cb kGet [''you'']) (registered (?ops @ builtin_commands ?none ?none) ''app'' ''greet''))"
    using asks by (simp add: page_text_def)
  have sizes: "length (''HTTP/1.1 200 OK'' @ crlf @ ''Connection: close'' @ crlf @ ''Content-Type: text/plain'' @ crlf @ crlf @ ''hello you'') < 2 ^ 31"
      "conn_cap c + length (''HTTP/1.1 200 OK'' @ crlf @ ''Connection: close'' @ crlf @ ''Content-Type: text/plain'' @ crlf @ crlf @ ''hello you'') \<le> vec_max"
      "Buffer_cap (inputBuffer c) + length (request_text kGet (path_of [''app'', ''greet'', ''you'']) ''?x=1'' kHttp11 ?hs @ ''GET'') \<le> vec_max"
    unfolding request [symmetric] using c(5,6) len by (simp_all add: crlf_def vec_max_def)
  have known: "kGet \<noteq> kInvalid" "kHttp11 \<noteq> kUnknown"
    by simp_all
  note run = Inspector_serves [where reads = "[(Timestamp 1, take 20 greet_request)]" and t = "Timestamp 2" and favicon = "[]",
      OF c(1,2,4) write_room_contract [of 9] known words uri headers cut page sizes, unfolded c(3) foldr.simps comp_apply id_apply inspect_step.simps append_Cons append_Nil if_P [OF asks]]
  show ?thesis
    unfolding append_Cons append_Nil using run by (elim exE) (rule exI, rule exI, rule conjI [OF c(3)], assumption)
qed

end
