(* ===== verification/Net_Zlib.thy ===== *)
theory Net_Zlib
  imports Http_Laws
begin

text \<open>
  \<^verbatim>\<open>muduo/net/ZlibStream.h\<close>: the stream that compresses into a buffer. \<^verbatim>\<open>deflate\<close> is an argument; of it the theorems use that it
  consumes a prefix of its input and fills a prefix of its output, that it makes progress, and that the stream it
  has produced at \<^verbatim>\<open>Z_STREAM_END\<close> decompresses to what it was given. The input stream of the file has no definitions.
\<close>

section \<open>ZlibOutputStream\<close>

datatype zret = Z_OK | Z_STREAM_END | Z_BUF_ERROR | Z_ERROR int

datatype zflush = Z_NO_FLUSH | Z_FINISH

text \<open>State, kind of flush, available input and room in the output to: answer, bytes consumed, bytes written, state.\<close>

type_synonym 'z deflate_fn = "'z \<Rightarrow> zflush \<Rightarrow> char list \<Rightarrow> nat \<Rightarrow> zret \<times> nat \<times> char list \<times> 'z"

text \<open>\<open>zo_in\<close> is \<^verbatim>\<open>next_in\<close> with the \<^verbatim>\<open>avail_in\<close> bytes it points to, \<open>None\<close> the null pointer.\<close>

record 'z zlib_out =
  zo_output :: net_buffer
  zo_state :: 'z
  zo_in :: "char list option"
  zo_error :: zret
  zo_bufferSize :: nat

definition ZlibOutputStream_new :: "zret \<times> 'z \<Rightarrow> net_buffer \<Rightarrow> 'z zlib_out" where
  "ZlibOutputStream_new init output = \<lparr>zo_output = output, zo_state = snd init, zo_in = None, zo_error = fst init, zo_bufferSize = 1024\<rparr>"

definition avail_in :: "'z zlib_out \<Rightarrow> char list" where
  "avail_in s = (case zo_in s of None \<Rightarrow> [] | Some d \<Rightarrow> d)"

definition ZlibOutputStream_compress :: "'z deflate_fn \<Rightarrow> zflush \<Rightarrow> 'z zlib_out \<Rightarrow> (zret \<times> 'z zlib_out) res" where
  "ZlibOutputStream_compress deflate flush s =
     rbind (Buffer_ensureWritableBytes (zo_output s) (zo_bufferSize s)) (\<lambda>b.
       let availOut = Buffer_writableBytes b mod 2 ^ 32 in
       case deflate (zo_state s) flush (avail_in s) availOut of (err, used, out, z) \<Rightarrow>
         rbind (mem_write (buffer b) (Buffer_beginWrite b) out) (\<lambda>st.
         rbind (Buffer_hasWritten (b\<lparr>buffer := st\<rparr>) (size_sub (Buffer_writableBytes (b\<lparr>buffer := st\<rparr>)) (availOut - length out))) (\<lambda>b1.
           Inr (err, s\<lparr>zo_output := b1, zo_state := z, zo_in := map_option (drop used) (zo_in s),
             zo_bufferSize := (if Buffer_writableBytes b1 = 0 \<and> zo_bufferSize s < 65536 then zo_bufferSize s * 2 else zo_bufferSize s)\<rparr>))))"

partial_function (option) ZlibOutputStream_writeLoop :: "'z deflate_fn \<Rightarrow> 'z zlib_out \<Rightarrow> 'z zlib_out res option" where
  "ZlibOutputStream_writeLoop deflate s =
     (if avail_in s \<noteq> [] \<and> zo_error s = Z_OK
      then (case ZlibOutputStream_compress deflate Z_NO_FLUSH s of
              Inl e \<Rightarrow> Some (Inl e)
            | Inr (err, s1) \<Rightarrow> ZlibOutputStream_writeLoop deflate (s1\<lparr>zo_error := err\<rparr>))
      else Some (Inr s))"

definition ZlibOutputStream_write :: "'z deflate_fn \<Rightarrow> char list \<Rightarrow> 'z zlib_out \<Rightarrow> (bool \<times> 'z zlib_out) res option" where
  "ZlibOutputStream_write deflate data s =
     (if zo_error s \<noteq> Z_OK then Some (Inr (False, s))
      else if zo_in s \<noteq> None then Some (Inl AssertFailed)
      else (case ZlibOutputStream_writeLoop deflate (s\<lparr>zo_in := Some data\<rparr>) of
              None \<Rightarrow> None
            | Some (Inl e) \<Rightarrow> Some (Inl e)
            | Some (Inr s1) \<Rightarrow>
                (let s2 = (if avail_in s1 = [] then s1\<lparr>zo_in := None\<rparr> else s1) in Some (Inr (zo_error s2 = Z_OK, s2)))))"

definition ZlibOutputStream_writeBuffer :: "'z deflate_fn \<Rightarrow> net_buffer \<Rightarrow> 'z zlib_out \<Rightarrow> (bool \<times> net_buffer \<times> 'z zlib_out) res" where
  "ZlibOutputStream_writeBuffer deflate input s =
     (if zo_error s \<noteq> Z_OK then Inr (False, input, s)
      else
        (let n = Buffer_readableBytes input in
         rbind (mem_read (buffer input) (Buffer_peek input) n) (\<lambda>d.
         let s0 = s\<lparr>zo_in := Some d\<rparr> in
         rbind (if 0 < n \<and> zo_error s0 = Z_OK
                then rbind (ZlibOutputStream_compress deflate Z_NO_FLUSH s0) (\<lambda>(err, s1). Inr (s1\<lparr>zo_error := err\<rparr>)) else Inr s0) (\<lambda>s2.
         rbind (Buffer_retrieve input (size_sub (Buffer_readableBytes input) (length (avail_in s2)))) (\<lambda>input1.
           Inr (zo_error s2 = Z_OK, input1, s2))))))"

partial_function (option) ZlibOutputStream_finishLoop :: "'z deflate_fn \<Rightarrow> 'z zlib_out \<Rightarrow> 'z zlib_out res option" where
  "ZlibOutputStream_finishLoop deflate s =
     (if zo_error s = Z_OK
      then (case ZlibOutputStream_compress deflate Z_FINISH s of
              Inl e \<Rightarrow> Some (Inl e)
            | Inr (err, s1) \<Rightarrow> ZlibOutputStream_finishLoop deflate (s1\<lparr>zo_error := err\<rparr>))
      else Some (Inr s))"

definition ZlibOutputStream_finish :: "'z deflate_fn \<Rightarrow> ('z \<Rightarrow> zret) \<Rightarrow> 'z zlib_out \<Rightarrow> (bool \<times> 'z zlib_out) res option" where
  "ZlibOutputStream_finish deflate deflateEnd s =
     (if zo_error s \<noteq> Z_OK then Some (Inr (False, s))
      else (case ZlibOutputStream_finishLoop deflate s of
              None \<Rightarrow> None
            | Some (Inl e) \<Rightarrow> Some (Inl e)
            | Some (Inr s1) \<Rightarrow> Some (Inr (deflateEnd (zo_state s1) = Z_OK, s1\<lparr>zo_error := Z_STREAM_END\<rparr>))))"

section \<open>What is documented of deflate\<close>

text \<open>
  \<open>zinv z ins outs\<close> says that the compressor in state \<open>z\<close> has consumed \<open>ins\<close> and written \<open>outs\<close>; \<open>rank z\<close> counts what it still
  has to write; \<open>bnd\<close> is \<^verbatim>\<open>deflateBound\<close>.
\<close>

definition deflate_contract :: "'z deflate_fn \<Rightarrow> ('z \<Rightarrow> zret) \<Rightarrow> ('z \<Rightarrow> char list \<Rightarrow> char list \<Rightarrow> bool) \<Rightarrow> ('z \<Rightarrow> nat) \<Rightarrow> (char list \<Rightarrow> char list) \<Rightarrow> (nat \<Rightarrow> nat) \<Rightarrow> bool" where
  "deflate_contract deflate deflateEnd zinv rank inflate bnd \<longleftrightarrow>
     mono bnd \<and> (\<forall>z ins outs. zinv z ins outs \<longrightarrow> length outs \<le> bnd (length ins)) \<and>
     (\<forall>z ins outs d n. zinv z ins outs \<longrightarrow> d \<noteq> [] \<longrightarrow> 0 < n \<longrightarrow>
        (case deflate z Z_NO_FLUSH d n of (err, used, out, z') \<Rightarrow>
           err = Z_OK \<and> used \<le> length d \<and> length out \<le> n \<and> zinv z' (ins @ take used d) (outs @ out) \<and> (0 < used \<or> rank z' < rank z))) \<and>
     (\<forall>z ins outs d n. zinv z ins outs \<longrightarrow> 0 < n \<longrightarrow>
        (case deflate z Z_FINISH d n of (err, used, out, z') \<Rightarrow>
           used \<le> length d \<and> length out \<le> n \<and> zinv z' (ins @ take used d) (outs @ out) \<and>
           (err = Z_OK \<and> (0 < used \<or> rank z' < rank z) \<or>
            err = Z_STREAM_END \<and> used = length d \<and> inflate (outs @ out) = ins @ d \<and> deflateEnd z' = Z_OK)))"

section \<open>Compressing\<close>

lemma ensureWritable_growth:
  assumes "Buffer_ensureWritableBytes b n = Inr b'" "Buffer_wf b" "writerIndex b + n \<le> vec_max"
  shows "Buffer_cap b' \<le> max (Buffer_cap b) (writerIndex b + n)" "writerIndex b' \<le> writerIndex b"
  using assms Buffer_wfD [OF assms(2)]
  by (auto simp: Buffer_ensureWritableBytes_def Buffer_makeSpace_def Buffer_cap_def Let_def rbind_eq_Inr c_assert_eq_Inr vec_resize_def mem_write_def
      Buffer_readableBytes_def split: if_splits)

text \<open>A stream in step with the compressor: \<open>base\<close> was in the buffer before, \<open>W\<close> bounds where it ended, \<open>M\<close> what is written.\<close>

definition zlib_ok :: "('z \<Rightarrow> char list \<Rightarrow> char list \<Rightarrow> bool) \<Rightarrow> char list \<Rightarrow> nat \<Rightarrow> nat \<Rightarrow> char list \<Rightarrow> char list \<Rightarrow> 'z zlib_out \<Rightarrow> bool" where
  "zlib_ok zinv base W C ins outs s \<longleftrightarrow> Buffer_wf (zo_output s) \<and> Buffer_content (zo_output s) = base @ outs \<and> zinv (zo_state s) ins outs \<and>
     1024 \<le> zo_bufferSize s \<and> zo_bufferSize s < 2 * 65536 \<and> writerIndex (zo_output s) \<le> W + length outs \<and> Buffer_cap (zo_output s) \<le> C"

lemma compress_ok:
  assumes "zlib_ok zinv base W C ins outs s" "W + length outs + 2 * 65536 \<le> C" "C < 2 ^ 31"
    "\<And>n. 0 < n \<Longrightarrow> case deflate (zo_state s) flush (avail_in s) n of (err, used, out, z') \<Rightarrow> length out \<le> n \<and> zinv z' (ins @ take used (avail_in s)) (outs @ out)"
  shows "\<exists>err used out z' n s1. 0 < n \<and> deflate (zo_state s) flush (avail_in s) n = (err, used, out, z') \<and> ZlibOutputStream_compress deflate flush s = Inr (err, s1) \<and>
    zlib_ok zinv base W C (ins @ take used (avail_in s)) (outs @ out) s1 \<and> zo_state s1 = z' \<and> zo_in s1 = map_option (drop used) (zo_in s) \<and> zo_error s1 = zo_error s"
proof -
  let ?b = "zo_output s" and ?size = "zo_bufferSize s"
  have ok: "Buffer_wf ?b" "Buffer_content ?b = base @ outs" "1024 \<le> ?size" "?size < 131072" "writerIndex ?b \<le> W + length outs" "Buffer_cap ?b \<le> C"
    using assms(1) by (simp_all add: zlib_ok_def)
  have room: "Buffer_cap ?b + ?size \<le> vec_max" "writerIndex ?b + ?size \<le> vec_max" "writerIndex ?b + ?size \<le> C"
    using ok assms(2,3) by (simp_all add: vec_max_def)
  obtain b where b: "Buffer_ensureWritableBytes ?b ?size = Inr b" "Buffer_wf b" "Buffer_content b = Buffer_content ?b" "?size \<le> Buffer_writableBytes b"
    using Buffer_ensureWritableBytes_ok [OF ok(1) room(1)] by blast
  have cap: "Buffer_cap b \<le> C" "writerIndex b \<le> W + length outs"
    using ensureWritable_growth [OF b(1) ok(1) room(2)] ok(5,6) room(3) by simp_all
  let ?n = "Buffer_writableBytes b"
  have n: "?n mod 2 ^ 32 = ?n" "0 < ?n" "?n = length (buffer b) - writerIndex b"
    using cap(1) assms(3) b(4) ok(3) Buffer_wfD [OF b(2)] by (simp_all add: Buffer_wf_sizes [OF b(2)] Buffer_cap_def)
  obtain err used out z' where d: "deflate (zo_state s) flush (avail_in s) ?n = (err, used, out, z')" "length out \<le> ?n" "zinv z' (ins @ take used (avail_in s)) (outs @ out)"
    using assms(4) [OF n(2)] by (cases "deflate (zo_state s) flush (avail_in s) ?n") auto
  obtain st where st: "mem_write (buffer b) (writerIndex b) out = Inr st" "length st = length (buffer b)"
      "Buffer_wf (b\<lparr>buffer := st, writerIndex := writerIndex b + length out\<rparr>)"
      "Buffer_content (b\<lparr>buffer := st, writerIndex := writerIndex b + length out\<rparr>) = Buffer_content b @ out"
    using Buffer_put_ok [OF b(2), of out] d(2) n(3) by auto
  have writable: "Buffer_writableBytes (b\<lparr>buffer := st\<rparr>) = ?n"
    using st(2) by (simp add: Buffer_writableBytes_def)
  have small: "?n < 2 ^ 31" "writerIndex b + length out < 2 ^ 31"
    using n(3) d(2) cap(1) assms(3) Buffer_wfD [OF b(2)] by (simp_all add: Buffer_cap_def)
  have "size_sub ?n (?n - length out) = length out"
    using d(2) small(1) by simp
  then have written: "Buffer_hasWritten (b\<lparr>buffer := st\<rparr>) (size_sub (Buffer_writableBytes (b\<lparr>buffer := st\<rparr>)) (?n - length out)) =
      Inr (b\<lparr>buffer := st, writerIndex := writerIndex b + length out\<rparr>)"
    unfolding writable using small(2) d(2) by (simp add: Buffer_hasWritten_def writable)
  let ?b1 = "b\<lparr>buffer := st, writerIndex := writerIndex b + length out\<rparr>"
  let ?s1 = "s\<lparr>zo_output := ?b1, zo_state := z', zo_in := map_option (drop used) (zo_in s),
    zo_bufferSize := (if Buffer_writableBytes ?b1 = 0 \<and> ?size < 65536 then ?size * 2 else ?size)\<rparr>"
  have "ZlibOutputStream_compress deflate flush s = Inr (err, ?s1)"
    unfolding ZlibOutputStream_compress_def b(1) rbind_simps Let_def n(1) d(1) prod.case Buffer_beginWrite_def st(1) written ..
  moreover have "zlib_ok zinv base W C (ins @ take used (avail_in s)) (outs @ out) ?s1"
    using st(2-4) b(3) ok(2-4) d(3) cap by (simp add: zlib_ok_def Buffer_cap_def)
  ultimately show ?thesis
    using n(2) d(1) by (intro exI [of _ err] exI [of _ used] exI [of _ out] exI [of _ z'] exI [of _ ?n] exI [of _ ?s1]) simp
qed

lemma contract_noflush:
  assumes "deflate_contract deflate deflateEnd zinv rank inflate bnd" "zinv z ins outs" "d \<noteq> []" "0 < n" "deflate z Z_NO_FLUSH d n = (err, used, out, z')"
  shows "err = Z_OK \<and> used \<le> length d \<and> length out \<le> n \<and> zinv z' (ins @ take used d) (outs @ out) \<and> (0 < used \<or> rank z' < rank z)"
proof -
  have "case deflate z Z_NO_FLUSH d n of (err, used, out, z') \<Rightarrow>
      err = Z_OK \<and> used \<le> length d \<and> length out \<le> n \<and> zinv z' (ins @ take used d) (outs @ out) \<and> (0 < used \<or> rank z' < rank z)"
    by (rule assms(1) [unfolded deflate_contract_def, THEN conjunct2, THEN conjunct2, THEN conjunct1, rule_format, OF assms(2-4)])
  then show ?thesis
    using assms(5) by simp
qed

lemma contract_finish:
  assumes "deflate_contract deflate deflateEnd zinv rank inflate bnd" "zinv z ins outs" "0 < n" "deflate z Z_FINISH d n = (err, used, out, z')"
  shows "used \<le> length d \<and> length out \<le> n \<and> zinv z' (ins @ take used d) (outs @ out) \<and>
    (err = Z_OK \<and> (0 < used \<or> rank z' < rank z) \<or> err = Z_STREAM_END \<and> used = length d \<and> inflate (outs @ out) = ins @ d \<and> deflateEnd z' = Z_OK)"
proof -
  have "case deflate z Z_FINISH d n of (err, used, out, z') \<Rightarrow>
      used \<le> length d \<and> length out \<le> n \<and> zinv z' (ins @ take used d) (outs @ out) \<and>
      (err = Z_OK \<and> (0 < used \<or> rank z' < rank z) \<or> err = Z_STREAM_END \<and> used = length d \<and> inflate (outs @ out) = ins @ d \<and> deflateEnd z' = Z_OK)"
    by (rule assms(1) [unfolded deflate_contract_def, THEN conjunct2, THEN conjunct2, THEN conjunct2, rule_format, OF assms(2,3)])
  then show ?thesis
    using assms(4) by simp
qed

lemma contract_bound:
  assumes "deflate_contract deflate deflateEnd zinv rank inflate bnd" "zinv z ins outs" "length ins \<le> n"
  shows "length outs \<le> bnd n"
  using assms unfolding deflate_contract_def by (meson le_trans monoD)

lemma writeLoop_ok:
  assumes "deflate_contract deflate deflateEnd zinv rank inflate bnd" "W + bnd N + 2 * 65536 \<le> C" "C < 2 ^ 31"
  shows "zlib_ok zinv base W C ins outs s \<Longrightarrow> zo_in s = Some d \<Longrightarrow> zo_error s = Z_OK \<Longrightarrow> length (ins @ d) \<le> N \<Longrightarrow>
    \<exists>s' outs'. ZlibOutputStream_writeLoop deflate s = Some (Inr s') \<and> zlib_ok zinv base W C (ins @ d) outs' s' \<and> zo_in s' = Some [] \<and> zo_error s' = Z_OK"
proof (induction "(length d, rank (zo_state s))" arbitrary: s d ins outs rule: wf_induct_rule [OF wf_lex_prod [OF wf_less_than wf_less_than]])
  case (1 s d ins outs)
  show ?case
  proof (cases "d = []")
    case True
    then show ?thesis
      using 1 by (subst ZlibOutputStream_writeLoop.simps) (auto simp: avail_in_def)
  next
    case False
    have zinv: "zinv (zo_state s) ins outs" and avail: "avail_in s = d"
      using 1 by (simp_all add: zlib_ok_def avail_in_def)
    have bound: "W + length outs + 2 * 65536 \<le> C"
      using contract_bound [OF assms(1) zinv, of N] 1(5) assms(2) by simp
    have step: "case deflate (zo_state s) Z_NO_FLUSH (avail_in s) n of (err, used, out, z') \<Rightarrow> length out \<le> n \<and> zinv z' (ins @ take used (avail_in s)) (outs @ out)" if "0 < n" for n
      using contract_noflush [OF assms(1) zinv False that] avail by (auto split: prod.split)
    obtain err used out z' n s1 where s1: "0 < n" "deflate (zo_state s) Z_NO_FLUSH d n = (err, used, out, z')" "ZlibOutputStream_compress deflate Z_NO_FLUSH s = Inr (err, s1)"
        "zlib_ok zinv base W C (ins @ take used d) (outs @ out) s1" "zo_state s1 = z'" "zo_in s1 = Some (drop used d)"
      using compress_ok [where deflate = deflate and flush = Z_NO_FLUSH, OF 1(2) bound assms(3) step] avail 1(3) by auto
    note facts = contract_noflush [OF assms(1) zinv False s1(1,2)]
    let ?s1 = "s1\<lparr>zo_error := err\<rparr>"
    have unfold: "ZlibOutputStream_writeLoop deflate s = ZlibOutputStream_writeLoop deflate ?s1"
      using s1(3) False avail 1(4) by (subst ZlibOutputStream_writeLoop.simps) simp
    have "((length (drop used d), rank (zo_state ?s1)), (length d, rank (zo_state s))) \<in> less_than <*lex*> less_than"
      using facts s1(5) False by auto
    moreover have "zlib_ok zinv base W C (ins @ take used d) (outs @ out) ?s1" "zo_in ?s1 = Some (drop used d)" "zo_error ?s1 = Z_OK"
        "length ((ins @ take used d) @ drop used d) \<le> N"
      using s1(4,6) facts 1(5) by (simp_all add: zlib_ok_def)
    ultimately show ?thesis
      using 1(1) [of "drop used d" ?s1 "ins @ take used d" "outs @ out"] unfold by simp
  qed
qed

lemma zlib_write_ok:
  assumes "deflate_contract deflate deflateEnd zinv rank inflate bnd" "W + bnd N + 2 * 65536 \<le> C" "C < 2 ^ 31"
    "zlib_ok zinv base W C ins outs s" "zo_in s = None" "zo_error s = Z_OK" "length (ins @ d) \<le> N"
  shows "\<exists>s' outs'. ZlibOutputStream_write deflate d s = Some (Inr (True, s')) \<and> zlib_ok zinv base W C (ins @ d) outs' s' \<and> zo_in s' = None \<and> zo_error s' = Z_OK"
proof -
  have "zlib_ok zinv base W C ins outs (s\<lparr>zo_in := Some d\<rparr>)"
    using assms(4) by (simp add: zlib_ok_def)
  then obtain s1 outs' where s1: "ZlibOutputStream_writeLoop deflate (s\<lparr>zo_in := Some d\<rparr>) = Some (Inr s1)" "zlib_ok zinv base W C (ins @ d) outs' s1"
      "zo_in s1 = Some []" "zo_error s1 = Z_OK"
    using writeLoop_ok [OF assms(1-3), of base ins outs "s\<lparr>zo_in := Some d\<rparr>" d] assms(6,7) by auto
  then have "ZlibOutputStream_write deflate d s = Some (Inr (True, s1\<lparr>zo_in := None\<rparr>))"
    using assms(5,6) by (simp add: ZlibOutputStream_write_def avail_in_def)
  moreover have "zlib_ok zinv base W C (ins @ d) outs' (s1\<lparr>zo_in := None\<rparr>)"
    using s1(2) by (simp add: zlib_ok_def)
  ultimately show ?thesis
    using s1(4) by (intro exI [of _ "s1\<lparr>zo_in := None\<rparr>"] exI [of _ outs']) simp
qed

lemma finishLoop_ok:
  assumes "deflate_contract deflate deflateEnd zinv rank inflate bnd" "W + bnd N + 2 * 65536 \<le> C" "C < 2 ^ 31"
  shows "zlib_ok zinv base W C ins outs s \<Longrightarrow> zo_in s = None \<Longrightarrow> zo_error s = Z_OK \<Longrightarrow> length ins \<le> N \<Longrightarrow>
    \<exists>s' outs'. ZlibOutputStream_finishLoop deflate s = Some (Inr s') \<and> Buffer_content (zo_output s') = base @ outs' \<and> inflate outs' = ins \<and>
      deflateEnd (zo_state s') = Z_OK"
proof (induction "rank (zo_state s)" arbitrary: s outs rule: less_induct)
  case less
  have zinv: "zinv (zo_state s) ins outs" and avail: "avail_in s = []"
    using less.prems by (simp_all add: zlib_ok_def avail_in_def)
  have bound: "W + length outs + 2 * 65536 \<le> C"
    using contract_bound [OF assms(1) zinv less.prems(4)] assms(2) by simp
  have step: "case deflate (zo_state s) Z_FINISH (avail_in s) n of (err, used, out, z') \<Rightarrow> length out \<le> n \<and> zinv z' (ins @ take used (avail_in s)) (outs @ out)" if "0 < n" for n
    using contract_finish [OF assms(1) zinv that] by (auto split: prod.split)
  obtain err used out z' n s1 where s1: "0 < n" "deflate (zo_state s) Z_FINISH [] n = (err, used, out, z')" "ZlibOutputStream_compress deflate Z_FINISH s = Inr (err, s1)"
      "zlib_ok zinv base W C ins (outs @ out) s1" "zo_state s1 = z'" "zo_in s1 = None"
    using compress_ok [where deflate = deflate and flush = Z_FINISH, OF less.prems(1) bound assms(3) step] avail less.prems(2) by auto
  note facts = contract_finish [OF assms(1) zinv s1(1,2)]
  let ?s1 = "s1\<lparr>zo_error := err\<rparr>"
  have unfold: "ZlibOutputStream_finishLoop deflate s = ZlibOutputStream_finishLoop deflate ?s1"
    using s1(3) less.prems(3) by (subst ZlibOutputStream_finishLoop.simps) simp
  have ok: "zlib_ok zinv base W C ins (outs @ out) ?s1"
    using s1(4) by (simp add: zlib_ok_def)
  show ?case
  proof (cases "err = Z_OK")
    case True
    then show ?thesis
      using less.hyps [of ?s1 "outs @ out"] unfold ok facts s1(5,6) less.prems(4) by auto
  next
    case False
    then have "ZlibOutputStream_finishLoop deflate ?s1 = Some (Inr ?s1)"
      by (subst ZlibOutputStream_finishLoop.simps) simp
    moreover have "inflate (outs @ out) = ins" "deflateEnd (zo_state ?s1) = Z_OK"
      using False facts s1(5) by auto
    ultimately show ?thesis
      using unfold ok by (intro exI [of _ ?s1] exI [of _ "outs @ out"]) (simp add: zlib_ok_def)
  qed
qed

text \<open>Pieces of text one after the other.\<close>

primrec zlib_writes :: "'z deflate_fn \<Rightarrow> char list list \<Rightarrow> 'z zlib_out \<Rightarrow> (bool \<times> 'z zlib_out) res option" where
  "zlib_writes deflate [] s = Some (Inr (True, s))"
| "zlib_writes deflate (d # ds) s =
     (case ZlibOutputStream_write deflate d s of
        Some (Inr (ok, s1)) \<Rightarrow> if ok then zlib_writes deflate ds s1 else Some (Inr (False, s1))
      | r \<Rightarrow> r)"

lemma writes_ok:
  assumes "deflate_contract deflate deflateEnd zinv rank inflate bnd" "W + bnd N + 2 * 65536 \<le> C" "C < 2 ^ 31"
  shows "zlib_ok zinv base W C ins outs s \<Longrightarrow> zo_in s = None \<Longrightarrow> zo_error s = Z_OK \<Longrightarrow> length (ins @ concat ds) \<le> N \<Longrightarrow>
    \<exists>s' outs'. zlib_writes deflate ds s = Some (Inr (True, s')) \<and> zlib_ok zinv base W C (ins @ concat ds) outs' s' \<and> zo_in s' = None \<and> zo_error s' = Z_OK"
proof (induction ds arbitrary: ins outs s)
  case Nil
  then show ?case by auto
next
  case (Cons d ds)
  obtain s1 outs1 where s1: "ZlibOutputStream_write deflate d s = Some (Inr (True, s1))" "zlib_ok zinv base W C (ins @ d) outs1 s1" "zo_in s1 = None" "zo_error s1 = Z_OK"
    using zlib_write_ok [OF assms Cons.prems(1-3), of d] Cons.prems(4) by auto
  then show ?case
    using Cons.IH [OF s1(2-4)] Cons.prems(4) by simp
qed

text \<open>
  C29. Text written to a \<^verbatim>\<open>ZlibOutputStream\<close> in any pieces and then finished returns from every call with success, and what was
  appended to the output buffer, after what it held before, decompresses to exactly the text: the loops end, no output is
  lost when the buffer fills up in the middle of a piece, and no assertion fails.
\<close>

theorem ZlibOutputStream_roundtrip:
  assumes "deflate_contract deflate deflateEnd zinv rank inflate bnd" "zinv z0 [] []" "Buffer_wf output"
    "Buffer_cap output + bnd (length (concat ds)) + 2 * 65536 < 2 ^ 31"
  shows "\<exists>s1 s2 packed. zlib_writes deflate ds (ZlibOutputStream_new (Z_OK, z0) output) = Some (Inr (True, s1)) \<and>
    ZlibOutputStream_finish deflate deflateEnd s1 = Some (Inr (True, s2)) \<and>
    Buffer_content (zo_output s2) = Buffer_content output @ packed \<and> inflate packed = concat ds"
proof -
  let ?s = "ZlibOutputStream_new (Z_OK, z0) output"
  let ?C = "Buffer_cap output + bnd (length (concat ds)) + 2 * 65536"
  have "writerIndex output \<le> Buffer_cap output"
    using Buffer_wfD [OF assms(3)] by (simp add: Buffer_cap_def)
  then have start: "zlib_ok zinv (Buffer_content output) (Buffer_cap output) ?C [] [] ?s" "zo_in ?s = None" "zo_error ?s = Z_OK"
    using assms(2,3) by (simp_all add: zlib_ok_def ZlibOutputStream_new_def)
  obtain s1 outs1 where s1: "zlib_writes deflate ds ?s = Some (Inr (True, s1))" "zlib_ok zinv (Buffer_content output) (Buffer_cap output) ?C (concat ds) outs1 s1"
      "zo_in s1 = None" "zo_error s1 = Z_OK"
    using writes_ok [OF assms(1) order_refl assms(4) start, of ds] by auto
  obtain s2 packed where "ZlibOutputStream_finishLoop deflate s1 = Some (Inr s2)" "Buffer_content (zo_output s2) = Buffer_content output @ packed"
      "inflate packed = concat ds" "deflateEnd (zo_state s2) = Z_OK"
    using finishLoop_ok [OF assms(1) order_refl assms(4) s1(2-4)] by auto
  then show ?thesis
    using s1(1,4) by (intro exI [of _ s1] exI [of _ "s2\<lparr>zo_error := Z_STREAM_END\<rparr>"] exI [of _ packed]) (simp add: ZlibOutputStream_finish_def)
qed

text \<open>A coder that stores: its state is what it has not written yet.\<close>

definition store_deflate :: "char list deflate_fn" where
  "store_deflate z flush d n = (if flush = Z_FINISH \<and> length (z @ d) \<le> n then Z_STREAM_END else Z_OK, length d, take n (z @ d), drop n (z @ d))"

lemma store_deflate_contract:
  "deflate_contract store_deflate (\<lambda>z. if z = [] then Z_OK else Z_ERROR (- 3)) (\<lambda>z ins outs. ins = outs @ z) length (\<lambda>d. d) (\<lambda>n. n)"
  unfolding deflate_contract_def by (auto simp: store_deflate_def mono_def simp del: take_append drop_append)

theorem ZlibOutputStream_roundtrip_witness:
  "\<exists>b s1 s2 packed. Buffer_new kInitialSize = Inr b \<and>
     zlib_writes store_deflate [''ab'', [], ''c''] (ZlibOutputStream_new (Z_OK, []) b) = Some (Inr (True, s1)) \<and>
     ZlibOutputStream_finish store_deflate (\<lambda>z. if z = [] then Z_OK else Z_ERROR (- 3)) s1 = Some (Inr (True, s2)) \<and>
     Buffer_content (zo_output s2) = packed \<and> packed = ''abc''"
proof -
  obtain b where b: "Buffer_new kInitialSize = Inr b" "Buffer_wf b" "Buffer_content b = []" "Buffer_cap b = kCheapPrepend + kInitialSize"
    using Buffer_new_ok [of kInitialSize] by (auto simp: kInitialSize_def kCheapPrepend_def vec_max_def)
  have "Buffer_cap b + length (concat [''ab'', [], ''c'']) + 2 * 65536 < 2 ^ 31"
    using b(4) by (simp add: kInitialSize_def kCheapPrepend_def)
  then show ?thesis
    using ZlibOutputStream_roundtrip [OF store_deflate_contract _ b(2), of "[]" "[''ab'', [], ''c'']"] b(1,3) by simp
qed

text \<open>
  After \<^verbatim>\<open>write(Buffer*)\<close> the pointer \<^verbatim>\<open>next_in\<close> still points into that buffer, so a \<^verbatim>\<open>write(StringPiece)\<close> fails its first
  assertion.
\<close>

lemma ZlibOutputStream_mixed_writes:
  assumes "ZlibOutputStream_writeBuffer deflate input s = Inr (True, input1, s1)"
  shows "ZlibOutputStream_write deflate d s1 = Some (Inl AssertFailed)"
proof -
  have "zo_in s2 = None \<longleftrightarrow> zo_in s0 = None" if ran: "ZlibOutputStream_compress deflate flush s0 = Inr (err, s2)" for err s2 s0 flush
  proof -
    obtain b where b: "Buffer_ensureWritableBytes (zo_output s0) (zo_bufferSize s0) = Inr b"
      using ran by (auto simp: ZlibOutputStream_compress_def rbind_eq_Inr)
    obtain e u out z where d: "deflate (zo_state s0) flush (avail_in s0) (Buffer_writableBytes b mod 2 ^ 32) = (e, u, out, z)"
      by (cases "deflate (zo_state s0) flush (avail_in s0) (Buffer_writableBytes b mod 2 ^ 32)") auto
    show ?thesis
      using ran unfolding ZlibOutputStream_compress_def b rbind_simps Let_def d prod.case by (auto simp: rbind_eq_Inr)
  qed
  note keeps = this
  have error: "zo_error s = Z_OK" "zo_error s1 = Z_OK"
    using assms by (auto simp: ZlibOutputStream_writeBuffer_def Let_def rbind_eq_Inr split: if_splits)
  obtain x where x: "mem_read (buffer input) (Buffer_peek input) (Buffer_readableBytes input) = Inr x"
    using assms error(1) by (auto simp: ZlibOutputStream_writeBuffer_def Let_def rbind_eq_Inr)
  have "zo_in s1 \<noteq> None"
  proof (cases "0 < Buffer_readableBytes input")
    case True
    then obtain err s2 where "ZlibOutputStream_compress deflate Z_NO_FLUSH (s\<lparr>zo_in := Some x\<rparr>) = Inr (err, s2)" "s1 = s2\<lparr>zo_error := err\<rparr>"
      using assms error(1) x by (auto simp: ZlibOutputStream_writeBuffer_def Let_def rbind_eq_Inr)
    then show ?thesis
      using keeps by fastforce
  next
    case False
    then have "s1 = s\<lparr>zo_in := Some x\<rparr>"
      using assms error(1) x by (auto simp: ZlibOutputStream_writeBuffer_def Let_def rbind_eq_Inr)
    then show ?thesis by simp
  qed
  then show ?thesis
    using error(2) by (simp add: ZlibOutputStream_write_def)
qed

end
