(* ===== verification/Base_AsyncLogging.thy ===== *)
theory Base_AsyncLogging
  imports Base_LogFile
begin

text \<open>
  \<^verbatim>\<open>muduo/base/AsyncLogging\<close>: front ends append lines to a buffer under a mutex, a thread swaps the buffers out
  and writes them to a \<^verbatim>\<open>LogFile\<close>. The state holds the members and the locals of \<^verbatim>\<open>threadFunc\<close>; each step is one critical
  section or one stretch of the thread between two of them, so that sequences of steps are the interleavings.
  Waiting on the condition needs no step: it ends after a notification or the flush interval, and the lock is
  free meanwhile.
\<close>

section \<open>State and steps\<close>

datatype async_pc = Test | Wait | Write | Done

record async_logging =
  al_running :: bool
  currentBuffer :: "fixed_buffer option"
  nextBuffer :: "fixed_buffer option"
  al_buffers :: "fixed_buffer list"
  newBuffer1 :: "fixed_buffer option"
  newBuffer2 :: "fixed_buffer option"
  buffersToWrite :: "fixed_buffer list"
  al_output :: log_file
  al_stderr :: "string list"
  al_pc :: async_pc

definition large_buffer :: fixed_buffer where
  "large_buffer = FixedBuffer_bzero (FixedBuffer_new kLargeBuffer)"

text \<open>The constructor, \<^verbatim>\<open>start\<close> and the first lines of \<^verbatim>\<open>threadFunc\<close>; \<open>output\<close> is the log file the thread opens.\<close>

definition AsyncLogging_start :: "log_file \<Rightarrow> async_logging" where
  "AsyncLogging_start output =
     \<lparr>al_running = True, currentBuffer = Some large_buffer, nextBuffer = Some large_buffer, al_buffers = [],
      newBuffer1 = Some large_buffer, newBuffer2 = Some large_buffer, buffersToWrite = [], al_output = output, al_stderr = [], al_pc = Test\<rparr>"

definition AsyncLogging_append :: "char list \<Rightarrow> async_logging \<Rightarrow> async_logging res" where
  "AsyncLogging_append logline s =
     (case currentBuffer s of
        None \<Rightarrow> Inl NullDeref
      | Some b \<Rightarrow>
          (if int (length logline) < FixedBuffer_avail b
           then rbind (FixedBuffer_append logline b) (\<lambda>b'. Inr (s\<lparr>currentBuffer := Some b'\<rparr>))
           else (let s1 = s\<lparr>al_buffers := al_buffers s @ [b]\<rparr>;
                     (fresh, s2) = (case nextBuffer s1 of
                        Some nb \<Rightarrow> (nb, s1\<lparr>nextBuffer := None\<rparr>) | None \<Rightarrow> (FixedBuffer_new kLargeBuffer, s1))
                 in rbind (FixedBuffer_append logline fresh) (\<lambda>b'. Inr (s2\<lparr>currentBuffer := Some b'\<rparr>)))))"

definition AsyncLogging_stop :: "async_logging \<Rightarrow> async_logging" where
  "AsyncLogging_stop s = s\<lparr>al_running := False\<rparr>"

definition empty_buffer :: "fixed_buffer option \<Rightarrow> bool" where
  "empty_buffer b \<longleftrightarrow> (case b of None \<Rightarrow> False | Some x \<Rightarrow> FixedBuffer_length x = 0)"

text \<open>The head of the loop with its assertions, and what follows the loop.\<close>

definition AsyncLogging_test :: "async_logging \<Rightarrow> async_logging res" where
  "AsyncLogging_test s =
     (if al_running s
      then c_assert (empty_buffer (newBuffer1 s)) (c_assert (empty_buffer (newBuffer2 s)) (c_assert (buffersToWrite s = [])
             (Inr (s\<lparr>al_pc := Wait\<rparr>))))
      else rbind (LogFile_flush (al_output s)) (\<lambda>f. Inr (s\<lparr>al_output := f, al_pc := Done\<rparr>)))"

text \<open>The critical section of the thread.\<close>

definition AsyncLogging_swap :: "async_logging \<Rightarrow> async_logging res" where
  "AsyncLogging_swap s =
     (case currentBuffer s of
        None \<Rightarrow> Inl NullDeref
      | Some b \<Rightarrow>
          (let s1 = s\<lparr>al_buffers := al_buffers s @ [b], currentBuffer := newBuffer1 s, newBuffer1 := None\<rparr>;
               s2 = s1\<lparr>buffersToWrite := al_buffers s1, al_buffers := buffersToWrite s1\<rparr>;
               s3 = (if nextBuffer s2 = None then s2\<lparr>nextBuffer := newBuffer2 s2, newBuffer2 := None\<rparr> else s2)
           in c_assert (buffersToWrite s3 \<noteq> []) (Inr (s3\<lparr>al_pc := Write\<rparr>))))"

definition dropped_notice :: "timestamp \<Rightarrow> nat \<Rightarrow> string" where
  "dropped_notice now n =
     take 255 (''Dropped log messages at '' @ Timestamp_toFormattedString (\<lambda>t. tm.truncate (gmtime_r t)) True now @ '', '' @ show_nat (n - 2) @
       '' larger buffers'' @ [CHR 0x0A])"

primrec write_buffers :: "log_env \<Rightarrow> (nat \<Rightarrow> int \<times> int) \<Rightarrow> nat \<Rightarrow> fixed_buffer list \<Rightarrow> log_file \<Rightarrow> log_file res" where
  "write_buffers env clk k [] f = Inr f"
| "write_buffers env clk k (b # bs) f =
     rbind (LogFile_append env (fst (clk k)) (snd (clk k)) (FixedBuffer_toString b) f) (write_buffers env clk (Suc k) bs)"

text \<open>A missing spare is refilled with the last buffer written.\<close>

definition recycle :: "fixed_buffer option \<Rightarrow> fixed_buffer list \<Rightarrow> (fixed_buffer option \<times> fixed_buffer list) res" where
  "recycle nb bs =
     (case nb of
        Some b \<Rightarrow> Inr (Some b, bs)
      | None \<Rightarrow> c_assert (bs \<noteq> []) (Inr (Some (FixedBuffer_reset (last bs)), butlast bs)))"

definition AsyncLogging_write :: "log_env \<Rightarrow> (nat \<Rightarrow> int \<times> int) \<Rightarrow> timestamp \<Rightarrow> async_logging \<Rightarrow> async_logging res" where
  "AsyncLogging_write env clk now s =
     rbind (if 25 < length (buffersToWrite s)
            then (let buf = dropped_notice now (length (buffersToWrite s)) in
                  rbind (LogFile_append env (fst (clk 0)) (snd (clk 0)) buf (al_output s)) (\<lambda>f.
                    Inr (s\<lparr>al_stderr := al_stderr s @ [buf], al_output := f, buffersToWrite := take 2 (buffersToWrite s)\<rparr>)))
            else Inr s) (\<lambda>s1.
     rbind (write_buffers env clk 1 (buffersToWrite s1) (al_output s1)) (\<lambda>f.
     let bs = (if 2 < length (buffersToWrite s1) then take 2 (buffersToWrite s1) else buffersToWrite s1) in
     rbind (recycle (newBuffer1 s1) bs) (\<lambda>(nb1, bs1).
     rbind (recycle (newBuffer2 s1) bs1) (\<lambda>(nb2, bs2).
     rbind (LogFile_flush f) (\<lambda>f'.
       Inr (s1\<lparr>al_output := f', newBuffer1 := nb1, newBuffer2 := nb2, buffersToWrite := [], al_pc := Test\<rparr>))))))"

definition AsyncLogging_thread :: "log_env \<Rightarrow> (nat \<Rightarrow> int \<times> int) \<Rightarrow> timestamp \<Rightarrow> async_logging \<Rightarrow> async_logging res" where
  "AsyncLogging_thread env clk now s =
     (case al_pc s of Test \<Rightarrow> AsyncLogging_test s | Wait \<Rightarrow> AsyncLogging_swap s | Write \<Rightarrow> AsyncLogging_write env clk now s | Done \<Rightarrow> Inr s)"

datatype async_step = Line "char list" | Thread "nat \<Rightarrow> int \<times> int" timestamp | Stop

primrec async_do :: "log_env \<Rightarrow> async_step \<Rightarrow> async_logging \<Rightarrow> async_logging res" where
  "async_do env (Line d) s = AsyncLogging_append d s"
| "async_do env (Thread clk now) s = AsyncLogging_thread env clk now s"
| "async_do env Stop s = Inr (AsyncLogging_stop s)"

primrec async_run :: "log_env \<Rightarrow> async_step list \<Rightarrow> async_logging \<Rightarrow> async_logging res" where
  "async_run env [] s = Inr s"
| "async_run env (x # xs) s = rbind (async_do env x s) (async_run env xs)"

section \<open>The invariant\<close>

definition spare_ok :: "fixed_buffer option \<Rightarrow> bool" where
  "spare_ok b \<longleftrightarrow> (case b of None \<Rightarrow> True | Some x \<Rightarrow> FixedBuffer_ok kLargeBuffer x \<and> FixedBuffer_length x = 0)"

definition async_ok :: "log_env \<Rightarrow> async_logging \<Rightarrow> bool" where
  "async_ok env s \<longleftrightarrow> LogFile_ok env (al_output s) \<and>
     list_all (FixedBuffer_ok kLargeBuffer) (al_buffers s) \<and> list_all (FixedBuffer_ok kLargeBuffer) (buffersToWrite s) \<and>
     (case currentBuffer s of None \<Rightarrow> False | Some b \<Rightarrow> FixedBuffer_ok kLargeBuffer b) \<and>
     spare_ok (nextBuffer s) \<and> (nextBuffer s = None \<longrightarrow> al_buffers s \<noteq> []) \<and> spare_ok (newBuffer1 s) \<and> spare_ok (newBuffer2 s) \<and>
     (if al_pc s = Write
      then buffersToWrite s \<noteq> [] \<and> newBuffer1 s = None \<and> (newBuffer2 s = None \<longrightarrow> 2 \<le> length (buffersToWrite s))
      else buffersToWrite s = [] \<and> newBuffer1 s \<noteq> None \<and> newBuffer2 s \<noteq> None)"

definition pending_text :: "async_logging \<Rightarrow> char list" where
  "pending_text s = concat (map FixedBuffer_toString (buffersToWrite s)) @ concat (map FixedBuffer_toString (al_buffers s)) @
     (case currentBuffer s of None \<Rightarrow> [] | Some b \<Rightarrow> FixedBuffer_toString b)"

lemma kLarge_bounds: "0 < kLargeBuffer" "kLargeBuffer < 2 ^ 31"
  by (simp_all add: kLargeBuffer_def)

lemma spare_text: "spare_ok (Some b) \<Longrightarrow> FixedBuffer_toString b = []"
  by (simp add: spare_ok_def FixedBuffer_toString_def FixedBuffer_length_def)

lemma spare_None [simp]: "spare_ok None"
  by (simp add: spare_ok_def)

lemma large_buffer_ok: "spare_ok (Some large_buffer)" "FixedBuffer_ok kLargeBuffer large_buffer" "spare_ok (Some (FixedBuffer_new kLargeBuffer))"
  using kLarge_bounds by (simp_all add: spare_ok_def FixedBuffer_ok_def large_buffer_def FixedBuffer_bzero_def FixedBuffer_new_def FixedBuffer_length_def)

lemma reset_ok: "FixedBuffer_ok kLargeBuffer b \<Longrightarrow> spare_ok (Some (FixedBuffer_reset b))"
  using kLarge_bounds by (simp add: spare_ok_def FixedBuffer_ok_def FixedBuffer_reset_def FixedBuffer_length_def)

lemma async_start_ok: "LogFile_ok env f \<Longrightarrow> async_ok env (AsyncLogging_start f)" "pending_text (AsyncLogging_start f) = []"
  using large_buffer_ok spare_text [OF large_buffer_ok(1)] by (simp_all add: async_ok_def AsyncLogging_start_def pending_text_def spare_ok_def)

lemma append_ok:
  assumes "async_ok env s" "length d < kLargeBuffer"
  shows "\<exists>s'. AsyncLogging_append d s = Inr s' \<and> async_ok env s' \<and> pending_text s' = pending_text s @ d \<and> al_output s' = al_output s \<and>
    al_stderr s' = al_stderr s \<and> al_pc s' = al_pc s \<and> al_running s' = al_running s \<and> buffersToWrite s' = buffersToWrite s \<and> length (al_buffers s') \<le> length (al_buffers s) + 1"
proof -
  obtain b where b: "currentBuffer s = Some b" "FixedBuffer_ok kLargeBuffer b"
    using assms(1) by (auto simp: async_ok_def split: option.splits)
  have avail: "int (length d) < FixedBuffer_avail b \<longleftrightarrow> length d < kLargeBuffer - fb_cur b"
    using b(2) by (auto simp: FixedBuffer_avail_def FixedBuffer_ok_def)
  show ?thesis
  proof (cases "length d < kLargeBuffer - fb_cur b")
    case True
    from FixedBuffer_append_exact(1) [OF b(2) True] obtain b' where "FixedBuffer_append d b = Inr b'" "FixedBuffer_ok kLargeBuffer b'"
        "FixedBuffer_toString b' = FixedBuffer_toString b @ d"
      by blast
    then show ?thesis
      using assms(1) b(1) True avail by (simp add: AsyncLogging_append_def async_ok_def pending_text_def)
  next
    case False
    define fresh where "fresh = (case nextBuffer s of Some nb \<Rightarrow> nb | None \<Rightarrow> FixedBuffer_new kLargeBuffer)"
    have "spare_ok (Some fresh)"
      using assms(1) large_buffer_ok(3) by (auto simp: async_ok_def fresh_def split: option.split)
    then have fresh: "FixedBuffer_ok kLargeBuffer fresh" "FixedBuffer_toString fresh = []" "fb_cur fresh = 0"
      by (auto simp: spare_ok_def spare_text FixedBuffer_length_def)
    obtain b' where b': "FixedBuffer_append d fresh = Inr b'" "FixedBuffer_ok kLargeBuffer b'" "FixedBuffer_toString b' = d"
      using FixedBuffer_append_exact(1) [OF fresh(1), of d] fresh assms(2) by auto
    show ?thesis
    proof (cases "nextBuffer s")
      case None
      then show ?thesis
        using assms(1) b False avail b' unfolding fresh_def
        by (simp add: AsyncLogging_append_def async_ok_def pending_text_def)
    next
      case (Some nb)
      then show ?thesis
        using assms(1) b False avail b' unfolding fresh_def
        by (simp add: AsyncLogging_append_def async_ok_def pending_text_def spare_ok_def)
    qed
  qed
qed

lemma test_ok:
  assumes "async_ok env s" "al_pc s = Test"
  shows "\<exists>s'. AsyncLogging_test s = Inr s' \<and> async_ok env s' \<and> pending_text s' = pending_text s \<and> al_stderr s' = al_stderr s \<and>
    LogFile_text (al_output s') = LogFile_text (al_output s) \<and> al_pc s' = (if al_running s then Wait else Done) \<and> al_buffers s' = al_buffers s"
proof (cases "al_running s")
  case True
  have "empty_buffer (newBuffer1 s)" "empty_buffer (newBuffer2 s)"
    using assms by (auto simp: async_ok_def spare_ok_def empty_buffer_def split: option.splits)
  then show ?thesis
    using assms True by (simp add: AsyncLogging_test_def async_ok_def pending_text_def)
next
  case False
  obtain f where "LogFile_flush (al_output s) = Inr f" "LogFile_ok env f" "LogFile_text f = LogFile_text (al_output s)"
    using logfile.sync_ok [of env "al_output s"] assms(1) by (auto simp: async_ok_def)
  then show ?thesis
    using assms False by (simp add: AsyncLogging_test_def async_ok_def pending_text_def)
qed

lemma swap_ok:
  assumes "async_ok env s" "al_pc s = Wait"
  shows "\<exists>s'. AsyncLogging_swap s = Inr s' \<and> async_ok env s' \<and> pending_text s' = pending_text s \<and> al_stderr s' = al_stderr s \<and>
    al_output s' = al_output s \<and> al_pc s' = Write \<and> concat (map FixedBuffer_toString (buffersToWrite s')) = pending_text s \<and>
    al_running s' = al_running s \<and> length (buffersToWrite s') = length (al_buffers s) + 1"
proof -
  obtain b nb1 nb2 where b: "currentBuffer s = Some b" "FixedBuffer_ok kLargeBuffer b" "newBuffer1 s = Some nb1" "newBuffer2 s = Some nb2"
      "buffersToWrite s = []"
    using assms by (auto simp: async_ok_def split: option.splits)
  have nb: "spare_ok (Some nb1)" "spare_ok (Some nb2)"
    using assms(1) b by (auto simp: async_ok_def)
  show ?thesis
    using assms b nb spare_text [OF nb(1)]
    by (cases "nextBuffer s") (auto simp: AsyncLogging_swap_def async_ok_def pending_text_def spare_ok_def Suc_le_eq)
qed

lemma write_buffers_ok:
  "LogFile_ok env f \<Longrightarrow> \<exists>f'. write_buffers env clk k bs f = Inr f' \<and> LogFile_ok env f' \<and>
     LogFile_text f' = LogFile_text f @ concat (map FixedBuffer_toString bs)"
proof (induction bs arbitrary: k f)
  case Nil
  then show ?case by simp
next
  case (Cons b bs)
  obtain f1 where "LogFile_append env (fst (clk k)) (snd (clk k)) (FixedBuffer_toString b) f = Inr f1" "LogFile_ok env f1"
      "LogFile_text f1 = LogFile_text f @ FixedBuffer_toString b"
    using logfile.put_ok [OF Cons.prems, of "clk k" "FixedBuffer_toString b"] by (auto simp: LogFile_put_def)
  then show ?case
    using Cons.IH [of f1 "Suc k"] by auto
qed

lemma recycle_ok:
  assumes "spare_ok nb" "list_all (FixedBuffer_ok kLargeBuffer) bs" "nb = None \<longrightarrow> bs \<noteq> []"
  shows "\<exists>b bs'. recycle nb bs = Inr (Some b, bs') \<and> spare_ok (Some b) \<and> list_all (FixedBuffer_ok kLargeBuffer) bs' \<and>
    length bs' = length bs - (if nb = None then 1 else 0)"
  using assms by (cases nb) (auto simp: recycle_def reset_ok list_all_iff dest: in_set_butlastD)

lemma write_ok:
  assumes "async_ok env s" "al_pc s = Write"
  shows "\<exists>s'. AsyncLogging_write env clk now s = Inr s' \<and> async_ok env s' \<and> al_pc s' = Test \<and> buffersToWrite s' = [] \<and>
    al_running s' = al_running s \<and> currentBuffer s' = currentBuffer s \<and> al_buffers s' = al_buffers s \<and>
    (if length (buffersToWrite s) \<le> 25
     then al_stderr s' = al_stderr s \<and> LogFile_text (al_output s') = LogFile_text (al_output s) @ concat (map FixedBuffer_toString (buffersToWrite s))
     else al_stderr s' \<noteq> [])"
proof -
  let ?bs = "buffersToWrite s" and ?n = "length (buffersToWrite s)"
  define kept where "kept = (if 25 < ?n then take 2 ?bs else ?bs)"
  have st: "?bs \<noteq> []" "newBuffer1 s = None" "newBuffer2 s = None \<longrightarrow> 2 \<le> ?n" "list_all (FixedBuffer_ok kLargeBuffer) ?bs"
      "spare_ok (newBuffer2 s)" "LogFile_ok env (al_output s)"
    using assms by (auto simp: async_ok_def)
  have kept: "list_all (FixedBuffer_ok kLargeBuffer) kept" "kept \<noteq> []" "newBuffer2 s = None \<longrightarrow> 2 \<le> length kept"
    using st by (auto simp: kept_def list_all_iff dest: in_set_takeD)
  have "\<exists>f. LogFile_append env (fst (clk 0)) (snd (clk 0)) (dropped_notice now ?n) (al_output s) = Inr f \<and> LogFile_ok env f"
    using logfile.put_ok [OF st(6), of "clk 0" "dropped_notice now ?n"] by (auto simp: LogFile_put_def)
  then obtain s1 where s1: "(if 25 < ?n then (let buf = dropped_notice now ?n in
        rbind (LogFile_append env (fst (clk 0)) (snd (clk 0)) buf (al_output s)) (\<lambda>f.
          Inr (s\<lparr>al_stderr := al_stderr s @ [buf], al_output := f, buffersToWrite := take 2 ?bs\<rparr>))) else Inr s) = Inr s1"
      "LogFile_ok env (al_output s1)" "buffersToWrite s1 = kept" "newBuffer1 s1 = None" "newBuffer2 s1 = newBuffer2 s"
      "?n \<le> 25 \<longrightarrow> s1 = s" "25 < ?n \<longrightarrow> al_stderr s1 \<noteq> []" "al_running s1 = al_running s" "currentBuffer s1 = currentBuffer s" "al_buffers s1 = al_buffers s"
      "nextBuffer s1 = nextBuffer s"
    using st by (cases "25 < ?n") (auto simp: Let_def kept_def)
  obtain f where f: "write_buffers env clk 1 kept (al_output s1) = Inr f" "LogFile_ok env f"
      "LogFile_text f = LogFile_text (al_output s1) @ concat (map FixedBuffer_toString kept)"
    using write_buffers_ok [OF s1(2)] by blast
  define two where "two = (if 2 < length kept then take 2 kept else kept)"
  have two: "list_all (FixedBuffer_ok kLargeBuffer) two" "two \<noteq> []" "newBuffer2 s = None \<longrightarrow> length two = 2"
    using kept by (auto simp: two_def list_all_iff dest: in_set_takeD)
  obtain b1 bs1 where b1: "recycle (newBuffer1 s1) two = Inr (Some b1, bs1)" "spare_ok (Some b1)" "list_all (FixedBuffer_ok kLargeBuffer) bs1"
      "length bs1 = length two - 1"
    using recycle_ok [of None two] two s1(4) by (auto simp: spare_ok_def)
  have "newBuffer2 s = None \<longrightarrow> bs1 \<noteq> []"
    using b1(4) two(3) by auto
  then obtain b2 bs2 where b2: "recycle (newBuffer2 s1) bs1 = Inr (Some b2, bs2)" "spare_ok (Some b2)"
    using recycle_ok [of "newBuffer2 s" bs1] st(5) b1(3) s1(5) by auto
  obtain f' where f': "LogFile_flush f = Inr f'" "LogFile_ok env f'" "LogFile_text f' = LogFile_text f"
    using logfile.sync_ok [OF f(2)] by blast
  let ?s = "s1\<lparr>al_output := f', newBuffer1 := Some b1, newBuffer2 := Some b2, buffersToWrite := [], al_pc := Test\<rparr>"
  have "AsyncLogging_write env clk now s = Inr ?s"
    unfolding AsyncLogging_write_def s1(1) rbind_simps
    unfolding Let_def s1(3) f(1) two_def [symmetric] b1(1) rbind_simps prod.case b2(1) f'(1) ..
  moreover have "async_ok env ?s"
    using assms(1) s1 f'(2) b1(2) b2(2) by (simp add: async_ok_def)
  moreover have "?n \<le> 25 \<Longrightarrow> LogFile_text f' = LogFile_text (al_output s) @ concat (map FixedBuffer_toString ?bs)"
    using s1(6) f'(3) f(3) by (simp add: kept_def)
  ultimately show ?thesis
    using s1 by (cases "?n \<le> 25") auto
qed

section \<open>Interleavings\<close>

primrec async_lines :: "async_step list \<Rightarrow> char list" where
  "async_lines [] = []"
| "async_lines (x # xs) = (case x of Line d \<Rightarrow> d | _ \<Rightarrow> []) @ async_lines xs"

primrec line_fits :: "async_step \<Rightarrow> bool" where
  "line_fits (Line d) = (length d < kLargeBuffer)"
| "line_fits (Thread clk now) = True"
| "line_fits Stop = True"

text \<open>No notice was printed only if none had been before and everything is accounted for.\<close>

definition accounts :: "async_logging \<Rightarrow> char list \<Rightarrow> bool" where
  "accounts s all \<longleftrightarrow> (al_stderr s = [] \<longrightarrow> LogFile_text (al_output s) @ pending_text s = all)"

lemma async_do_ok:
  assumes "async_ok env s" "accounts s all" "line_fits x"
  shows "\<exists>s'. async_do env x s = Inr s' \<and> async_ok env s' \<and> accounts s' (all @ async_lines [x])"
proof (cases x)
  case (Line d)
  then show ?thesis
    using append_ok [OF assms(1), of d] assms(2,3) by (auto simp: accounts_def)
next
  case Stop
  then show ?thesis
    using assms(1,2) by (simp add: AsyncLogging_stop_def async_ok_def accounts_def pending_text_def)
next
  case (Thread clk now)
  show ?thesis
  proof (cases "al_pc s")
    case Test
    then show ?thesis
      using test_ok [OF assms(1)] assms(2) Thread by (auto simp: AsyncLogging_thread_def accounts_def)
  next
    case Wait
    then show ?thesis
      using swap_ok [OF assms(1)] assms(2) Thread by (auto simp: AsyncLogging_thread_def accounts_def)
  next
    case Write
    obtain s' where s': "AsyncLogging_write env clk now s = Inr s'" "async_ok env s'" "buffersToWrite s' = []"
        "currentBuffer s' = currentBuffer s" "al_buffers s' = al_buffers s"
        "if length (buffersToWrite s) \<le> 25
         then al_stderr s' = al_stderr s \<and> LogFile_text (al_output s') = LogFile_text (al_output s) @ concat (map FixedBuffer_toString (buffersToWrite s))
         else al_stderr s' \<noteq> []"
      using write_ok [OF assms(1) Write] by blast
    have "accounts s' all"
      using s'(3-6) assms(2) by (auto simp: accounts_def pending_text_def split: if_splits)
    then show ?thesis
      using s'(1,2) Write Thread by (simp add: AsyncLogging_thread_def)
  next
    case Done
    then show ?thesis
      using assms(1,2) Thread by (simp add: AsyncLogging_thread_def)
  qed
qed

lemma async_run_ok:
  "async_ok env s \<Longrightarrow> accounts s all \<Longrightarrow> list_all line_fits xs \<Longrightarrow>
   \<exists>s'. async_run env xs s = Inr s' \<and> async_ok env s' \<and> accounts s' (all @ async_lines xs)"
proof (induction xs arbitrary: s all)
  case Nil
  then show ?case by simp
next
  case (Cons x xs)
  obtain s1 where s1: "async_do env x s = Inr s1" "async_ok env s1" "accounts s1 (all @ async_lines [x])"
    using async_do_ok [OF Cons.prems(1,2)] Cons.prems(3) by auto
  show ?case
    using Cons.IH [OF s1(2,3)] s1(1) Cons.prems(3) by auto
qed

text \<open>
  C30. In every interleaving of front ends, the logging thread and \<^verbatim>\<open>stop\<close>, no assertion of the thread fails and no
  empty pointer is used; and as long as no pass has found more than 25 full buffers, which it announces, the
  text of the log files, followed by the buffers being written, the buffers that are full and the current one, is
  exactly the lines appended so far, in order.
\<close>

theorem AsyncLogging_keeps_lines:
  assumes "LogFile_ok env f" "list_all line_fits xs"
  shows "\<exists>s. async_run env xs (AsyncLogging_start f) = Inr s \<and>
    (al_stderr s = [] \<longrightarrow> LogFile_text (al_output s) @ pending_text s = LogFile_text f @ async_lines xs)"
proof -
  have "accounts (AsyncLogging_start f) (LogFile_text f)"
    using async_start_ok(2) by (simp add: accounts_def AsyncLogging_start_def)
  from async_run_ok [OF async_start_ok(1) [OF assms(1)] this assms(2)] show ?thesis
    unfolding accounts_def by blast
qed

lemma sample_log: "\<exists>f. LogFile_new sample_env ''app'' 1000 3 1024 1000 = Inr f \<and> LogFile_ok sample_env f \<and> LogFile_text f = []"
  using sample_env_ok by (simp add: LogFile_new_def LogFile_rollFile_def AppendFile_new_def sample_env_def Let_def LogFile_ok_def
      LogFile_text_def LogFile_texts_def)

lemma short_line: "length d \<le> 100 \<Longrightarrow> length d < kLargeBuffer"
  by (simp add: kLargeBuffer_def)

theorem AsyncLogging_keeps_lines_witness:
  "\<exists>f s. LogFile_new sample_env ''app'' 1000 3 1024 1000 = Inr f \<and>
     async_run sample_env [Line ''one '', Thread (\<lambda>_. (1000, 1000)) (Timestamp 0), Line ''two '', Thread (\<lambda>_. (1000, 1000)) (Timestamp 0), Line ''three''] (AsyncLogging_start f) = Inr s \<and>
     LogFile_text (al_output s) @ pending_text s = ''one two three''"
proof -
  obtain f where f: "LogFile_new sample_env ''app'' 1000 3 1024 1000 = Inr f" "LogFile_ok sample_env f" "LogFile_text f = []"
    using sample_log by blast
  let ?s = "AsyncLogging_start f"
  let ?xs = "[Line ''one '', Thread (\<lambda>_. (1000, 1000)) (Timestamp 0), Line ''two '', Thread (\<lambda>_. (1000, 1000)) (Timestamp 0), Line ''three'']"
  obtain s1 where s1: "AsyncLogging_append ''one '' ?s = Inr s1" "async_ok sample_env s1" "al_pc s1 = Test" "al_running s1" "al_stderr s1 = []"
    using append_ok [OF async_start_ok(1) [OF f(2)] short_line, of "''one ''"] by (auto simp: AsyncLogging_start_def)
  obtain s2 where s2: "AsyncLogging_test s1 = Inr s2" "async_ok sample_env s2" "al_pc s2 = Wait" "al_stderr s2 = []"
    using test_ok [OF s1(2,3)] s1(4,5) by auto
  obtain s3 where s3: "AsyncLogging_append ''two '' s2 = Inr s3" "async_ok sample_env s3" "al_pc s3 = Wait" "al_stderr s3 = []"
    using append_ok [OF s2(2) short_line, of "''two ''"] s2(3,4) by auto
  obtain s4 where s4: "AsyncLogging_swap s3 = Inr s4" "async_ok sample_env s4" "al_stderr s4 = []"
    using swap_ok [OF s3(2,3)] s3(4) by auto
  obtain s5 where s5: "AsyncLogging_append ''three'' s4 = Inr s5" "al_stderr s5 = []"
    using append_ok [OF s4(2) short_line, of "''three''"] s4(3) by auto
  have run: "async_run sample_env ?xs ?s = Inr s5"
    using s1(1,3) s2(1,3) s3(1,3) s4(1) s5(1) by (simp add: AsyncLogging_thread_def)
  have "list_all line_fits ?xs"
    by (simp add: kLargeBuffer_def)
  from AsyncLogging_keeps_lines [OF f(2) this] show ?thesis
    using f run s5(2) by auto
qed

text \<open>
  C40. Stopping loses lines: when \<^verbatim>\<open>stop\<close> is called while the thread is writing, the lines appended since its last
  critical section are not written. The thread finishes its pass, sees \<^verbatim>\<open>running_\<close> unset and ends, and the text
  stays in the buffers.
\<close>

theorem AsyncLogging_stop_loses:
  assumes "async_ok env s" "al_pc s = Write" "length (buffersToWrite s) \<le> 25" "length d < kLargeBuffer"
  shows "\<exists>s'. async_run env [Line d, Stop, Thread c1 n1, Thread c2 n2] s = Inr s' \<and> al_pc s' = Done \<and>
    LogFile_text (al_output s') = LogFile_text (al_output s) @ concat (map FixedBuffer_toString (buffersToWrite s)) \<and>
    LogFile_text (al_output s) @ pending_text s @ d = LogFile_text (al_output s') @ pending_text s' \<and> suffix d (pending_text s')"
proof -
  obtain s1 where s1: "AsyncLogging_append d s = Inr s1" "async_ok env s1" "pending_text s1 = pending_text s @ d" "al_output s1 = al_output s"
      "al_pc s1 = Write" "buffersToWrite s1 = buffersToWrite s"
    using append_ok [OF assms(1,4)] assms(2) by auto
  let ?s2 = "AsyncLogging_stop s1"
  have s2: "async_ok env ?s2" "al_pc ?s2 = Write" "pending_text ?s2 = pending_text s1"
    using s1(2,5) by (simp_all add: AsyncLogging_stop_def async_ok_def pending_text_def)
  obtain s3 where s3: "AsyncLogging_write env c1 n1 ?s2 = Inr s3" "async_ok env s3" "al_pc s3 = Test" "buffersToWrite s3 = []"
      "\<not> al_running s3" "currentBuffer s3 = currentBuffer s1" "al_buffers s3 = al_buffers s1"
      "LogFile_text (al_output s3) = LogFile_text (al_output s) @ concat (map FixedBuffer_toString (buffersToWrite s))"
    using write_ok [OF s2(1,2), of c1 n1] s1(4,6) assms(3) by (auto simp: AsyncLogging_stop_def)
  obtain s4 where s4: "AsyncLogging_test s3 = Inr s4" "al_pc s4 = Done" "pending_text s4 = pending_text s3"
      "LogFile_text (al_output s4) = LogFile_text (al_output s3)"
    using test_ok [OF s3(2,3)] s3(5) by auto
  have pending: "concat (map FixedBuffer_toString (buffersToWrite s)) @ pending_text s3 = pending_text s @ d"
    using s1(3,6) s3(4,6,7) by (simp add: pending_text_def)
  have "suffix d (pending_text s3)"
    using pending unfolding pending_text_def [of s] by (simp add: suffix_def)
  moreover have "async_run env [Line d, Stop, Thread c1 n1, Thread c2 n2] s = Inr s4"
    using s1(1) s2(2) s3(1,3) s4(1) by (simp add: AsyncLogging_thread_def)
  ultimately show ?thesis
    using s3(8) s4 pending by auto
qed

theorem AsyncLogging_stop_loses_witness:
  "\<exists>f s s'. LogFile_new sample_env ''app'' 1000 3 1024 1000 = Inr f \<and>
     async_run sample_env [Line ''one '', Thread (\<lambda>_. (1000, 1000)) (Timestamp 0), Thread (\<lambda>_. (1000, 1000)) (Timestamp 0)] (AsyncLogging_start f) = Inr s \<and>
     async_run sample_env [Line ''lost'', Stop, Thread (\<lambda>_. (1000, 1000)) (Timestamp 0), Thread (\<lambda>_. (1000, 1000)) (Timestamp 0)] s = Inr s' \<and>
     al_pc s' = Done \<and> LogFile_text (al_output s') = ''one '' \<and> suffix ''lost'' (pending_text s')"
proof -
  obtain f where f: "LogFile_new sample_env ''app'' 1000 3 1024 1000 = Inr f" "LogFile_ok sample_env f" "LogFile_text f = []"
    using sample_log by blast
  obtain s1 where s1: "AsyncLogging_append ''one '' (AsyncLogging_start f) = Inr s1" "async_ok sample_env s1" "al_pc s1 = Test" "al_running s1"
      "pending_text s1 = ''one ''" "LogFile_text (al_output s1) = []" "length (al_buffers s1) \<le> 1"
    using append_ok [OF async_start_ok(1) [OF f(2)] short_line, of "''one ''"] async_start_ok(2) [of f] f(3) by (auto simp: AsyncLogging_start_def)
  obtain s2 where s2: "AsyncLogging_test s1 = Inr s2" "async_ok sample_env s2" "al_pc s2 = Wait" "al_buffers s2 = al_buffers s1"
      "pending_text s2 = ''one ''" "LogFile_text (al_output s2) = []"
    using test_ok [OF s1(2,3)] s1(4-6) by auto
  obtain s3 where s3: "AsyncLogging_swap s2 = Inr s3" "async_ok sample_env s3" "al_pc s3 = Write" "length (buffersToWrite s3) \<le> 25"
      "concat (map FixedBuffer_toString (buffersToWrite s3)) = ''one ''" "LogFile_text (al_output s3) = []"
    using swap_ok [OF s2(2,3)] s2(4-6) s1(7) by auto
  have run: "async_run sample_env [Line ''one '', Thread (\<lambda>_. (1000, 1000)) (Timestamp 0), Thread (\<lambda>_. (1000, 1000)) (Timestamp 0)] (AsyncLogging_start f) = Inr s3"
    using s1(1,3) s2(1,3) s3(1) by (simp add: AsyncLogging_thread_def)
  show ?thesis
    using AsyncLogging_stop_loses [OF s3(2-4) short_line, of "''lost''" "\<lambda>_. (1000, 1000)" "Timestamp 0" "\<lambda>_. (1000, 1000)" "Timestamp 0"] f(1) run s3(5,6)
    by (auto simp del: async_run.simps)
qed

end
