(* ===== verification/Base_Monitor.thy ===== *)
theory Base_Monitor
  imports Text_Format
begin

text \<open>
  The monitors of \<^verbatim>\<open>muduo/base\<close>: condition variables, the latch, the blocking queue and the bounded one. A step is one
  critical section: from the lock to the unlock, or to a wait, which gives the lock up; a thread that was woken
  holds the lock again in a later step and tests its condition once more. Who is woken by \<^verbatim>\<open>notify\<close> is an argument, and
  threads may wake up for no reason, as POSIX permits.
\<close>

section \<open>Condition variables\<close>

text \<open>The threads that sleep on the condition and those that were woken and wait for the mutex; each with what it will resume with.\<close>

record 'w cond =
  sleeping :: "'w list"
  woken :: "'w list"

definition Condition_new :: "'w cond" where
  "Condition_new = \<lparr>sleeping = [], woken = []\<rparr>"

definition Condition_wait :: "'w \<Rightarrow> 'w cond \<Rightarrow> 'w cond" where
  "Condition_wait w c = c\<lparr>sleeping := sleeping c @ [w]\<rparr>"

definition remove_nth :: "nat \<Rightarrow> 'a list \<Rightarrow> 'a list" where
  "remove_nth i xs = take i xs @ drop (Suc i) xs"

definition wake_nth :: "nat \<Rightarrow> 'w cond \<Rightarrow> 'w cond" where
  "wake_nth i c =
     (if sleeping c = [] then c
      else (let k = i mod length (sleeping c) in
            c\<lparr>sleeping := remove_nth k (sleeping c), woken := woken c @ [sleeping c ! k]\<rparr>))"

definition Condition_notify :: "nat \<Rightarrow> 'w cond \<Rightarrow> 'w cond" where
  "Condition_notify i c = wake_nth i c"

definition Condition_notifyAll :: "'w cond \<Rightarrow> 'w cond" where
  "Condition_notifyAll c = c\<lparr>sleeping := [], woken := woken c @ sleeping c\<rparr>"

text \<open>\<^verbatim>\<open>waitForSeconds\<close>: the absolute time to wait for, from the clock and the seconds in nanoseconds.\<close>

definition Condition_abstime :: "int \<times> int \<Rightarrow> int \<Rightarrow> int \<times> int" where
  "Condition_abstime now nanoseconds =
     (let kNanoSecondsPerSecond = 1000000000 in
      (fst now + (snd now + nanoseconds) sdiv kNanoSecondsPerSecond, (snd now + nanoseconds) smod kNanoSecondsPerSecond))"

lemma length_remove_nth [simp]: "i < length xs \<Longrightarrow> length (remove_nth i xs) = length xs - 1"
  by (simp add: remove_nth_def)

lemma wake_counts:
  "length (sleeping (wake_nth i c)) = length (sleeping c) - 1"
  "length (woken (wake_nth i c)) = length (woken c) + (if sleeping c = [] then 0 else 1)"
  by (auto simp: wake_nth_def Let_def)

section \<open>First in, first out\<close>

text \<open>
  What the queues below promise: every critical section takes elements from the front and adds elements at the back.
  The lemma over whole runs is proved once, for all of them.
\<close>

primrec chan_run :: "('x \<Rightarrow> 's \<Rightarrow> 's res) \<Rightarrow> ('x \<Rightarrow> 's \<Rightarrow> 'a list) \<Rightarrow> ('x \<Rightarrow> 's \<Rightarrow> 'a list) \<Rightarrow> 'x list \<Rightarrow> 's \<Rightarrow> ('s \<times> 'a list \<times> 'a list) res" where
  "chan_run stp ins outs [] s = Inr (s, [], [])"
| "chan_run stp ins outs (x # xs) s =
     rbind (stp x s) (\<lambda>s1. rbind (chan_run stp ins outs xs s1) (\<lambda>(s', is, os). Inr (s', ins x s @ is, outs x s @ os)))"

locale fifo_channel =
  fixes stp :: "'x \<Rightarrow> 's \<Rightarrow> 's res" and contents :: "'s \<Rightarrow> 'a list" and ins outs :: "'x \<Rightarrow> 's \<Rightarrow> 'a list" and ok :: "'s \<Rightarrow> bool"
  assumes step_ok: "ok s \<Longrightarrow> \<exists>s'. stp x s = Inr s' \<and> ok s' \<and> outs x s @ contents s' = contents s @ ins x s"
begin

lemma run_ok: "ok s \<Longrightarrow> \<exists>s' is os. chan_run stp ins outs xs s = Inr (s', is, os) \<and> ok s' \<and> os @ contents s' = contents s @ is"
proof (induction xs arbitrary: s)
  case Nil
  then show ?case by simp
next
  case (Cons x xs)
  obtain s1 where s1: "stp x s = Inr s1" "ok s1" "outs x s @ contents s1 = contents s @ ins x s"
    using step_ok [OF Cons.prems] by blast
  obtain s' is' os where "chan_run stp ins outs xs s1 = Inr (s', is', os)" "ok s'" "os @ contents s' = contents s1 @ is'"
    using Cons.IH [OF s1(2)] by blast
  then show ?case
    using s1(1,3) by (auto simp flip: append_assoc) (metis append_assoc)
qed

end

section \<open>The latch\<close>

record latch =
  count :: int
  latch_cond :: "nat cond"

definition CountDownLatch_new :: "int \<Rightarrow> latch" where
  "CountDownLatch_new n = \<lparr>count = n, latch_cond = Condition_new\<rparr>"

text \<open>One round of the loop: \<open>True\<close> when the caller goes on, otherwise it sleeps.\<close>

definition CountDownLatch_wait :: "nat \<Rightarrow> latch \<Rightarrow> bool \<times> latch" where
  "CountDownLatch_wait t l = (if 0 < count l then (False, l\<lparr>latch_cond := Condition_wait t (latch_cond l)\<rparr>) else (True, l))"

definition CountDownLatch_countDown :: "latch \<Rightarrow> latch" where
  "CountDownLatch_countDown l =
     (let l1 = l\<lparr>count := count l - 1\<rparr> in
      if count l1 = 0 then l1\<lparr>latch_cond := Condition_notifyAll (latch_cond l1)\<rparr> else l1)"

definition CountDownLatch_getCount :: "latch \<Rightarrow> int" where
  "CountDownLatch_getCount l = count l"

text \<open>The latch of \<open>n\<close> opens with the \<open>n\<close>-th \<^verbatim>\<open>countDown\<close>: who slept is awake, and nobody sleeps any more.\<close>

lemma CountDownLatch_opens:
  assumes "0 < n" "count l = int n"
  shows "sleeping (latch_cond ((CountDownLatch_countDown ^^ n) l)) = []"
    "set (sleeping (latch_cond l)) \<subseteq> set (woken (latch_cond ((CountDownLatch_countDown ^^ n) l)))"
    "fst (CountDownLatch_wait t ((CountDownLatch_countDown ^^ n) l))"
proof -
  have step: "(CountDownLatch_countDown ^^ k) l = l\<lparr>count := int n - int k\<rparr>" if "k < n" for k
    using that
  proof (induction k)
    case 0
    then show ?case using assms(2) by (cases l) simp
  next
    case (Suc k)
    then show ?case by (simp add: CountDownLatch_countDown_def)
  qed
  obtain k where k: "n = Suc k"
    using assms(1) by (cases n) auto
  have "(CountDownLatch_countDown ^^ n) l = l\<lparr>count := 0, latch_cond := Condition_notifyAll (latch_cond l)\<rparr>"
    using step [of k] k by (simp add: CountDownLatch_countDown_def)
  then show "sleeping (latch_cond ((CountDownLatch_countDown ^^ n) l)) = []"
    "set (sleeping (latch_cond l)) \<subseteq> set (woken (latch_cond ((CountDownLatch_countDown ^^ n) l)))"
    "fst (CountDownLatch_wait t ((CountDownLatch_countDown ^^ n) l))"
    by (simp_all add: Condition_notifyAll_def CountDownLatch_wait_def)
qed

section \<open>The blocking queue\<close>

record 'a blocking_queue =
  bq_queue :: "'a list"
  bq_notEmpty :: "nat cond"

definition BlockingQueue_new :: "'a blocking_queue" where
  "BlockingQueue_new = \<lparr>bq_queue = [], bq_notEmpty = Condition_new\<rparr>"

definition BlockingQueue_put :: "nat \<Rightarrow> 'a \<Rightarrow> 'a blocking_queue \<Rightarrow> 'a blocking_queue" where
  "BlockingQueue_put i x q =
     (let q1 = q\<lparr>bq_queue := bq_queue q @ [x]\<rparr> in q1\<lparr>bq_notEmpty := Condition_notify i (bq_notEmpty q1)\<rparr>)"

text \<open>From the test of the loop: the caller sleeps, or takes the front.\<close>

definition BlockingQueue_take :: "nat \<Rightarrow> 'a blocking_queue \<Rightarrow> ('a option \<times> 'a blocking_queue) res" where
  "BlockingQueue_take t q =
     (if bq_queue q = [] then Inr (None, q\<lparr>bq_notEmpty := Condition_wait t (bq_notEmpty q)\<rparr>)
      else c_assert (bq_queue q \<noteq> []) (Inr (Some (hd (bq_queue q)), q\<lparr>bq_queue := tl (bq_queue q)\<rparr>)))"

definition BlockingQueue_size :: "'a blocking_queue \<Rightarrow> nat" where
  "BlockingQueue_size q = length (bq_queue q)"

datatype 'a bq_step = Put nat 'a | Take nat | Resume nat | Spurious nat

text \<open>\<open>Resume\<close> lets the \<open>i\<close>-th woken thread, if there is one, have the mutex again.\<close>

definition pop_woken :: "nat \<Rightarrow> 'w cond \<Rightarrow> ('w \<times> 'w cond) option" where
  "pop_woken i c =
     (if i < length (woken c) then Some (woken c ! i, c\<lparr>woken := remove_nth i (woken c)\<rparr>) else None)"

primrec bq_result :: "'a bq_step \<Rightarrow> 'a blocking_queue \<Rightarrow> ('a option \<times> 'a blocking_queue) res" where
  "bq_result (Put i x) q = Inr (None, BlockingQueue_put i x q)"
| "bq_result (Take t) q = BlockingQueue_take t q"
| "bq_result (Resume i) q =
     (case pop_woken i (bq_notEmpty q) of
        None \<Rightarrow> Inr (None, q)
      | Some (t, c) \<Rightarrow> BlockingQueue_take t (q\<lparr>bq_notEmpty := c\<rparr>))"
| "bq_result (Spurious i) q = Inr (None, q\<lparr>bq_notEmpty := wake_nth i (bq_notEmpty q)\<rparr>)"

definition bq_do :: "'a bq_step \<Rightarrow> 'a blocking_queue \<Rightarrow> 'a blocking_queue res" where
  "bq_do x q = rbind (bq_result x q) (\<lambda>(r, q'). Inr q')"

definition bq_ins :: "'a bq_step \<Rightarrow> 'a blocking_queue \<Rightarrow> 'a list" where
  "bq_ins x q = (case x of Put i v \<Rightarrow> [v] | _ \<Rightarrow> [])"

definition bq_outs :: "'a bq_step \<Rightarrow> 'a blocking_queue \<Rightarrow> 'a list" where
  "bq_outs x q = (case bq_result x q of Inr (Some v, _) \<Rightarrow> [v] | _ \<Rightarrow> [])"

text \<open>No lost wakeup: while a thread sleeps, every element in the queue has a woken thread on its way to it.\<close>

definition bq_ok :: "'a blocking_queue \<Rightarrow> bool" where
  "bq_ok q \<longleftrightarrow> (sleeping (bq_notEmpty q) \<noteq> [] \<longrightarrow> length (bq_queue q) \<le> length (woken (bq_notEmpty q)))"

lemma BlockingQueue_take_ok:
  assumes "sleeping (bq_notEmpty q) \<noteq> [] \<Longrightarrow> length (bq_queue q) \<le> length (woken (bq_notEmpty q)) + 1"
  shows "\<exists>r q'. BlockingQueue_take t q = Inr (r, q') \<and> bq_ok q' \<and> (case r of None \<Rightarrow> [] | Some v \<Rightarrow> [v]) @ bq_queue q' = bq_queue q"
proof (cases "bq_queue q")
  case Nil
  then show ?thesis
    by (simp add: BlockingQueue_take_def bq_ok_def)
next
  case (Cons v vs)
  then show ?thesis
    using assms by (auto simp: BlockingQueue_take_def bq_ok_def)
qed

interpretation bq: fifo_channel bq_do bq_queue bq_ins bq_outs bq_ok
proof unfold_locales
  fix x :: "'a bq_step" and q :: "'a blocking_queue"
  assume ok: "bq_ok q"
  show "\<exists>q'. bq_do x q = Inr q' \<and> bq_ok q' \<and> bq_outs x q @ bq_queue q' = bq_queue q @ bq_ins x q"
  proof (cases x)
    case (Put i v)
    have "bq_ok (BlockingQueue_put i v q)"
      using ok by (cases "sleeping (bq_notEmpty q)") (auto simp: bq_ok_def BlockingQueue_put_def Condition_notify_def wake_counts wake_nth_def Let_def)
    then show ?thesis
      using Put by (simp add: bq_do_def bq_ins_def bq_outs_def BlockingQueue_put_def)
  next
    case (Take t)
    then show ?thesis
      using BlockingQueue_take_ok [of q t] ok by (auto simp: bq_do_def bq_ins_def bq_outs_def bq_ok_def split: option.splits)
  next
    case (Resume i)
    show ?thesis
    proof (cases "i < length (woken (bq_notEmpty q))")
      case True
      then have "pop_woken i (bq_notEmpty q) =
          Some (woken (bq_notEmpty q) ! i, (bq_notEmpty q)\<lparr>woken := remove_nth i (woken (bq_notEmpty q))\<rparr>)"
        by (simp add: pop_woken_def)
      moreover obtain r q' where "BlockingQueue_take (woken (bq_notEmpty q) ! i)
          (q\<lparr>bq_notEmpty := (bq_notEmpty q)\<lparr>woken := remove_nth i (woken (bq_notEmpty q))\<rparr>\<rparr>) = Inr (r, q')" "bq_ok q'"
          "(case r of None \<Rightarrow> [] | Some v \<Rightarrow> [v]) @ bq_queue q' = bq_queue q"
        using True ok BlockingQueue_take_ok [of "q\<lparr>bq_notEmpty := (bq_notEmpty q)\<lparr>woken := remove_nth i (woken (bq_notEmpty q))\<rparr>\<rparr>"
            "woken (bq_notEmpty q) ! i"] by (force simp: bq_ok_def)
      ultimately show ?thesis
        using Resume by (auto simp: bq_do_def bq_ins_def bq_outs_def split: option.splits)
    next
      case False
      then show ?thesis
        using Resume ok by (simp add: bq_do_def bq_ins_def bq_outs_def pop_woken_def)
    qed
  next
    case (Spurious i)
    have "bq_ok (q\<lparr>bq_notEmpty := wake_nth i (bq_notEmpty q)\<rparr>)"
      using ok by (cases "sleeping (bq_notEmpty q)") (auto simp: bq_ok_def wake_counts wake_nth_def Let_def)
    then show ?thesis
      using Spurious by (simp add: bq_do_def bq_ins_def bq_outs_def)
  qed
qed

section \<open>The bounded queue\<close>

text \<open>A thread that sleeps on \<^verbatim>\<open>notFull_\<close> resumes with the element it wants to put.\<close>

record 'a bounded_queue =
  bb_capacity :: nat
  bb_queue :: "'a list"
  bb_notEmpty :: "nat cond"
  bb_notFull :: "'a cond"

definition BoundedBlockingQueue_new :: "nat \<Rightarrow> 'a bounded_queue" where
  "BoundedBlockingQueue_new maxSize = \<lparr>bb_capacity = maxSize, bb_queue = [], bb_notEmpty = Condition_new, bb_notFull = Condition_new\<rparr>"

definition BoundedBlockingQueue_full :: "'a bounded_queue \<Rightarrow> bool" where
  "BoundedBlockingQueue_full q \<longleftrightarrow> length (bb_queue q) = bb_capacity q"

definition BoundedBlockingQueue_empty :: "'a bounded_queue \<Rightarrow> bool" where
  "BoundedBlockingQueue_empty q \<longleftrightarrow> bb_queue q = []"

definition BoundedBlockingQueue_put :: "nat \<Rightarrow> 'a \<Rightarrow> 'a bounded_queue \<Rightarrow> (bool \<times> 'a bounded_queue) res" where
  "BoundedBlockingQueue_put i x q =
     (if BoundedBlockingQueue_full q then Inr (False, q\<lparr>bb_notFull := Condition_wait x (bb_notFull q)\<rparr>)
      else c_assert (\<not> BoundedBlockingQueue_full q)
        (let q1 = q\<lparr>bb_queue := bb_queue q @ [x]\<rparr> in Inr (True, q1\<lparr>bb_notEmpty := Condition_notify i (bb_notEmpty q1)\<rparr>)))"

definition BoundedBlockingQueue_take :: "nat \<Rightarrow> nat \<Rightarrow> 'a bounded_queue \<Rightarrow> ('a option \<times> 'a bounded_queue) res" where
  "BoundedBlockingQueue_take i t q =
     (if BoundedBlockingQueue_empty q then Inr (None, q\<lparr>bb_notEmpty := Condition_wait t (bb_notEmpty q)\<rparr>)
      else c_assert (bb_queue q \<noteq> [])
        (let q1 = q\<lparr>bb_queue := tl (bb_queue q)\<rparr> in
         Inr (Some (hd (bb_queue q)), q1\<lparr>bb_notFull := Condition_notify i (bb_notFull q1)\<rparr>)))"

definition BoundedBlockingQueue_size :: "'a bounded_queue \<Rightarrow> nat" where
  "BoundedBlockingQueue_size q = length (bb_queue q)"

definition BoundedBlockingQueue_capacity :: "'a bounded_queue \<Rightarrow> nat" where
  "BoundedBlockingQueue_capacity q = bb_capacity q"

datatype 'a bb_step = BPut nat 'a | BTake nat nat | BResumePut nat nat | BResumeTake nat nat | BSpuriousPut nat | BSpuriousTake nat

text \<open>What a step put into the queue, what it took out, and the new state.\<close>

definition bb_put_result :: "nat \<Rightarrow> 'a \<Rightarrow> 'a bounded_queue \<Rightarrow> ('a list \<times> 'a list \<times> 'a bounded_queue) res" where
  "bb_put_result i x q = rbind (BoundedBlockingQueue_put i x q) (\<lambda>(done, q'). Inr (if done then [x] else [], [], q'))"

definition bb_take_result :: "nat \<Rightarrow> nat \<Rightarrow> 'a bounded_queue \<Rightarrow> ('a list \<times> 'a list \<times> 'a bounded_queue) res" where
  "bb_take_result i t q = rbind (BoundedBlockingQueue_take i t q) (\<lambda>(r, q'). Inr ([], case r of None \<Rightarrow> [] | Some v \<Rightarrow> [v], q'))"

primrec bb_result :: "'a bb_step \<Rightarrow> 'a bounded_queue \<Rightarrow> ('a list \<times> 'a list \<times> 'a bounded_queue) res" where
  "bb_result (BPut i x) q = bb_put_result i x q"
| "bb_result (BTake i t) q = bb_take_result i t q"
| "bb_result (BResumePut k i) q =
     (case pop_woken k (bb_notFull q) of None \<Rightarrow> Inr ([], [], q) | Some (x, c) \<Rightarrow> bb_put_result i x (q\<lparr>bb_notFull := c\<rparr>))"
| "bb_result (BResumeTake k i) q =
     (case pop_woken k (bb_notEmpty q) of None \<Rightarrow> Inr ([], [], q) | Some (t, c) \<Rightarrow> bb_take_result i t (q\<lparr>bb_notEmpty := c\<rparr>))"
| "bb_result (BSpuriousPut k) q = Inr ([], [], q\<lparr>bb_notFull := wake_nth k (bb_notFull q)\<rparr>)"
| "bb_result (BSpuriousTake k) q = Inr ([], [], q\<lparr>bb_notEmpty := wake_nth k (bb_notEmpty q)\<rparr>)"

definition bb_do :: "'a bb_step \<Rightarrow> 'a bounded_queue \<Rightarrow> 'a bounded_queue res" where
  "bb_do x q = rbind (bb_result x q) (\<lambda>(is, os, q'). Inr q')"

definition bb_ins :: "'a bb_step \<Rightarrow> 'a bounded_queue \<Rightarrow> 'a list" where
  "bb_ins x q = (case bb_result x q of Inl _ \<Rightarrow> [] | Inr (is, os, q') \<Rightarrow> is)"

definition bb_outs :: "'a bb_step \<Rightarrow> 'a bounded_queue \<Rightarrow> 'a list" where
  "bb_outs x q = (case bb_result x q of Inl _ \<Rightarrow> [] | Inr (is, os, q') \<Rightarrow> os)"

text \<open>A sleeper on either side is matched by woken threads for every element, and for every free place.\<close>

definition covered :: "nat \<Rightarrow> 'w cond \<Rightarrow> bool" where
  "covered n c \<longleftrightarrow> (sleeping c \<noteq> [] \<longrightarrow> n \<le> length (woken c))"

definition bb_ok :: "'a bounded_queue \<Rightarrow> bool" where
  "bb_ok q \<longleftrightarrow> length (bb_queue q) \<le> bb_capacity q \<and> covered (length (bb_queue q)) (bb_notEmpty q) \<and>
     covered (bb_capacity q - length (bb_queue q)) (bb_notFull q)"

lemma covered_less: "covered n c \<Longrightarrow> m \<le> n \<Longrightarrow> covered m c"
  by (auto simp: covered_def)

lemma covered_notify: "covered n c \<Longrightarrow> covered (Suc n) (Condition_notify i c)"
  by (cases "sleeping c") (auto simp: covered_def Condition_notify_def wake_counts wake_nth_def Let_def)

lemma covered_wake: "covered n c \<Longrightarrow> covered n (wake_nth i c)"
  by (cases "sleeping c") (auto simp: covered_def wake_counts wake_nth_def Let_def)

lemma covered_sleep: "covered 0 (Condition_wait w c)"
  by (simp add: covered_def)

lemma covered_pop: "covered n c \<Longrightarrow> pop_woken k c = Some (w, c') \<Longrightarrow> covered (n - 1) c'"
  by (auto simp: covered_def pop_woken_def split: if_splits)

definition bb_good :: "'a bounded_queue \<Rightarrow> ('a list \<times> 'a list \<times> 'a bounded_queue) res \<Rightarrow> bool" where
  "bb_good q r \<longleftrightarrow> (\<exists>is os q'. r = Inr (is, os, q') \<and> bb_ok q' \<and> bb_capacity q' = bb_capacity q \<and> os @ bb_queue q' = bb_queue q @ is)"

lemma bb_put_good:
  assumes "length (bb_queue q) \<le> bb_capacity q" "covered (length (bb_queue q)) (bb_notEmpty q)"
    "covered (bb_capacity q - length (bb_queue q) - 1) (bb_notFull q)"
  shows "bb_good q (bb_put_result i x q)"
proof (cases "BoundedBlockingQueue_full q")
  case True
  then show ?thesis
    using assms covered_sleep [of x "bb_notFull q"]
    by (simp add: bb_good_def bb_put_result_def BoundedBlockingQueue_put_def bb_ok_def BoundedBlockingQueue_full_def)
next
  case False
  then have "bb_ok (q\<lparr>bb_queue := bb_queue q @ [x], bb_notEmpty := Condition_notify i (bb_notEmpty q)\<rparr>)"
    using assms covered_notify [OF assms(2), of i] by (auto simp: bb_ok_def BoundedBlockingQueue_full_def)
  then show ?thesis
    using False by (simp add: bb_good_def bb_put_result_def BoundedBlockingQueue_put_def Let_def)
qed

lemma bb_take_good:
  assumes "length (bb_queue q) \<le> bb_capacity q" "covered (length (bb_queue q) - 1) (bb_notEmpty q)"
    "covered (bb_capacity q - length (bb_queue q)) (bb_notFull q)"
  shows "bb_good q (bb_take_result i t q)"
proof (cases "bb_queue q")
  case Nil
  then show ?thesis
    using assms covered_sleep [of t "bb_notEmpty q"]
    by (simp add: bb_good_def bb_take_result_def BoundedBlockingQueue_take_def bb_ok_def BoundedBlockingQueue_empty_def)
next
  case (Cons v vs)
  have "bb_capacity q - length vs = Suc (bb_capacity q - length (bb_queue q))"
    using Cons assms(1) by simp
  then have "bb_ok (q\<lparr>bb_queue := vs, bb_notFull := Condition_notify i (bb_notFull q)\<rparr>)"
    using assms Cons covered_notify [OF assms(3), of i] by (simp add: bb_ok_def)
  then show ?thesis
    using Cons by (simp add: bb_good_def bb_take_result_def BoundedBlockingQueue_take_def BoundedBlockingQueue_empty_def Let_def)
qed

lemma bb_step_good:
  assumes "bb_ok q"
  shows "bb_good q (bb_result x q)"
proof (cases x)
  case (BPut i v)
  then show ?thesis
    using bb_put_good [of q i v] assms covered_less by (force simp: bb_ok_def)
next
  case (BTake i t)
  then show ?thesis
    using bb_take_good [of q i t] assms covered_less by (force simp: bb_ok_def)
next
  case (BResumePut k i)
  show ?thesis
  proof (cases "pop_woken k (bb_notFull q)")
    case None
    then show ?thesis using BResumePut assms by (simp add: bb_good_def)
  next
    case (Some p)
    obtain v c where p: "p = (v, c)" by (cases p)
    have "bb_good (q\<lparr>bb_notFull := c\<rparr>) (bb_put_result i v (q\<lparr>bb_notFull := c\<rparr>))"
      using assms covered_pop [of "bb_capacity q - length (bb_queue q)" "bb_notFull q" k v c] Some p by (intro bb_put_good) (auto simp: bb_ok_def)
    then show ?thesis
      using BResumePut Some p by (simp add: bb_good_def)
  qed
next
  case (BResumeTake k i)
  show ?thesis
  proof (cases "pop_woken k (bb_notEmpty q)")
    case None
    then show ?thesis using BResumeTake assms by (simp add: bb_good_def)
  next
    case (Some p)
    obtain t c where p: "p = (t, c)" by (cases p)
    have "bb_good (q\<lparr>bb_notEmpty := c\<rparr>) (bb_take_result i t (q\<lparr>bb_notEmpty := c\<rparr>))"
      using assms covered_pop [of _ "bb_notEmpty q" k t c] Some p by (intro bb_take_good) (auto simp: bb_ok_def)
    then show ?thesis
      using BResumeTake Some p by (simp add: bb_good_def)
  qed
next
  case (BSpuriousPut k)
  then show ?thesis
    using assms by (simp add: bb_good_def bb_ok_def covered_wake)
next
  case (BSpuriousTake k)
  then show ?thesis
    using assms by (simp add: bb_good_def bb_ok_def covered_wake)
qed

text \<open>The capacity is fixed at construction.\<close>

interpretation bb: fifo_channel bb_do bb_queue bb_ins bb_outs "\<lambda>q. bb_ok q \<and> bb_capacity q = n" for n
proof unfold_locales
  fix x :: "'a bb_step" and q :: "'a bounded_queue"
  assume "bb_ok q \<and> bb_capacity q = n"
  then show "\<exists>q'. bb_do x q = Inr q' \<and> (bb_ok q' \<and> bb_capacity q' = n) \<and> bb_outs x q @ bb_queue q' = bb_queue q @ bb_ins x q"
    using bb_step_good [of q x] by (auto simp: bb_good_def bb_do_def bb_ins_def bb_outs_def)
qed

text \<open>
  C32. In every interleaving of threads that put and take, with any choice of the threads that are woken and any
  spurious wakeups, the bounded queue hands out exactly the elements that were put, in order and each once, never holds
  more than its capacity, and loses no wakeup: while a thread sleeps for an element, each element in the queue
  has a woken thread coming for it, and while one sleeps for room, so has each free place.
\<close>

theorem BoundedBlockingQueue_fifo:
  "\<exists>q is os. chan_run bb_do bb_ins bb_outs xs (BoundedBlockingQueue_new n) = Inr (q, is, os) \<and> os @ bb_queue q = is \<and>
     length (bb_queue q) \<le> n \<and>
     (sleeping (bb_notEmpty q) \<noteq> [] \<longrightarrow> length (bb_queue q) \<le> length (woken (bb_notEmpty q))) \<and>
     (sleeping (bb_notFull q) \<noteq> [] \<longrightarrow> n - length (bb_queue q) \<le> length (woken (bb_notFull q)))"
proof -
  have "bb_ok (BoundedBlockingQueue_new n :: 'a bounded_queue) \<and> bb_capacity (BoundedBlockingQueue_new n :: 'a bounded_queue) = n"
    by (simp add: bb_ok_def BoundedBlockingQueue_new_def covered_def Condition_new_def)
  from bb.run_ok [OF this, of xs] show ?thesis
    by (auto simp: bb_ok_def covered_def BoundedBlockingQueue_new_def)
qed

theorem BoundedBlockingQueue_fifo_witness:
  "\<exists>q is os. chan_run bb_do bb_ins bb_outs [BTake 0 7, BPut 0 (5 :: int), BPut 0 6, BResumeTake 0 0, BPut 0 8] (BoundedBlockingQueue_new 1) = Inr (q, is, os) \<and>
     os @ bb_queue q = is \<and> length (bb_queue q) \<le> 1"
  using BoundedBlockingQueue_fifo [of "[BTake 0 7, BPut 0 (5 :: int), BPut 0 6, BResumeTake 0 0, BPut 0 8]" 1] by blast

text \<open>The same for the unbounded queue.\<close>

lemma BlockingQueue_fifo:
  "\<exists>q is os. chan_run bq_do bq_ins bq_outs xs BlockingQueue_new = Inr (q, is, os) \<and> bq_ok q \<and> os @ bq_queue q = is"
proof -
  have "bq_ok BlockingQueue_new"
    by (simp add: bq_ok_def BlockingQueue_new_def Condition_new_def)
  from bq.run_ok [OF this, of xs] show ?thesis
    by (simp add: BlockingQueue_new_def)
qed

end
