(* ===== verification/Base_ThreadPool.thy ===== *)
theory Base_ThreadPool
  imports Base_Monitor "HOL-Library.Multiset"
begin

text \<open>
  \<^verbatim>\<open>muduo/base/Thread\<close> and \<^verbatim>\<open>ThreadPool\<close>: workers take tasks from a queue that may be bounded. Steps are critical sections as in
  the monitors, and the stretches of a worker between them. Tasks that throw abort the process and are left out.
\<close>

section \<open>Threads\<close>

record thread =
  th_started :: bool
  th_joined :: bool
  th_tid :: int
  th_name :: string

text \<open>\<open>num\<close> is the number of threads created so far, this one included.\<close>

definition Thread_setDefaultName :: "int \<Rightarrow> thread \<Rightarrow> thread" where
  "Thread_setDefaultName num t = (if th_name t = [] then t\<lparr>th_name := take 31 (''Thread'' @ show_int num)\<rparr> else t)"

definition Thread_new :: "int \<Rightarrow> string \<Rightarrow> int \<times> thread" where
  "Thread_new numCreated n =
     (let num = numCreated + 1 in (num, Thread_setDefaultName num \<lparr>th_started = False, th_joined = False, th_tid = 0, th_name = n\<rparr>))"

text \<open>\<open>created\<close> is the thread id when \<^verbatim>\<open>pthread_create\<close> succeeds: the new thread stores it and counts the latch down.\<close>

definition Thread_start :: "int option \<Rightarrow> thread \<Rightarrow> thread res" where
  "Thread_start created t =
     c_assert (\<not> th_started t)
       (case created of
          None \<Rightarrow> Inl Exited
        | Some tid \<Rightarrow> (let t1 = t\<lparr>th_started := True, th_tid := tid\<rparr> in c_assert (0 < th_tid t1) (Inr t1)))"

definition Thread_join :: "thread \<Rightarrow> thread res" where
  "Thread_join t = c_assert (th_started t) (c_assert (\<not> th_joined t) (Inr (t\<lparr>th_joined := True\<rparr>)))"

text \<open>Whether the destructor detaches the thread.\<close>

definition Thread_delete :: "thread \<Rightarrow> bool" where
  "Thread_delete t \<longleftrightarrow> th_started t \<and> \<not> th_joined t"

section \<open>The pool\<close>

datatype 't worker = WTest | WTake | WAsleep | WRun 't | WExit

record 't thread_pool =
  tp_name :: string
  tp_threads :: "thread list"
  tp_workers :: "'t worker list"
  tp_queue :: "'t list"
  maxQueueSize :: nat
  tp_running :: bool
  tp_notEmpty :: "nat cond"
  tp_notFull :: "'t cond"
  tp_executed :: "'t list"

definition ThreadPool_new :: "string \<Rightarrow> 't thread_pool" where
  "ThreadPool_new nm =
     \<lparr>tp_name = nm, tp_threads = [], tp_workers = [], tp_queue = [], maxQueueSize = 0, tp_running = False, tp_notEmpty = Condition_new,
      tp_notFull = Condition_new, tp_executed = []\<rparr>"

definition ThreadPool_setMaxQueueSize :: "nat \<Rightarrow> 't thread_pool \<Rightarrow> 't thread_pool" where
  "ThreadPool_setMaxQueueSize n p = p\<lparr>maxQueueSize := n\<rparr>"

text \<open>\<open>create i\<close> is the id of the \<open>i\<close>-th thread when it can be created.\<close>

primrec start_threads :: "(nat \<Rightarrow> int option) \<Rightarrow> nat \<Rightarrow> 't thread_pool \<Rightarrow> 't thread_pool res" where
  "start_threads create 0 p = Inr p"
| "start_threads create (Suc n) p =
     rbind (start_threads create n p) (\<lambda>p1.
     rbind (Thread_start (create n) (snd (Thread_new 0 (tp_name p @ take 31 (show_nat (n + 1)))))) (\<lambda>t.
       Inr (p1\<lparr>tp_threads := tp_threads p1 @ [t], tp_workers := tp_workers p1 @ [WTest]\<rparr>)))"

definition ThreadPool_start :: "(nat \<Rightarrow> int option) \<Rightarrow> nat \<Rightarrow> 't thread_pool \<Rightarrow> 't thread_pool res" where
  "ThreadPool_start create numThreads p =
     c_assert (tp_threads p = []) (start_threads create numThreads (p\<lparr>tp_running := True\<rparr>))"

text \<open>The critical section of \<^verbatim>\<open>stop\<close>; joining waits for the workers to end.\<close>

definition ThreadPool_stop :: "'t thread_pool \<Rightarrow> 't thread_pool" where
  "ThreadPool_stop p = p\<lparr>tp_running := False, tp_notEmpty := Condition_notifyAll (tp_notEmpty p)\<rparr>"

definition ThreadPool_queueSize :: "'t thread_pool \<Rightarrow> nat" where
  "ThreadPool_queueSize p = length (tp_queue p)"

definition ThreadPool_isFull :: "'t thread_pool \<Rightarrow> bool" where
  "ThreadPool_isFull p \<longleftrightarrow> 0 < maxQueueSize p \<and> maxQueueSize p \<le> length (tp_queue p)"

text \<open>From the test of the loop in \<^verbatim>\<open>run\<close>: whether the task was queued, or the submitter sleeps.\<close>

definition ThreadPool_push :: "nat \<Rightarrow> 't \<Rightarrow> 't thread_pool \<Rightarrow> (bool \<times> 't thread_pool) res" where
  "ThreadPool_push i task p =
     (if ThreadPool_isFull p then Inr (False, p\<lparr>tp_notFull := Condition_wait task (tp_notFull p)\<rparr>)
      else c_assert (\<not> ThreadPool_isFull p)
        (let p1 = p\<lparr>tp_queue := tp_queue p @ [task]\<rparr> in Inr (True, p1\<lparr>tp_notEmpty := Condition_notify i (tp_notEmpty p1)\<rparr>)))"

definition ThreadPool_run :: "nat \<Rightarrow> 't \<Rightarrow> 't thread_pool \<Rightarrow> (bool \<times> 't thread_pool) res" where
  "ThreadPool_run i task p =
     (if tp_threads p = [] then Inr (True, p\<lparr>tp_executed := tp_executed p @ [task]\<rparr>) else ThreadPool_push i task p)"

text \<open>From the test of the loop in \<^verbatim>\<open>take\<close>: \<open>None\<close> when worker \<open>w\<close> sleeps, otherwise what \<^verbatim>\<open>take\<close> returns, which is an empty
  function when the pool was stopped and the queue is empty.\<close>

definition ThreadPool_take :: "nat \<Rightarrow> nat \<Rightarrow> 't thread_pool \<Rightarrow> 't option option \<times> 't thread_pool" where
  "ThreadPool_take i w p =
     (if tp_queue p = [] \<and> tp_running p
      then (None, p\<lparr>tp_notEmpty := Condition_wait w (tp_notEmpty p)\<rparr>)
      else if tp_queue p \<noteq> []
      then (let task = hd (tp_queue p);
                p1 = p\<lparr>tp_queue := tl (tp_queue p)\<rparr>;
                p2 = (if 0 < maxQueueSize p1 then p1\<lparr>tp_notFull := Condition_notify i (tp_notFull p1)\<rparr> else p1)
            in (Some (Some task), p2))
      else (Some None, p))"

text \<open>The worker goes on with what \<^verbatim>\<open>take\<close> returned; the list holds the task it was given.\<close>

definition worker_takes :: "nat \<Rightarrow> nat \<Rightarrow> 't thread_pool \<Rightarrow> 't list \<times> 't thread_pool" where
  "worker_takes i w p =
     (case ThreadPool_take i w p of (r, p') \<Rightarrow>
        (case r of Some (Some task) \<Rightarrow> [task] | _ \<Rightarrow> [],
         p'\<lparr>tp_workers := (tp_workers p')[w := case r of None \<Rightarrow> WAsleep | Some None \<Rightarrow> WTest | Some (Some task) \<Rightarrow> WRun task]\<rparr>))"

definition ThreadPool_runInThread :: "nat \<Rightarrow> nat \<Rightarrow> 't thread_pool \<Rightarrow> 't list \<times> 't thread_pool" where
  "ThreadPool_runInThread i w p =
     (if w < length (tp_workers p)
      then (case tp_workers p ! w of
              WTest \<Rightarrow> ([], p\<lparr>tp_workers := (tp_workers p)[w := if tp_running p then WTake else WExit]\<rparr>)
            | WTake \<Rightarrow> worker_takes i w p
            | WAsleep \<Rightarrow> ([], p)
            | WRun task \<Rightarrow> ([], p\<lparr>tp_executed := tp_executed p @ [task], tp_workers := (tp_workers p)[w := WTest]\<rparr>)
            | WExit \<Rightarrow> ([], p))
      else ([], p))"

datatype 't pool_step = Submit nat 't | ResumeSubmit nat nat | Worker nat nat | ResumeWorker nat nat | StopPool
  | SpuriousSubmit nat | SpuriousWorker nat

text \<open>A step, with the task whose \<^verbatim>\<open>run\<close> it completed and the task it gave to a thread for execution. Without threads a
  submitter executes its task itself.\<close>

primrec pool_result :: "'t pool_step \<Rightarrow> 't thread_pool \<Rightarrow> ('t list \<times> 't list \<times> 't thread_pool) res" where
  "pool_result (Submit i task) p =
     rbind (ThreadPool_run i task p) (\<lambda>(queued, p'). Inr (if queued then [task] else [], if tp_threads p = [] then [task] else [], p'))"
| "pool_result (ResumeSubmit k i) p =
     (case pop_woken k (tp_notFull p) of
        None \<Rightarrow> Inr ([], [], p)
      | Some (task, c) \<Rightarrow> rbind (ThreadPool_push i task (p\<lparr>tp_notFull := c\<rparr>)) (\<lambda>(queued, p'). Inr (if queued then [task] else [], [], p')))"
| "pool_result (Worker i w) p = Inr ([], ThreadPool_runInThread i w p)"
| "pool_result (ResumeWorker k i) p =
     (case pop_woken k (tp_notEmpty p) of
        None \<Rightarrow> Inr ([], [], p)
      | Some (w, c) \<Rightarrow> Inr ([], worker_takes i w (p\<lparr>tp_notEmpty := c\<rparr>)))"
| "pool_result StopPool p = Inr ([], [], ThreadPool_stop p)"
| "pool_result (SpuriousSubmit k) p = Inr ([], [], p\<lparr>tp_notFull := wake_nth k (tp_notFull p)\<rparr>)"
| "pool_result (SpuriousWorker k) p = Inr ([], [], p\<lparr>tp_notEmpty := wake_nth k (tp_notEmpty p)\<rparr>)"

definition pool_do :: "'t pool_step \<Rightarrow> 't thread_pool \<Rightarrow> 't thread_pool res" where
  "pool_do x p = rbind (pool_result x p) (\<lambda>(is, os, p'). Inr p')"

definition pool_ins :: "'t pool_step \<Rightarrow> 't thread_pool \<Rightarrow> 't list" where
  "pool_ins x p = (case pool_result x p of Inl _ \<Rightarrow> [] | Inr (is, os, p') \<Rightarrow> is)"

definition pool_outs :: "'t pool_step \<Rightarrow> 't thread_pool \<Rightarrow> 't list" where
  "pool_outs x p = (case pool_result x p of Inl _ \<Rightarrow> [] | Inr (is, os, p') \<Rightarrow> os)"

section \<open>No task and no wakeup is lost\<close>

definition pool_ok :: "'t thread_pool \<Rightarrow> bool" where
  "pool_ok p \<longleftrightarrow> covered (length (tp_queue p)) (tp_notEmpty p) \<and> (\<not> tp_running p \<longrightarrow> sleeping (tp_notEmpty p) = []) \<and>
     (if 0 < maxQueueSize p
      then length (tp_queue p) \<le> maxQueueSize p \<and> covered (maxQueueSize p - length (tp_queue p)) (tp_notFull p)
      else sleeping (tp_notFull p) = [] \<and> woken (tp_notFull p) = [])"

text \<open>The threads that wait on a condition, asleep or woken.\<close>

definition waiters :: "'w cond \<Rightarrow> 'w list" where
  "waiters c = sleeping c @ woken c"

lemma mset_remove_nth: "i < length xs \<Longrightarrow> mset xs = add_mset (xs ! i) (mset (remove_nth i xs))"
  by (metis id_take_nth_drop remove_nth_def mset.simps(2) mset_append union_mset_add_mset_right)

lemma waiters_wake: "mset (waiters (wake_nth k c)) = mset (waiters c)"
proof (cases "sleeping c = []")
  case False
  then show ?thesis
    using mset_remove_nth [of "k mod length (sleeping c)" "sleeping c"] by (simp add: wake_nth_def waiters_def Let_def)
qed (simp add: wake_nth_def)

lemma waiters_ops:
  "mset (waiters (Condition_notify k c)) = mset (waiters c)" "mset (waiters (Condition_notifyAll c)) = mset (waiters c)"
  "mset (waiters (Condition_wait w c)) = add_mset w (mset (waiters c))"
  "pop_woken k c = Some (w, c') \<Longrightarrow> mset (waiters c) = add_mset w (mset (waiters c'))"
  using waiters_wake [of k c] mset_remove_nth [of k "woken c"]
  by (auto simp: Condition_notify_def Condition_notifyAll_def Condition_wait_def waiters_def pop_woken_def split: if_splits)

text \<open>A pool without threads has nothing queued and nobody waiting.\<close>

definition pool_inline :: "'t thread_pool \<Rightarrow> bool" where
  "pool_inline p \<longleftrightarrow> (tp_threads p = [] \<longrightarrow> tp_queue p = [] \<and> tp_workers p = [] \<and> waiters (tp_notFull p) = [] \<and> waiters (tp_notEmpty p) = [])"

definition pool_good :: "'t thread_pool \<Rightarrow> 't list \<Rightarrow> 't list \<Rightarrow> 't thread_pool \<Rightarrow> bool" where
  "pool_good p is os p' \<longleftrightarrow> pool_ok p' \<and> maxQueueSize p' = maxQueueSize p \<and> tp_threads p' = tp_threads p \<and> os @ tp_queue p' = tp_queue p @ is"

lemma notify_empty: "sleeping c = [] \<Longrightarrow> sleeping (Condition_notify i c) = []"
  by (simp add: Condition_notify_def wake_nth_def)

lemma wake_empty [simp]: "sleeping c = [] \<Longrightarrow> wake_nth i c = c"
  by (simp add: wake_nth_def)

lemma push_good:
  assumes "covered (length (tp_queue p)) (tp_notEmpty p)" "\<not> tp_running p \<longrightarrow> sleeping (tp_notEmpty p) = []"
    "if 0 < maxQueueSize p
      then length (tp_queue p) \<le> maxQueueSize p \<and> covered (maxQueueSize p - length (tp_queue p) - 1) (tp_notFull p)
      else sleeping (tp_notFull p) = [] \<and> woken (tp_notFull p) = []"
  shows "\<exists>queued p'. ThreadPool_push i task p = Inr (queued, p') \<and> pool_good p (if queued then [task] else []) [] p'"
proof (cases "ThreadPool_isFull p")
  case True
  then show ?thesis
    using assms covered_sleep [of task "tp_notFull p"]
    by (auto simp: ThreadPool_push_def pool_good_def pool_ok_def ThreadPool_isFull_def)
next
  case False
  have "pool_ok (p\<lparr>tp_queue := tp_queue p @ [task], tp_notEmpty := Condition_notify i (tp_notEmpty p)\<rparr>)"
    using False assms covered_notify [OF assms(1), of i] notify_empty [of "tp_notEmpty p" i]
    by (cases "0 < maxQueueSize p") (auto simp: pool_ok_def ThreadPool_isFull_def)
  then show ?thesis
    using False by (auto simp: ThreadPool_push_def pool_good_def Let_def)
qed

lemma pool_ok_workers [simp]: "pool_ok (p\<lparr>tp_workers := ws\<rparr>) = pool_ok p" "pool_ok (p\<lparr>tp_executed := es\<rparr>) = pool_ok p"
  by (simp_all add: pool_ok_def)

lemma take_good:
  assumes "covered (length (tp_queue p) - 1) (tp_notEmpty p)" "\<not> tp_running p \<longrightarrow> sleeping (tp_notEmpty p) = []"
    "if 0 < maxQueueSize p
      then length (tp_queue p) \<le> maxQueueSize p \<and> covered (maxQueueSize p - length (tp_queue p)) (tp_notFull p)
      else sleeping (tp_notFull p) = [] \<and> woken (tp_notFull p) = []"
  shows "\<exists>os p'. worker_takes i w p = (os, p') \<and> pool_good p [] os p'"
proof (cases "tp_queue p")
  case Nil
  then show ?thesis
    using assms covered_sleep [of w "tp_notEmpty p"] by (auto simp: worker_takes_def ThreadPool_take_def pool_good_def pool_ok_def covered_def)
next
  case (Cons t ts)
  have "covered (maxQueueSize p - length ts) (Condition_notify i (tp_notFull p))" if "0 < maxQueueSize p"
  proof -
    have "maxQueueSize p - length ts = Suc (maxQueueSize p - length (tp_queue p))"
      using that assms(3) Cons by auto
    then show ?thesis
      using covered_notify [of "maxQueueSize p - length (tp_queue p)" "tp_notFull p" i] assms(3) that by simp
  qed
  then show ?thesis
    using Cons assms by (auto simp: worker_takes_def ThreadPool_take_def pool_good_def pool_ok_def Let_def)
qed

lemma pool_step_good:
  assumes "pool_ok p" "pool_inline p"
  shows "\<exists>is os p'. pool_result x p = Inr (is, os, p') \<and> pool_good p is os p'"
proof -
  have same: "pool_good p [] [] p"
    using assms(1) by (simp add: pool_good_def)
  note ok = assms(1) [unfolded pool_ok_def]
  show ?thesis
  proof (cases x)
    case (Submit i task)
    show ?thesis
    proof (cases "tp_threads p = []")
      case True
      then show ?thesis
        using Submit assms by (simp add: ThreadPool_run_def pool_good_def pool_inline_def)
    next
      case False
      obtain queued p' where "ThreadPool_push i task p = Inr (queued, p')" "pool_good p (if queued then [task] else []) [] p'"
        using ok covered_less [of "maxQueueSize p - length (tp_queue p)" "tp_notFull p" "maxQueueSize p - length (tp_queue p) - 1"]
          push_good [of p i task] by (auto split: if_splits)
      then show ?thesis
        using Submit False by (simp add: ThreadPool_run_def)
    qed
  next
    case (ResumeSubmit k i)
    show ?thesis
    proof (cases "pop_woken k (tp_notFull p)")
      case None
      then show ?thesis using ResumeSubmit same by simp
    next
      case (Some q)
      obtain task c where q: "q = (task, c)" by (cases q)
      have m: "0 < maxQueueSize p"
        using ok Some by (auto simp: pop_woken_def split: if_splits)
      have "covered (maxQueueSize p - length (tp_queue p) - 1) c"
        using ok m covered_pop [of "maxQueueSize p - length (tp_queue p)" "tp_notFull p" k task c] Some q by simp
      then obtain queued p' where "ThreadPool_push i task (p\<lparr>tp_notFull := c\<rparr>) = Inr (queued, p')"
          "pool_good (p\<lparr>tp_notFull := c\<rparr>) (if queued then [task] else []) [] p'"
        using ok m push_good [of "p\<lparr>tp_notFull := c\<rparr>" i task] by auto
      then show ?thesis
        using ResumeSubmit Some q by (simp add: pool_good_def)
    qed
  next
    case (Worker i w)
    obtain os p' where "worker_takes i w p = (os, p')" "pool_good p [] os p'"
      using ok covered_less [of "length (tp_queue p)" "tp_notEmpty p" "length (tp_queue p) - 1"] take_good [of p i w] by auto
    then have "\<exists>os p'. ThreadPool_runInThread i w p = (os, p') \<and> pool_good p [] os p'"
      using same by (auto simp: ThreadPool_runInThread_def pool_good_def split: worker.split)
    then show ?thesis
      using Worker by auto
  next
    case (ResumeWorker k i)
    show ?thesis
    proof (cases "pop_woken k (tp_notEmpty p)")
      case None
      then show ?thesis using ResumeWorker same by simp
    next
      case (Some q)
      obtain w c where q: "q = (w, c)" by (cases q)
      have c: "sleeping c = sleeping (tp_notEmpty p)" "covered (length (tp_queue p) - 1) c"
        using ok covered_pop [of "length (tp_queue p)" "tp_notEmpty p" k w c] Some q by (auto simp: pop_woken_def split: if_splits)
      have "\<exists>os p'. worker_takes i w (p\<lparr>tp_notEmpty := c\<rparr>) = (os, p') \<and> pool_good (p\<lparr>tp_notEmpty := c\<rparr>) [] os p'"
        using ok c by (intro take_good) auto
      then show ?thesis
        using ResumeWorker Some q by (auto simp: pool_good_def)
    qed
  next
    case StopPool
    then show ?thesis
      using ok by (auto simp: ThreadPool_stop_def pool_good_def pool_ok_def Condition_notifyAll_def covered_def)
  next
    case (SpuriousSubmit k)
    then show ?thesis
      using ok by (auto simp: pool_good_def pool_ok_def covered_wake)
  next
    case (SpuriousWorker k)
    then show ?thesis
      using ok by (auto simp: pool_good_def pool_ok_def covered_wake)
  qed
qed

section \<open>What the workers execute\<close>

primrec task_of :: "'t worker \<Rightarrow> 't list" where
  "task_of WTest = []" | "task_of WTake = []" | "task_of WAsleep = []" | "task_of (WRun t) = [t]" | "task_of WExit = []"

text \<open>The tasks that were executed, and those that workers are executing.\<close>

definition run_tasks :: "'t thread_pool \<Rightarrow> 't multiset" where
  "run_tasks p = mset (tp_executed p) + mset (concat (map task_of (tp_workers p)))"

text \<open>A worker that waits does nothing else, and waits once.\<close>

definition workers_ok :: "'t thread_pool \<Rightarrow> bool" where
  "workers_ok p \<longleftrightarrow> distinct (waiters (tp_notEmpty p)) \<and>
     (\<forall>w\<in>set (waiters (tp_notEmpty p)). w < length (tp_workers p) \<and> tp_workers p ! w = WAsleep)"

lemma workers_ok_same:
  assumes "workers_ok p" "tp_workers p' = tp_workers p" "mset (waiters (tp_notEmpty p')) = mset (waiters (tp_notEmpty p))"
  shows "workers_ok p'"
  using assms mset_eq_setD [OF assms(3)] mset_eq_imp_distinct_iff [OF assms(3)] by (simp add: workers_ok_def)

lemma concat_update:
  "w < length ws \<Longrightarrow> mset (concat (map task_of (ws[w := v]))) + mset (task_of (ws ! w)) = mset (concat (map task_of ws)) + mset (task_of v)"
proof (induction ws arbitrary: w)
  case (Cons x xs)
  then show ?case by (cases w) (auto simp: ac_simps)
qed simp

lemma run_tasks_worker:
  assumes "w < length (tp_workers p)" "tp_workers p' = (tp_workers p)[w := v]" "task_of (tp_workers p ! w) = []" "tp_executed p' = tp_executed p"
  shows "run_tasks p' = run_tasks p + mset (task_of v)"
  using concat_update [OF assms(1), of v] assms(2-4) by (simp add: run_tasks_def ac_simps)

text \<open>Worker \<open>w\<close>, which does not wait, goes through \<^verbatim>\<open>take\<close>.\<close>

lemma worker_takes_ok:
  assumes "workers_ok p" "w < length (tp_workers p)" "tp_workers p ! w \<in> {WTake, WAsleep}" "w \<notin> set (waiters (tp_notEmpty p))"
    "worker_takes i w p = (os, p')"
  shows "workers_ok p' \<and> run_tasks p' = run_tasks p + mset os"
proof -
  obtain r p1 where take: "ThreadPool_take i w p = (r, p1)"
    by (cases "ThreadPool_take i w p")
  let ?v = "case r of None \<Rightarrow> WAsleep | Some None \<Rightarrow> WTest | Some (Some task) \<Rightarrow> WRun task"
  have p1: "tp_workers p1 = tp_workers p" "tp_executed p1 = tp_executed p"
      "tp_notEmpty p1 = (if r = None then Condition_wait w (tp_notEmpty p) else tp_notEmpty p)"
    using take by (auto simp: ThreadPool_take_def Let_def split: if_splits)
  have p': "p' = p1\<lparr>tp_workers := (tp_workers p)[w := ?v]\<rparr>" "os = (case r of Some (Some task) \<Rightarrow> [task] | _ \<Rightarrow> [])"
    using assms(5) take p1(1) by (simp_all add: worker_takes_def)
  have "run_tasks p' = run_tasks p + mset (task_of ?v)"
    using assms(2,3) p1 p' by (intro run_tasks_worker) auto
  moreover have "task_of ?v = os"
    by (simp add: p'(2) split: option.split)
  moreover have "workers_ok p'"
  proof -
    have m: "mset (waiters (tp_notEmpty p')) = (if r = None then {#w#} else {#}) + mset (waiters (tp_notEmpty p))"
      using p' p1(3) by (simp add: waiters_ops)
    have "set (waiters (tp_notEmpty p')) = (if r = None then {w} else {}) \<union> set (waiters (tp_notEmpty p))"
      using p' p1(3) by (simp add: waiters_def Condition_wait_def)
    moreover have "distinct (waiters (tp_notEmpty p'))"
    proof -
      have "mset (waiters (tp_notEmpty p')) = mset ((if r = None then [w] else []) @ waiters (tp_notEmpty p))"
        using m by simp
      moreover have "distinct ((if r = None then [w] else []) @ waiters (tp_notEmpty p))"
        using assms(1,4) by (cases r) (simp_all add: workers_ok_def)
      ultimately show ?thesis
        using mset_eq_imp_distinct_iff by blast
    qed
    ultimately show ?thesis
      using assms(1,2,4) p' by (auto simp: workers_ok_def nth_list_update split: if_splits)
  qed
  ultimately show ?thesis
    by simp
qed

lemma push_fields:
  assumes "ThreadPool_push i task p = Inr (queued, p')"
  shows "tp_workers p' = tp_workers p" "tp_executed p' = tp_executed p" "mset (waiters (tp_notEmpty p')) = mset (waiters (tp_notEmpty p))"
  using assms by (auto simp: ThreadPool_push_def Let_def waiters_ops c_assert_eq_Inr split: if_splits)

lemma run_tasks_same: "tp_workers p' = tp_workers p \<Longrightarrow> tp_executed p' = tp_executed p \<Longrightarrow> run_tasks p' = run_tasks p"
  by (simp add: run_tasks_def)

lemma worker_update_ok:
  assumes "workers_ok p" "tp_workers p ! w \<noteq> WAsleep" "tp_workers p' = (tp_workers p)[w := v]" "tp_notEmpty p' = tp_notEmpty p"
  shows "workers_ok p'"
proof -
  have "(tp_workers p)[w := v] ! wa = WAsleep" if "wa \<in> set (waiters (tp_notEmpty p))" for wa
    using that assms(1,2) by (cases "wa = w") (auto simp: workers_ok_def)
  then show ?thesis
    using assms by (simp add: workers_ok_def)
qed

lemma worker_step_ok:
  assumes "workers_ok p" "ThreadPool_runInThread i w p = (os, p')"
  shows "workers_ok p' \<and> run_tasks p' = run_tasks p + mset os"
proof (cases "w < length (tp_workers p)")
  case True
  have idle: "workers_ok p1 \<and> run_tasks p1 = run_tasks p + mset (task_of v)"
    if "tp_workers p ! w \<noteq> WAsleep" "task_of (tp_workers p ! w) = []" "p1 = p\<lparr>tp_workers := (tp_workers p)[w := v]\<rparr>" for v p1
    using that worker_update_ok [OF assms(1), of w p1 v] run_tasks_worker [OF True, of p1 v] by simp
  show ?thesis
  proof (cases "tp_workers p ! w")
    case WTest
    then show ?thesis
      using assms(2) True idle [of p' "if tp_running p then WTake else WExit"] by (auto simp: ThreadPool_runInThread_def split: if_splits)
  next
    case WTake
    moreover have "w \<notin> set (waiters (tp_notEmpty p))"
      using WTake assms(1) by (auto simp: workers_ok_def)
    ultimately show ?thesis
      using assms True by (intro worker_takes_ok [where i = i and w = w]) (simp_all add: ThreadPool_runInThread_def)
  next
    case (WRun t)
    have "p' = p\<lparr>tp_executed := tp_executed p @ [t], tp_workers := (tp_workers p)[w := WTest]\<rparr>" "os = []"
      using assms(2) True WRun by (simp_all add: ThreadPool_runInThread_def)
    then show ?thesis
      using WRun worker_update_ok [OF assms(1), of w p' WTest] concat_update [OF True, of WTest] by (simp add: run_tasks_def)
  qed (use assms True in \<open>auto simp: ThreadPool_runInThread_def\<close>)
qed (use assms in \<open>simp add: ThreadPool_runInThread_def\<close>)

lemma pool_step_workers:
  assumes "workers_ok p" "pool_result x p = Inr (is, os, p')"
  shows "workers_ok p' \<and> run_tasks p' = run_tasks p + mset os"
proof (cases x)
  case (Submit i task)
  show ?thesis
  proof (cases "tp_threads p = []")
    case True
    then show ?thesis
      using Submit assms by (auto simp: ThreadPool_run_def workers_ok_def run_tasks_def)
  next
    case False
    then obtain queued where "ThreadPool_push i task p = Inr (queued, p')" "os = []"
      using Submit assms(2) by (auto simp: ThreadPool_run_def rbind_eq_Inr split: if_splits)
    then show ?thesis
      using push_fields [of i task p queued p'] workers_ok_same [OF assms(1)] run_tasks_same [of p' p] by simp
  qed
next
  case (ResumeSubmit k i)
  then consider "p' = p" "os = []" | task c queued where "ThreadPool_push i task (p\<lparr>tp_notFull := c\<rparr>) = Inr (queued, p')" "os = []"
    using assms(2) by (auto simp: rbind_eq_Inr split: option.splits if_splits)
  then show ?thesis
  proof cases
    case 2
    then show ?thesis
      using push_fields [OF 2(1)] workers_ok_same [OF assms(1)] run_tasks_same [of p' p] by simp
  qed (use assms(1) in simp)
next
  case (Worker i w)
  then show ?thesis
    using worker_step_ok [OF assms(1), of i w os p'] assms(2) by simp
next
  case (ResumeWorker k i)
  show ?thesis
  proof (cases "pop_woken k (tp_notEmpty p)")
    case (Some q)
    obtain w c where q: "q = (w, c)" by (cases q)
    let ?p = "p\<lparr>tp_notEmpty := c\<rparr>"
    have m: "mset (waiters (tp_notEmpty p)) = mset (w # waiters c)"
      using waiters_ops(4) Some q by simp
    then have w: "set (waiters (tp_notEmpty p)) = insert w (set (waiters c))" "distinct (w # waiters c)"
      using mset_eq_setD [OF m] mset_eq_imp_distinct_iff [OF m] assms(1) by (simp_all add: workers_ok_def)
    have "workers_ok ?p" "w < length (tp_workers ?p)" "tp_workers ?p ! w \<in> {WTake, WAsleep}" "w \<notin> set (waiters (tp_notEmpty ?p))"
      using w assms(1) by (auto simp: workers_ok_def)
    moreover have "worker_takes i w ?p = (os, p')"
      using ResumeWorker Some q assms(2) by simp
    ultimately have "workers_ok p' \<and> run_tasks p' = run_tasks ?p + mset os"
      by (rule worker_takes_ok)
    then show ?thesis
      by (simp add: run_tasks_def)
  qed (use ResumeWorker assms in simp)
next
  case StopPool
  then show ?thesis
    using assms workers_ok_same [OF assms(1), of p'] by (auto simp: ThreadPool_stop_def waiters_ops run_tasks_def)
next
  case (SpuriousWorker k)
  then show ?thesis
    using assms workers_ok_same [OF assms(1), of p'] by (auto simp: waiters_wake run_tasks_def)
qed (use assms in \<open>auto simp: workers_ok_def run_tasks_def\<close>)

lemma pool_step_inline:
  assumes "pool_inline p" "pool_result x p = Inr (is, os, p')"
  shows "pool_inline p'"
proof (cases "tp_threads p = []")
  case True
  then have none: "tp_queue p = []" "tp_workers p = []" "sleeping (tp_notFull p) = []" "woken (tp_notFull p) = []"
      "sleeping (tp_notEmpty p) = []" "woken (tp_notEmpty p) = []"
    using assms(1) by (simp_all add: pool_inline_def waiters_def)
  then show ?thesis
    using assms(2) True
    by (cases x) (auto simp: pool_inline_def waiters_def ThreadPool_run_def ThreadPool_runInThread_def pop_woken_def ThreadPool_stop_def
        Condition_notifyAll_def)
next
  case False
  have "tp_threads p' = tp_threads p"
    using assms(2) by (cases x) (auto simp: ThreadPool_run_def ThreadPool_push_def ThreadPool_runInThread_def worker_takes_def ThreadPool_take_def
        ThreadPool_stop_def Let_def rbind_eq_Inr c_assert_eq_Inr split: option.splits if_splits worker.splits)
  with False show ?thesis
    by (simp add: pool_inline_def)
qed

section \<open>First in, first out\<close>

definition pool_inv :: "nat \<Rightarrow> 't thread_pool \<Rightarrow> bool" where
  "pool_inv n p \<longleftrightarrow> pool_ok p \<and> pool_inline p \<and> maxQueueSize p = n"

interpretation pool: fifo_channel pool_do tp_queue pool_ins pool_outs "pool_inv n" for n
proof unfold_locales
  fix x :: "'t pool_step" and p :: "'t thread_pool"
  assume p: "pool_inv n p"
  then obtain "is" os p' where x: "pool_result x p = Inr (is, os, p')" "pool_good p is os p'"
    using pool_step_good [of p x] unfolding pool_inv_def by blast
  then show "\<exists>p'. pool_do x p = Inr p' \<and> pool_inv n p' \<and> pool_outs x p @ tp_queue p' = tp_queue p @ pool_ins x p"
    using p pool_step_inline [OF _ x(1)] by (auto simp: pool_inv_def pool_good_def pool_do_def pool_ins_def pool_outs_def)
qed

lemma run_workers:
  "workers_ok p \<Longrightarrow> chan_run pool_do pool_ins pool_outs xs p = Inr (p', is, os) \<Longrightarrow> run_tasks p' = run_tasks p + mset os"
proof (induction xs arbitrary: p "is" os)
  case (Cons x xs)
  obtain p1 is1 os1 where x: "pool_result x p = Inr (is1, os1, p1)"
    using Cons.prems(2) by (auto simp: rbind_eq_Inr pool_do_def [of x])
  obtain is2 os2 where run: "chan_run pool_do pool_ins pool_outs xs p1 = Inr (p', is2, os2)" "os = os1 @ os2"
    using Cons.prems(2) x by (auto simp: rbind_eq_Inr pool_do_def [of x] pool_outs_def [of x])
  have "workers_ok p1 \<and> run_tasks p1 = run_tasks p + mset os1"
    using pool_step_workers [OF Cons.prems(1) x] .
  then show ?case
    using Cons.IH [OF _ run(1)] run(2) by simp
qed simp

lemma started_ok:
  "start_threads create n p = Inr p' \<Longrightarrow>
   maxQueueSize p' = maxQueueSize p \<and> tp_queue p' = tp_queue p \<and> tp_notEmpty p' = tp_notEmpty p \<and> tp_notFull p' = tp_notFull p \<and>
   tp_running p' = tp_running p \<and> tp_executed p' = tp_executed p \<and> tp_workers p' = tp_workers p @ replicate n WTest \<and>
   length (tp_threads p') = length (tp_threads p) + n"
  by (induction n arbitrary: p') (auto simp: rbind_eq_Inr replicate_append_same)

text \<open>
  C31. In every interleaving of submitting threads, workers and \<^verbatim>\<open>stop\<close> on a started pool, the tasks that \<^verbatim>\<open>take\<close> gives to the
  workers are the tasks whose \<^verbatim>\<open>run\<close> queued them, in that order, each once, up to those still in the queue; the tasks
  executed and in execution are exactly the tasks given out; a bounded queue never exceeds its bound; no worker
  sleeps while a task waits that no woken worker is coming for, none sleeps once the pool was stopped, and no submitter
  sleeps while there is a free place that no woken submitter is coming for. A pool without threads executes a task at once.
\<close>

theorem ThreadPool_fifo:
  assumes "ThreadPool_start create k (ThreadPool_setMaxQueueSize n (ThreadPool_new nm)) = Inr p"
  shows "\<exists>p' is os. chan_run pool_do pool_ins pool_outs xs p = Inr (p', is, os) \<and> os @ tp_queue p' = is \<and>
    mset (tp_executed p') + mset (concat (map task_of (tp_workers p'))) = mset os \<and>
    (0 < n \<longrightarrow> length (tp_queue p') \<le> n \<and> (sleeping (tp_notFull p') \<noteq> [] \<longrightarrow> n - length (tp_queue p') \<le> length (woken (tp_notFull p')))) \<and>
    (sleeping (tp_notEmpty p') \<noteq> [] \<longrightarrow> tp_running p' \<and> length (tp_queue p') \<le> length (woken (tp_notEmpty p')))"
proof -
  have p: "maxQueueSize p = n" "tp_queue p = []" "tp_notEmpty p = Condition_new" "tp_notFull p = Condition_new" "tp_running p"
      "tp_executed p = []" "tp_workers p = replicate k WTest" "length (tp_threads p) = k"
    using assms started_ok [of create k _ p] by (auto simp: ThreadPool_start_def ThreadPool_setMaxQueueSize_def ThreadPool_new_def c_assert_eq_Inr)
  then have inv0: "pool_inv n p" "workers_ok p"
    by (auto simp: pool_inv_def pool_inline_def pool_ok_def covered_def Condition_new_def waiters_def workers_ok_def)
  from pool.run_ok [OF this(1), of xs] obtain p' is' os where run: "chan_run pool_do pool_ins pool_outs xs p = Inr (p', is', os)" "pool_ok p'"
      "maxQueueSize p' = n" "os @ tp_queue p' = is'"
    using p(2) by (auto simp: pool_inv_def)
  have none: "concat (map task_of (replicate k WTest)) = []"
    by (induction k) auto
  have "run_tasks p' = mset os"
    using run_workers [OF inv0(2) run(1)] p(6,7) none by (simp add: run_tasks_def)
  then show ?thesis
    using run by (auto simp: pool_ok_def covered_def run_tasks_def)
qed

definition small_pool :: "int thread_pool" where
  "small_pool = \<lparr>tp_name = ''p'', tp_threads = [\<lparr>th_started = True, th_joined = False, th_tid = 11, th_name = ''p1''\<rparr>], tp_workers = [WTest],
     tp_queue = [], maxQueueSize = 1, tp_running = True, tp_notEmpty = Condition_new, tp_notFull = Condition_new, tp_executed = []\<rparr>"

lemma small_pool_started:
  "ThreadPool_start (\<lambda>_. Some 11) 1 (ThreadPool_setMaxQueueSize 1 (ThreadPool_new ''p'')) = Inr small_pool"
proof -
  have "show_nat 1 = ''1''"
    by (simp add: show_nat.simps digit_char_def char_of_def bit_Suc_0_iff)
  then show ?thesis
    by (simp add: ThreadPool_start_def ThreadPool_setMaxQueueSize_def ThreadPool_new_def Thread_start_def Thread_new_def Thread_setDefaultName_def
        small_pool_def Let_def)
qed

theorem ThreadPool_fifo_witness:
  "\<exists>p' is os. chan_run pool_do pool_ins pool_outs [Submit 0 (1 :: int), Worker 0 0, Worker 0 0, Submit 0 2] small_pool = Inr (p', is, os) \<and>
     os @ tp_queue p' = is \<and> is = [1, 2] \<and> tp_queue p' = [2] \<and> mset (tp_executed p') + mset (concat (map task_of (tp_workers p'))) = mset os"
proof -
  let ?xs = "[Submit 0 (1 :: int), Worker 0 0, Worker 0 0, Submit 0 2]"
  obtain p' "is" os where run: "chan_run pool_do pool_ins pool_outs ?xs small_pool = Inr (p', is, os)" "os @ tp_queue p' = is"
      "mset (tp_executed p') + mset (concat (map task_of (tp_workers p'))) = mset os"
    using ThreadPool_fifo [OF small_pool_started, of ?xs] by blast
  moreover have "is = [1, 2] \<and> tp_queue p' = [2]"
    using run(1) by (auto simp: small_pool_def pool_do_def pool_ins_def pool_outs_def ThreadPool_run_def ThreadPool_push_def ThreadPool_isFull_def
        ThreadPool_runInThread_def worker_takes_def ThreadPool_take_def Condition_new_def Condition_notify_def Let_def c_assert_def)
  ultimately show ?thesis
    by blast
qed

section \<open>Stopping with a submitter asleep\<close>

primrec pool_run :: "'t pool_step list \<Rightarrow> 't thread_pool \<Rightarrow> 't thread_pool res" where
  "pool_run [] p = Inr p"
| "pool_run (x # xs) p = rbind (pool_do x p) (pool_run xs)"

text \<open>No worker is inside \<^verbatim>\<open>take\<close>: each executes a task, is about to test \<^verbatim>\<open>running_\<close>, or has ended.\<close>

definition none_taking :: "'t thread_pool \<Rightarrow> bool" where
  "none_taking p \<longleftrightarrow> list_all (\<lambda>w. w \<noteq> WTake \<and> w \<noteq> WAsleep) (tp_workers p) \<and> waiters (tp_notEmpty p) = []"

definition stranding :: "'t thread_pool \<Rightarrow> bool" where
  "stranding p \<longleftrightarrow> tp_threads p \<noteq> [] \<and> \<not> tp_running p \<and> ThreadPool_isFull p \<and> none_taking p"

lemma stranding_worker:
  assumes "stranding p" "ThreadPool_runInThread i w p = (os, p')"
  shows "stranding p' \<and> tp_notFull p' = tp_notFull p \<and> tp_queue p' = tp_queue p"
proof (cases "w < length (tp_workers p)")
  case True
  then have "tp_workers p ! w \<noteq> WTake" "tp_workers p ! w \<noteq> WAsleep"
    using assms(1) by (simp_all add: stranding_def none_taking_def list_all_length)
  then show ?thesis
    using assms True by (cases "tp_workers p ! w")
      (auto simp: ThreadPool_runInThread_def stranding_def none_taking_def ThreadPool_isFull_def list_all_length nth_list_update
        split: if_splits)
qed (use assms in \<open>simp add: ThreadPool_runInThread_def\<close>)

lemma stranding_step:
  assumes "stranding p"
  shows "\<exists>p'. pool_do x p = Inr p' \<and> stranding p' \<and> set (waiters (tp_notFull p)) \<subseteq> set (waiters (tp_notFull p')) \<and> tp_queue p' = tp_queue p"
proof (cases x)
  case (Submit i task)
  then show ?thesis
    using assms by (auto simp: pool_do_def ThreadPool_run_def ThreadPool_push_def stranding_def none_taking_def ThreadPool_isFull_def waiters_def
        Condition_wait_def)
next
  case (ResumeSubmit k i)
  show ?thesis
  proof (cases "pop_woken k (tp_notFull p)")
    case (Some q)
    obtain task c where q: "q = (task, c)" by (cases q)
    have "set (waiters (tp_notFull p)) = set (waiters (Condition_wait task c))"
      using waiters_ops(3) [of task c] waiters_ops(4) [of k "tp_notFull p" task c] Some q by (metis set_mset_mset)
    then show ?thesis
      using ResumeSubmit Some q assms
      by (auto simp: pool_do_def ThreadPool_push_def stranding_def none_taking_def ThreadPool_isFull_def)
  qed (use ResumeSubmit assms in \<open>simp add: pool_do_def\<close>)
next
  case (Worker i w)
  obtain os p' where "ThreadPool_runInThread i w p = (os, p')"
    by (cases "ThreadPool_runInThread i w p")
  then show ?thesis
    using Worker stranding_worker [OF assms, of i w os p'] by (simp add: pool_do_def)
next
  case (ResumeWorker k i)
  then show ?thesis
    using assms by (simp add: pool_do_def stranding_def none_taking_def pop_woken_def waiters_def)
next
  case StopPool
  then show ?thesis
    using assms by (simp add: pool_do_def ThreadPool_stop_def stranding_def none_taking_def ThreadPool_isFull_def waiters_def Condition_notifyAll_def)
next
  case (SpuriousSubmit k)
  have "set (waiters (wake_nth k (tp_notFull p))) = set (waiters (tp_notFull p))"
    using waiters_wake by (metis set_mset_mset)
  then show ?thesis
    using SpuriousSubmit assms by (simp add: pool_do_def stranding_def none_taking_def ThreadPool_isFull_def)
next
  case (SpuriousWorker k)
  then show ?thesis
    using assms by (simp add: pool_do_def stranding_def none_taking_def ThreadPool_isFull_def waiters_def)
qed

lemma stranding_run:
  "stranding p \<Longrightarrow> \<exists>p'. pool_run xs p = Inr p' \<and> set (waiters (tp_notFull p)) \<subseteq> set (waiters (tp_notFull p')) \<and> tp_queue p' = tp_queue p"
proof (induction xs arbitrary: p)
  case (Cons x xs)
  obtain p1 where p1: "pool_do x p = Inr p1" "stranding p1" "set (waiters (tp_notFull p)) \<subseteq> set (waiters (tp_notFull p1))" "tp_queue p1 = tp_queue p"
    using stranding_step [OF Cons.prems] by blast
  show ?case
    using Cons.IH [OF p1(2)] p1 by auto
qed simp

text \<open>
  C39. \<^verbatim>\<open>stop\<close> can leave a submitter blocked for ever. When it is called while the queue is full and every worker
  is executing a task or at the head of its loop, none of them inside \<^verbatim>\<open>take\<close>, then whatever happens afterwards a task whose
  submitter waits for a place stays waiting and its \<^verbatim>\<open>run\<close> does not return, and no queued task is ever taken: the workers
  leave their loop, \<^verbatim>\<open>stop\<close> wakes only those who wait for tasks, and \<^verbatim>\<open>run\<close> does not look at \<^verbatim>\<open>running_\<close>.
\<close>

theorem ThreadPool_stop_strands_submitter:
  assumes "tp_threads p \<noteq> []" "ThreadPool_isFull p" "none_taking p" "task \<in> set (waiters (tp_notFull p))"
  shows "\<exists>p'. pool_run (StopPool # xs) p = Inr p' \<and> task \<in> set (waiters (tp_notFull p')) \<and> tp_queue p' = tp_queue p"
proof -
  have "stranding (ThreadPool_stop p)" "tp_queue (ThreadPool_stop p) = tp_queue p" "tp_notFull (ThreadPool_stop p) = tp_notFull p"
    using assms by (simp_all add: stranding_def ThreadPool_stop_def none_taking_def ThreadPool_isFull_def waiters_def Condition_notifyAll_def)
  then show ?thesis
    using stranding_run [of "ThreadPool_stop p" xs] assms(4) by (auto simp: pool_do_def)
qed

theorem ThreadPool_stop_strands_submitter_witness:
  "\<exists>p p'. pool_run [Submit 0 1, Worker 0 0, Worker 0 0, Submit 0 2, Submit 0 3] small_pool = Inr p \<and>
     pool_run (StopPool # [Worker 0 0, Worker 0 0, SpuriousSubmit 0, ResumeSubmit 0 0]) p = Inr p' \<and> 3 \<in> set (waiters (tp_notFull p'))"
proof -
  obtain p where p: "pool_run [Submit 0 1, Worker 0 0, Worker 0 0, Submit 0 2, Submit 0 3] small_pool = Inr p"
      "tp_threads p \<noteq> []" "ThreadPool_isFull p" "none_taking p" "3 \<in> set (waiters (tp_notFull p))"
    by (simp add: small_pool_def pool_do_def ThreadPool_run_def ThreadPool_push_def ThreadPool_isFull_def ThreadPool_runInThread_def worker_takes_def
        ThreadPool_take_def Condition_new_def Condition_notify_def Condition_wait_def none_taking_def waiters_def Let_def c_assert_def)
  show ?thesis
    using ThreadPool_stop_strands_submitter [OF p(2-5), of "[Worker 0 0, Worker 0 0, SpuriousSubmit 0, ResumeSubmit 0 0]"] p(1)
    by (auto simp del: pool_run.simps)
qed

end
