(* ===== verification/Spec2Isabelle.thy ===== *)
theory Spec2Isabelle
  imports My_Buffer Loop_Wakeup Net_Pool Server_Laws Http_Laws Connector_Laws Rpc_Laws Memcache_Loop App_Chat Net_Inspect Net_Zlib
    Base_Logging Base_AsyncLogging Base_ThreadPool
begin

text \<open>
  \<^bold>\<open>A verification library of muduo and of its rewrite myMuduo\<close>

  The repository holds muduo (\<^verbatim>\<open>src/muduo-master\<close>), a C++ library for event-driven network servers, and myMuduo
  (\<^verbatim>\<open>src/myMuduo\<close>), a partial rewrite of it. A program has event loops, each in one thread. A loop waits in a poller for
  events on file descriptors, hands each event to the channel of its descriptor, runs the callbacks, and then runs the
  functors that other threads queued for it. Timers are one more descriptor. An acceptor produces connections, a server
  names and keeps them and deals them out to the loops of a pool, a connection moves bytes between its two buffers and its
  socket; on these stand the HTTP server, the protobuf codec and the remote calls. The base library below has the
  logging pipeline, dates and time zones, blocking queues and the thread pool.

  \<^bold>\<open>Conventions\<close> (\<open>Muduo_Prelude\<close>, \<open>Text_Format\<close>). An operation \<^verbatim>\<open>C::m\<close> of muduo is the definition \<open>C_m\<close>, of the rewrite
  \<open>MyC_m\<close>. An object is a record, an object that is reached through pointers is a number into a store. A result is a sum:
  \<open>Inl\<close> holds the \<open>fault\<close> (a failed assertion, an access outside of memory, a null or dangling pointer, an uncaught exception,
  an exit), so that every theorem that says \<open>Inr\<close> says that none of these happens. \<^verbatim>\<open>size_t\<close> arithmetic is on naturals with
  its wrap-around written out (\<open>size_add\<close>, \<open>size_sub\<close>); flags, identifiers and wire integers are words of their width; bytes
  are characters. A system call or a function of another library is an argument, and what the code relies on of it is
  a named predicate (\<open>write_contract\<close>, \<open>peer_alive\<close>, \<open>readv_contract\<close>, \<open>codec_carries\<close>, ...) with a concrete function in the
  witness. A loop that may run forever is a \<open>partial_function\<close> into \<open>option\<close>; the theorems about it show that it
  returns. Threads are interleaved: a step is a critical section or a system call, and a theorem quantifies over all
  sequences of steps.

  \<^bold>\<open>Theories, in the order of the code\<close>

  \<^descr> \<open>Byte_Order\<close>: \<^verbatim>\<open>Endian.h\<close>. \<open>Byte_Queue\<close>: the interface \<open>byte_queue\<close> of both buffer classes.
  \<open>Net_Buffer\<close>: \<^verbatim>\<open>Buffer.h\<close>, \<^verbatim>\<open>Buffer.cc\<close>, every operation with its assertions and copies; the buffer refines a queue of
  bytes, \<^verbatim>\<open>readFd\<close> appends what was read, integers survive the round trip. \<open>My_Buffer\<close>: the buffer of the rewrite.

  \<^descr> \<open>Net_Channel\<close>: \<^verbatim>\<open>Channel\<close> of both libraries: interest, registration and the order of callbacks.
  \<open>Net_Poller\<close>, \<open>Poller_Laws\<close>: \<^verbatim>\<open>EPollPoller\<close>, \<^verbatim>\<open>PollPoller\<close> and the \<^verbatim>\<open>EPollPoller\<close> of the rewrite behind the interface
  \<open>multiplexer\<close>: every legal sequence of channel operations succeeds and the kernel watches what the channels want.

  \<^descr> \<open>Base_Time\<close>, \<open>Base_TimeZone\<close>: \<^verbatim>\<open>Timestamp\<close>, \<^verbatim>\<open>Date\<close>, \<^verbatim>\<open>TimeZone\<close> with the reader of zone files; round trips of UTC and
  of local time. \<open>Net_Timer\<close>, \<open>Timer_Laws\<close>: \<^verbatim>\<open>Timer\<close>, \<^verbatim>\<open>TimerQueue\<close>: the two sets stay in step, expired timers run, repeating
  ones are queued again, a cancelled or deleted one is never touched.

  \<^descr> \<open>Net_EventLoop\<close>, \<open>Loop_Wakeup\<close>: \<^verbatim>\<open>EventLoop\<close> of both libraries: passes end, \<^verbatim>\<open>loop\<close> runs functors pass by pass
  and returns after \<^verbatim>\<open>quit\<close>, and no wakeup is lost in any interleaving (relation \<open>loop_step\<close>), but for functors the loop's own thread queued
  outside \<^verbatim>\<open>loop\<close>. \<open>Net_Pool\<close>: \<^verbatim>\<open>EventLoopThread\<close>, \<^verbatim>\<open>EventLoopThreadPool\<close> (interface \<open>round_robin\<close>).

  \<^descr> \<open>Net_TcpConnection\<close>, \<open>Connection_Laws\<close>: \<^verbatim>\<open>TcpConnection\<close>: the order of the stream, half-close, draining,
  notifications and life cycle (interfaces \<open>stream_sender\<close>, \<open>live_socket\<close>, relation \<open>conn_step\<close>; in \<open>world_step\<close>
  calls of other threads stand between their test and their store of the state). \<open>My_TcpConnection\<close>: the
  rewrite, equal to the original up to the first writable event, and where it differs.

  \<^descr> \<open>Net_Sockets\<close>: \<^verbatim>\<open>SocketsOps\<close> and \<^verbatim>\<open>Acceptor\<close> over a table of descriptors (interface \<open>descriptor_table\<close>).
  \<open>Net_TcpServer\<close>, \<open>Server_Laws\<close>: \<^verbatim>\<open>TcpServer\<close> of both libraries over any interleaving of loops, and settling under
  every fair schedule.
  \<open>Net_Connector\<close>, \<open>Connector_Laws\<close>: \<^verbatim>\<open>Connector\<close> and \<^verbatim>\<open>TcpClient\<close>: no socket is leaked or closed twice, also when
  \<^verbatim>\<open>stop\<close> comes between an event and the functors it queued.

  \<^descr> \<open>Net_Http\<close>, \<open>Http_Laws\<close>: \<^verbatim>\<open>http/\<close>: the resumable parser equals parsing at once, parses what is printed, and the
  server answers requests that arrive in any pieces. \<open>Frame_Decoder\<close>: the interfaces of decoders on a byte stream. \<open>Net_Codec\<close>, \<open>Codec_Laws\<close>: the protobuf
  codec. \<open>Net_Rpc\<close>, \<open>Rpc_Laws\<close>: \<^verbatim>\<open>protorpc/\<close>: calls and answers end to end, the answers in any order.

  \<^descr> \<open>Net_Zlib\<close>: \<^verbatim>\<open>ZlibStream.h\<close>: what is written inflates to the same bytes. \<open>Base_ProcessInfo\<close>, \<open>Net_Inspect\<close>:
  \<^verbatim>\<open>ProcessInfo\<close> over files given as bytes, \<^verbatim>\<open>inspect/\<close>: the table of commands and the answer to every request.

  \<^descr> Two servers built on the library, from \<^verbatim>\<open>examples/\<close>. \<open>App_Memcache\<close>, \<open>Memcache_Laws\<close>, \<open>Memcache_Loop\<close>:
  \<^verbatim>\<open>memcached/server/\<close>: the sharded table implements a cache, a session refines an abstract semantics of commands.
  \<open>App_Chat\<close>: \<^verbatim>\<open>asio/chat/\<close>: all clients see the same lines in the same order.

  \<^descr> \<open>Base_LogStream\<close>, \<open>Base_Logging\<close>, \<open>Base_LogFile\<close>, \<open>Base_AsyncLogging\<close>: a log statement within its buffer, the lines a
  thread logs, lines across rolled files (interface \<open>log_sink\<close>), and the asynchronous back end in every interleaving.
  \<open>Base_Monitor\<close>, \<open>Base_ThreadPool\<close>: conditions, latch, queues and the pool (interface \<open>fifo_channel\<close>).

  \<^bold>\<open>Bounds.\<close> \<open>vec_max\<close> is the greatest size of a \<^verbatim>\<open>std::vector\<close>; hypotheses that add capacities and lengths say that no
  buffer reaches it. No definition uses fuel.

  \<^bold>\<open>Not modelled.\<close> Wrappers that only call the system or a library and decide nothing: socket options, the thread-local
  identifiers, the console logger of the rewrite, the profiler of \<^verbatim>\<open>PerformanceInspector\<close>. Floating-point formatting
  (\<^verbatim>\<open>formatSI\<close>, \<^verbatim>\<open>formatIEC\<close>, the processor times of the inspector) needs the rounding of doubles. The other example
  programs.
\<close>

end
